(* ===== verification/Sparcs_Prelude.thy ===== *)
theory Sparcs_Prelude
  imports Main "HOL-Library.Word" "HOL-Library.Monad_Syntax"
begin

unbundle bit_operations_syntax

text \<open>
  Shared vocabulary of the development: machine integers, byte buffers with checked reads
  and writes, big-endian and little-endian composition, and the generic lemmas on lists,
  words and the option monad that the component theories share.

  A C++ access outside its array is undefined behaviour. Where the code makes no bounds
  check of its own, the model makes the access through \<open>byte_at\<close> or \<open>put_bytes\<close>, whose
  result \<open>None\<close> stands for that undefined behaviour.
\<close>

type_synonym u8 = "8 word"
type_synonym u16 = "16 word"
type_synonym u32 = "32 word"
type_synonym u64 = "64 word"
type_synonym bytes = "u8 list"

named_theorems buffer_simps \<open>evaluation rules of the byte-buffer operations\<close>
named_theorems step_defs \<open>definitions a proof unfolds to walk through one step of a component\<close>

subsection \<open>Checked memory access\<close>

definition byte_at :: "bytes \<Rightarrow> nat \<Rightarrow> u8 option" where
  "byte_at buf i = (if i < length buf then Some (buf ! i) else None)"

definition put_bytes :: "bytes \<Rightarrow> nat \<Rightarrow> bytes \<Rightarrow> bytes option" where
  "put_bytes buf i bs =
     (if i + length bs \<le> length buf
      then Some (take i buf @ bs @ drop (i + length bs) buf) else None)"

definition get_bytes :: "bytes \<Rightarrow> nat \<Rightarrow> nat \<Rightarrow> bytes option" where
  "get_bytes buf i n =
     (if i + n \<le> length buf then Some (take n (drop i buf)) else None)"

lemma byte_at_eq_Some_iff [simp]: "byte_at buf i = Some b \<longleftrightarrow> i < length buf \<and> b = buf ! i"
  by (auto simp: byte_at_def)

lemma byte_at_eq_None_iff [simp]: "byte_at buf i = None \<longleftrightarrow> length buf \<le> i"
  by (auto simp: byte_at_def)

lemma byte_at_inside [buffer_simps]: "i < length buf \<Longrightarrow> byte_at buf i = Some (buf ! i)"
  by simp

lemma put_bytes_length: "put_bytes buf i bs = Some buf' \<Longrightarrow> length buf' = length buf"
  by (auto simp: put_bytes_def split: if_splits)

lemma put_bytes_inside [buffer_simps]:
  "i + length bs \<le> length buf \<Longrightarrow>
   put_bytes buf i bs = Some (take i buf @ bs @ drop (i + length bs) buf)"
  by (simp add: put_bytes_def)

lemma put_bytes_eq_None_iff: "put_bytes buf i bs = None \<longleftrightarrow> length buf < i + length bs"
  by (auto simp: put_bytes_def)

lemma get_bytes_inside [buffer_simps]:
  "i + n \<le> length buf \<Longrightarrow> get_bytes buf i n = Some (take n (drop i buf))"
  by (simp add: get_bytes_def)

lemma get_bytes_eq_Some_iff:
  "get_bytes buf i n = Some bs \<longleftrightarrow> i + n \<le> length buf \<and> bs = take n (drop i buf)"
  by (auto simp: get_bytes_def)

lemma get_bytes_length: "get_bytes buf i n = Some bs \<Longrightarrow> length bs = n"
  by (auto simp: get_bytes_eq_Some_iff)

lemma get_put_same:
  "put_bytes buf i bs = Some buf' \<Longrightarrow> get_bytes buf' i (length bs) = Some bs"
  by (auto simp: put_bytes_def get_bytes_def split: if_splits)

lemma put_bytes_nth:
  assumes "put_bytes buf i bs = Some buf'" and "k < length buf"
  shows "buf' ! k = (if i \<le> k \<and> k < i + length bs then bs ! (k - i) else buf ! k)"
proof -
  from assms(1) have "i + length bs \<le> length buf"
    and "buf' = take i buf @ bs @ drop (i + length bs) buf"
    by (auto simp: put_bytes_def split: if_splits)
  with assms(2) show ?thesis by (auto simp: nth_append)
qed

lemma get_put_other:
  assumes "put_bytes buf i bs = Some buf'"
    and "k + n \<le> i \<or> i + length bs \<le> k"
  shows "get_bytes buf' k n = get_bytes buf k n"
proof (cases "k + n \<le> length buf")
  case True
  have len: "length buf' = length buf" using assms(1) by (rule put_bytes_length)
  have "take n (drop k buf') = take n (drop k buf)"
  proof (rule nth_equalityI)
    show "length (take n (drop k buf')) = length (take n (drop k buf))"
      by (simp add: len)
  next
    fix m assume "m < length (take n (drop k buf'))"
    then have m: "m < n" "k + m < length buf" using True len by auto
    show "take n (drop k buf') ! m = take n (drop k buf) ! m"
      using m assms(2) True len put_bytes_nth [OF assms(1), of "k + m"] by auto
  qed
  with True len show ?thesis by (simp add: get_bytes_def)
next
  case False
  with put_bytes_length [OF assms(1)] show ?thesis by (simp add: get_bytes_def)
qed

subsection \<open>Computations that throw or go wrong\<close>

text \<open>A value, a C++ exception, or undefined behaviour.\<close>

datatype 'a run = Ok 'a | Exc | Ub

primrec run_bind :: "'a run \<Rightarrow> ('a \<Rightarrow> 'b run) \<Rightarrow> 'b run" where
  "run_bind (Ok x) f = f x"
| "run_bind Exc f = Exc"
| "run_bind Ub f = Ub"

definition checked :: "'a option \<Rightarrow> 'a run" where
  "checked m = (case m of None \<Rightarrow> Ub | Some x \<Rightarrow> Ok x)"

lemma run_bind_Ok: "run_bind m f = Ok y \<longleftrightarrow> (\<exists>x. m = Ok x \<and> f x = Ok y)"
  by (cases m) auto

lemma checked_simps [simp]: "checked (Some x) = Ok x" "checked None = Ub"
  by (simp_all add: checked_def)

subsection \<open>Big-endian fields of a frame, little-endian words of the host\<close>

text \<open>
  The C37.118 wire format is big-endian; the gateway reads it byte by byte and composes the
  value with shifts and additions in 32-bit arithmetic. The host is little-endian: a
  32-bit store or load through a \<open>uint32_t *\<close> moves the least significant byte first.
\<close>

definition be16 :: "u8 \<Rightarrow> u8 \<Rightarrow> u32" where
  "be16 a b = push_bit 8 (ucast a) + ucast b"

definition be24 :: "u8 \<Rightarrow> u8 \<Rightarrow> u8 \<Rightarrow> u32" where
  "be24 a b c = push_bit 16 (ucast a) + push_bit 8 (ucast b) + ucast c"

definition be32 :: "u8 \<Rightarrow> u8 \<Rightarrow> u8 \<Rightarrow> u8 \<Rightarrow> u32" where
  "be32 a b c d =
     push_bit 24 (ucast a) + push_bit 16 (ucast b) + push_bit 8 (ucast c) + ucast d"

definition le16_bytes :: "u16 \<Rightarrow> bytes" where
  "le16_bytes w = [ucast w, ucast (drop_bit 8 w)]"

definition le32_bytes :: "u32 \<Rightarrow> bytes" where
  "le32_bytes w =
     [ucast w, ucast (drop_bit 8 w), ucast (drop_bit 16 w), ucast (drop_bit 24 w)]"

fun le32_of :: "bytes \<Rightarrow> u32" where
  "le32_of [a, b, c, d] = be32 d c b a"
| "le32_of _ = 0"

definition bswap_32 :: "u32 \<Rightarrow> u32" where
  "bswap_32 w =
     (drop_bit 24 (w AND 0xff000000)) OR (drop_bit 8 (w AND 0x00ff0000)) OR
     (push_bit 8 (w AND 0x0000ff00)) OR (push_bit 24 (w AND 0x000000ff))"

lemma length_le_bytes [simp]: "length (le16_bytes v) = 2" "length (le32_bytes w) = 4"
  by (simp_all add: le16_bytes_def le32_bytes_def)

lemma unat_ucast_u8 [simp]: "unat (ucast (a :: u8) :: u32) = unat a"
  by (simp add: unsigned_ucast_eq take_bit_eq_mod order_less_trans [OF unsigned_less])

lemma u8_less_256: "unat (a :: u8) < 256"
  using unsigned_less [of a] by simp

lemma unat_push_bit_u8:
  assumes "n \<le> 24"
  shows "unat (push_bit n (ucast (a :: u8) :: u32)) = unat a * 2 ^ n"
proof -
  have "unat a * 2 ^ n < 256 * 2 ^ n"
    using u8_less_256 [of a] by simp
  also have "(256 :: nat) * 2 ^ n \<le> 256 * 2 ^ 24"
    using assms power_increasing [of n 24 "2 :: nat"] by simp
  finally have "unat a * 2 ^ n < 2 ^ 32" by simp
  then show ?thesis
    by (simp add: unsigned_push_bit_eq take_bit_eq_mod push_bit_eq_mult [where ?'a = nat])
qed

lemma unat_be16: "unat (be16 a b) = 256 * unat a + unat b"
  using u8_less_256 [of a] u8_less_256 [of b]
  by (simp add: be16_def unat_word_ariths unat_push_bit_u8)

lemma unat_be24: "unat (be24 a b c) = 65536 * unat a + 256 * unat b + unat c"
  using u8_less_256 [of a] u8_less_256 [of b] u8_less_256 [of c]
  by (simp add: be24_def unat_word_ariths unat_push_bit_u8)

lemma unat_be32:
  "unat (be32 a b c d) = 16777216 * unat a + 65536 * unat b + 256 * unat c + unat d"
  using u8_less_256 [of a] u8_less_256 [of b] u8_less_256 [of c] u8_less_256 [of d]
  by (simp add: be32_def unat_word_ariths unat_push_bit_u8)

lemma be16_bound: "unat (be16 a b) < 65536"
  using u8_less_256 [of a] u8_less_256 [of b] by (simp add: unat_be16)

text \<open>A byte swap of what a little-endian load returns is the big-endian reading.\<close>

lemma be32_eq_or:
  "be32 a b c d =
     push_bit 24 (ucast a) OR push_bit 16 (ucast b) OR push_bit 8 (ucast c) OR ucast d"
proof -
  have 1: "push_bit 24 (ucast a :: u32) + push_bit 16 (ucast b) =
           push_bit 24 (ucast a) OR push_bit 16 (ucast b)"
    by (rule disjunctive_add) (auto simp: bit_simps dest: bit_imp_le_length)
  have 2: "(push_bit 24 (ucast a :: u32) OR push_bit 16 (ucast b)) + push_bit 8 (ucast c) =
           (push_bit 24 (ucast a) OR push_bit 16 (ucast b)) OR push_bit 8 (ucast c)"
    by (rule disjunctive_add) (auto simp: bit_simps dest: bit_imp_le_length)
  have 3: "(push_bit 24 (ucast a :: u32) OR push_bit 16 (ucast b) OR push_bit 8 (ucast c))
             + ucast d =
           (push_bit 24 (ucast a) OR push_bit 16 (ucast b) OR push_bit 8 (ucast c)) OR ucast d"
    by (rule disjunctive_add) (auto simp: bit_simps dest: bit_imp_le_length)
  show ?thesis
    using 1 2 3 by (simp add: be32_def or.assoc)
qed

lemma bswap_masks:
  "(0xff000000 :: u32) = push_bit 24 (mask 8)" "(0x00ff0000 :: u32) = push_bit 16 (mask 8)"
  "(0x0000ff00 :: u32) = push_bit 8 (mask 8)" "(0x000000ff :: u32) = mask 8"
  by (simp_all add: mask_eq_exp_minus_1 push_bit_eq_mult)

lemma bit_bswap_32:
  "bit (bswap_32 w) n \<longleftrightarrow>
     n < 32 \<and> (if n < 8 then bit w (24 + n) else if n < 16 then bit w (8 + n)
               else if n < 24 then bit w (n - 8) else bit w (n - 24))"
  unfolding bswap_32_def bswap_masks
  by (auto simp: bit_simps dest: bit_imp_le_length)

lemma bit_be32:
  "bit (be32 a b c d) n \<longleftrightarrow>
     n < 32 \<and> (if n < 8 then bit d n else if n < 16 then bit c (n - 8)
               else if n < 24 then bit b (n - 16) else bit a (n - 24))"
  unfolding be32_eq_or
  by (auto simp: bit_simps dest: bit_imp_le_length)

lemma bswap_be32: "bswap_32 (be32 d c b a) = be32 a b c d"
  by (rule bit_word_eqI) (auto simp: bit_bswap_32 bit_be32)

lemma bswap_le32_of: "bswap_32 (le32_of [a, b, c, d]) = be32 a b c d"
  by (simp add: bswap_be32)

lemma bswap_32_involution: "bswap_32 (bswap_32 w) = w"
  by (rule bit_word_eqI) (auto simp: bit_bswap_32)

subsection \<open>Generic lemmas\<close>

lemma four_elems: "length xs = 4 \<Longrightarrow> xs = [xs ! 0, xs ! 1, xs ! 2, xs ! 3]"
  by (auto simp: numeral_eq_Suc length_Suc_conv)

text \<open>A word of memory in wire order and in host order.\<close>

definition wire32 :: "bytes \<Rightarrow> nat \<Rightarrow> u32" where
  "wire32 mem i = be32 (mem ! i) (mem ! (i + 1)) (mem ! (i + 2)) (mem ! (i + 3))"

definition host32 :: "bytes \<Rightarrow> nat \<Rightarrow> u32" where
  "host32 mem i = be32 (mem ! (i + 3)) (mem ! (i + 2)) (mem ! (i + 1)) (mem ! i)"

lemma get_word [simp]:
  assumes "i + 4 \<le> length mem"
  shows "get_bytes mem i 4 = Some [mem ! i, mem ! (i + 1), mem ! (i + 2), mem ! (i + 3)]"
proof -
  have "length (take 4 (drop i mem)) = 4" using assms by simp
  from four_elems [OF this] show ?thesis using assms by (simp add: get_bytes_def)
qed

lemma unat_plus_small: "unat (a :: u32) + unat b < 2 ^ 32 \<Longrightarrow> unat (a + b) = unat a + unat b"
  by (simp add: unat_word_ariths)

lemma unat_minus_le: "(b :: u32) \<le> a \<Longrightarrow> unat (a - b) = unat a - unat b"
  by (simp add: unat_sub)

lemma unat_le_numeral: "(a :: u32) \<le> numeral n \<Longrightarrow> unat a \<le> unat (numeral n :: u32)"
  by (simp add: word_le_nat_alt)

lemma sint_small:
  assumes "unat (a :: u32) < 2 ^ 31"
  shows "sint a = int (unat a)"
proof -
  from assms have "int (unat a) < int (2 ^ 31)" by (simp only: of_nat_less_iff)
  then have "uint a < 2 ^ 31" by simp
  then have "signed_take_bit 31 (uint a) = uint a"
    by (intro signed_take_bit_int_eq_self) (simp_all add: order_trans [OF _ unsigned_greater_eq])
  then show ?thesis by (simp add: sint_uint)
qed

lemma those_all: "(\<And>i. i \<in> set xs \<Longrightarrow> f i = Some (g i)) \<Longrightarrow> those (map f xs) = Some (map g xs)"
  by (induction xs) simp_all

lemma bind_eq_Some: "(Option.bind m f = Some y) \<longleftrightarrow> (\<exists>x. m = Some x \<and> f x = Some y)"
  by (rule bind_eq_Some_conv)

lemmas bind_splits = Option.bind_splits option.splits if_splits prod.splits

end
