(* ===== verification/Frame_Buffer.thy ===== *)
theory Frame_Buffer
  imports Sparcs_Prelude
begin

text \<open>
  The receive buffer of the C37.118 input, \<open>C37_Buffer\<close> in
  \<open>serviceDataDiscovery_C37/C37_Buffer.{h,cpp}\<close>: a byte array of 1024 bytes, the number of
  valid bytes, and the three-state machine that finds the next message in it
  (\<open>examineBuffer\<close>) and shifts it out (\<open>removeMsgFromBuffer\<close> and its two siblings).

  The abstract specification is \<open>next_frame\<close>, which splits the next frame off a stream of
  bytes; the refinement lemma states that the machine splits the valid bytes the same way.
\<close>

subsection \<open>The class and its constants\<close>

datatype c37_buf_state = unknownMsg | partialMsg | completeMsg

record c37_buffer =
  buffer :: bytes
  maxBufferBytes :: u32
  validBufferBytes :: u32
  bufState :: c37_buf_state
  msgLenBytes :: u32
  msgType :: u32
  msgCounter :: u32

definition DEFAULT_BUFFER_LEN :: u32 where
  "DEFAULT_BUFFER_LEN = 1024"

definition ERR_MSG_LARGER_THAN_BUFFER :: int where "ERR_MSG_LARGER_THAN_BUFFER = - 1"
definition ERR_EXAM_BUF_CALL_OUT_OF_SEQ :: int where "ERR_EXAM_BUF_CALL_OUT_OF_SEQ = - 2"
definition ERR_BUF_STATE_MANGLED :: int where "ERR_BUF_STATE_MANGLED = - 4"

lemmas err_defs = ERR_MSG_LARGER_THAN_BUFFER_def ERR_EXAM_BUF_CALL_OUT_OF_SEQ_def
  ERR_BUF_STATE_MANGLED_def

text \<open>
  The constructor leaves the array and \<open>msgType\<close> as the memory had them (\<open>mem\<close>, \<open>mt\<close>).
\<close>

definition new_C37_Buffer :: "bytes \<Rightarrow> u32 \<Rightarrow> c37_buffer" where
  "new_C37_Buffer mem mt =
     \<lparr>buffer = mem, maxBufferBytes = DEFAULT_BUFFER_LEN, validBufferBytes = 0,
      bufState = unknownMsg, msgLenBytes = 0, msgType = mt, msgCounter = 0\<rparr>"

definition init_buffer :: "c37_buffer \<Rightarrow> c37_buffer" where
  "init_buffer b = b\<lparr>maxBufferBytes := DEFAULT_BUFFER_LEN, validBufferBytes := 0,
     bufState := unknownMsg, msgLenBytes := 0, msgCounter := 0\<rparr>"

definition setBytesReceived :: "u32 \<Rightarrow> c37_buffer \<Rightarrow> c37_buffer" where
  "setBytesReceived n b = b\<lparr>validBufferBytes := validBufferBytes b + n\<rparr>"

text \<open>The region offered to the next read: its offset in the array and its length.\<close>

definition getBufferDesc :: "c37_buffer \<Rightarrow> nat \<times> u32" where
  "getBufferDesc b = (unat (validBufferBytes b), maxBufferBytes b - validBufferBytes b)"

subsection \<open>Finding a message\<close>

definition frame_size_field :: "bytes \<Rightarrow> u32" where
  "frame_size_field buf = ucast (buf ! 3) + push_bit 8 (ucast (buf ! 2))"

definition frame_type_field :: "bytes \<Rightarrow> u32" where
  "frame_type_field buf = drop_bit 4 (ucast (buf ! 1) AND 0x70)"

text \<open>The \<open>partialMsg\<close> case, which the \<open>unknownMsg\<close> case falls through to.\<close>

definition examine_partialMsg :: "c37_buffer \<Rightarrow> int \<times> c37_buffer" where
  "examine_partialMsg b =
     (if validBufferBytes b \<ge> msgLenBytes b
      then (0, b\<lparr>bufState := completeMsg, msgCounter := msgCounter b + 1\<rparr>)
      else (sint (maxBufferBytes b - validBufferBytes b), b))"

definition examineBuffer :: "c37_buffer \<Rightarrow> int \<times> c37_buffer" where
  "examineBuffer b =
     (case bufState b of
        unknownMsg \<Rightarrow>
          (if validBufferBytes b \<ge> 4 then
             (let b1 = b\<lparr>msgLenBytes := frame_size_field (buffer b),
                         msgType := frame_type_field (buffer b)\<rparr>
              in if msgLenBytes b1 > maxBufferBytes b1
                 then (ERR_MSG_LARGER_THAN_BUFFER, b1)
                 else examine_partialMsg (b1\<lparr>bufState := partialMsg\<rparr>))
           else (sint (maxBufferBytes b - validBufferBytes b), b))
      | partialMsg \<Rightarrow> examine_partialMsg b
      | completeMsg \<Rightarrow> (ERR_EXAM_BUF_CALL_OUT_OF_SEQ, b))"

subsection \<open>Shifting a message out\<close>

text \<open>
  The copy loops run \<open>i\<close> up to and including \<open>validBufferBytes\<close>, one position more than
  there are valid bytes. With a full buffer that position is one past the array:
  \<open>past\<close> is the byte the memory holds there (the object's next field), so that the read
  has a value and the model shows where it goes.
\<close>

definition read_or_past :: "u8 \<Rightarrow> bytes \<Rightarrow> nat \<Rightarrow> u8" where
  "read_or_past past buf i = (if i < length buf then buf ! i else past)"

function shift_loop :: "u8 \<Rightarrow> nat \<Rightarrow> nat \<Rightarrow> nat \<Rightarrow> bytes \<Rightarrow> bytes" where
  "shift_loop past i j n buf =
     (if i < n then shift_loop past (Suc i) (Suc j) n (buf[j := read_or_past past buf i])
      else buf)"
  by pat_completeness auto
termination
  by (relation "measure (\<lambda>(past, i, j, n, buf). n - i)") auto

declare shift_loop.simps [simp del]

definition state_is_mangled :: "c37_buffer \<Rightarrow> bool" where
  "state_is_mangled b \<longleftrightarrow>
     (bufState b \<noteq> completeMsg \<or> msgLenBytes b > validBufferBytes b) \<or>
     msgLenBytes b > maxBufferBytes b"

definition removeMsgFromBuffer :: "u8 \<Rightarrow> c37_buffer \<Rightarrow> int \<times> c37_buffer" where
  "removeMsgFromBuffer past b =
     (if state_is_mangled b then (ERR_BUF_STATE_MANGLED, b)
      else
        (let buf' = shift_loop past (unat (msgLenBytes b)) 0
                      (unat (validBufferBytes b + 1)) (buffer b);
             b' = b\<lparr>buffer := buf', validBufferBytes := validBufferBytes b - msgLenBytes b,
                    bufState := unknownMsg, msgLenBytes := 0\<rparr>
         in (sint (maxBufferBytes b' - validBufferBytes b'), b')))"

text \<open>
  The two variants that also fill a caller's buffer. A write past the caller's buffer is
  undefined (\<open>None\<close>).
\<close>

function copy_shift_loop ::
  "u8 \<Rightarrow> nat \<Rightarrow> nat \<Rightarrow> nat \<Rightarrow> bytes \<Rightarrow> bytes \<Rightarrow> (bytes \<times> bytes) option" where
  "copy_shift_loop past i j n dataBuf buf =
     (if i < n then
        (if j < length dataBuf then
           copy_shift_loop past (Suc i) (Suc j) n
             (dataBuf[j := read_or_past past buf i]) (buf[j := read_or_past past buf i])
         else None)
      else Some (dataBuf, buf))"
  by pat_completeness auto
termination
  by (relation "measure (\<lambda>(past, i, j, n, dataBuf, buf). n - i)") auto

declare copy_shift_loop.simps [simp del]

definition removeC37MsgFromBuffer ::
  "u8 \<Rightarrow> bytes \<Rightarrow> c37_buffer \<Rightarrow> (int \<times> bytes \<times> c37_buffer) option" where
  "removeC37MsgFromBuffer past dataBuf b =
     (if state_is_mangled b then Some (ERR_BUF_STATE_MANGLED, dataBuf, b)
      else do {
        (dataBuf', buf') \<leftarrow> copy_shift_loop past (unat (msgLenBytes b)) 0
                            (unat (validBufferBytes b + 1)) dataBuf (buffer b);
        let b' = b\<lparr>buffer := buf', validBufferBytes := validBufferBytes b - msgLenBytes b,
                   bufState := unknownMsg, msgLenBytes := 0\<rparr>;
        Some (sint (maxBufferBytes b' - validBufferBytes b'), dataBuf', b')
      })"

definition removeRawMsgFromBuffer ::
  "u8 \<Rightarrow> bytes \<Rightarrow> c37_buffer \<Rightarrow> (int \<times> bytes \<times> c37_buffer) option" where
  "removeRawMsgFromBuffer past dataBuf b =
     (if state_is_mangled b then Some (ERR_BUF_STATE_MANGLED, dataBuf, b)
      else do {
        (dataBuf', buf') \<leftarrow> copy_shift_loop past (unat (msgLenBytes b)) 0
                            (unat (validBufferBytes b + 1)) dataBuf (buffer b);
        let b' = b\<lparr>buffer := buf', validBufferBytes := validBufferBytes b - msgLenBytes b,
                   bufState := unknownMsg, msgLenBytes := 0\<rparr>;
        Some (sint (maxBufferBytes b' - validBufferBytes b'), dataBuf', b')
      })"

subsection \<open>The invariant and the valid bytes\<close>

definition buffer_wf :: "c37_buffer \<Rightarrow> bool" where
  "buffer_wf b \<longleftrightarrow>
     length (buffer b) = 1024 \<and> maxBufferBytes b = 1024 \<and> unat (validBufferBytes b) \<le> 1024 \<and>
     (bufState b = partialMsg \<longrightarrow> unat (msgLenBytes b) \<le> 1024) \<and>
     (bufState b = completeMsg \<longrightarrow> unat (msgLenBytes b) \<le> unat (validBufferBytes b))"

definition valid_bytes :: "c37_buffer \<Rightarrow> bytes" where
  "valid_bytes b = take (unat (validBufferBytes b)) (buffer b)"

text \<open>
  What the asynchronous read does between two calls: it stores \<open>bs\<close> into the region
  \<open>getBufferDesc\<close> names and reports their number.
\<close>

definition receive :: "bytes \<Rightarrow> c37_buffer \<Rightarrow> c37_buffer" where
  "receive bs b =
     setBytesReceived (of_nat (length bs))
       (b\<lparr>buffer := take (fst (getBufferDesc b)) (buffer b) @ bs @
                     drop (fst (getBufferDesc b) + length bs) (buffer b)\<rparr>)"

text \<open>The specification: split the next frame off a byte stream, if it is all there.\<close>

definition declared_len :: "bytes \<Rightarrow> nat" where
  "declared_len s = 256 * unat (s ! 2) + unat (s ! 3)"

definition next_frame :: "bytes \<Rightarrow> (bytes \<times> bytes) option" where
  "next_frame s =
     (if 4 \<le> length s \<and> declared_len s \<le> 1024 \<and> declared_len s \<le> length s
      then Some (take (declared_len s) s, drop (declared_len s) s) else None)"

lemma next_frame_shorter: "next_frame s = Some (f, r) \<Longrightarrow> f \<noteq> [] \<Longrightarrow> length r < length s"
  by (auto simp: next_frame_def split: if_splits)

text \<open>
  All complete frames of a stream and the incomplete rest; \<open>None\<close> when a frame that
  declares length 0 is reached, which no amount of removal gets past.
\<close>

function split_frames :: "bytes \<Rightarrow> (bytes list \<times> bytes) option" where
  "split_frames s =
     (case next_frame s of
        None \<Rightarrow> Some ([], s)
      | Some (f, r) \<Rightarrow>
          (if f = [] then None
           else (case split_frames r of None \<Rightarrow> None | Some (fs, r') \<Rightarrow> Some (f # fs, r'))))"
  by pat_completeness auto
termination
  by (relation "measure length") (auto dest: next_frame_shorter)

declare split_frames.simps [simp del]

subsection \<open>Lemmas on the copy loops\<close>

lemma shift_loop_length [simp]: "length (shift_loop past i j n buf) = length buf"
proof (induction past i j n buf rule: shift_loop.induct)
  case (1 past i j n buf)
  then show ?case by (subst shift_loop.simps) simp
qed

lemma read_or_past_update:
  "j < i \<Longrightarrow> read_or_past past (buf[j := x]) i = read_or_past past buf i"
  by (simp add: read_or_past_def)

lemma shift_loop_nth:
  assumes "j \<le> i" and "k < length buf"
  shows "shift_loop past i j n buf ! k =
         (if j \<le> k \<and> k < j + (n - i) then read_or_past past buf (k + (i - j)) else buf ! k)"
  using assms
proof (induction past i j n buf rule: shift_loop.induct)
  case (1 past i j n buf)
  let ?x = "read_or_past past buf i"
  show ?case
  proof (cases "i < n")
    case True
    have IH: "shift_loop past (Suc i) (Suc j) n (buf[j := ?x]) ! k =
        (if Suc j \<le> k \<and> k < Suc j + (n - Suc i)
         then read_or_past past (buf[j := ?x]) (k + (Suc i - Suc j)) else buf[j := ?x] ! k)"
      using 1 True by simp
    have "Suc j \<le> k \<Longrightarrow>
        read_or_past past (buf[j := ?x]) (k + (i - j)) = read_or_past past buf (k + (i - j))"
      using "1.prems"(1) by (intro read_or_past_update) linarith
    with IH True "1.prems" show ?thesis
      by (subst shift_loop.simps) (auto simp: nth_list_update)
  next
    case False
    then show ?thesis by (subst shift_loop.simps) auto
  qed
qed

text \<open>The first \<open>n - i\<close> positions hold what the array held from \<open>i\<close> on.\<close>

lemma shift_loop_take:
  assumes "m \<le> v" and "v \<le> length buf"
  shows "take (v - m) (shift_loop past m 0 (Suc v) buf) = drop m (take v buf)"
proof (rule nth_equalityI)
  show "length (take (v - m) (shift_loop past m 0 (Suc v) buf)) = length (drop m (take v buf))"
    using assms by simp
next
  fix k assume "k < length (take (v - m) (shift_loop past m 0 (Suc v) buf))"
  with assms show "take (v - m) (shift_loop past m 0 (Suc v) buf) ! k = drop m (take v buf) ! k"
    by (auto simp: shift_loop_nth read_or_past_def add.commute)
qed

lemma copy_shift_loop_buffer:
  "copy_shift_loop past i j n dataBuf buf = Some (d', b') \<Longrightarrow> b' = shift_loop past i j n buf"
proof (induction past i j n dataBuf buf rule: copy_shift_loop.induct)
  case (1 past i j n dataBuf buf)
  then show ?case
    by (subst shift_loop.simps, subst (asm) (2) copy_shift_loop.simps) (auto split: if_splits)
qed

text \<open>What the caller's buffer receives is the copied-down remainder, byte for byte.\<close>

lemma copy_shift_loop_data:
  assumes "copy_shift_loop past i j n dataBuf buf = Some (d', b')"
    and "j \<le> i" and "k < length dataBuf"
  shows "d' ! k = (if j \<le> k \<and> k < j + (n - i)
                   then read_or_past past buf (k + (i - j)) else dataBuf ! k)"
  using assms
proof (induction past i j n dataBuf buf rule: copy_shift_loop.induct)
  case (1 past i j n dataBuf buf)
  let ?x = "read_or_past past buf i"
  show ?case
  proof (cases "i < n")
    case True
    with "1.prems"(1) have j: "j < length dataBuf"
      and rec: "copy_shift_loop past (Suc i) (Suc j) n (dataBuf[j := ?x]) (buf[j := ?x])
        = Some (d', b')"
      by (subst (asm) copy_shift_loop.simps, simp split: if_splits)+
    have IH: "d' ! k = (if Suc j \<le> k \<and> k < Suc j + (n - Suc i)
        then read_or_past past (buf[j := ?x]) (k + (Suc i - Suc j)) else dataBuf[j := ?x] ! k)"
      using "1.IH" [OF True j rec] "1.prems"(2,3) by simp
    have "Suc j \<le> k \<Longrightarrow>
        read_or_past past (buf[j := ?x]) (k + (i - j)) = read_or_past past buf (k + (i - j))"
      using "1.prems"(2) by (intro read_or_past_update) linarith
    with IH True "1.prems"(2,3) show ?thesis by (auto simp: nth_list_update)
  next
    case False
    with "1.prems"(1) show ?thesis by (subst (asm) copy_shift_loop.simps) auto
  qed
qed

lemma copy_shift_loop_length:
  "copy_shift_loop past i j n dataBuf buf = Some (d', b') \<Longrightarrow> length d' = length dataBuf"
proof (induction past i j n dataBuf buf rule: copy_shift_loop.induct)
  case (1 past i j n dataBuf buf)
  then show ?case
    by (subst (asm) (2) copy_shift_loop.simps) (auto split: if_splits)
qed

lemma copy_shift_loop_defined:
  "j + (n - i) \<le> length dataBuf \<Longrightarrow> copy_shift_loop past i j n dataBuf buf \<noteq> None"
proof (induction past i j n dataBuf buf rule: copy_shift_loop.induct)
  case (1 past i j n dataBuf buf)
  then show ?case by (subst copy_shift_loop.simps) auto
qed

subsection \<open>The invariant is kept\<close>

lemma frame_size_field_unat: "unat (frame_size_field buf) = 256 * unat (buf ! 2) + unat (buf ! 3)"
  using unat_be16 [of "buf ! 2" "buf ! 3"]
  by (simp add: frame_size_field_def be16_def add.commute)

lemma frame_size_field_declared:
  "4 \<le> n \<Longrightarrow> n \<le> length buf \<Longrightarrow> unat (frame_size_field buf) = declared_len (take n buf)"
  by (simp add: frame_size_field_unat declared_len_def)

lemma buffer_wfD:
  assumes "buffer_wf b"
  shows "length (buffer b) = 1024" "maxBufferBytes b = 1024" "unat (validBufferBytes b) \<le> 1024"
    "bufState b = partialMsg \<Longrightarrow> unat (msgLenBytes b) \<le> 1024"
    "bufState b = completeMsg \<Longrightarrow> unat (msgLenBytes b) \<le> unat (validBufferBytes b)"
  using assms by (simp_all add: buffer_wf_def)

lemma length_valid_bytes: "buffer_wf b \<Longrightarrow> length (valid_bytes b) = unat (validBufferBytes b)"
  by (simp add: buffer_wf_def valid_bytes_def)

lemma room_unat:
  "unat (v :: u32) \<le> 1024 \<Longrightarrow> unat (1024 - v) = 1024 - unat v"
  by (simp add: unat_sub word_le_nat_alt)

lemma room_sint: "unat (v :: u32) \<le> 1024 \<Longrightarrow> sint (1024 - v) = 1024 - int (unat v)"
  using sint_small [of "1024 - v"] by (simp add: room_unat of_nat_diff)

lemma valid_plus_1: "unat (v :: u32) \<le> 1024 \<Longrightarrow> unat (v + 1) = Suc (unat v)"
  by (simp add: unat_word_ariths)

lemma new_buffer_wf: "length mem = 1024 \<Longrightarrow> buffer_wf (new_C37_Buffer mem mt)"
  by (simp add: buffer_wf_def new_C37_Buffer_def DEFAULT_BUFFER_LEN_def)

lemma init_buffer_wf: "length (buffer b) = 1024 \<Longrightarrow> buffer_wf (init_buffer b)"
  by (simp add: buffer_wf_def init_buffer_def DEFAULT_BUFFER_LEN_def)

lemma valid_bytes_new [simp]: "valid_bytes (new_C37_Buffer mem mt) = []"
  by (simp add: valid_bytes_def new_C37_Buffer_def)

lemma valid_bytes_init: "valid_bytes (init_buffer b) = []"
  by (simp add: valid_bytes_def init_buffer_def)

lemma examine_partialMsg_wf:
  "buffer_wf b \<Longrightarrow> bufState b = partialMsg \<Longrightarrow> buffer_wf (snd (examine_partialMsg b))"
  by (auto simp: examine_partialMsg_def buffer_wf_def word_le_nat_alt)

lemma examineBuffer_wf: "buffer_wf b \<Longrightarrow> buffer_wf (snd (examineBuffer b))"
proof (cases "bufState b")
  case unknownMsg
  assume wf: "buffer_wf b"
  show ?thesis
  proof (cases "validBufferBytes b \<ge> 4 \<and> \<not> frame_size_field (buffer b) > maxBufferBytes b")
    case True
    with wf have "buffer_wf (b\<lparr>msgLenBytes := frame_size_field (buffer b),
        msgType := frame_type_field (buffer b), bufState := partialMsg\<rparr>)"
      by (auto simp: buffer_wf_def word_le_nat_alt not_less)
    from examine_partialMsg_wf [OF this] True unknownMsg show ?thesis
      by (simp add: examineBuffer_def Let_def)
  next
    case False
    with wf unknownMsg show ?thesis by (auto simp: examineBuffer_def Let_def buffer_wf_def)
  qed
next
  case partialMsg
  assume "buffer_wf b"
  with partialMsg show ?thesis by (simp add: examineBuffer_def examine_partialMsg_wf)
next
  case completeMsg
  assume "buffer_wf b"
  with completeMsg show ?thesis by (simp add: examineBuffer_def)
qed

lemma examineBuffer_frame:
  "buffer (snd (examineBuffer b)) = buffer b"
  "validBufferBytes (snd (examineBuffer b)) = validBufferBytes b"
  "valid_bytes (snd (examineBuffer b)) = valid_bytes b"
  by (auto simp: examineBuffer_def examine_partialMsg_def valid_bytes_def Let_def
      split: c37_buf_state.splits)

subsection \<open>Removal and the specification\<close>

lemma remove_complete:
  assumes "buffer_wf b" and "bufState b = completeMsg"
  shows "removeMsgFromBuffer past b =
    (1024 - (int (unat (validBufferBytes b)) - int (unat (msgLenBytes b))),
     b\<lparr>buffer := shift_loop past (unat (msgLenBytes b)) 0
                   (Suc (unat (validBufferBytes b))) (buffer b),
       validBufferBytes := validBufferBytes b - msgLenBytes b,
       bufState := unknownMsg, msgLenBytes := 0\<rparr>)"
proof -
  note wf = buffer_wfD [OF assms(1)]
  have le: "msgLenBytes b \<le> validBufferBytes b"
    using wf(5) assms(2) by (simp add: word_le_nat_alt)
  have sub: "unat (validBufferBytes b - msgLenBytes b)
      = unat (validBufferBytes b) - unat (msgLenBytes b)"
    using le by (rule unat_minus_le)
  have room: "sint (1024 - (validBufferBytes b - msgLenBytes b))
      = 1024 - (int (unat (validBufferBytes b)) - int (unat (msgLenBytes b)))"
    using room_sint [of "validBufferBytes b - msgLenBytes b"] wf(3,5) assms(2)
    by (simp add: sub of_nat_diff)
  have "\<not> state_is_mangled b"
    using assms(2) le wf by (auto simp: state_is_mangled_def word_le_nat_alt not_less)
  with room show ?thesis
    using wf(2,3) by (simp add: removeMsgFromBuffer_def Let_def valid_plus_1)
qed

lemma remove_wf: "buffer_wf b \<Longrightarrow> buffer_wf (snd (removeMsgFromBuffer past b))"
proof (cases "bufState b = completeMsg")
  case True
  assume wf: "buffer_wf b"
  have "unat (validBufferBytes b - msgLenBytes b) \<le> 1024"
    using buffer_wfD(3,5) [OF wf] True unat_minus_le [of "msgLenBytes b" "validBufferBytes b"]
    by (simp add: word_le_nat_alt)
  with wf show ?thesis by (simp add: remove_complete [OF wf True]) (simp add: buffer_wf_def)
next
  case False
  assume "buffer_wf b"
  with False show ?thesis by (simp add: removeMsgFromBuffer_def state_is_mangled_def)
qed

lemma remove_valid_bytes:
  assumes "buffer_wf b" and "bufState b = completeMsg"
  shows "valid_bytes (snd (removeMsgFromBuffer past b))
         = drop (unat (msgLenBytes b)) (valid_bytes b)"
proof -
  note wf = buffer_wfD [OF assms(1)]
  have "unat (validBufferBytes b - msgLenBytes b)
      = unat (validBufferBytes b) - unat (msgLenBytes b)"
    using wf(5) assms(2) by (intro unat_minus_le) (simp add: word_le_nat_alt)
  with wf assms(2) show ?thesis
    by (simp add: remove_complete [OF assms] valid_bytes_def shift_loop_take)
qed

lemma remove_state:
  "buffer_wf b \<Longrightarrow> bufState b = completeMsg \<Longrightarrow>
   bufState (snd (removeMsgFromBuffer past b)) = unknownMsg"
  by (simp add: remove_complete)

lemma remove_frame_fields [simp]:
  "msgCounter (snd (removeMsgFromBuffer past b)) = msgCounter b"
  "msgType (snd (removeMsgFromBuffer past b)) = msgType b"
  by (simp_all add: removeMsgFromBuffer_def Let_def)

lemma examine_partial_complete:
  assumes "buffer_wf b" and "bufState b = partialMsg"
  shows "fst (examine_partialMsg b) = 0 \<longleftrightarrow> msgLenBytes b \<le> validBufferBytes b"
    and "fst (examine_partialMsg b) = 0 \<longleftrightarrow> bufState (snd (examine_partialMsg b)) = completeMsg"
proof -
  note wf = buffer_wfD [OF assms(1)]
  have room: "0 < sint (maxBufferBytes b - validBufferBytes b)"
    if "\<not> msgLenBytes b \<le> validBufferBytes b"
  proof -
    have "unat (validBufferBytes b) < 1024"
      using that wf(3,4) assms(2) by (simp add: word_le_nat_alt)
    then have "0 < 1024 - int (unat (validBufferBytes b))" by linarith
    then show ?thesis using room_sint [OF wf(3)] by (simp only: wf(2))
  qed
  then show "fst (examine_partialMsg b) = 0 \<longleftrightarrow> msgLenBytes b \<le> validBufferBytes b"
    and "fst (examine_partialMsg b) = 0 \<longleftrightarrow> bufState (snd (examine_partialMsg b)) = completeMsg"
    using assms(2) by (auto simp: examine_partialMsg_def)
qed

lemma examine_unknown_step:
  assumes "buffer_wf b" and "bufState b = unknownMsg" and "4 \<le> unat (validBufferBytes b)"
    and "declared_len (valid_bytes b) \<le> 1024"
  shows "examineBuffer b = examine_partialMsg
     (b\<lparr>msgLenBytes := frame_size_field (buffer b), msgType := frame_type_field (buffer b),
        bufState := partialMsg\<rparr>)"
    and "unat (frame_size_field (buffer b)) = declared_len (valid_bytes b)"
proof -
  note wf = buffer_wfD [OF assms(1)]
  show *: "unat (frame_size_field (buffer b)) = declared_len (valid_bytes b)"
    using wf assms(3) by (simp add: valid_bytes_def frame_size_field_declared)
  then have "\<not> frame_size_field (buffer b) > maxBufferBytes b"
    using wf assms(4) by (simp add: word_less_nat_alt)
  moreover have "4 \<le> validBufferBytes b"
    using assms(3) by (simp add: word_le_nat_alt)
  ultimately show "examineBuffer b = examine_partialMsg
     (b\<lparr>msgLenBytes := frame_size_field (buffer b), msgType := frame_type_field (buffer b),
        bufState := partialMsg\<rparr>)"
    using assms(2) by (simp add: examineBuffer_def Let_def)
qed

text \<open>
  Between two reads the machine is \<open>buffer_ready\<close>: no message is pending removal, and when
  a partial message was recognised its length and type are those the valid bytes declare.
\<close>

definition buffer_ready :: "c37_buffer \<Rightarrow> bool" where
  "buffer_ready b \<longleftrightarrow>
     buffer_wf b \<and> bufState b \<noteq> completeMsg \<and>
     (bufState b = partialMsg \<longrightarrow>
        4 \<le> unat (validBufferBytes b) \<and> msgLenBytes b = frame_size_field (buffer b) \<and>
        msgType b = frame_type_field (buffer b))"

definition current_frame :: "c37_buffer \<Rightarrow> bytes" where
  "current_frame b = take (unat (msgLenBytes b)) (valid_bytes b)"

lemma buffer_ready_wf: "buffer_ready b \<Longrightarrow> buffer_wf b"
  by (simp add: buffer_ready_def)

lemma new_buffer_ready: "length mem = 1024 \<Longrightarrow> buffer_ready (new_C37_Buffer mem mt)"
  by (simp add: buffer_ready_def new_buffer_wf) (simp add: new_C37_Buffer_def)

lemma init_buffer_ready: "length (buffer b) = 1024 \<Longrightarrow> buffer_ready (init_buffer b)"
  by (simp add: buffer_ready_def init_buffer_wf) (simp add: init_buffer_def)

lemma declared_len_valid:
  assumes "buffer_wf b" and "4 \<le> unat (validBufferBytes b)"
  shows "unat (frame_size_field (buffer b)) = declared_len (valid_bytes b)"
  using buffer_wfD [OF assms(1)] assms(2) by (simp add: valid_bytes_def frame_size_field_declared)

lemma next_frame_valid:
  assumes "buffer_wf b"
  shows "next_frame (valid_bytes b) =
    (if 4 \<le> unat (validBufferBytes b) \<and> unat (frame_size_field (buffer b)) \<le> 1024 \<and>
        frame_size_field (buffer b) \<le> validBufferBytes b
     then Some (take (unat (frame_size_field (buffer b))) (valid_bytes b),
                drop (unat (frame_size_field (buffer b))) (valid_bytes b)) else None)"
  using declared_len_valid [OF assms]
  by (auto simp: next_frame_def length_valid_bytes [OF assms] word_le_nat_alt)

text \<open>The three outcomes of an examination in a ready state.\<close>

lemma examine_ready_cases:
  assumes "buffer_ready b"
  obtains (short) "next_frame (valid_bytes b) = None" "fst (examineBuffer b) \<noteq> 0"
      "buffer_ready (snd (examineBuffer b))"
    | (complete) "4 \<le> unat (validBufferBytes b)"
      "frame_size_field (buffer b) \<le> validBufferBytes b"
      "unat (frame_size_field (buffer b)) \<le> 1024"
      "examineBuffer b = (0, b\<lparr>msgLenBytes := frame_size_field (buffer b),
         msgType := frame_type_field (buffer b), bufState := completeMsg,
         msgCounter := msgCounter b + 1\<rparr>)"
proof -
  have wf: "buffer_wf b" using assms by (rule buffer_ready_wf)
  note wfs = buffer_wfD [OF wf]
  consider (few) "bufState b = unknownMsg" "unat (validBufferBytes b) < 4"
    | (big) "bufState b = unknownMsg" "4 \<le> unat (validBufferBytes b)"
        "1024 < unat (frame_size_field (buffer b))"
    | (part) "4 \<le> unat (validBufferBytes b)" "unat (frame_size_field (buffer b)) \<le> 1024"
    using assms wfs(4)
    by (cases "bufState b"; cases "4 \<le> unat (validBufferBytes b)";
        cases "unat (frame_size_field (buffer b)) \<le> 1024")
      (auto simp: buffer_ready_def not_le)
  then show ?thesis
  proof cases
    case few
    then have ex: "examineBuffer b = (sint (1024 - validBufferBytes b), b)"
      using wfs(2) by (simp add: examineBuffer_def word_le_nat_alt)
    have "sint (1024 - validBufferBytes b) \<noteq> 0"
      unfolding room_sint [OF wfs(3)] using few by linarith
    with ex few assms show ?thesis
      by (intro short) (simp_all add: next_frame_valid [OF wf])
  next
    case big
    then have ex: "examineBuffer b = (- 1, b\<lparr>msgLenBytes := frame_size_field (buffer b),
        msgType := frame_type_field (buffer b)\<rparr>)"
      using wfs(2) by (simp add: examineBuffer_def word_le_nat_alt word_less_nat_alt err_defs)
    with big wf assms show ?thesis
      by (intro short) (simp_all add: next_frame_valid [OF wf] buffer_ready_def buffer_wf_def)
  next
    case part
    let ?b1 = "b\<lparr>msgLenBytes := frame_size_field (buffer b),
               msgType := frame_type_field (buffer b), bufState := partialMsg\<rparr>"
    have wf1: "buffer_wf ?b1" using part wfs by (simp add: buffer_wf_def)
    have ex: "examineBuffer b = examine_partialMsg ?b1"
    proof (cases "bufState b")
      case unknownMsg
      then show ?thesis
        using part wfs(2) by (simp add: examineBuffer_def word_le_nat_alt word_less_nat_alt)
    next
      case partialMsg
      with assms have "?b1 = b" by (simp add: buffer_ready_def)
      with partialMsg show ?thesis by (simp add: examineBuffer_def)
    qed (use assms in \<open>simp add: buffer_ready_def\<close>)
    show ?thesis
    proof (cases "frame_size_field (buffer b) \<le> validBufferBytes b")
      case True
      with part ex show ?thesis by (intro complete) (simp_all add: examine_partialMsg_def)
    next
      case False
      then have "fst (examine_partialMsg ?b1) \<noteq> 0"
        using examine_partial_complete(1) [OF wf1] by simp
      moreover have "snd (examine_partialMsg ?b1) = ?b1"
        using False by (simp add: examine_partialMsg_def)
      ultimately show ?thesis
        using part False wf1
        by (intro short) (simp_all add: ex next_frame_valid [OF wf] buffer_ready_def)
    qed
  qed
qed

subsection \<open>The contract of a framing buffer\<close>

text \<open>
  What a client of the buffer relies on, for any machine that examines, removes and
  receives: examining a ready machine reports 0 exactly when the specification finds a
  frame, the frame under the machine is that frame, removing it leaves the rest of the
  stream, and receiving appends to it.
\<close>

locale framer =
  fixes exam :: "'b \<Rightarrow> int \<times> 'b" and remv :: "'b \<Rightarrow> 'b" and recv :: "bytes \<Rightarrow> 'b \<Rightarrow> 'b"
    and content :: "'b \<Rightarrow> bytes" and ready :: "'b \<Rightarrow> bool" and current :: "'b \<Rightarrow> bytes"
    and capacity :: nat
  assumes exam_frame: "ready b \<Longrightarrow> next_frame (content b) = Some (f, r) \<Longrightarrow>
      fst (exam b) = 0 \<and> current (snd (exam b)) = f \<and>
      content (remv (snd (exam b))) = r \<and> ready (remv (snd (exam b)))"
    and exam_none: "ready b \<Longrightarrow> next_frame (content b) = None \<Longrightarrow>
      fst (exam b) \<noteq> 0 \<and> content (snd (exam b)) = content b \<and> ready (snd (exam b))"
    and recv_content: "ready b \<Longrightarrow> length (content b) + length bs \<le> capacity \<Longrightarrow>
      content (recv bs b) = content b @ bs \<and> ready (recv bs b)"
begin

inductive drains :: "'b \<Rightarrow> 'b list \<Rightarrow> 'b \<Rightarrow> bool" where
  drains_stop: "fst (exam b) \<noteq> 0 \<Longrightarrow> drains b [] (snd (exam b))"
| drains_step: "fst (exam b) = 0 \<Longrightarrow> drains (remv (snd (exam b))) bs b' \<Longrightarrow>
    drains b (snd (exam b) # bs) b'"

inductive_cases drains_cases: "drains b bs b'"

lemma drains_split:
  "drains b bs b' \<Longrightarrow> ready b \<Longrightarrow>
   split_frames (content b) = Some (map current bs, content b') \<and> ready b'"
proof (induction rule: drains.induct)
  case (drains_stop b)
  then have "next_frame (content b) = None"
    using exam_frame [of b] by (cases "next_frame (content b)") auto
  with drains_stop show ?case
    using exam_none [of b] by (subst split_frames.simps) simp
next
  case (drains_step b bs b')
  then obtain f r where nf: "next_frame (content b) = Some (f, r)"
    using exam_none [of b] by (cases "next_frame (content b)") auto
  note ef = exam_frame [OF drains_step.prems nf]
  have IH: "split_frames r = Some (map current bs, content b')" "ready b'"
    using drains_step.IH ef by simp_all
  have "f \<noteq> []"
  proof
    assume "f = []"
    with nf have "r = content b" by (auto simp: next_frame_def split: if_splits)
    with nf \<open>f = []\<close> have "split_frames r = None"
      by (subst split_frames.simps) simp
    with IH show False by simp
  qed
  with nf IH ef show ?case by (subst split_frames.simps) simp
qed

lemma split_drains:
  "split_frames s = Some (fs, r) \<Longrightarrow> ready b \<Longrightarrow> content b = s \<Longrightarrow>
   \<exists>bs b'. drains b bs b' \<and> map current bs = fs \<and> content b' = r \<and> ready b'"
proof (induction s arbitrary: fs r b rule: split_frames.induct)
  case (1 s)
  show ?case
  proof (cases "next_frame s")
    case None
    with 1 have "drains b [] (snd (exam b))" "fs = []" "r = s"
      using exam_none [of b] by (auto intro: drains_stop simp: split_frames.simps [of s])
    with None 1 show ?thesis using exam_none [of b] by auto
  next
    case (Some fr)
    then obtain f r' where nf: "next_frame s = Some (f, r')" by (cases fr) auto
    with "1.prems"(1) obtain fs' where ne: "f \<noteq> []" and rec: "split_frames r' = Some (fs', r)"
      and fs: "fs = f # fs'"
      by (auto simp: split_frames.simps [of s] split: if_splits option.splits)
    have ef: "fst (exam b) = 0" "current (snd (exam b)) = f"
      "content (remv (snd (exam b))) = r'" "ready (remv (snd (exam b)))"
      using exam_frame [of b f r'] nf "1.prems" by auto
    from "1.IH" [OF nf refl ne rec ef(4,3)] obtain bs b' where
      "drains (remv (snd (exam b))) bs b'" "map current bs = fs'" "content b' = r" "ready b'"
      by blast
    then show ?thesis
      using drains_step [OF ef(1)] ef(2) fs by (intro exI [of _ "snd (exam b) # bs"]) auto
  qed
qed

lemma stuck_no_drain: "ready b \<Longrightarrow> split_frames (content b) = None \<Longrightarrow> \<not> drains b bs b'"
  using drains_split by force

lemma drains_deterministic:
  "drains b bs b' \<Longrightarrow> drains b cs c' \<Longrightarrow> cs = bs \<and> c' = b'"
proof (induction arbitrary: cs c' rule: drains.induct)
  case (drains_stop b)
  from drains_stop(2) drains_stop(1) show ?case by (blast elim: drains_cases)
next
  case (drains_step b bs b')
  from drains_step.prems show ?case
  proof (rule drains_cases)
    fix ds
    assume "cs = snd (exam b) # ds" and "drains (remv (snd (exam b))) ds c'"
    with drains_step.IH [of ds c'] show ?thesis by simp
  qed (use drains_step.hyps(1) in simp_all)
qed

end

subsection \<open>\<open>C37_Buffer\<close> keeps the contract\<close>

lemma receive_buffer:
  assumes "buffer_ready b" and "length (valid_bytes b) + length bs \<le> 1024"
  shows "valid_bytes (receive bs b) = valid_bytes b @ bs" and "buffer_ready (receive bs b)"
proof -
  have wf: "buffer_wf b" using assms(1) by (rule buffer_ready_wf)
  note wfs = buffer_wfD [OF wf] and len = length_valid_bytes [OF wf]
  let ?v = "unat (validBufferBytes b)"
  have v: "unat (validBufferBytes b + of_nat (length bs)) = ?v + length bs"
    using assms(2) wfs(3) by (simp add: len unat_word_ariths unat_of_nat)
  have v': "unat (validBufferBytes (receive bs b)) = ?v + length bs"
    by (simp add: receive_def setBytesReceived_def v)
  have buf: "buffer (receive bs b) = take ?v (buffer b) @ bs @ drop (?v + length bs) (buffer b)"
    by (simp add: receive_def setBytesReceived_def getBufferDesc_def)
  have lenbuf: "length (buffer (receive bs b)) = 1024"
    using wfs(1) assms(2) len unfolding buf by simp
  show "valid_bytes (receive bs b) = valid_bytes b @ bs"
    unfolding valid_bytes_def v' buf using wfs(1,3) by simp
  have same: "maxBufferBytes (receive bs b) = 1024" "bufState (receive bs b) = bufState b"
      "msgLenBytes (receive bs b) = msgLenBytes b" "msgType (receive bs b) = msgType b"
    using wfs(2) by (simp_all add: receive_def setBytesReceived_def)
  have le: "?v + length bs \<le> 1024" using assms(2) len by simp
  have keep: "4 \<le> ?v \<Longrightarrow> frame_size_field (buffer (receive bs b)) = frame_size_field (buffer b)"
      "4 \<le> ?v \<Longrightarrow> frame_type_field (buffer (receive bs b)) = frame_type_field (buffer b)"
    using wfs(1) unfolding buf by (simp_all add: frame_size_field_def frame_type_field_def nth_append)
  show "buffer_ready (receive bs b)"
    using assms(1) wf keep le unfolding buffer_ready_def buffer_wf_def
    by (auto simp: same v' lenbuf)
qed

lemma examine_remove_complete:
  assumes "buffer_ready b" and "next_frame (valid_bytes b) = Some (f, r)"
  shows "fst (examineBuffer b) = 0"
    and "current_frame (snd (examineBuffer b)) = f"
    and "valid_bytes (snd (removeMsgFromBuffer past (snd (examineBuffer b)))) = r"
    and "buffer_ready (snd (removeMsgFromBuffer past (snd (examineBuffer b))))"
proof -
  have wf: "buffer_wf b" using assms(1) by (rule buffer_ready_wf)
  have *: "fst (examineBuffer b) = 0 \<and> current_frame (snd (examineBuffer b)) = f \<and>
    valid_bytes (snd (removeMsgFromBuffer past (snd (examineBuffer b)))) = r \<and>
    buffer_ready (snd (removeMsgFromBuffer past (snd (examineBuffer b))))"
  using assms(1)
  proof (cases rule: examine_ready_cases)
    case complete
    let ?c = "b\<lparr>msgLenBytes := frame_size_field (buffer b),
         msgType := frame_type_field (buffer b), bufState := completeMsg,
         msgCounter := msgCounter b + 1\<rparr>"
    have fr: "f = take (unat (frame_size_field (buffer b))) (valid_bytes b)"
      and rr: "r = drop (unat (frame_size_field (buffer b))) (valid_bytes b)"
      using assms(2) complete(1-3) by (simp_all add: next_frame_valid [OF wf])
    have wfc: "buffer_wf ?c" and st: "bufState ?c = completeMsg"
      using wf complete(2) by (simp_all add: buffer_wf_def word_le_nat_alt)
    have vb: "valid_bytes ?c = valid_bytes b" by (simp add: valid_bytes_def)
    have "valid_bytes (snd (removeMsgFromBuffer past ?c)) = r"
      using remove_valid_bytes [OF wfc st, of past] by (simp add: vb rr)
    moreover have "buffer_ready (snd (removeMsgFromBuffer past ?c))"
      using remove_wf [OF wfc, of past] remove_state [OF wfc st, of past]
      by (simp add: buffer_ready_def)
    moreover have "current_frame ?c = f" by (simp add: current_frame_def vb fr)
    ultimately show ?thesis by (simp add: complete(4))
  qed (use assms(2) in simp)
  then show "fst (examineBuffer b) = 0"
    and "current_frame (snd (examineBuffer b)) = f"
    and "valid_bytes (snd (removeMsgFromBuffer past (snd (examineBuffer b)))) = r"
    and "buffer_ready (snd (removeMsgFromBuffer past (snd (examineBuffer b))))"
    by simp_all
qed

lemma examine_incomplete:
  assumes "buffer_ready b" and "next_frame (valid_bytes b) = None"
  shows "fst (examineBuffer b) \<noteq> 0 \<and> buffer_ready (snd (examineBuffer b))"
  using assms(1)
proof (cases rule: examine_ready_cases)
  case complete
  with assms(2) show ?thesis by (simp add: next_frame_valid [OF buffer_ready_wf [OF assms(1)]])
qed simp

interpretation c37: framer examineBuffer "\<lambda>b. snd (removeMsgFromBuffer past b)" receive
  valid_bytes buffer_ready current_frame 1024 for past
  by unfold_locales
    (simp_all add: examine_remove_complete examine_incomplete examineBuffer_frame receive_buffer)

subsection \<open>Properties\<close>

text \<open>
  C9: In a ready buffer, \<open>examineBuffer\<close> returns 0 exactly when the valid bytes begin with a
  complete frame; the frame it reports and the bytes that \<open>removeMsgFromBuffer\<close> then leaves
  are the specification's split of the byte stream, whatever byte lies behind the array, and
  the buffer is ready again in either case.
\<close>

theorem examine_and_remove_split_the_stream:
  assumes "buffer_ready b"
  shows "next_frame (valid_bytes b) =
      (if fst (examineBuffer b) = 0
       then Some (current_frame (snd (examineBuffer b)),
                  valid_bytes (snd (removeMsgFromBuffer past (snd (examineBuffer b)))))
       else None)
    \<and> buffer_ready (if fst (examineBuffer b) = 0
                     then snd (removeMsgFromBuffer past (snd (examineBuffer b)))
                     else snd (examineBuffer b))"
proof (cases "next_frame (valid_bytes b)")
  case None
  with c37.exam_none [OF assms] show ?thesis by simp
next
  case (Some fr)
  then obtain f r where "next_frame (valid_bytes b) = Some (f, r)" by (cases fr) auto
  with c37.exam_frame [OF assms, of f r past] show ?thesis by simp
qed

definition sample_buffer :: c37_buffer where
  "sample_buffer = receive [0xaa, 0x01, 0, 6, 7, 8, 0xaa, 0x01]
     (new_C37_Buffer (replicate 1024 0) 0)"

lemma sample_buffer_ready: "buffer_ready sample_buffer"
  unfolding sample_buffer_def
  by (rule receive_buffer(2)) (simp_all add: new_buffer_ready)

lemma sample_buffer_bytes: "valid_bytes sample_buffer = [0xaa, 0x01, 0, 6, 7, 8, 0xaa, 0x01]"
  unfolding sample_buffer_def
  by (subst receive_buffer(1))
    (simp_all add: new_buffer_ready)

lemma sample_complete:
  "buffer_wf (snd (examineBuffer sample_buffer))"
  "bufState (snd (examineBuffer sample_buffer)) = completeMsg"
  "unat (msgLenBytes (snd (examineBuffer sample_buffer))) = 6"
  "unat (validBufferBytes (snd (examineBuffer sample_buffer))) = 8"
proof -
  have wf: "buffer_wf sample_buffer" using sample_buffer_ready by (rule buffer_ready_wf)
  have v: "unat (validBufferBytes sample_buffer) = 8"
    using length_valid_bytes [OF wf] by (simp add: sample_buffer_bytes)
  have f: "unat (frame_size_field (buffer sample_buffer)) = 6"
    using declared_len_valid [OF wf] v by (simp add: sample_buffer_bytes declared_len_def)
  have "next_frame (valid_bytes sample_buffer) \<noteq> None"
    by (simp add: sample_buffer_bytes next_frame_def declared_len_def)
  with sample_buffer_ready show
    "buffer_wf (snd (examineBuffer sample_buffer))"
    "bufState (snd (examineBuffer sample_buffer)) = completeMsg"
    "unat (msgLenBytes (snd (examineBuffer sample_buffer))) = 6"
    "unat (validBufferBytes (snd (examineBuffer sample_buffer))) = 8"
    by (cases rule: examine_ready_cases; use wf v f in \<open>simp add: buffer_wf_def\<close>)+
qed

theorem examine_and_remove_split_the_stream_witness:
  "fst (examineBuffer sample_buffer) = 0 \<and>
   current_frame (snd (examineBuffer sample_buffer)) = [0xaa, 0x01, 0, 6, 7, 8] \<and>
   valid_bytes (snd (removeMsgFromBuffer 0 (snd (examineBuffer sample_buffer)))) = [0xaa, 0x01]"
proof -
  have "next_frame (valid_bytes sample_buffer) = Some ([0xaa, 0x01, 0, 6, 7, 8], [0xaa, 0x01])"
    by (simp add: sample_buffer_bytes next_frame_def declared_len_def)
  with examine_and_remove_split_the_stream [OF sample_buffer_ready, of 0] show ?thesis
    by (simp split: if_splits)
qed

text \<open>
  \<open>removeC37MsgFromBuffer\<close> and \<open>removeRawMsgFromBuffer\<close> shift the message out exactly
  as \<open>removeMsgFromBuffer\<close> does, but what they copy to the caller is the bytes that follow
  the message, not the message.
\<close>

theorem removeC37Msg_copies_what_follows_the_message:
  assumes "buffer_wf b" and "bufState b = completeMsg" and "1025 \<le> length dataBuf"
  shows "\<exists>d'. removeC37MsgFromBuffer past dataBuf b =
            Some (fst (removeMsgFromBuffer past b), d', snd (removeMsgFromBuffer past b)) \<and>
          removeRawMsgFromBuffer past dataBuf b = removeC37MsgFromBuffer past dataBuf b \<and>
          take (unat (validBufferBytes b) - unat (msgLenBytes b)) d' =
            drop (unat (msgLenBytes b)) (valid_bytes b)"
proof -
  note wf = buffer_wfD [OF assms(1)]
  let ?m = "unat (msgLenBytes b)" and ?v = "unat (validBufferBytes b)"
  have mv: "?m \<le> ?v" using wf(5) assms(2) by simp
  have ok: "\<not> state_is_mangled b"
    using assms(2) wf mv by (auto simp: state_is_mangled_def word_le_nat_alt not_less)
  have v1: "unat (validBufferBytes b + 1) = Suc ?v" using wf(3) by (rule valid_plus_1)
  obtain d' b' where cl: "copy_shift_loop past ?m 0 (Suc ?v) dataBuf (buffer b) = Some (d', b')"
    using copy_shift_loop_defined [of 0 "Suc ?v" ?m dataBuf past "buffer b"] wf(3) assms(3) mv
    by fastforce
  have b': "b' = shift_loop past ?m 0 (Suc ?v) (buffer b)" using cl by (rule copy_shift_loop_buffer)
  have len: "length d' = length dataBuf" using cl by (rule copy_shift_loop_length)
  have "take (?v - ?m) d' = drop ?m (valid_bytes b)"
  proof (rule nth_equalityI)
    show "length (take (?v - ?m) d') = length (drop ?m (valid_bytes b))"
      using len assms(3) wf(1,3) by (simp add: valid_bytes_def)
  next
    fix k assume "k < length (take (?v - ?m) d')"
    then show "take (?v - ?m) d' ! k = drop ?m (valid_bytes b) ! k"
      using copy_shift_loop_data [OF cl, of k] len wf(1,3)
      by (auto simp: valid_bytes_def read_or_past_def add.commute)
  qed
  moreover have "removeC37MsgFromBuffer past dataBuf b =
      Some (fst (removeMsgFromBuffer past b), d', snd (removeMsgFromBuffer past b))"
    using ok cl by (simp add: removeC37MsgFromBuffer_def removeMsgFromBuffer_def v1 b')
  moreover have "removeRawMsgFromBuffer past dataBuf b = removeC37MsgFromBuffer past dataBuf b"
    by (simp add: removeC37MsgFromBuffer_def removeRawMsgFromBuffer_def)
  ultimately show ?thesis by blast
qed

theorem removeC37Msg_copies_what_follows_the_message_witness:
  "\<exists>d'. removeC37MsgFromBuffer 0 (replicate 1100 0) (snd (examineBuffer sample_buffer)) =
      Some (1022, d', snd (removeMsgFromBuffer 0 (snd (examineBuffer sample_buffer)))) \<and>
    take 2 d' = [0xaa, 0x01]"
proof -
  let ?c = "snd (examineBuffer sample_buffer)"
  have nf: "next_frame (valid_bytes sample_buffer) = Some ([0xaa, 0x01, 0, 6, 7, 8], [0xaa, 0x01])"
    by (simp add: sample_buffer_bytes next_frame_def declared_len_def)
  have ex: "fst (examineBuffer sample_buffer) = 0"
    using examine_remove_complete(1) [OF sample_buffer_ready nf] .
  have c: "buffer_wf ?c" "bufState ?c = completeMsg" "unat (msgLenBytes ?c) = 6"
    "unat (validBufferBytes ?c) = 8"
    using sample_complete ex by simp_all
  from removeC37Msg_copies_what_follows_the_message [OF c(1,2), of "replicate 1100 0" 0]
  show ?thesis
    using remove_complete [OF c(1,2), of 0]
    by (simp add: c(3,4) examineBuffer_frame(3) sample_buffer_bytes) blast
qed

end
