(* ===== verification/Config_Frame.thy ===== *)
theory Config_Frame
  imports Sparcs_Prelude
begin

text \<open>
  The configuration frames (types 1 and 2) of C37.118: \<open>C37_CfgDescriptor::parseCfg_msg\<close> in
  \<open>serviceDataDiscovery_C37/C37_CfgDescriptor.{h,cpp}\<close>. The checksum is \<open>boost::crc_basic<16>\<close>
  and enters as the parameter \<open>crc\<close>. The parser indexes the receive array without a bounds
  check of its own, so every read goes through \<open>byte_at\<close>: the outer \<open>None\<close> of
  \<open>parseCfg_msg\<close> is a read outside the array, \<open>Some None\<close> is the null pointer.
  Fields that the code leaves as the allocation had them come from a record of junk values.
\<close>

subsection \<open>The descriptor classes\<close>

type_synonym chan_name = bytes

record phasor_conv_fact =
  pcf_isVoltage :: bool
  pcf_convFact :: u32

record analog_conv_fact =
  acf_measType :: u32
  acf_convFact :: u32

record digital_conv_fact =
  dcf_mask0 :: u32
  dcf_mask1 :: u32

record pmu_metadata =
  stnName :: chan_name
  idCode :: u32
  freqDfreqFloating :: bool
  analogDataFloating :: bool
  phasorDataFloating :: bool
  phasorDataPolar :: bool
  numPhasors :: u32
  numAnalog :: u32
  numDigital :: u32
  phasorChanName :: "chan_name list"
  analogChanName :: "chan_name list"
  digitalChanName :: "chan_name list list"
  phasorCF :: "phasor_conv_fact list"
  analogCF :: "analog_conv_fact list"
  digitalCF :: "digital_conv_fact list"
  fundFreq :: u32
  cfgCnt :: u32

record cfg_data =
  frameType :: u32
  frameLength :: u32
  C37_version :: u32
  dataStreamID :: u32
  timeStamp :: u32
  rawFracSec :: u32
  uSec_FracSec :: u32
  timeQuality :: u32
  timeBase :: u32
  numPMU :: u32
  pmuMetadata :: "pmu_metadata list"
  dataRate :: u32

text \<open>What freshly allocated objects hold in the members that the parser does not set.\<close>

record pmu_junk =
  junk_idCode :: u32
  junk_freqDfreqFloating :: bool
  junk_analogDataFloating :: bool
  junk_phasorDataFloating :: bool
  junk_phasorDataPolar :: bool
  junk_analogCF :: analog_conv_fact
  junk_digitalCF :: digital_conv_fact

subsection \<open>Reading fields\<close>

definition isprint :: "u8 \<Rightarrow> bool" where
  "isprint c \<longleftrightarrow> 0x20 \<le> c \<and> c \<le> 0x7e"

definition u16_at :: "bytes \<Rightarrow> nat \<Rightarrow> u32 option" where
  "u16_at buf i = do { a \<leftarrow> byte_at buf i; b \<leftarrow> byte_at buf (i + 1); Some (be16 a b) }"

text \<open>The \<open>charCounter\<close> loop, which stops at the first unprintable byte or at 16.\<close>

function scan_name :: "bytes \<Rightarrow> nat \<Rightarrow> nat \<Rightarrow> nat option" where
  "scan_name buf idx charCounter =
     (if charCounter < 16 then
        (case byte_at buf (idx + charCounter) of
           None \<Rightarrow> None
         | Some c \<Rightarrow> if \<not> isprint c then Some charCounter
                     else scan_name buf idx (charCounter + 1))
      else Some charCounter)"
  by pat_completeness auto
termination
  by (relation "measure (\<lambda>(buf, idx, k). 16 - k)") auto

declare scan_name.simps [simp del]

definition read_name :: "bytes \<Rightarrow> nat \<Rightarrow> chan_name option" where
  "read_name buf idx = do { n \<leftarrow> scan_name buf idx 0; get_bytes buf idx n }"

text \<open>The channel-name loops: \<open>n\<close> names of 16 bytes, advancing \<open>chnamIndx\<close>.\<close>

primrec read_names :: "bytes \<Rightarrow> nat \<Rightarrow> nat \<Rightarrow> (chan_name list \<times> nat) option" where
  "read_names buf idx 0 = Some ([], idx)"
| "read_names buf idx (Suc n) = do {
     s \<leftarrow> read_name buf idx;
     (ss, idx') \<leftarrow> read_names buf (idx + 16) n;
     Some (s # ss, idx') }"

primrec read_digital_names :: "bytes \<Rightarrow> nat \<Rightarrow> nat \<Rightarrow> (chan_name list list \<times> nat) option" where
  "read_digital_names buf idx 0 = Some ([], idx)"
| "read_digital_names buf idx (Suc n) = do {
     (bits, idx1) \<leftarrow> read_names buf idx 16;
     (ds, idx2) \<leftarrow> read_digital_names buf idx1 n;
     Some (bits # ds, idx2) }"

text \<open>The phasor conversion factors: \<open>phasorCFIndx\<close> is the same in every iteration.\<close>

primrec read_phasorCF :: "bytes \<Rightarrow> nat \<Rightarrow> nat \<Rightarrow> phasor_conv_fact list option" where
  "read_phasorCF buf phasorCFIndx 0 = Some []"
| "read_phasorCF buf phasorCFIndx (Suc n) = do {
     v \<leftarrow> byte_at buf phasorCFIndx;
     b1 \<leftarrow> byte_at buf (phasorCFIndx + 1);
     b2 \<leftarrow> byte_at buf (phasorCFIndx + 2);
     b3 \<leftarrow> byte_at buf (phasorCFIndx + 3);
     cfs \<leftarrow> read_phasorCF buf phasorCFIndx n;
     Some (\<lparr>pcf_isVoltage = (v = 0), pcf_convFact = be24 b1 b2 b3\<rparr> # cfs) }"

subsection \<open>The parser\<close>

text \<open>One iteration of the loop over the PMUs: the metadata and the next \<open>baseIndx\<close>.\<close>

definition parse_pmu :: "pmu_junk \<Rightarrow> bytes \<Rightarrow> nat \<Rightarrow> (pmu_metadata \<times> nat) option" where
  "parse_pmu junk buf baseIndx = do {
     name \<leftarrow> read_name buf baseIndx;
     fmt :: u8 \<leftarrow> byte_at buf (baseIndx + 18 + 1);
     nph \<leftarrow> u16_at buf (baseIndx + 20);
     nan \<leftarrow> u16_at buf (baseIndx + 22);
     ndg \<leftarrow> u16_at buf (baseIndx + 24);
     let chnamIndx = baseIndx + 26;
     let phasorCFIndx = chnamIndx + 16 * (unat nph + unat nan + 16 * unat ndg);
     let analogCFIndx = phasorCFIndx + 4 * unat nph;
     let digitalCFIndx = analogCFIndx + 4 * unat nan;
     let fnomIndx = digitalCFIndx + 4 * unat ndg;
     let cfgCntIndx = fnomIndx + 2;
     (phn, i1) \<leftarrow> read_names buf chnamIndx (unat nph);
     (ann, i2) \<leftarrow> read_names buf i1 (unat nan);
     (dgn, i3) \<leftarrow> read_digital_names buf i2 (unat ndg);
     pcf \<leftarrow> read_phasorCF buf phasorCFIndx (unat nph);
     fn :: u8 \<leftarrow> byte_at buf (fnomIndx + 1);
     cnt \<leftarrow> u16_at buf cfgCntIndx;
     Some (\<lparr>stnName = name, idCode = junk_idCode junk,
            freqDfreqFloating = (fmt AND 0x8 \<noteq> 0 \<or> junk_freqDfreqFloating junk),
            analogDataFloating = (fmt AND 0x4 \<noteq> 0 \<or> junk_analogDataFloating junk),
            phasorDataFloating = (fmt AND 0x2 \<noteq> 0 \<or> junk_phasorDataFloating junk),
            phasorDataPolar = (fmt AND 0x1 \<noteq> 0 \<or> junk_phasorDataPolar junk),
            numPhasors = nph, numAnalog = nan, numDigital = ndg,
            phasorChanName = phn, analogChanName = ann, digitalChanName = dgn,
            phasorCF = pcf, analogCF = replicate (unat nan) (junk_analogCF junk),
            digitalCF = replicate (unat ndg) (junk_digitalCF junk),
            fundFreq = (if fn AND 0x1 = 0 then 60 else 50), cfgCnt = cnt\<rparr>,
           cfgCntIndx + 2) }"

primrec parse_pmus ::
  "(nat \<Rightarrow> pmu_junk) \<Rightarrow> bytes \<Rightarrow> nat \<Rightarrow> nat \<Rightarrow> (pmu_metadata list \<times> nat) option" where
  "parse_pmus junk buf baseIndx 0 = Some ([], baseIndx)"
| "parse_pmus junk buf baseIndx (Suc n) = do {
     (md, baseIndx') \<leftarrow> parse_pmu (junk n) buf baseIndx;
     (mds, baseEnd) \<leftarrow> parse_pmus junk buf baseIndx' n;
     Some (md # mds, baseEnd) }"

definition CFG_1_2_MIN_MSG_LEN :: u32 where "CFG_1_2_MIN_MSG_LEN = 54"

text \<open>
  \<open>pmuMetadata\<close> is a local vector of the parser that hides the descriptor's member of the
  same name; the descriptor keeps its own, empty, one. The last line reads the first byte of
  the data rate twice.
\<close>

definition parseCfg_msg ::
  "(bytes \<Rightarrow> u16) \<Rightarrow> (nat \<Rightarrow> pmu_junk) \<Rightarrow> bytes \<Rightarrow> u32 \<Rightarrow> cfg_data option option" where
  "parseCfg_msg crc junk buf msgLen = do {
     s0 \<leftarrow> byte_at buf 0;
     s1 \<leftarrow> byte_at buf 1;
     if s0 \<noteq> 0xaa \<or> (s1 \<noteq> 0x21 \<and> s1 \<noteq> 0x31) then Some None
     else if msgLen < CFG_1_2_MIN_MSG_LEN then Some None
     else do {
       covered \<leftarrow> get_bytes buf 0 (unat (msgLen - 2));
       msgCksum \<leftarrow> u16_at buf (unat (msgLen - 2));
       if ucast (crc covered) \<noteq> msgCksum then Some None
       else do {
         frame \<leftarrow> get_bytes buf 0 20;
         let npmu = be16 (frame ! 18) (frame ! 19);
         (mds, baseIndx) \<leftarrow> parse_pmus junk buf 20 (unat npmu);
         r \<leftarrow> byte_at buf baseIndx;
         Some (Some
           \<lparr>frameType = drop_bit 4 (ucast (frame ! 1) AND 0x70),
            frameLength = ucast (frame ! 3) + push_bit 8 (ucast (frame ! 2)),
            C37_version = ucast (frame ! 1) AND 0xF,
            dataStreamID = be16 (frame ! 4) (frame ! 5),
            timeStamp = push_bit 24 (ucast (frame ! 6)) + push_bit 16 (ucast (frame ! 7)) +
                        drop_bit 8 (ucast (frame ! 8)) + ucast (frame ! 9),
            rawFracSec = be24 (frame ! 11) (frame ! 12) (frame ! 13),
            uSec_FracSec = 0,
            timeQuality = ucast (frame ! 10),
            timeBase = be32 (frame ! 14) (frame ! 15) (frame ! 16) (frame ! 17),
            numPMU = npmu,
            pmuMetadata = [],
            dataRate = push_bit 8 (ucast r) + ucast r\<rparr>)
       } } }"

subsection \<open>The layout of a configuration frame\<close>

text \<open>
  The specification, by slices of the array: a name field is 16 bytes, of which the
  leading printable ones count; a PMU block has a length that its three counts determine.
\<close>

definition name_field :: "bytes \<Rightarrow> nat \<Rightarrow> chan_name" where
  "name_field buf i = takeWhile isprint (take 16 (drop i buf))"

definition count_at :: "bytes \<Rightarrow> nat \<Rightarrow> nat" where
  "count_at buf i = 256 * unat (buf ! i) + unat (buf ! (i + 1))"

definition pmu_block_len :: "bytes \<Rightarrow> nat \<Rightarrow> nat" where
  "pmu_block_len buf base =
     30 + 20 * count_at buf (base + 20) + 20 * count_at buf (base + 22)
        + 260 * count_at buf (base + 24)"

definition pmu_view :: "pmu_junk \<Rightarrow> bytes \<Rightarrow> nat \<Rightarrow> pmu_metadata" where
  "pmu_view junk buf base =
     (let p = count_at buf (base + 20); a = count_at buf (base + 22); d = count_at buf (base + 24);
          names = base + 26; cf = names + 16 * (p + a + 16 * d);
          fnom = cf + 4 * (p + a + d); fmt = buf ! (base + 19)
      in \<lparr>stnName = name_field buf base, idCode = junk_idCode junk,
          freqDfreqFloating = (fmt AND 0x8 \<noteq> 0 \<or> junk_freqDfreqFloating junk),
          analogDataFloating = (fmt AND 0x4 \<noteq> 0 \<or> junk_analogDataFloating junk),
          phasorDataFloating = (fmt AND 0x2 \<noteq> 0 \<or> junk_phasorDataFloating junk),
          phasorDataPolar = (fmt AND 0x1 \<noteq> 0 \<or> junk_phasorDataPolar junk),
          numPhasors = of_nat p, numAnalog = of_nat a, numDigital = of_nat d,
          phasorChanName = map (\<lambda>k. name_field buf (names + 16 * k)) [0..<p],
          analogChanName = map (\<lambda>k. name_field buf (names + 16 * p + 16 * k)) [0..<a],
          digitalChanName = map (\<lambda>g. map (\<lambda>k. name_field buf
             (names + 16 * p + 16 * a + 256 * g + 16 * k)) [0..<16]) [0..<d],
          phasorCF = replicate p \<lparr>pcf_isVoltage = (buf ! cf = 0),
             pcf_convFact = be24 (buf ! (cf + 1)) (buf ! (cf + 2)) (buf ! (cf + 3))\<rparr>,
          analogCF = replicate a (junk_analogCF junk),
          digitalCF = replicate d (junk_digitalCF junk),
          fundFreq = (if (buf ! (fnom + 1)) AND 0x1 = 0 then 60 else 50),
          cfgCnt = be16 (buf ! (fnom + 2)) (buf ! (fnom + 3))\<rparr>)"

primrec pmu_chain :: "bytes \<Rightarrow> nat \<Rightarrow> nat \<Rightarrow> nat option" where
  "pmu_chain buf base 0 = Some base"
| "pmu_chain buf base (Suc n) =
     (if base + pmu_block_len buf base \<le> length buf
      then pmu_chain buf (base + pmu_block_len buf base) n else None)"

subsection \<open>The loops read the layout\<close>

lemma scan_name_inside:
  assumes "idx + 16 \<le> length buf" and "k \<le> 16"
  shows "scan_name buf idx k
         = Some (k + length (takeWhile isprint (take (16 - k) (drop (idx + k) buf))))"
  using assms
proof (induction buf idx k rule: scan_name.induct)
  case (1 buf idx k)
  show ?case
  proof (cases "k < 16")
    case True
    with "1.prems" have inb: "idx + k < length buf" by simp
    have sl: "take (16 - k) (drop (idx + k) buf)
        = buf ! (idx + k) # take (16 - (k + 1)) (drop (idx + (k + 1)) buf)"
      using True inb by (simp add: Cons_nth_drop_Suc [symmetric] take_Cons')
    have "scan_name buf idx (k + 1)
        = Some (k + 1 + length (takeWhile isprint (take (16 - (k + 1)) (drop (idx + (k + 1)) buf))))"
      if "isprint (buf ! (idx + k))"
      using "1.IH" [OF True byte_at_inside [OF inb]] that "1.prems" True by simp
    with True inb sl show ?thesis
      by (subst scan_name.simps) (simp add: byte_at_def)
  next
    case False
    with "1.prems" show ?thesis by (subst scan_name.simps) simp
  qed
qed

lemma read_name_inside: "idx + 16 \<le> length buf \<Longrightarrow> read_name buf idx = Some (name_field buf idx)"
proof -
  assume *: "idx + 16 \<le> length buf"
  let ?n = "length (takeWhile isprint (take 16 (drop idx buf)))"
  have le: "?n \<le> 16"
    by (rule order_trans [OF length_takeWhile_le]) simp
  have "take ?n (drop idx buf) = take ?n (take 16 (drop idx buf))"
    by (simp only: take_take min_absorb1 [OF le])
  also have "\<dots> = takeWhile isprint (take 16 (drop idx buf))"
    by (rule takeWhile_eq_take [symmetric])
  finally have "take ?n (drop idx buf) = takeWhile isprint (take 16 (drop idx buf))" .
  with * le show ?thesis
    by (simp add: read_name_def scan_name_inside get_bytes_def name_field_def)
qed

lemma read_names_inside:
  "idx + 16 * n \<le> length buf \<Longrightarrow>
   read_names buf idx n = Some (map (\<lambda>k. name_field buf (idx + 16 * k)) [0..<n], idx + 16 * n)"
proof (induction n arbitrary: idx)
  case (Suc n)
  have "map (\<lambda>k. name_field buf (idx + 16 * k)) [0..<Suc n]
      = name_field buf idx # map (\<lambda>k. name_field buf (idx + 16 + 16 * k)) [0..<n]"
    by (simp only: upt_conv_Cons [OF zero_less_Suc] map_Suc_upt [symmetric] list.map map_map)
      (simp add: comp_def add.assoc)
  with Suc show ?case by (simp add: read_name_inside)
qed simp

lemma read_digital_names_inside:
  "idx + 256 * n \<le> length buf \<Longrightarrow>
   read_digital_names buf idx n = Some (map (\<lambda>g. map (\<lambda>k. name_field buf
      (idx + 256 * g + 16 * k)) [0..<16]) [0..<n], idx + 256 * n)"
proof (induction n arbitrary: idx)
  case (Suc n)
  let ?row = "\<lambda>i. map (\<lambda>k. name_field buf (i + 16 * k)) [0..<16]"
  have "map (\<lambda>g. ?row (idx + 256 * g)) [0..<Suc n]
      = ?row idx # map (\<lambda>g. ?row (idx + 256 + 256 * g)) [0..<n]"
    by (simp only: upt_conv_Cons [OF zero_less_Suc] map_Suc_upt [symmetric] list.map map_map)
      (simp add: comp_def add.assoc)
  moreover have "read_names buf idx 16 = Some (?row idx, idx + 256)"
    using read_names_inside [of idx 16 buf] Suc.prems by simp
  moreover have "read_digital_names buf (idx + 256) n
      = Some (map (\<lambda>g. ?row (idx + 256 + 256 * g)) [0..<n], idx + 256 + 256 * n)"
    using Suc.IH [of "idx + 256"] Suc.prems by simp
  ultimately show ?case by (simp del: upt_Suc upt_rec_numeral)
qed simp

lemma read_phasorCF_inside:
  "n = 0 \<or> i + 4 \<le> length buf \<Longrightarrow>
   read_phasorCF buf i n = Some (replicate n \<lparr>pcf_isVoltage = (buf ! i = 0),
      pcf_convFact = be24 (buf ! (i + 1)) (buf ! (i + 2)) (buf ! (i + 3))\<rparr>)"
  by (induction n) (auto simp: byte_at_def)

lemma u16_at_inside:
  "i + 2 \<le> length buf \<Longrightarrow> u16_at buf i = Some (of_nat (count_at buf i))"
  "i + 2 \<le> length buf \<Longrightarrow> u16_at buf i = Some (be16 (buf ! i) (buf ! (i + 1)))"
proof -
  assume *: "i + 2 \<le> length buf"
  then show 1: "u16_at buf i = Some (be16 (buf ! i) (buf ! (i + 1)))"
    by (simp add: u16_at_def byte_at_def)
  have "count_at buf i = unat (be16 (buf ! i) (buf ! (i + 1)))"
    by (simp add: unat_be16 count_at_def)
  then have "be16 (buf ! i) (buf ! (i + 1)) = of_nat (count_at buf i)"
    by (simp only: of_nat_unat ucast_id)
  with 1 show "u16_at buf i = Some (of_nat (count_at buf i))" by simp
qed

lemma unat_count_at: "unat (of_nat (count_at buf i) :: u32) = count_at buf i"
proof -
  have "count_at buf i < 2 ^ 32"
    using u8_less_256 [of "buf ! i"] u8_less_256 [of "buf ! (i + 1)"] by (simp add: count_at_def)
  then show ?thesis by (simp add: unat_of_nat take_bit_eq_mod)
qed

subsection \<open>The parser reads the layout, and nothing outside the array succeeds\<close>

lemma parse_pmu_inside:
  assumes fit: "base + pmu_block_len buf base \<le> length buf"
  shows "parse_pmu junk buf base = Some (pmu_view junk buf base, base + pmu_block_len buf base)"
proof -
  define p where "p = count_at buf (base + 20)"
  define a where "a = count_at buf (base + 22)"
  define d where "d = count_at buf (base + 24)"
  define cf where "cf = base + 26 + 16 * (p + a + 16 * d)"
  define fnom where "fnom = cf + 4 * p + 4 * a + 4 * d"
  have len: "pmu_block_len buf base = 30 + 20 * p + 20 * a + 260 * d"
    by (simp add: pmu_block_len_def p_def a_def d_def)
  have fnom_end: "fnom + 4 = base + pmu_block_len buf base"
    by (simp add: len fnom_def cf_def)
  have 1: "read_name buf base = Some (name_field buf base)"
    using fit len by (intro read_name_inside) simp
  have 2: "byte_at buf (base + 18 + 1) = Some (buf ! (base + 19))"
    using fit len by (simp add: byte_at_def add.commute)
  have 3: "u16_at buf (base + 20) = Some (of_nat p)" "u16_at buf (base + 22) = Some (of_nat a)"
    "u16_at buf (base + 24) = Some (of_nat d)"
    unfolding p_def a_def d_def using fit len by (simp_all add: u16_at_inside(1))
  have 4: "unat (of_nat p :: u32) = p" "unat (of_nat a :: u32) = a" "unat (of_nat d :: u32) = d"
    unfolding p_def a_def d_def by (rule unat_count_at)+
  have 5: "read_names buf (base + 26) p
      = Some (map (\<lambda>k. name_field buf (base + 26 + 16 * k)) [0..<p], base + 26 + 16 * p)"
    using fit len by (intro read_names_inside) simp
  have 6: "read_names buf (base + 26 + 16 * p) a
      = Some (map (\<lambda>k. name_field buf (base + 26 + 16 * p + 16 * k)) [0..<a],
              base + 26 + 16 * p + 16 * a)"
    using fit len by (intro read_names_inside) simp
  have 7: "read_digital_names buf (base + 26 + 16 * p + 16 * a) d
      = Some (map (\<lambda>g. map (\<lambda>k. name_field buf (base + 26 + 16 * p + 16 * a + 256 * g + 16 * k))
                 [0..<16]) [0..<d], base + 26 + 16 * p + 16 * a + 256 * d)"
    using fit len by (intro read_digital_names_inside) simp
  have 8: "read_phasorCF buf cf p = Some (replicate p \<lparr>pcf_isVoltage = (buf ! cf = 0),
      pcf_convFact = be24 (buf ! (cf + 1)) (buf ! (cf + 2)) (buf ! (cf + 3))\<rparr>)"
    using fit len by (intro read_phasorCF_inside) (simp add: cf_def)
  have 9: "byte_at buf (fnom + 1) = Some (buf ! (fnom + 1))"
    using fit fnom_end by (simp add: byte_at_def)
  have 10: "u16_at buf (fnom + 2) = Some (be16 (buf ! (fnom + 2)) (buf ! (fnom + 2 + 1)))"
    using fit fnom_end by (intro u16_at_inside(2)) simp
  have fnom': "cf + 4 * (p + a + d) = fnom" by (simp add: fnom_def)
  have three: "fnom + 2 + 1 = fnom + 3" by simp
  show ?thesis
    unfolding parse_pmu_def Let_def 3 4 1 2 Option.bind.simps
      5 6 7 prod.case cf_def [symmetric] 8 fnom_def [symmetric] 9 10
    unfolding pmu_view_def Let_def p_def [symmetric] a_def [symmetric] d_def [symmetric]
      cf_def [symmetric] fnom' three
    using fnom_end by simp
qed

lemma parse_pmu_outside:
  assumes "length buf < base + pmu_block_len buf base"
  shows "parse_pmu junk buf base = None"
proof (rule ccontr)
  assume "parse_pmu junk buf base \<noteq> None"
  then obtain nph nan ndg where
    counts: "u16_at buf (base + 20) = Some nph" "u16_at buf (base + 22) = Some nan"
      "u16_at buf (base + 24) = Some ndg"
    and cnt: "u16_at buf (base + 26 + 16 * (unat nph + unat nan + 16 * unat ndg) + 4 * unat nph
      + 4 * unat nan + 4 * unat ndg + 2) \<noteq> None"
    by (auto simp: parse_pmu_def Let_def bind_eq_Some)
  have "base + 26 \<le> length buf" using counts(3) by (auto simp: u16_at_def bind_eq_Some)
  then have "unat nph = count_at buf (base + 20)" "unat nan = count_at buf (base + 22)"
    "unat ndg = count_at buf (base + 24)"
    using counts by (auto simp: u16_at_inside(1) unat_count_at)
  with cnt assms show False by (auto simp: u16_at_def bind_eq_Some pmu_block_len_def)
qed

lemma parse_pmu_spec:
  "parse_pmu junk buf base =
     (if base + pmu_block_len buf base \<le> length buf
      then Some (pmu_view junk buf base, base + pmu_block_len buf base) else None)"
  by (simp add: parse_pmu_inside parse_pmu_outside)

lemma parse_pmus_chain:
  "map_option snd (parse_pmus junk buf base n) = pmu_chain buf base n"
proof (induction n arbitrary: base)
  case (Suc n)
  show ?case
    using Suc [of "base + pmu_block_len buf base"]
    by (cases "parse_pmus junk buf (base + pmu_block_len buf base) n")
      (auto simp: parse_pmu_spec)
qed simp

subsection \<open>What a frame yields\<close>

definition cfg_accepted :: "(bytes \<Rightarrow> u16) \<Rightarrow> bytes \<Rightarrow> nat \<Rightarrow> bool" where
  "cfg_accepted crc buf n \<longleftrightarrow>
     buf ! 0 = 0xaa \<and> (buf ! 1 = 0x21 \<or> buf ! 1 = 0x31) \<and> 54 \<le> n \<and>
     unat (crc (take (n - 2) buf)) = count_at buf (n - 2)"

definition cfg_view :: "bytes \<Rightarrow> nat \<Rightarrow> cfg_data" where
  "cfg_view buf e =
     \<lparr>frameType = drop_bit 4 (ucast (buf ! 1) AND 0x70),
      frameLength = be16 (buf ! 2) (buf ! 3),
      C37_version = ucast (buf ! 1) AND 0xF,
      dataStreamID = be16 (buf ! 4) (buf ! 5),
      timeStamp = push_bit 24 (ucast (buf ! 6)) + push_bit 16 (ucast (buf ! 7)) + ucast (buf ! 9),
      rawFracSec = be24 (buf ! 11) (buf ! 12) (buf ! 13),
      uSec_FracSec = 0, timeQuality = ucast (buf ! 10),
      timeBase = be32 (buf ! 14) (buf ! 15) (buf ! 16) (buf ! 17),
      numPMU = be16 (buf ! 18) (buf ! 19),
      pmuMetadata = [], dataRate = be16 (buf ! e) (buf ! e)\<rparr>"

lemma drop_bit_8_u8: "drop_bit 8 (ucast (x :: u8) :: u32) = 0"
  by (rule bit_word_eqI) (auto simp: bit_simps dest: bit_imp_le_length)

lemma be16_fold:
  "push_bit 8 (ucast a) + ucast b = be16 a b" "ucast b + push_bit 8 (ucast a) = be16 a b"
  by (simp_all add: be16_def add.commute)

lemma crc_eq_iff: "(ucast (c :: u16) :: u32) = of_nat (count_at buf i) \<longleftrightarrow> unat c = count_at buf i"
proof -
  have "unat c < 65536" using unsigned_less [of c] by simp
  then have "unat (ucast c :: u32) = unat c"
    by (simp add: unsigned_ucast_eq take_bit_eq_mod)
  then show ?thesis using unat_count_at [of buf i] by (metis word_unat_eq_iff)
qed

lemma parseCfg_cases:
  assumes "length buf = 1024" and "unat msgLen \<le> 1024"
  shows "parseCfg_msg crc junk buf msgLen =
    (if \<not> cfg_accepted crc buf (unat msgLen) then Some None
     else (case pmu_chain buf 20 (count_at buf 18) of
             None \<Rightarrow> None
           | Some e \<Rightarrow> if e < 1024 then Some (Some (cfg_view buf e)) else None))"
proof (cases "buf ! 0 = 0xaa \<and> (buf ! 1 = 0x21 \<or> buf ! 1 = 0x31) \<and> 54 \<le> unat msgLen")
  case False
  with assms show ?thesis
    by (auto simp: parseCfg_msg_def byte_at_def cfg_accepted_def CFG_1_2_MIN_MSG_LEN_def
        word_less_nat_alt)
next
  case True
  have sub: "unat (msgLen - 2) = unat msgLen - 2"
    using True by (intro unat_minus_le [where b = 2, simplified]) (simp add: word_le_nat_alt)
  have crc: "get_bytes buf 0 (unat (msgLen - 2)) = Some (take (unat msgLen - 2) buf)"
    using assms True by (simp add: get_bytes_def sub)
  have ck: "u16_at buf (unat (msgLen - 2)) = Some (of_nat (count_at buf (unat msgLen - 2)))"
    unfolding sub using assms True by (intro u16_at_inside(1)) simp
  have hdr: "get_bytes buf 0 20 = Some (take 20 buf)" using assms by (simp add: get_bytes_def)
  have npmu: "unat (be16 (buf ! 18) (buf ! 19)) = count_at buf 18"
    by (simp add: unat_be16 count_at_def)
  have chain: "pmu_chain buf 20 (count_at buf 18)
      = map_option snd (parse_pmus junk buf 20 (count_at buf 18))"
    by (rule parse_pmus_chain [symmetric])
  have nl: "\<not> msgLen < CFG_1_2_MIN_MSG_LEN"
    using True by (simp add: CFG_1_2_MIN_MSG_LEN_def word_less_nat_alt)
  have bytes01: "byte_at buf 0 = Some (buf ! 0)" "byte_at buf 1 = Some (buf ! 1)"
    using assms by (simp_all add: byte_at_def)
  have hdr_ok: "\<not> (buf ! 0 \<noteq> 0xaa \<or> (buf ! 1 \<noteq> 0x21 \<and> buf ! 1 \<noteq> 0x31))" using True by blast
  have acc: "cfg_accepted crc buf (unat msgLen) \<longleftrightarrow>
      unat (crc (take (unat msgLen - 2) buf)) = count_at buf (unat msgLen - 2)"
    using True by (simp add: cfg_accepted_def)
  show ?thesis
  proof (cases "parse_pmus junk buf 20 (count_at buf 18)")
    case None
    then show ?thesis
      unfolding parseCfg_msg_def bytes01 Option.bind.simps if_not_P [OF hdr_ok] if_not_P [OF nl]
        crc ck hdr acc chain crc_eq_iff
      by (simp add: npmu)
  next
    case (Some r)
    then show ?thesis
      unfolding parseCfg_msg_def bytes01 Option.bind.simps if_not_P [OF hdr_ok] if_not_P [OF nl]
        crc ck hdr acc chain crc_eq_iff
      by (simp add: npmu byte_at_def assms(1) cfg_view_def drop_bit_8_u8 be16_fold split: prod.split)
  qed
qed

text \<open>
  C19: For a message in the 1024-byte receive array, the parser returns a descriptor exactly
  when sync word, type, minimal length and checksum are right, and what it returns is the
  view of the fixed fields, with an empty PMU list and a data rate made of one byte used
  twice; it reads outside the array exactly when the counts of the PMU blocks lead there.
\<close>

theorem parseCfg_msg_outcome:
  assumes "length buf = 1024" and "unat msgLen \<le> 1024"
  shows "parseCfg_msg crc junk buf msgLen =
    (if \<not> cfg_accepted crc buf (unat msgLen) then Some None
     else (case pmu_chain buf 20 (count_at buf 18) of
             None \<Rightarrow> None
           | Some e \<Rightarrow> if e < 1024 then Some (Some (cfg_view buf e)) else None))"
  by (rule parseCfg_cases [OF assms])

text \<open>
  When the PMU blocks of a frame end inside it, the parser depends on the bytes of the frame
  only, not on what the array holds behind it.
\<close>

definition cfg_inside :: "(bytes \<Rightarrow> u16) \<Rightarrow> bytes \<Rightarrow> bool" where
  "cfg_inside crc f \<longleftrightarrow> (cfg_accepted crc f (length f) \<longrightarrow>
     (case pmu_chain f 20 (count_at f 18) of None \<Rightarrow> False | Some e \<Rightarrow> e < length f))"

definition cfg_of_frame :: "(bytes \<Rightarrow> u16) \<Rightarrow> bytes \<Rightarrow> cfg_data option" where
  "cfg_of_frame crc f =
     (if cfg_accepted crc f (length f) then map_option (cfg_view f) (pmu_chain f 20 (count_at f 18)) else None)"

lemma count_at_prefix: "i + 1 < length f \<Longrightarrow> count_at (f @ x) i = count_at f i"
  by (simp add: count_at_def nth_append)

lemma pmu_chain_mono: "pmu_chain f base n = Some e \<Longrightarrow> base \<le> e"
  by (induction n arbitrary: base) (fastforce split: if_splits)+

lemma pmu_chain_prefix: "pmu_chain f base n = Some e \<Longrightarrow> pmu_chain (f @ x) base n = Some e"
proof (induction n arbitrary: base)
  case (Suc n)
  from Suc.prems have fit: "base + pmu_block_len f base \<le> length f"
    and rest: "pmu_chain f (base + pmu_block_len f base) n = Some e" by (simp_all split: if_splits)
  have "30 \<le> pmu_block_len f base" by (simp add: pmu_block_len_def)
  then have "pmu_block_len (f @ x) base = pmu_block_len f base"
    using fit by (simp add: pmu_block_len_def count_at_prefix)
  with fit Suc.IH [OF rest] show ?case by simp
qed simp

lemma cfg_accepted_prefix:
  assumes "4 \<le> length f"
  shows "cfg_accepted crc (f @ x) (length f) \<longleftrightarrow> cfg_accepted crc f (length f)"
  using assms by (cases "54 \<le> length f") (auto simp: cfg_accepted_def nth_append count_at_prefix)

lemma cfg_view_prefix: "20 \<le> length f \<Longrightarrow> e < length f \<Longrightarrow> cfg_view (f @ x) e = cfg_view f e"
  by (simp add: cfg_view_def nth_append)

lemma parseCfg_frame:
  assumes "length buf = 1024" "unat msgLen \<le> 1024" "take (unat msgLen) buf = f" "4 \<le> unat msgLen" "cfg_inside crc f"
  shows "parseCfg_msg crc junk buf msgLen = Some (cfg_of_frame crc f)"
proof -
  define x where "x = drop (unat msgLen) buf"
  have buf: "buf = f @ x" using assms(3) append_take_drop_id [of "unat msgLen" buf] by (simp add: x_def)
  have n: "unat msgLen = length f" using assms(1-3) by auto
  note acc = cfg_accepted_prefix [of f crc x]
  show ?thesis
  proof (cases "cfg_accepted crc f (length f)")
    case False
    then show ?thesis using parseCfg_cases [OF assms(1,2), of crc junk] acc assms(4)
      by (simp add: n buf cfg_of_frame_def)
  next
    case True
    then have len: "54 \<le> length f" by (simp add: cfg_accepted_def)
    from True assms(5) obtain e where e: "pmu_chain f 20 (count_at f 18) = Some e" "e < length f"
      by (auto simp: cfg_inside_def split: option.splits)
    have "count_at buf 18 = count_at f 18" using len by (simp add: buf count_at_prefix)
    then have "parseCfg_msg crc junk buf msgLen = Some (Some (cfg_view f e))"
      using parseCfg_cases [OF assms(1,2), of crc junk] acc assms(2,4) True len e pmu_chain_prefix [OF e(1), of x]
        cfg_view_prefix [of f e x] by (simp add: n buf)
    then show ?thesis using True e by (simp add: cfg_of_frame_def)
  qed
qed

subsection \<open>Reading back a PMU block laid out as the standard lays it out\<close>

definition wire16 :: "u32 \<Rightarrow> bytes" where
  "wire16 w = [ucast (drop_bit 8 w), ucast w]"

definition pad16 :: "chan_name \<Rightarrow> bytes" where
  "pad16 nm = nm @ replicate (16 - length nm) 0"

definition wire_format :: "pmu_metadata \<Rightarrow> u8" where
  "wire_format md = (if freqDfreqFloating md then 8 else 0) OR (if analogDataFloating md then 4 else 0)
     OR (if phasorDataFloating md then 2 else 0) OR (if phasorDataPolar md then 1 else 0)"

definition wire_phasorCF :: "phasor_conv_fact \<Rightarrow> bytes" where
  "wire_phasorCF cf = [if pcf_isVoltage cf then 0 else 1, ucast (drop_bit 16 (pcf_convFact cf)),
     ucast (drop_bit 8 (pcf_convFact cf)), ucast (pcf_convFact cf)]"

definition wire_analogCF :: "analog_conv_fact \<Rightarrow> bytes" where
  "wire_analogCF cf = [ucast (acf_measType cf), ucast (drop_bit 16 (acf_convFact cf)),
     ucast (drop_bit 8 (acf_convFact cf)), ucast (acf_convFact cf)]"

definition wire_digitalCF :: "digital_conv_fact \<Rightarrow> bytes" where
  "wire_digitalCF cf = wire16 (dcf_mask0 cf) @ wire16 (dcf_mask1 cf)"

definition pmu_names :: "pmu_metadata \<Rightarrow> chan_name list" where
  "pmu_names md = phasorChanName md @ analogChanName md @ concat (digitalChanName md)"

definition wire_pmu :: "pmu_metadata \<Rightarrow> bytes" where
  "wire_pmu md =
     (pad16 (stnName md) @ wire16 (idCode md) @ [0, wire_format md] @
      wire16 (numPhasors md) @ wire16 (numAnalog md) @ wire16 (numDigital md)) @
     concat (map pad16 (pmu_names md)) @
     concat (map wire_phasorCF (phasorCF md)) @ concat (map wire_analogCF (analogCF md)) @
     concat (map wire_digitalCF (digitalCF md)) @
     [0, if fundFreq md = 50 then 1 else 0] @ wire16 (cfgCnt md)"

definition name_ok :: "chan_name \<Rightarrow> bool" where
  "name_ok nm \<longleftrightarrow> length nm \<le> 16 \<and> list_all isprint nm"

definition pmu_wf :: "pmu_metadata \<Rightarrow> bool" where
  "pmu_wf md \<longleftrightarrow>
     name_ok (stnName md) \<and> list_all name_ok (pmu_names md) \<and>
     list_all (\<lambda>bits. length bits = 16) (digitalChanName md) \<and>
     unat (numPhasors md) < 65536 \<and> unat (numAnalog md) < 65536 \<and> unat (numDigital md) < 65536 \<and>
     length (phasorChanName md) = unat (numPhasors md) \<and> length (phasorCF md) = unat (numPhasors md) \<and>
     length (analogChanName md) = unat (numAnalog md) \<and> length (analogCF md) = unat (numAnalog md) \<and>
     length (digitalChanName md) = unat (numDigital md) \<and> length (digitalCF md) = unat (numDigital md) \<and>
     list_all (\<lambda>cf. unat (pcf_convFact cf) < 16777216) (phasorCF md) \<and>
     fundFreq md \<in> {50, 60} \<and> unat (cfgCnt md) < 65536"

lemma length_wire [simp]:
  "length (wire16 w) = 2" "length (wire_phasorCF p) = 4" "length (wire_analogCF a) = 4"
  "length (wire_digitalCF d) = 4"
  by (simp_all add: wire16_def wire_phasorCF_def wire_analogCF_def wire_digitalCF_def)

lemma length_pad16: "name_ok nm \<Longrightarrow> length (pad16 nm) = 16"
  by (simp add: pad16_def name_ok_def)

lemma bit_high_zero: "unat (w :: u32) < 2 ^ k \<Longrightarrow> k \<le> n \<Longrightarrow> \<not> bit w n"
proof -
  assume *: "unat w < 2 ^ k" "k \<le> n"
  have "unat w < 2 ^ n" using *(1) power_increasing [OF *(2), of "2 :: nat"] by linarith
  then have "\<not> bit (unat w) n" by (simp add: bit_iff_odd)
  then show ?thesis by (simp add: bit_unsigned_iff)
qed

lemma be16_wire16: "unat w < 65536 \<Longrightarrow> be16 (wire16 w ! 0) (wire16 w ! 1) = w"
proof (rule bit_word_eqI)
  fix n assume "unat w < 65536" "n < LENGTH(32)"
  then have "bit w n \<Longrightarrow> n < 16" using bit_high_zero [of w 16 n] by force
  then show "bit (be16 (wire16 w ! 0) (wire16 w ! 1)) n = bit w n"
    unfolding be16_def wire16_def
    by (subst disjunctive_add; cases "n < 8") (auto simp: bit_simps dest: bit_imp_le_length)
qed

lemma be24_split:
  "unat w < 16777216 \<Longrightarrow> be24 (ucast (drop_bit 16 w)) (ucast (drop_bit 8 w)) (ucast w) = w"
proof (rule bit_word_eqI)
  fix n assume "unat w < 16777216" "n < LENGTH(32)"
  then have lt: "bit w n \<Longrightarrow> n < 24" using bit_high_zero [of w 24 n] by force
  show "bit (be24 (ucast (drop_bit 16 w)) (ucast (drop_bit 8 w)) (ucast w)) n = bit w n"
    unfolding be24_def
    by (subst disjunctive_add; (subst disjunctive_add)?; cases "n < 8"; cases "n < 16")
      (use lt in \<open>auto simp: bit_simps dest: bit_imp_le_length\<close>)
qed

lemma name_field_append: "name_field (pre @ s) (length pre + i) = name_field s i"
  by (simp add: name_field_def)

lemma name_field_append_le:
  "length pre \<le> i \<Longrightarrow> name_field (pre @ s) i = name_field s (i - length pre)"
  using name_field_append [of pre s "i - length pre"] by simp

lemma isprint_0: "\<not> isprint 0"
  by (simp add: isprint_def)

lemma name_field_pad: "name_ok nm \<Longrightarrow> name_field (pad16 nm @ r) 0 = nm"
proof -
  assume ok: "name_ok nm"
  then have "take 16 (pad16 nm @ r) = nm @ replicate (16 - length nm) 0"
    by (simp add: pad16_def name_ok_def)
  moreover have "takeWhile isprint (replicate k 0) = []" for k
    by (cases k) (simp_all add: isprint_0)
  ultimately show ?thesis
    using ok by (simp add: name_field_def name_ok_def list_all_iff takeWhile_append2)
qed

lemma name_field_names:
  "list_all name_ok ns \<Longrightarrow> k < length ns \<Longrightarrow>
   name_field (concat (map pad16 ns) @ r) (16 * k) = ns ! k"
proof (induction ns arbitrary: k)
  case (Cons n ns)
  show ?case
  proof (cases k)
    case 0
    with Cons.prems show ?thesis by (simp add: name_field_pad)
  next
    case (Suc m)
    with Cons show ?thesis
      using name_field_append [of "pad16 n" "concat (map pad16 ns) @ r" "16 * m"]
      by (simp add: length_pad16 add.commute)
  qed
qed simp

lemma length_pad_names: "list_all name_ok ns \<Longrightarrow> length (concat (map pad16 ns)) = 16 * length ns"
  by (induction ns) (simp_all add: length_pad16)

lemma length_concat_const: "list_all (\<lambda>xs. length xs = n) xss \<Longrightarrow> length (concat xss) = n * length xss"
  by (induction xss) simp_all

lemma nth_concat_const:
  "list_all (\<lambda>xs. length xs = n) xss \<Longrightarrow> g < length xss \<Longrightarrow> k < n \<Longrightarrow>
   concat xss ! (n * g + k) = xss ! g ! k"
proof (induction xss arbitrary: g)
  case (Cons xs xss)
  show ?case
  proof (cases g)
    case 0
    with Cons.prems show ?thesis by (simp add: nth_append)
  next
    case (Suc m)
    have "concat (xs # xss) ! (n * g + k) = concat xss ! (n * m + k)"
      using Cons.prems(1) Suc by (simp add: nth_append)
    with Cons Suc show ?thesis by simp
  qed
qed simp

lemma map_nth_append_slice:
  assumes "length xs = n" and "\<And>k. k < n \<Longrightarrow> f k = (pre @ xs @ post) ! (length pre + k)"
  shows "map f [0..<n] = xs"
  using assms by (intro nth_equalityI) (simp_all add: nth_append)

lemma wire_format_bits:
  "(wire_format md AND 8 \<noteq> 0) = freqDfreqFloating md"
  "(wire_format md AND 4 \<noteq> 0) = analogDataFloating md"
  "(wire_format md AND 2 \<noteq> 0) = phasorDataFloating md"
  "(wire_format md AND 1 \<noteq> 0) = phasorDataPolar md"
  by (cases "freqDfreqFloating md"; cases "analogDataFloating md"; cases "phasorDataFloating md";
      cases "phasorDataPolar md"; simp add: wire_format_def)+

lemma hd_concat_phasorCF:
  "cfs \<noteq> [] \<Longrightarrow> i < 4 \<Longrightarrow> (concat (map wire_phasorCF cfs) @ r) ! i = wire_phasorCF (hd cfs) ! i"
  by (cases cfs) (simp_all add: nth_append)

definition as_read_back :: "pmu_junk \<Rightarrow> pmu_metadata \<Rightarrow> pmu_metadata" where
  "as_read_back junk md = md\<lparr>idCode := junk_idCode junk,
     freqDfreqFloating := (freqDfreqFloating md \<or> junk_freqDfreqFloating junk),
     analogDataFloating := (analogDataFloating md \<or> junk_analogDataFloating junk),
     phasorDataFloating := (phasorDataFloating md \<or> junk_phasorDataFloating junk),
     phasorDataPolar := (phasorDataPolar md \<or> junk_phasorDataPolar junk),
     phasorCF := replicate (length (phasorCF md)) (hd (phasorCF md)),
     analogCF := replicate (length (analogCF md)) (junk_analogCF junk),
     digitalCF := replicate (length (digitalCF md)) (junk_digitalCF junk)\<rparr>"

definition wire_head :: "pmu_metadata \<Rightarrow> bytes" where
  "wire_head md = pad16 (stnName md) @ wire16 (idCode md) @ [0, wire_format md] @
      wire16 (numPhasors md) @ wire16 (numAnalog md) @ wire16 (numDigital md)"

definition wire_tail :: "pmu_metadata \<Rightarrow> bytes" where
  "wire_tail md = concat (map wire_phasorCF (phasorCF md)) @ concat (map wire_analogCF (analogCF md)) @
      concat (map wire_digitalCF (digitalCF md)) @
      [0, if fundFreq md = 50 then 1 else 0] @ wire16 (cfgCnt md)"

lemma wire_pmu_parts: "wire_pmu md = wire_head md @ concat (map pad16 (pmu_names md)) @ wire_tail md"
  by (simp add: wire_pmu_def wire_head_def wire_tail_def)

lemma pmu_wfD:
  assumes "pmu_wf md"
  shows "name_ok (stnName md)" "list_all name_ok (pmu_names md)"
    "list_all (\<lambda>bits. length bits = 16) (digitalChanName md)"
    "unat (numPhasors md) < 65536" "unat (numAnalog md) < 65536" "unat (numDigital md) < 65536"
    "length (phasorChanName md) = unat (numPhasors md)" "length (phasorCF md) = unat (numPhasors md)"
    "length (analogChanName md) = unat (numAnalog md)" "length (analogCF md) = unat (numAnalog md)"
    "length (digitalChanName md) = unat (numDigital md)" "length (digitalCF md) = unat (numDigital md)"
    "list_all (\<lambda>cf. unat (pcf_convFact cf) < 16777216) (phasorCF md)"
    "fundFreq md = 50 \<or> fundFreq md = 60" "unat (cfgCnt md) < 65536"
    "length (pmu_names md)
       = unat (numPhasors md) + unat (numAnalog md) + 16 * unat (numDigital md)"
  using assms length_concat_const [of 16 "digitalChanName md"]
  by (auto simp: pmu_wf_def pmu_names_def)

lemma count_wire16: "unat w < 65536 \<Longrightarrow> 256 * unat (wire16 w ! 0) + unat (wire16 w ! Suc 0) = unat w"
  using unat_be16 [of "wire16 w ! 0" "wire16 w ! 1"] be16_wire16 [of w] by simp

lemma wire_head_facts:
  assumes "pmu_wf md"
  shows "length (wire_head md) = 26" "wire_head md ! 19 = wire_format md"
    "count_at (wire_head md @ r) 20 = unat (numPhasors md)"
    "count_at (wire_head md @ r) 22 = unat (numAnalog md)"
    "count_at (wire_head md @ r) 24 = unat (numDigital md)"
    "name_field (wire_head md @ r) 0 = stnName md"
  using pmu_wfD [OF assms] length_pad16 [of "stnName md"]
    name_field_pad [of "stnName md" "drop 16 (wire_head md) @ r"]
  by (simp_all add: wire_head_def nth_append count_at_def count_wire16)

lemma length_concat_4: "(\<And>x. length (f x) = 4) \<Longrightarrow> length (concat (map f xs)) = 4 * length xs"
  by (induction xs) simp_all

lemma wire_tail_facts:
  assumes "pmu_wf md"
  defines "n \<equiv> 4 * (unat (numPhasors md) + unat (numAnalog md) + unat (numDigital md))"
  shows "length (wire_tail md) = n + 4"
    "(wire_tail md @ r) ! (n + 1) = (if fundFreq md = 50 then 1 else 0)"
    "be16 ((wire_tail md @ r) ! (n + 2)) ((wire_tail md @ r) ! (n + 3)) = cfgCnt md"
    "phasorCF md \<noteq> [] \<Longrightarrow> i < 4 \<Longrightarrow>
      (wire_tail md @ r) ! i = wire_phasorCF (hd (phasorCF md)) ! i"
proof -
  let ?C = "concat (map wire_phasorCF (phasorCF md)) @ concat (map wire_analogCF (analogCF md)) @
      concat (map wire_digitalCF (digitalCF md))"
  note wf = pmu_wfD [OF assms(1)]
  have tail: "wire_tail md @ r
      = ?C @ [0, if fundFreq md = 50 then 1 else 0] @ wire16 (cfgCnt md) @ r"
    by (simp add: wire_tail_def)
  have len: "length ?C = n"
    using wf by (simp add: n_def length_concat_4)
  then show "length (wire_tail md) = n + 4"
    by (simp add: wire_tail_def)
  have at: "(?C @ s) ! (n + i) = s ! i" for s i
    unfolding len [symmetric] by (rule nth_append_length_plus)
  show "(wire_tail md @ r) ! (n + 1) = (if fundFreq md = 50 then 1 else 0)"
    unfolding tail at by simp
  show "be16 ((wire_tail md @ r) ! (n + 2)) ((wire_tail md @ r) ! (n + 3)) = cfgCnt md"
    unfolding tail at using be16_wire16 [OF wf(15)] by (simp add: nth_append)
  show "(wire_tail md @ r) ! i = wire_phasorCF (hd (phasorCF md)) ! i"
    if "phasorCF md \<noteq> []" "i < 4"
    unfolding wire_tail_def append_assoc using that by (rule hd_concat_phasorCF)
qed

lemma name_at_wire:
  assumes "pmu_wf md" and "k < length (pmu_names md)" and "i = length pre + 26 + 16 * k"
  shows "name_field (pre @ wire_pmu md @ post) i = pmu_names md ! k"
proof -
  have "name_field (pre @ wire_pmu md @ post) i
      = name_field (concat (map pad16 (pmu_names md)) @ wire_tail md @ post) (16 * k)"
    using name_field_append [of "pre @ wire_head md"
        "concat (map pad16 (pmu_names md)) @ wire_tail md @ post" "16 * k"]
      wire_head_facts(1) [OF assms(1)]
    by (simp add: wire_pmu_parts assms(3))
  with name_field_names [OF pmu_wfD(2) [OF assms(1)] assms(2)] show ?thesis by simp
qed

lemma names_of_groups:
  assumes "pmu_wf md"
  shows "map ((!) (pmu_names md)) [0..<unat (numPhasors md)] = phasorChanName md"
    and "map (\<lambda>k. pmu_names md ! (unat (numPhasors md) + k)) [0..<unat (numAnalog md)]
         = analogChanName md"
    and "map (\<lambda>g. map (\<lambda>k. pmu_names md ! (unat (numPhasors md) + unat (numAnalog md)
           + (16 * g + k))) [0..<16]) [0..<unat (numDigital md)] = digitalChanName md"
proof -
  note wf = pmu_wfD [OF assms]
  show "map ((!) (pmu_names md)) [0..<unat (numPhasors md)] = phasorChanName md"
    using wf by (intro nth_equalityI) (simp_all add: pmu_names_def nth_append)
  show "map (\<lambda>k. pmu_names md ! (unat (numPhasors md) + k)) [0..<unat (numAnalog md)]
      = analogChanName md"
    using wf by (intro nth_equalityI) (simp_all add: pmu_names_def nth_append)
  have "pmu_names md ! (unat (numPhasors md) + unat (numAnalog md) + i)
      = concat (digitalChanName md) ! i" for i
    using wf(7,9) by (simp add: pmu_names_def nth_append flip: wf(7,9))
  then show "map (\<lambda>g. map (\<lambda>k. pmu_names md ! (unat (numPhasors md) + unat (numAnalog md)
      + (16 * g + k))) [0..<16]) [0..<unat (numDigital md)] = digitalChanName md"
    using wf(3,11) nth_concat_const [OF wf(3)]
    by (intro nth_equalityI) (auto simp: list_all_iff intro!: nth_equalityI)
qed

text \<open>
  C12: A PMU block laid out as the standard lays it out is read back at any position of the
  array, name for name and count for count, and the parser stops at the byte behind it. What
  is lost: the ID code, the flags that are off (they keep the allocation's junk), the analog
  and digital conversion factors, and every phasor conversion factor but the first, which is
  repeated.
\<close>

theorem parse_pmu_reads_wire_pmu:
  assumes "pmu_wf md"
  shows "parse_pmu junk (pre @ wire_pmu md @ post) (length pre)
         = Some (as_read_back junk md, length pre + length (wire_pmu md))"
proof -
  let ?buf = "pre @ wire_pmu md @ post" and ?b = "length pre"
  note wf = pmu_wfD [OF assms] and hd = wire_head_facts [OF assms] and tl = wire_tail_facts [OF assms]
  define p where "p = unat (numPhasors md)"
  define a where "a = unat (numAnalog md)"
  define d where "d = unat (numDigital md)"
  let ?N = "concat (map pad16 (pmu_names md))"
  have lenN: "length ?N = 16 * (p + a + 16 * d)"
    using wf(2,16) by (simp add: length_pad_names p_def a_def d_def)
  have split1: "?buf = pre @ (wire_head md @ (?N @ wire_tail md @ post))"
    and split2: "?buf = (pre @ wire_head md @ ?N) @ (wire_tail md @ post)"
    by (simp_all add: wire_pmu_parts)
  have counts: "count_at ?buf (?b + 20) = p" "count_at ?buf (?b + 22) = a"
      "count_at ?buf (?b + 24) = d"
    unfolding p_def a_def d_def hd(3-5) [of "?N @ wire_tail md @ post", symmetric] split1
    by (simp_all add: count_at_def nth_append)
  have len: "pmu_block_len ?buf ?b = length (wire_pmu md)"
    unfolding pmu_block_len_def counts using tl(1) lenN hd(1)
    by (simp add: wire_pmu_parts p_def a_def d_def)
  have name: "name_field ?buf ?b = stnName md"
    unfolding split1 using name_field_append [of pre _ 0] hd(6) by simp
  have fmt: "?buf ! (?b + 19) = wire_format md"
    unfolding split1 using hd(1,2) by (simp add: nth_append)
  define cf where "cf = ?b + 26 + 16 * (p + a + 16 * d)"
  have cfpre: "length (pre @ wire_head md @ ?N) = cf"
    using lenN hd(1) by (simp add: cf_def)
  have at: "?buf ! (cf + i) = (wire_tail md @ post) ! i" for i
    unfolding split2 cfpre [symmetric] by (rule nth_append_length_plus)
  have groups:
    "map (\<lambda>k. name_field ?buf (?b + 26 + 16 * k)) [0..<p] = phasorChanName md"
    "map (\<lambda>k. name_field ?buf (?b + 26 + 16 * p + 16 * k)) [0..<a] = analogChanName md"
    "map (\<lambda>g. map (\<lambda>k. name_field ?buf (?b + 26 + 16 * p + 16 * a + 256 * g + 16 * k))
       [0..<16]) [0..<d] = digitalChanName md"
    unfolding names_of_groups(1) [OF assms, symmetric] names_of_groups(2) [OF assms, symmetric]
      names_of_groups(3) [OF assms, symmetric] p_def a_def d_def
    using wf(16) by (auto simp: algebra_simps intro!: name_at_wire [OF assms])
  have cfs: "replicate p \<lparr>pcf_isVoltage = (?buf ! cf = 0), pcf_convFact = be24 (?buf ! (cf + 1))
      (?buf ! (cf + 2)) (?buf ! (cf + 3))\<rparr> = replicate p (hd (phasorCF md))"
  proof (cases "p = 0")
    case False
    then have ne: "phasorCF md \<noteq> []" using wf(8) by (auto simp: p_def)
    have ok: "unat (pcf_convFact (hd (phasorCF md))) < 16777216"
      using wf(13) ne by (cases "phasorCF md") simp_all
    show ?thesis
      using at [of 0] at [of 1] at [of 2] at [of 3] tl(4) [OF ne] be24_split [OF ok]
      by (simp add: wire_phasorCF_def)
  qed simp
  have tail: "?buf ! (cf + 4 * (p + a + d) + 1) = (if fundFreq md = 50 then 1 else 0)"
    "be16 (?buf ! (cf + 4 * (p + a + d) + 2)) (?buf ! (cf + 4 * (p + a + d) + 3)) = cfgCnt md"
    using at [of "4 * (p + a + d) + 1"] at [of "4 * (p + a + d) + 2"] at [of "4 * (p + a + d) + 3"]
      tl(2,3)
    by (simp_all add: p_def a_def d_def add.assoc)
  have freq: "(if (if fundFreq md = 50 then 1 else 0 :: u8) AND 0x1 = 0 then 60 else 50) = fundFreq md"
    using wf(14) by auto
  have "pmu_view junk ?buf ?b = as_read_back junk md"
    unfolding pmu_view_def Let_def counts cf_def [symmetric] cfs tail fmt freq name groups
      wire_format_bits
    using wf(8,10,12)
    by (cases md) (simp add: as_read_back_def p_def a_def d_def)
  then show ?thesis
    using len by (simp add: parse_pmu_spec)
qed

text \<open>A PMU with two phasors, and a configuration frame that lists no PMU.\<close>

definition sample_pmu :: pmu_metadata where
  "sample_pmu =
     \<lparr>stnName = [0x50, 0x4d, 0x55], idCode = 7, freqDfreqFloating = True,
      analogDataFloating = False, phasorDataFloating = True, phasorDataPolar = True,
      numPhasors = 2, numAnalog = 0, numDigital = 0,
      phasorChanName = [[0x56, 0x41], [0x49, 0x41]], analogChanName = [], digitalChanName = [],
      phasorCF = [\<lparr>pcf_isVoltage = True, pcf_convFact = 1000\<rparr>,
                  \<lparr>pcf_isVoltage = False, pcf_convFact = 50\<rparr>],
      analogCF = [], digitalCF = [], fundFreq = 50, cfgCnt = 3\<rparr>"

definition sample_junk :: pmu_junk where
  "sample_junk =
     \<lparr>junk_idCode = 0xdeadbeef, junk_freqDfreqFloating = False, junk_analogDataFloating = True,
      junk_phasorDataFloating = False, junk_phasorDataPolar = False,
      junk_analogCF = \<lparr>acf_measType = 0, acf_convFact = 0\<rparr>,
      junk_digitalCF = \<lparr>dcf_mask0 = 0, dcf_mask1 = 0\<rparr>\<rparr>"

lemma sample_pmu_wf: "pmu_wf sample_pmu"
  by (simp add: sample_pmu_def pmu_wf_def pmu_names_def name_ok_def isprint_def)

theorem parse_pmu_reads_wire_pmu_witness:
  "\<exists>md. parse_pmu sample_junk ([1, 2] @ wire_pmu sample_pmu @ []) 2 = Some (md, 72) \<and>
     phasorChanName md = phasorChanName sample_pmu \<and> idCode md = 0xdeadbeef \<and>
     phasorCF md = replicate 2 \<lparr>pcf_isVoltage = True, pcf_convFact = 1000\<rparr>"
proof -
  have len: "2 + length (wire_pmu sample_pmu) = 72"
    by (simp add: wire_pmu_def sample_pmu_def pmu_names_def pad16_def)
  have "parse_pmu sample_junk ([1, 2] @ wire_pmu sample_pmu @ []) 2
      = Some (as_read_back sample_junk sample_pmu, 72)"
    using parse_pmu_reads_wire_pmu [OF sample_pmu_wf, of sample_junk "[1, 2]" "[]"] len
    by (simp add: numeral_2_eq_2)
  then show ?thesis
    by (simp add: as_read_back_def sample_pmu_def sample_junk_def numeral_2_eq_2)
qed

definition sample_cfg_buffer :: bytes where
  "sample_cfg_buffer = [0xaa, 0x21, 0, 54, 0, 1, 0x58, 0xf4, 0x32, 0xc9, 0, 0, 0, 0, 0, 0x0f,
     0x42, 0x40, 0, 0, 0x12] @ replicate 1003 0"

theorem parseCfg_msg_outcome_witness:
  "\<exists>cfg. parseCfg_msg (\<lambda>_. 0) (\<lambda>_. sample_junk) sample_cfg_buffer 54 = Some (Some cfg) \<and>
     pmuMetadata cfg = [] \<and> timeBase cfg = 1000000 \<and> timeStamp cfg = 0x58f400c9 \<and>
     dataRate cfg = 0x1212"
proof -
  have len: "length sample_cfg_buffer = 1024" by (simp add: sample_cfg_buffer_def)
  have cnt: "count_at sample_cfg_buffer 18 = 0" "count_at sample_cfg_buffer 52 = 0"
    by (simp_all add: count_at_def sample_cfg_buffer_def)
  have acc: "cfg_accepted (\<lambda>_. 0) sample_cfg_buffer 54"
    using cnt by (simp add: cfg_accepted_def) (simp add: sample_cfg_buffer_def)
  have "parseCfg_msg (\<lambda>_. 0) (\<lambda>_. sample_junk) sample_cfg_buffer 54
      = Some (Some (cfg_view sample_cfg_buffer 20))"
    using parseCfg_msg_outcome [OF len, of 54 "\<lambda>_. 0" "\<lambda>_. sample_junk"] acc cnt by simp
  then show ?thesis
    by (simp add: cfg_view_def sample_cfg_buffer_def be16_def be32_def push_bit_eq_mult)
qed

end
