(* ===== verification/Reformat.thy ===== *)
theory Reformat
  imports Frame_Buffer
begin

text \<open>
  Regrouping of data frames into one-second buffers: \<open>C37_Reformat\<close> in
  \<open>serviceDataDiscovery_C37/C37_Reformat.{h,cpp}\<close>, with the record layout of
  \<open>oneSecDataFormat.h\<close> and the frame length of \<open>C37_inputDesc.h\<close>. The class is a two-state
  machine: it first learns the number of samples of a second (\<open>syncToSec\<close>), then saves the
  samples of each second and emits them as one buffer (\<open>fillBuffer\<close>).

  \<open>None\<close> is an access outside an array: \<open>fracSecValues\<close> has 512 elements, and the result of
  \<open>malloc\<close> has room for \<open>sampleCnt\<close> records. The bytes that \<open>malloc\<close> returns and those
  that lie behind a heap block are parameters. Each event that is saved writes four bytes behind its
  block: where \<open>behind\<close> has fewer than four bytes the result is \<open>None\<close>, and what the
  lemmas say of saved events is said of a heap in which four bytes follow the block.
\<close>

subsection \<open>The class\<close>

datatype reformat_states = syncToSec | fillBuffer

record reformat =
  currentState :: reformat_states
  syncStarted :: bool
  sampleCntValid :: bool
  sampleCnt :: u16
  currentSampleCnt :: u16
  previousSec :: u32
  presentSec :: u32
  fracSecValues :: "u32 list"
  C37eventBuf :: "bytes list"
  nonStdC37events :: u64
  syncToSecAborts :: u64
  missingC37events :: u64
  extendedMissingC37events :: u64
  C37eventSequenceFailures :: u64
  processedC37_1sec_Buffers :: u64

definition new_C37_Reformat :: "u32 list \<Rightarrow> reformat" where
  "new_C37_Reformat mem =
     \<lparr>currentState = syncToSec, syncStarted = False, sampleCntValid = False, sampleCnt = 0,
      currentSampleCnt = 0, previousSec = 0, presentSec = 0, fracSecValues = mem,
      C37eventBuf = [], nonStdC37events = 0, syncToSecAborts = 0, missingC37events = 0,
      extendedMissingC37events = 0, C37eventSequenceFailures = 0,
      processedC37_1sec_Buffers = 0\<rparr>"

definition C37_DATUM_TYPICAL_LEN :: u32 where "C37_DATUM_TYPICAL_LEN = 74"
definition SECBLK_LEN_BYTES :: nat where "SECBLK_LEN_BYTES = 60"

subsection \<open>Saving an event\<close>

text \<open>
  The block is the message length plus 4 bytes. The length is stored as 64 bits, then
  the message is copied to offset 4, with a byte count that is 4 more than the message, so
  the last four bytes go behind the block:
  the first component is the block, the second what is then behind it.
\<close>

definition saved_block :: "bytes \<Rightarrow> c37_buffer \<Rightarrow> (bytes \<times> bytes) option" where
  "saved_block behind C37buf = do {
     let n = unat (msgLenBytes C37buf + 4);
     let tBuf0 = replicate n 0 @ behind;
     tBuf1 \<leftarrow> put_bytes tBuf0 0 (le32_bytes (msgLenBytes C37buf) @ [0, 0, 0, 0]);
     src \<leftarrow> get_bytes (buffer C37buf) 0 n;
     tBuf2 \<leftarrow> put_bytes tBuf1 4 src;
     Some (take n tBuf2, drop n tBuf2) }"

definition saveC37event :: "bytes \<Rightarrow> c37_buffer \<Rightarrow> reformat \<Rightarrow> reformat option" where
  "saveC37event behind C37buf st = do {
     (tBuf, _) \<leftarrow> saved_block behind C37buf;
     Some (st\<lparr>C37eventBuf := C37eventBuf st @ [tBuf]\<rparr>) }"

subsection \<open>Emitting a second\<close>

primrec copy_phasors :: "bytes \<Rightarrow> nat \<Rightarrow> nat \<Rightarrow> bytes \<Rightarrow> nat \<Rightarrow> bytes option" where
  "copy_phasors pin i p32 out 0 = Some out"
| "copy_phasors pin i p32 out (Suc n) = do {
     w \<leftarrow> get_bytes pin (16 + i * 4) 4;
     out' \<leftarrow> put_bytes out p32 w;
     copy_phasors pin (i + 1) (p32 + 4) out' n }"

text \<open>One record of the output; \<open>p32\<close> is the byte offset of the output pointer.\<close>

definition emit_event :: "bytes \<Rightarrow> bytes \<Rightarrow> nat \<Rightarrow> bytes option" where
  "emit_event pin out p32 = do {
     out1 \<leftarrow> put_bytes out p32 (le16_bytes (of_nat SECBLK_LEN_BYTES));
     l \<leftarrow> byte_at pin (10 + 3);
     out2 \<leftarrow> put_bytes out1 (p32 + 2) (le16_bytes (ucast l));
     soc \<leftarrow> get_bytes pin 6 4;
     out3 \<leftarrow> put_bytes out2 (p32 + 4) soc;
     fsec \<leftarrow> get_bytes pin 10 4;
     out4 \<leftarrow> put_bytes out3 (p32 + 8) fsec;
     copy_phasors pin 0 (p32 + 12) out4 12 }"

primrec emit_events :: "bytes list \<Rightarrow> bytes \<Rightarrow> nat \<Rightarrow> bytes option" where
  "emit_events [] out p32 = Some out"
| "emit_events (pin # pins) out p32 = do {
     out' \<leftarrow> emit_event pin out p32;
     emit_events pins out' (p32 + 60) }"

definition processEventBuffer :: "(nat \<Rightarrow> bytes) \<Rightarrow> reformat \<Rightarrow> (reformat \<times> bytes) option" where
  "processEventBuffer malloc st = do {
     let resultingBufByteLen = SECBLK_LEN_BYTES * unat (sampleCnt st) + 4;
     let tBuf = malloc resultingBufByteLen;
     tBuf1 \<leftarrow> put_bytes tBuf 0 (le32_bytes (of_nat resultingBufByteLen));
     tBuf2 \<leftarrow> emit_events (C37eventBuf st) tBuf1 4;
     Some (st\<lparr>C37eventBuf := []\<rparr>, tBuf2) }"

subsection \<open>One event\<close>

text \<open>The search loop of the last branch: the index at which it stops.\<close>

function search_frac :: "u32 \<Rightarrow> u32 list \<Rightarrow> nat \<Rightarrow> nat \<Rightarrow> nat option" where
  "search_frac fracSec vals i n =
     (if i < n then
        (if i < length vals then
           (if fracSec = vals ! i then Some i else search_frac fracSec vals (i + 1) n)
         else None)
      else Some i)"
  by pat_completeness auto
termination
  by (relation "measure (\<lambda>(f, vals, i, n). n - i)") auto

declare search_frac.simps [simp del]

definition abort_sync :: "reformat \<Rightarrow> reformat" where
  "abort_sync st = st\<lparr>syncStarted := False, sampleCnt := 0,
     syncToSecAborts := syncToSecAborts st + 1\<rparr>"

text \<open>
  The condition \<open>(sec = presentSec + 1) && (fracSec == 0)\<close> assigns: from there on, \<open>sec\<close>
  is the successor of \<open>presentSec\<close>, and the condition's first half says it is not zero.
\<close>

definition sync_event :: "bytes \<Rightarrow> u32 \<Rightarrow> u32 \<Rightarrow> c37_buffer \<Rightarrow> reformat \<Rightarrow> reformat option" where
  "sync_event behind fracSec sec C37buf st =
     (if \<not> syncStarted st then
        (if fracSec = 0
         then Some (st\<lparr>syncStarted := True, fracSecValues := (fracSecValues st)[0 := 0],
                       presentSec := sec, sampleCnt := 1\<rparr>)
         else Some st)
      else
        (let sec' = presentSec st + 1 in
         if sec' \<noteq> 0 \<and> fracSec = 0 then
           (if unat (sampleCnt st) mod 10 = 0 then do {
              st1 \<leftarrow> saveC37event behind C37buf
                (st\<lparr>sampleCntValid := True, currentState := fillBuffer, C37eventBuf := []\<rparr>);
              Some (st1\<lparr>currentSampleCnt := 1, previousSec := presentSec st1,
                        presentSec := sec'\<rparr>) }
            else Some (abort_sync st))
         else if sec' < presentSec st then Some (abort_sync st)
         else if unat (sampleCnt st) < length (fracSecValues st)
         then Some (st\<lparr>fracSecValues := (fracSecValues st)[unat (sampleCnt st) := fracSec],
                       sampleCnt := sampleCnt st + 1\<rparr>)
         else None))"

definition fill_event ::
  "(nat \<Rightarrow> bytes) \<Rightarrow> bytes \<Rightarrow> u32 \<Rightarrow> u32 \<Rightarrow> c37_buffer \<Rightarrow> reformat \<Rightarrow>
   (reformat \<times> bytes list) option" where
  "fill_event malloc behind fracSec sec C37buf st =
     (if sec = presentSec st \<and> fracSec \<noteq> 0 then do {
        st1 \<leftarrow> saveC37event behind C37buf st;
        if unat (currentSampleCnt st1) < length (fracSecValues st1)
        then Some (st1\<lparr>currentSampleCnt := currentSampleCnt st1 + 1\<rparr>, [])
        else None }
      else if sec = presentSec st + 1 \<and> fracSec = 0 then do {
        let st1 = (if currentSampleCnt st \<noteq> sampleCnt st
                   then st\<lparr>missingC37events := missingC37events st + 1\<rparr> else st);
        (st2, out) \<leftarrow> processEventBuffer malloc
           (st1\<lparr>processedC37_1sec_Buffers := processedC37_1sec_Buffers st1 + 1\<rparr>);
        st3 \<leftarrow> saveC37event behind C37buf st2;
        Some (st3\<lparr>currentSampleCnt := 1, previousSec := presentSec st3, presentSec := sec\<rparr>,
              [out]) }
      else do {
        let st1 = st\<lparr>extendedMissingC37events := extendedMissingC37events st + 1,
                     previousSec := presentSec st, presentSec := sec\<rparr>;
        i \<leftarrow> search_frac fracSec (fracSecValues st1) 0 (unat (sampleCnt st1));
        Some (if i = unat (sampleCnt st1)
              then (st1\<lparr>currentState := syncToSec, syncStarted := False, sampleCnt := 0,
                       C37eventSequenceFailures := C37eventSequenceFailures st1 + 1\<rparr>, [])
              else (st1\<lparr>currentSampleCnt := of_nat i + 1\<rparr>, [])) })"

text \<open>The result carries the one-second buffers that the event causes to be offered.\<close>

definition processC37event ::
  "(nat \<Rightarrow> bytes) \<Rightarrow> bytes \<Rightarrow> u32 \<Rightarrow> u32 \<Rightarrow> c37_buffer \<Rightarrow> reformat \<Rightarrow>
   (reformat \<times> bytes list) option" where
  "processC37event malloc behind fracSec sec C37buf st =
     (if msgLenBytes C37buf \<noteq> C37_DATUM_TYPICAL_LEN
      then Some (st\<lparr>nonStdC37events := nonStdC37events st + 1\<rparr>, [])
      else (case currentState st of
              syncToSec \<Rightarrow> map_option (\<lambda>st'. (st', [])) (sync_event behind fracSec sec C37buf st)
            | fillBuffer \<Rightarrow> fill_event malloc behind fracSec sec C37buf st))"

subsection \<open>The layout of a saved event and of an output record\<close>

lemma put_put_adjacent:
  "Option.bind (put_bytes buf i xs) (\<lambda>b. put_bytes b (i + length xs) ys) = put_bytes buf i (xs @ ys)"
proof (cases "i + length xs + length ys \<le> length buf")
  case True
  then show ?thesis by (simp add: put_bytes_def ac_simps min_absorb2)
next
  case False
  then show ?thesis by (auto simp: put_bytes_def)
qed

lemma put_bytes_Nil: "i \<le> length buf \<Longrightarrow> put_bytes buf i [] = Some buf"
  by (simp add: put_bytes_def)

definition frame_of :: "c37_buffer \<Rightarrow> bytes" where
  "frame_of b = take 74 (buffer b)"

definition data_event :: "c37_buffer \<Rightarrow> bool" where
  "data_event b \<longleftrightarrow> msgLenBytes b = C37_DATUM_TYPICAL_LEN \<and> length (buffer b) = 1024"

definition event_block :: "bytes \<Rightarrow> bytes" where
  "event_block f = le32_bytes C37_DATUM_TYPICAL_LEN @ f"

definition record_of :: "bytes \<Rightarrow> bytes" where
  "record_of pin = [60, 0, pin ! 13, 0] @ take 4 (drop 6 pin) @ take 4 (drop 10 pin) @
     take 48 (drop 16 pin)"

lemma length_record_of: "64 \<le> length pin \<Longrightarrow> length (record_of pin) = 60"
  by (simp add: record_of_def)

lemma saved_block_spec:
  assumes "data_event b" and "length behind = 4"
  shows "saved_block behind b = Some (event_block (frame_of b), take 4 (drop 74 (buffer b)))"
proof -
  have n: "unat (msgLenBytes b + 4) = 78" and len: "length (buffer b) = 1024"
    using assms(1) by (simp_all add: data_event_def C37_DATUM_TYPICAL_LEN_def)
  have split78: "take 78 (buffer b) = take 74 (buffer b) @ take 4 (drop 74 (buffer b))"
    using take_add [of 74 4 "buffer b"] by simp
  have "put_bytes (replicate 78 0 @ behind) 0 (le32_bytes 74 @ [0, 0, 0, 0])
      = Some (le32_bytes 74 @ [0, 0, 0, 0] @ replicate 70 0 @ behind)"
    by (simp add: put_bytes_def)
  moreover have "put_bytes (le32_bytes 74 @ [0, 0, 0, 0] @ replicate 70 0 @ behind) 4
        (take 78 (buffer b)) = Some (le32_bytes 74 @ take 78 (buffer b))"
    using assms(2) len by (simp add: put_bytes_def)
  ultimately show ?thesis
    using assms(1) len n
    by (simp add: saved_block_def get_bytes_def data_event_def C37_DATUM_TYPICAL_LEN_def
        event_block_def frame_of_def split78)
qed

text \<open>With less than four bytes behind the block, the copy leaves the memory.\<close>

lemma saved_block_short:
  assumes "data_event b" and "length behind < 4"
  shows "saved_block behind b = None"
proof -
  have n: "unat (msgLenBytes b + 4) = 78" and len: "length (buffer b) = 1024"
    using assms(1) by (simp_all add: data_event_def C37_DATUM_TYPICAL_LEN_def)
  show ?thesis
    using assms(2) by (simp add: saved_block_def n put_bytes_def get_bytes_def len)
qed

lemma saveC37event_short:
  "data_event b \<Longrightarrow> length behind < 4 \<Longrightarrow> saveC37event behind b st = None"
  by (simp add: saveC37event_def saved_block_short)

lemma saveC37event_spec:
  "data_event b \<Longrightarrow> length behind = 4 \<Longrightarrow>
   saveC37event behind b st
     = Some (st\<lparr>C37eventBuf := C37eventBuf st @ [event_block (frame_of b)]\<rparr>)"
  by (simp add: saveC37event_def saved_block_spec)

lemma copy_phasors_spec:
  "16 + 4 * i + 4 * n \<le> length pin \<Longrightarrow> p \<le> length out \<Longrightarrow>
   copy_phasors pin i p out n = put_bytes out p (take (4 * n) (drop (16 + 4 * i) pin))"
proof (induction n arbitrary: i p out)
  case 0
  then show ?case by (simp add: put_bytes_Nil)
next
  case (Suc n)
  let ?w = "take 4 (drop (16 + 4 * i) pin)"
  have lw: "length ?w = 4" using Suc.prems by simp
  have w: "get_bytes pin (16 + i * 4) 4 = Some ?w"
    using Suc.prems by (simp add: get_bytes_def mult.commute)
  have split: "take (4 * Suc n) (drop (16 + 4 * i) pin)
      = ?w @ take (4 * n) (drop (16 + 4 * (i + 1)) pin)"
    using take_add [of 4 "4 * n" "drop (16 + 4 * i) pin"] by (simp add: algebra_simps)
  show ?case
  proof (cases "put_bytes out p ?w")
    case None
    then show ?thesis unfolding split by (simp add: w None put_bytes_def split: if_splits)
  next
    case (Some out')
    have fits: "p + 4 \<le> length out" "length out' = length out"
      using Some lw put_bytes_length [OF Some] by (auto simp: put_bytes_def split: if_splits)
    have "copy_phasors pin i p out (Suc n)
        = put_bytes out' (p + length ?w) (take (4 * n) (drop (16 + 4 * (i + 1)) pin))"
      using Suc.IH [of "i + 1" "p + 4" out'] Suc.prems fits by (simp add: w Some lw)
    then show ?thesis
      unfolding split put_put_adjacent [symmetric] by (simp add: Some)
  qed
qed

lemma emit_event_spec:
  assumes "64 \<le> length pin" and "p \<le> length out"
  shows "emit_event pin out p = put_bytes out p (record_of pin)"
proof -
  let ?a = "le16_bytes 60" and ?b = "le16_bytes (ucast (pin ! 13))" and ?c = "take 4 (drop 6 pin)"
    and ?d = "take 4 (drop 10 pin)" and ?e = "take 48 (drop 16 pin)"
  have ab: "[60, 0, pin ! 13, 0] = ?a @ ?b"
  proof -
    have "drop_bit 8 (ucast (pin ! 13) :: u16) = 0"
      by (rule bit_word_eqI) (auto simp: bit_simps dest: bit_imp_le_length)
    moreover have "ucast (ucast (pin ! 13) :: u16) = pin ! 13"
      by (rule bit_word_eqI) (auto simp: bit_simps dest: bit_imp_le_length)
    ultimately show ?thesis by (simp add: le16_bytes_def)
  qed
  have rec: "record_of pin = ((((?a @ ?b) @ ?c) @ ?d) @ ?e)"
    by (simp only: record_of_def ab append_assoc)
  have parts: "byte_at pin (10 + 3) = Some (pin ! 13)" "get_bytes pin 6 4 = Some ?c"
    "get_bytes pin 10 4 = Some ?d"
    using assms(1) by (simp_all add: byte_at_def get_bytes_def)
  have ph: "copy_phasors pin 0 (p + 12) o4 12 = put_bytes o4 (p + 12) ?e" if "p + 12 \<le> length o4" for o4
    using copy_phasors_spec [of 0 12 pin "p + 12" o4] assms(1) that by simp
  have fin: "Option.bind (put_bytes o3 (p + 8) ?d) (\<lambda>o4. copy_phasors pin 0 (p + 12) o4 12)
      = Option.bind (put_bytes o3 (p + 8) ?d) (\<lambda>o4. put_bytes o4 (p + 12) ?e)" for o3
    using assms(1) ph by (cases "put_bytes o3 (p + 8) ?d")
      (auto simp: put_bytes_def split: if_splits)
  have lens: "length (?a @ ?b) = 4" "length ((?a @ ?b) @ ?c) = 8" "length (((?a @ ?b) @ ?c) @ ?d) = 12"
    using assms(1) by simp_all
  show ?thesis
    unfolding emit_event_def parts Option.bind.simps fin rec SECBLK_LEN_BYTES_def
    using put_put_adjacent [of out p ?a ?b] put_put_adjacent [of out p "?a @ ?b" ?c]
      put_put_adjacent [of out p "(?a @ ?b) @ ?c" ?d]
      put_put_adjacent [of out p "((?a @ ?b) @ ?c) @ ?d" ?e]
    unfolding lens by (simp add: Option.bind_assoc flip: bind_assoc)
qed

lemma emit_events_spec:
  "list_all (\<lambda>pin. 64 \<le> length pin) pins \<Longrightarrow> p \<le> length out \<Longrightarrow>
   emit_events pins out p = put_bytes out p (concat (map record_of pins))"
proof (induction pins arbitrary: p out)
  case Nil
  then show ?case by (simp add: put_bytes_Nil)
next
  case (Cons pin pins)
  then have len: "length (record_of pin) = 60" by (simp add: length_record_of)
  show ?case
  proof (cases "put_bytes out p (record_of pin)")
    case None
    then have "put_bytes out p (record_of pin @ concat (map record_of pins)) = None"
      by (simp add: put_bytes_eq_None_iff)
    with Cons.prems None show ?thesis by (simp add: emit_event_spec)
  next
    case (Some out')
    then have "p + 60 \<le> length out'"
      using put_bytes_length [OF Some] len by (auto simp: put_bytes_def split: if_splits)
    then have "emit_events (pin # pins) out p
        = put_bytes out' (p + length (record_of pin)) (concat (map record_of pins))"
      using Cons Some by (simp add: emit_event_spec len)
    then show ?thesis
      using put_put_adjacent [of out p "record_of pin" "concat (map record_of pins)"] Some by simp
  qed
qed

lemma length_records:
  "list_all (\<lambda>pin. 64 \<le> length pin) pins \<Longrightarrow>
   length (concat (map record_of pins)) = 60 * length pins"
  by (induction pins) (simp_all add: length_record_of)

text \<open>The emitted buffer: its length, the records, and what \<open>malloc\<close> left behind them.\<close>

definition second_buffer :: "(nat \<Rightarrow> bytes) \<Rightarrow> nat \<Rightarrow> bytes list \<Rightarrow> bytes" where
  "second_buffer malloc n pins =
     le32_bytes (of_nat (60 * n + 4)) @ concat (map record_of pins) @
     drop (60 * length pins + 4) (malloc (60 * n + 4))"

lemma processEventBuffer_spec:
  assumes "\<And>n. length (malloc n) = n"
    and "list_all (\<lambda>pin. 64 \<le> length pin) (C37eventBuf st)"
  shows "processEventBuffer malloc st =
    (if length (C37eventBuf st) \<le> unat (sampleCnt st)
     then Some (st\<lparr>C37eventBuf := []\<rparr>,
                second_buffer malloc (unat (sampleCnt st)) (C37eventBuf st))
     else None)"
proof -
  let ?n = "60 * unat (sampleCnt st) + 4"
  let ?R = "concat (map record_of (C37eventBuf st))"
  have hd: "put_bytes (malloc ?n) 0 (le32_bytes (of_nat ?n))
      = Some (le32_bytes (of_nat ?n) @ drop 4 (malloc ?n))"
    using assms(1) by (simp add: put_bytes_def)
  have "emit_events (C37eventBuf st) (le32_bytes (of_nat ?n) @ drop 4 (malloc ?n)) 4
      = put_bytes (le32_bytes (of_nat ?n) @ drop 4 (malloc ?n)) 4 ?R"
    using assms by (intro emit_events_spec) simp_all
  then show ?thesis
    using assms(1) length_records [OF assms(2)] hd
    by (auto simp: processEventBuffer_def SECBLK_LEN_BYTES_def put_bytes_def second_buffer_def
        add.commute)
qed

lemma record_of_event_block:
  assumes "length f = 74"
  shows "record_of (event_block f) =
    [60, 0, f ! 9, 0] @ take 4 (drop 2 f) @ take 4 (drop 6 f) @ take 48 (drop 12 f)"
  using assms by (simp add: record_of_def event_block_def nth_append)

lemma length_event_block: "length (event_block f) = length f + 4"
  by (simp add: event_block_def)

lemma length_frame_of: "data_event b \<Longrightarrow> length (frame_of b) = 74"
  by (simp add: data_event_def frame_of_def)

subsection \<open>A second's worth of events\<close>

type_synonym event = "u32 \<times> u32 \<times> c37_buffer"

primrec process_events ::
  "(nat \<Rightarrow> bytes) \<Rightarrow> bytes \<Rightarrow> event list \<Rightarrow> reformat \<Rightarrow> (reformat \<times> bytes list) option" where
  "process_events malloc behind [] st = Some (st, [])"
| "process_events malloc behind (ev # evs) st = do {
     (st1, out1) \<leftarrow> (case ev of (fracSec, sec, b) \<Rightarrow> processC37event malloc behind fracSec sec b st);
     (st2, out2) \<leftarrow> process_events malloc behind evs st1;
     Some (st2, out1 @ out2) }"

lemma process_events_append:
  "process_events malloc behind (evs @ evs') st = do {
     (st1, out1) \<leftarrow> process_events malloc behind evs st;
     (st2, out2) \<leftarrow> process_events malloc behind evs' st1;
     Some (st2, out1 @ out2) }"
  by (induction evs arbitrary: st)
    (auto simp: split: option.splits prod.splits bind_splits)

definition sample_event :: "u32 \<Rightarrow> event \<Rightarrow> bool" where
  "sample_event s ev \<longleftrightarrow> (case ev of (fracSec, sec, b) \<Rightarrow> fracSec \<noteq> 0 \<and> sec = s \<and> data_event b)"

definition event_frame :: "event \<Rightarrow> bytes" where
  "event_frame ev = frame_of (snd (snd ev))"

lemma fill_sample_step:
  assumes "currentState st = fillBuffer" and "sample_event (presentSec st) ev"
    and "unat (currentSampleCnt st) < length (fracSecValues st)" and "length behind = 4"
  shows "(case ev of (fracSec, sec, b) \<Rightarrow> processC37event malloc behind fracSec sec b st)
    = Some (st\<lparr>C37eventBuf := C37eventBuf st @ [event_block (event_frame ev)],
              currentSampleCnt := currentSampleCnt st + 1\<rparr>, [])"
  using assms
  by (cases ev) (simp add: sample_event_def processC37event_def data_event_def fill_event_def
      saveC37event_spec event_frame_def)

lemma fill_samples:
  assumes "currentState st = fillBuffer" and "list_all (sample_event (presentSec st)) evs"
    and "unat (currentSampleCnt st) + length evs \<le> 512"
    and "length (fracSecValues st) = 512" and "length behind = 4"
  shows "process_events malloc behind evs st
    = Some (st\<lparr>C37eventBuf := C37eventBuf st @ map (event_block \<circ> event_frame) evs,
              currentSampleCnt := currentSampleCnt st + of_nat (length evs)\<rparr>, [])"
  using assms
proof (induction evs arbitrary: st)
  case (Cons ev evs)
  let ?st1 = "st\<lparr>C37eventBuf := C37eventBuf st @ [event_block (event_frame ev)],
              currentSampleCnt := currentSampleCnt st + 1\<rparr>"
  have "unat (currentSampleCnt st + 1) = unat (currentSampleCnt st) + 1"
    using Cons.prems(3) by (simp add: unat_word_ariths)
  then have "process_events malloc behind evs ?st1 = Some (?st1\<lparr>C37eventBuf :=
      C37eventBuf ?st1 @ map (event_block \<circ> event_frame) evs,
      currentSampleCnt := currentSampleCnt ?st1 + of_nat (length evs)\<rparr>, [])"
    using Cons.prems by (intro Cons.IH) simp_all
  moreover have "(case ev of (fracSec, sec, b) \<Rightarrow> processC37event malloc behind fracSec sec b st)
      = Some (?st1, [])"
    using Cons.prems by (intro fill_sample_step) simp_all
  ultimately show ?case by (simp add: add.assoc)
qed simp

lemma fill_next_second:
  assumes "currentState st = fillBuffer" and "data_event b" and "length behind = 4"
    and "\<And>n. length (malloc n) = n"
    and "list_all (\<lambda>pin. 64 \<le> length pin) (C37eventBuf st)"
    and "length (C37eventBuf st) \<le> unat (sampleCnt st)"
  shows "processC37event malloc behind 0 (presentSec st + 1) b st
    = Some (st\<lparr>C37eventBuf := [event_block (frame_of b)], currentSampleCnt := 1,
              previousSec := presentSec st, presentSec := presentSec st + 1,
              missingC37events := missingC37events st +
                 (if currentSampleCnt st \<noteq> sampleCnt st then 1 else 0),
              processedC37_1sec_Buffers := processedC37_1sec_Buffers st + 1\<rparr>,
            [second_buffer malloc (unat (sampleCnt st)) (C37eventBuf st)])"
  using assms
  by (simp add: processC37event_def data_event_def fill_event_def saveC37event_spec
      processEventBuffer_spec)

subsection \<open>Invariant\<close>

definition reformat_wf :: "reformat \<Rightarrow> bool" where
  "reformat_wf st \<longleftrightarrow>
     length (fracSecValues st) = 512 \<and> unat (sampleCnt st) \<le> 512 \<and>
     list_all (\<lambda>pin. length pin = 78) (C37eventBuf st) \<and>
     (currentState st = fillBuffer \<longrightarrow> sampleCntValid st \<and> unat (sampleCnt st) mod 10 = 0)"

lemma search_frac_defined:
  "n \<le> length vals \<Longrightarrow> search_frac f vals i n \<noteq> None"
  by (induction f vals i n rule: search_frac.induct) (subst search_frac.simps, auto)

lemma search_frac_found:
  "search_frac f vals i n = Some k \<Longrightarrow> i \<le> n \<Longrightarrow> k \<le> n \<and> (k < n \<longrightarrow> vals ! k = f)"
proof (induction f vals i n rule: search_frac.induct)
  case (1 f vals i n)
  then show ?case
    by (subst (asm) (2) search_frac.simps) (auto split: if_splits)
qed

lemma new_reformat_wf: "length mem = 512 \<Longrightarrow> reformat_wf (new_C37_Reformat mem)"
  by (simp add: reformat_wf_def new_C37_Reformat_def)

lemma saveC37event_wf:
  "reformat_wf st \<Longrightarrow> data_event b \<Longrightarrow> length behind = 4 \<Longrightarrow>
   saveC37event behind b st = Some st' \<Longrightarrow> reformat_wf st'"
  by (auto simp: saveC37event_spec reformat_wf_def length_event_block length_frame_of)

lemma sync_event_wf:
  assumes "reformat_wf st" and "data_event b" and "length behind = 4"
    and "currentState st = syncToSec" and "sync_event behind fracSec sec b st = Some st'"
  shows "reformat_wf st'"
proof -
  have "unat (sampleCnt st + 1) = unat (sampleCnt st) + 1"
    using assms(1) by (simp add: reformat_wf_def unat_word_ariths)
  with assms show ?thesis
    by (auto simp: sync_event_def Let_def reformat_wf_def abort_sync_def saveC37event_spec
        length_event_block length_frame_of split: if_splits)
qed

lemma fill_event_wf:
  assumes "reformat_wf st" and "data_event b" and "length behind = 4"
    and malloc: "\<And>n. length (malloc n) = n" and "currentState st = fillBuffer"
    and res: "fill_event malloc behind fracSec sec b st = Some (st', outs)"
  shows "reformat_wf st'"
    and "list_all (\<lambda>out. length out = 60 * unat (sampleCnt st) + 4) outs"
proof -
  have long: "list_all (\<lambda>pin. 64 \<le> length pin) (C37eventBuf st)"
    using assms(1) by (auto simp: reformat_wf_def list_all_iff)
  have R: "length (concat (map record_of (C37eventBuf st))) = 60 * length (C37eventBuf st)"
    using long by (rule length_records)
  show "reformat_wf st'"
    using assms long
    by (auto simp: fill_event_def Let_def saveC37event_spec reformat_wf_def processEventBuffer_spec
        length_event_block length_frame_of bind_eq_Some split: if_splits)
  show "list_all (\<lambda>out. length out = 60 * unat (sampleCnt st) + 4) outs"
    using assms long R
    by (auto simp: fill_event_def Let_def saveC37event_spec processEventBuffer_spec bind_eq_Some
        second_buffer_def split: if_splits)
qed

subsection \<open>Properties\<close>

lemma processC37event_wf:
  assumes "reformat_wf st" and "length (buffer b) = 1024" and "length behind = 4"
    and "\<And>n. length (malloc n) = n"
    and "processC37event malloc behind fracSec sec b st = Some (st', outs)"
  shows "reformat_wf st' \<and> list_all (\<lambda>out. length out = 60 * unat (sampleCnt st) + 4) outs"
proof (cases "msgLenBytes b = C37_DATUM_TYPICAL_LEN")
  case True
  then have ev: "data_event b" using assms(2) by (simp add: data_event_def)
  show ?thesis
  proof (cases "currentState st")
    case syncToSec
    with True assms(5) sync_event_wf [OF assms(1) ev assms(3) syncToSec] show ?thesis
      by (auto simp: processC37event_def)
  next
    case fillBuffer
    with True assms(5) fill_event_wf [OF assms(1) ev assms(3,4) fillBuffer] show ?thesis
      by (auto simp: processC37event_def)
  qed
next
  case False
  with assms show ?thesis by (auto simp: processC37event_def reformat_wf_def)
qed

text \<open>
  C18: The invariant of the regrouping machine (an array of 512 sample times of which at most
  512 are used, blocks of 78 bytes, a sample count that is a multiple of 10 while buffers are
  filled) is kept by every event, and every buffer that an event emits has the length that
  the sample count gives, 60 bytes per sample and 4 in front.
\<close>

theorem processC37event_keeps_invariant:
  assumes "reformat_wf st" and "length (buffer b) = 1024" and "length behind = 4"
    and "\<And>n. length (malloc n) = n"
    and "processC37event malloc behind fracSec sec b st = Some (st', outs)"
  shows "reformat_wf st' \<and> list_all (\<lambda>out. length out = 60 * unat (sampleCnt st) + 4) outs"
  using assms by (rule processC37event_wf)

text \<open>The events that are saved.\<close>

definition event_saved :: "u32 \<Rightarrow> u32 \<Rightarrow> reformat \<Rightarrow> bool" where
  "event_saved fracSec sec st \<longleftrightarrow>
     (case currentState st of
        syncToSec \<Rightarrow> syncStarted st \<and> presentSec st + 1 \<noteq> 0 \<and> fracSec = 0 \<and> unat (sampleCnt st) mod 10 = 0
      | fillBuffer \<Rightarrow> sec = presentSec st \<and> fracSec \<noteq> 0 \<or> sec = presentSec st + 1 \<and> fracSec = 0)"

text \<open>
  C17: The cases in which an event makes the machine access memory that is not its own. Every event
  that is saved does: four bytes behind the heap block of the saved event are written, so
  that with less than four bytes behind it (in C++, none) each save is undefined. Apart from this, and only so
  where four bytes follow the block, there are exactly three cases: a
  513th sample time is stored while the machine learns the second, a second has more than 512 samples,
  or a second ends with more saved samples than the learned count.
\<close>

theorem processC37event_undefined_iff:
  assumes "reformat_wf st" and "length (buffer b) = 1024" and "length behind \<le> 4"
    and "\<And>n. length (malloc n) = n"
  shows "processC37event malloc behind fracSec sec b st = None \<longleftrightarrow>
    msgLenBytes b = C37_DATUM_TYPICAL_LEN \<and>
    (length behind < 4 \<and> event_saved fracSec sec st \<or>
     (if currentState st = syncToSec
      then syncStarted st \<and> \<not> (presentSec st + 1 \<noteq> 0 \<and> fracSec = 0) \<and>
           presentSec st \<le> presentSec st + 1 \<and> sampleCnt st = 512
      else (if sec = presentSec st \<and> fracSec \<noteq> 0 then 512 \<le> unat (currentSampleCnt st)
            else sec = presentSec st + 1 \<and> fracSec = 0 \<and>
                 unat (sampleCnt st) < length (C37eventBuf st))))"
proof (cases "msgLenBytes b = C37_DATUM_TYPICAL_LEN")
  case True
  then have ev: "data_event b" using assms(2) by (simp add: data_event_def)
  have long: "list_all (\<lambda>pin. 64 \<le> length pin) (C37eventBuf st)"
    using assms(1) by (auto simp: reformat_wf_def list_all_iff)
  have cnt: "\<not> unat (sampleCnt st) < 512 \<longleftrightarrow> sampleCnt st = 512"
    using assms(1) by (auto simp: reformat_wf_def word_unat_eq_iff)
  have found: "search_frac f (fracSecValues st) 0 (unat (sampleCnt st)) \<noteq> None" for f
    using assms(1) by (intro search_frac_defined) (simp add: reformat_wf_def)
  have len: "length (fracSecValues st) = 512" using assms(1) by (simp add: reformat_wf_def)
  have save: "saveC37event behind b x = (if length behind < 4 then None
      else Some (x\<lparr>C37eventBuf := C37eventBuf x @ [event_block (frame_of b)]\<rparr>))" for x
    using saveC37event_short [OF ev] saveC37event_spec [OF ev] assms(3) by simp
  show ?thesis
  proof (cases "currentState st")
    case syncToSec
    with True cnt show ?thesis
      by (auto simp: processC37event_def sync_event_def Let_def save len not_less event_saved_def)
  next
    case fillBuffer
    with True found [of fracSec] show ?thesis
      by (auto simp: processC37event_def fill_event_def Let_def save event_saved_def
          len processEventBuffer_spec [OF assms(4)] long not_less not_le)
  qed
qed (simp add: processC37event_def)

text \<open>The part of a frame that its output record keeps.\<close>

definition frame_record :: "bytes \<Rightarrow> bytes" where
  "frame_record f = [60, 0, f ! 9, 0] @ take 4 (drop 2 f) @ take 4 (drop 6 f) @ take 48 (drop 12 f)"

lemma frames_of_second:
  "length f0 = 74 \<Longrightarrow> list_all (sample_event s) evs \<Longrightarrow> f \<in> set (f0 # map event_frame evs) \<Longrightarrow> length f = 74"
  by (auto simp: list_all_iff sample_event_def event_frame_def length_frame_of)

lemma second_emitted:
  assumes "currentState st = fillBuffer" and "C37eventBuf st = [event_block f0]"
    and "length f0 = 74" and "currentSampleCnt st = 1" and "length (fracSecValues st) = 512"
    and "list_all (sample_event (presentSec st)) evs"
    and "1 + length evs \<le> unat (sampleCnt st)" and "unat (sampleCnt st) \<le> 512"
    and "data_event b" and "length behind = 4" and "\<And>n. length (malloc n) = n"
  shows "process_events malloc behind (evs @ [(0, presentSec st + 1, b)]) st =
    Some (st\<lparr>C37eventBuf := [event_block (frame_of b)], currentSampleCnt := 1,
             previousSec := presentSec st, presentSec := presentSec st + 1,
             missingC37events := missingC37events st +
               (if 1 + length evs = unat (sampleCnt st) then 0 else 1),
             processedC37_1sec_Buffers := processedC37_1sec_Buffers st + 1\<rparr>,
          [second_buffer malloc (unat (sampleCnt st)) (map event_block (f0 # map event_frame evs))])"
proof -
  define st1 where "st1 = st\<lparr>C37eventBuf := map event_block (f0 # map event_frame evs),
      currentSampleCnt := 1 + of_nat (length evs)\<rparr>"
  have run: "process_events malloc behind evs st = Some (st1, [])"
    using fill_samples [OF assms(1,6) _ assms(5,10), of malloc] assms(2,4,7,8)
    by (simp add: st1_def)
  have long: "list_all (\<lambda>pin. 64 \<le> length pin) (C37eventBuf st1)"
    using frames_of_second [OF assms(3,6)] by (auto simp: st1_def list_all_iff length_event_block)
  have cnt: "(currentSampleCnt st1 = sampleCnt st) = (1 + length evs = unat (sampleCnt st))"
    using assms(7,8)
    by (auto simp: st1_def word_unat_eq_iff unat_word_ariths unat_of_nat take_bit_eq_mod)
  have "processC37event malloc behind 0 (presentSec st1 + 1) b st1
    = Some (st1\<lparr>C37eventBuf := [event_block (frame_of b)], currentSampleCnt := 1,
              previousSec := presentSec st1, presentSec := presentSec st1 + 1,
              missingC37events := missingC37events st1 +
                 (if currentSampleCnt st1 \<noteq> sampleCnt st1 then 1 else 0),
              processedC37_1sec_Buffers := processedC37_1sec_Buffers st1 + 1\<rparr>,
            [second_buffer malloc (unat (sampleCnt st1)) (C37eventBuf st1)])"
    using assms(1,7,9-11) long by (intro fill_next_second) (simp_all add: st1_def)
  then show ?thesis
    unfolding process_events_append run using cnt by simp (simp add: st1_def)
qed

text \<open>
  C10: A second that the machine knows how to count (\<open>n\<close> samples) and of which at least one
  and at most \<open>n\<close> samples arrive is emitted, when the first sample of the next second
  arrives, as one buffer: its length, one record per sample in the order of arrival, and the
  memory that \<open>malloc\<close> returned where samples are missing. Because the saved block has the
  frame 4 bytes further than the emission expects, a record's time slot holds frame bytes 2
  to 5 (length and ID code), its fraction slot holds the second of the century, and its first
  phasor word holds the fraction's low half and the status.
\<close>

theorem one_second_is_emitted:
  assumes "currentState st = fillBuffer" and "C37eventBuf st = [event_block f0]"
    and "length f0 = 74" and "currentSampleCnt st = 1" and "length (fracSecValues st) = 512"
    and "list_all (sample_event (presentSec st)) evs"
    and "1 + length evs \<le> unat (sampleCnt st)" and "unat (sampleCnt st) \<le> 512"
    and "data_event b" and "length behind = 4" and "\<And>n. length (malloc n) = n"
  shows "process_events malloc behind (evs @ [(0, presentSec st + 1, b)]) st =
    Some (st\<lparr>C37eventBuf := [event_block (frame_of b)], currentSampleCnt := 1,
             previousSec := presentSec st, presentSec := presentSec st + 1,
             missingC37events := missingC37events st +
               (if 1 + length evs = unat (sampleCnt st) then 0 else 1),
             processedC37_1sec_Buffers := processedC37_1sec_Buffers st + 1\<rparr>,
          [le32_bytes (of_nat (60 * unat (sampleCnt st) + 4)) @
           concat (map frame_record (f0 # map event_frame evs)) @
           drop (60 * (1 + length evs) + 4) (malloc (60 * unat (sampleCnt st) + 4))])"
proof -
  let ?fs = "f0 # map event_frame evs"
  have "map record_of (map event_block ?fs) = map frame_record ?fs"
    using frames_of_second [OF assms(3,6)] by (auto simp: record_of_event_block frame_record_def)
  then have "second_buffer malloc (unat (sampleCnt st)) (map event_block ?fs) =
      le32_bytes (of_nat (60 * unat (sampleCnt st) + 4)) @ concat (map frame_record ?fs) @
      drop (60 * (1 + length evs) + 4) (malloc (60 * unat (sampleCnt st) + 4))"
    by (simp only: second_buffer_def) simp
  then show ?thesis using second_emitted [OF assms] by simp
qed

text \<open>
  Once the machine has started to learn the length of a second, it ignores the second
  that the frames carry: whatever their time stamps, frames are counted until the next
  fraction 0, and the machine then believes that the second after the first one has begun.
\<close>

theorem sync_ignores_the_received_second:
  assumes "currentState st = syncToSec" and "syncStarted st"
  shows "processC37event malloc behind fracSec sec b st =
           processC37event malloc behind fracSec sec' b st \<and>
         (data_event b \<and> length behind = 4 \<and> presentSec st + 1 \<noteq> 0 \<and>
          unat (sampleCnt st) mod 10 = 0 \<longrightarrow>
          processC37event malloc behind 0 sec b st =
            Some (st\<lparr>currentState := fillBuffer, sampleCntValid := True, currentSampleCnt := 1,
                     C37eventBuf := [event_block (frame_of b)],
                     previousSec := presentSec st, presentSec := presentSec st + 1\<rparr>, []))"
  using assms
  by (simp add: processC37event_def sync_event_def saveC37event_spec data_event_def)

subsection \<open>Concrete runs\<close>

definition sample_data_buffer :: "u8 \<Rightarrow> c37_buffer" where
  "sample_data_buffer x =
     (new_C37_Buffer (map of_nat [0..<73] @ [x] @ replicate 950 0) 0)\<lparr>msgLenBytes := 74\<rparr>"

lemma sample_data_event: "data_event (sample_data_buffer x)"
  by (simp add: data_event_def sample_data_buffer_def new_C37_Buffer_def C37_DATUM_TYPICAL_LEN_def)

definition fresh_reformat :: reformat where
  "fresh_reformat = new_C37_Reformat (replicate 512 0)"

lemma fresh_reformat_wf: "reformat_wf fresh_reformat"
  by (simp add: fresh_reformat_def new_reformat_wf)

theorem processC37event_keeps_invariant_witness:
  "reformat_wf (fresh_reformat\<lparr>syncStarted := True, presentSec := 5, sampleCnt := 1\<rparr>)"
proof -
  have "processC37event (\<lambda>n. replicate n 0) [0, 0, 0, 0] 0 5 (sample_data_buffer 1) fresh_reformat
      = Some (fresh_reformat\<lparr>syncStarted := True, presentSec := 5, sampleCnt := 1\<rparr>, [])"
    by (simp add: processC37event_def sync_event_def fresh_reformat_def new_C37_Reformat_def
        C37_DATUM_TYPICAL_LEN_def sample_data_buffer_def list_update_same_conv)
  from processC37event_keeps_invariant [OF fresh_reformat_wf _ _ _ this] show ?thesis
    using sample_data_event [of 1] by (simp add: data_event_def)
qed

text \<open>The 513th sample time; and a sample that is saved with nothing behind its block, and with four bytes.\<close>

theorem processC37event_undefined_iff_witness:
  "processC37event (\<lambda>n. replicate n 0) [0, 0, 0, 0] 7 5 (sample_data_buffer 1)
     (fresh_reformat\<lparr>syncStarted := True, sampleCnt := 512\<rparr>) = None \<and>
   processC37event (\<lambda>n. replicate n 0) [] 7 5 (sample_data_buffer 1)
     (fresh_reformat\<lparr>currentState := fillBuffer, sampleCntValid := True, presentSec := 5, sampleCnt := 10\<rparr>) = None \<and>
   processC37event (\<lambda>n. replicate n 0) [0, 0, 0, 0] 7 5 (sample_data_buffer 1)
     (fresh_reformat\<lparr>currentState := fillBuffer, sampleCntValid := True, presentSec := 5, sampleCnt := 10\<rparr>) \<noteq> None"
proof -
  have wf: "reformat_wf (fresh_reformat\<lparr>syncStarted := True, sampleCnt := 512\<rparr>)"
    "reformat_wf (fresh_reformat\<lparr>currentState := fillBuffer, sampleCntValid := True, presentSec := 5, sampleCnt := 10\<rparr>)"
    by (simp_all add: reformat_wf_def fresh_reformat_def new_C37_Reformat_def)
  note e = sample_data_event [of 1, unfolded data_event_def]
  have "processC37event (\<lambda>n. replicate n 0) [0, 0, 0, 0] 7 5 (sample_data_buffer 1)
      (fresh_reformat\<lparr>syncStarted := True, sampleCnt := 512\<rparr>) = None"
    using processC37event_undefined_iff [OF wf(1), of "sample_data_buffer 1" "[0, 0, 0, 0]" "\<lambda>n. replicate n 0" 7 5] e
    by (simp add: fresh_reformat_def new_C37_Reformat_def)
  moreover have "processC37event (\<lambda>n. replicate n 0) [] 7 5 (sample_data_buffer 1)
      (fresh_reformat\<lparr>currentState := fillBuffer, sampleCntValid := True, presentSec := 5, sampleCnt := 10\<rparr>) = None"
    using processC37event_undefined_iff [OF wf(2), of "sample_data_buffer 1" "[]" "\<lambda>n. replicate n 0" 7 5] e
    by (simp add: event_saved_def)
  moreover have "processC37event (\<lambda>n. replicate n 0) [0, 0, 0, 0] 7 5 (sample_data_buffer 1)
      (fresh_reformat\<lparr>currentState := fillBuffer, sampleCntValid := True, presentSec := 5, sampleCnt := 10\<rparr>) \<noteq> None"
    using processC37event_undefined_iff [OF wf(2), of "sample_data_buffer 1" "[0, 0, 0, 0]" "\<lambda>n. replicate n 0" 7 5] e
    by (simp add: fresh_reformat_def new_C37_Reformat_def)
  ultimately show ?thesis by blast
qed

theorem one_second_is_emitted_witness:
  "\<exists>st' out. process_events (\<lambda>n. replicate n 9) [0, 0, 0, 0]
       [(500000, 5, sample_data_buffer 1), (0, 6, sample_data_buffer 2)]
       (fresh_reformat\<lparr>currentState := fillBuffer, currentSampleCnt := 1, presentSec := 5,
          sampleCnt := 2, C37eventBuf := [event_block (frame_of (sample_data_buffer 0))]\<rparr>)
     = Some (st', [out]) \<and> length out = 124 \<and> presentSec st' = 6 \<and> missingC37events st' = 0"
proof -
  let ?st = "fresh_reformat\<lparr>currentState := fillBuffer, currentSampleCnt := 1, presentSec := 5,
          sampleCnt := 2, C37eventBuf := [event_block (frame_of (sample_data_buffer 0))]\<rparr>"
  have f: "length (frame_of (sample_data_buffer x)) = 74" for x
    by (rule length_frame_of [OF sample_data_event])
  have r: "length (frame_record (frame_of (sample_data_buffer x))) = 60" for x
    using f [of x] by (simp add: frame_record_def)
  have "process_events (\<lambda>n. replicate n 9) [0, 0, 0, 0]
      ([(500000, 5, sample_data_buffer 1)] @ [(0, presentSec ?st + 1, sample_data_buffer 2)]) ?st
    = Some (?st\<lparr>C37eventBuf := [event_block (frame_of (sample_data_buffer 2))],
             currentSampleCnt := 1,
             previousSec := presentSec ?st, presentSec := presentSec ?st + 1,
             missingC37events := missingC37events ?st +
               (if 1 + length [(500000 :: u32, 5 :: u32, sample_data_buffer 1)]
                   = unat (sampleCnt ?st) then 0 else 1),
             processedC37_1sec_Buffers := processedC37_1sec_Buffers ?st + 1\<rparr>,
          [le32_bytes (of_nat (60 * unat (sampleCnt ?st) + 4)) @
           concat (map frame_record (frame_of (sample_data_buffer 0)
             # map event_frame [(500000, 5, sample_data_buffer 1)])) @
           drop (60 * (1 + length [(500000 :: u32, 5 :: u32, sample_data_buffer 1)]) + 4)
             ((\<lambda>n. replicate n 9) (60 * unat (sampleCnt ?st) + 4))])"
    by (rule one_second_is_emitted)
      (simp_all add: f sample_data_event sample_event_def fresh_reformat_def new_C37_Reformat_def)
  then show ?thesis
    by (simp add: r event_frame_def fresh_reformat_def new_C37_Reformat_def)
qed

theorem sync_ignores_the_received_second_witness:
  "processC37event (\<lambda>n. replicate n 9) [0, 0, 0, 0] 7 5 (sample_data_buffer 1)
     (fresh_reformat\<lparr>syncStarted := True, presentSec := 5, sampleCnt := 10\<rparr>)
   = processC37event (\<lambda>n. replicate n 9) [0, 0, 0, 0] 7 900 (sample_data_buffer 1)
     (fresh_reformat\<lparr>syncStarted := True, presentSec := 5, sampleCnt := 10\<rparr>)"
  by (rule sync_ignores_the_received_second [THEN conjunct1])
    (simp_all add: fresh_reformat_def new_C37_Reformat_def)

end
