(* ===== verification/Data_Channel.thy ===== *)
theory Data_Channel
  imports Frame_Buffer Config_Frame Reformat
begin

text \<open>
  The C37.118 connection: \<open>C37_DataChannel\<close> in
  \<open>serviceDataDiscovery_C37/C37_DataChannel.{h,cpp}\<close>. The socket and the scheduler belong to
  \<open>boost::asio\<close>; the completion the handlers wait for is kept in the field \<open>pending\<close>, the
  frames handed to \<open>async_write\<close> in \<open>written\<close>, and what an
  asynchronous read stores in the receive array is the argument of \<open>store_received\<close>.
  The handlers are translated whole. The \<open>while\<close> loop of \<open>read_handler\<close> is a partial
  function: the outer \<open>None\<close> is a loop that does not end, the inner one an access outside an
  array.
\<close>

subsection \<open>The class\<close>

datatype pending_op = NothingPending | ConnectPending | ReadPending nat u32

record data_channel =
  c37reformat :: reformat
  C37_buf :: c37_buffer
  cfg_1_Descriptor :: "cfg_data option"
  cfg_2_Descriptor :: "cfg_data option"
  C37eventsRecv :: u64
  C37eventsQueued :: u64
  NumConnects :: u64
  BytesRecv :: u64
  pending :: pending_op
  written :: "bytes list"

text \<open>What the channel gets from outside: checksum, allocator and the memory around arrays.\<close>

record channel_env =
  env_crc :: "bytes \<Rightarrow> u16"
  env_junk :: "nat \<Rightarrow> pmu_junk"
  env_malloc :: "nat \<Rightarrow> bytes"
  env_behind :: bytes
  env_past :: u8

definition env_ok :: "channel_env \<Rightarrow> bool" where
  "env_ok env \<longleftrightarrow> length (env_behind env) = 4 \<and> (\<forall>n. length (env_malloc env n) = n)"

definition connect :: "data_channel \<Rightarrow> data_channel" where
  "connect c = c\<lparr>pending := ConnectPending\<rparr>"

definition async_read :: "data_channel \<Rightarrow> data_channel" where
  "async_read c = (let (pos, len) = getBufferDesc (C37_buf c) in c\<lparr>pending := ReadPending pos len\<rparr>)"

definition connect_handler :: "bool \<Rightarrow> data_channel \<Rightarrow> data_channel" where
  "connect_handler ec c =
     (if \<not> ec then async_read (c\<lparr>NumConnects := NumConnects c + 1\<rparr>) else connect c)"

subsection \<open>Receiving\<close>

definition remove_current :: "channel_env \<Rightarrow> data_channel \<Rightarrow> data_channel" where
  "remove_current env c = c\<lparr>C37_buf := snd (removeMsgFromBuffer (env_past env) (C37_buf c))\<rparr>"

text \<open>The body of the loop: one complete message, dispatched on its type and removed.\<close>

definition dispatch :: "channel_env \<Rightarrow> data_channel \<Rightarrow> (data_channel \<times> bytes list) option" where
  "dispatch env c0 =
     (let c = c0\<lparr>BytesRecv := BytesRecv c0 + ucast (msgLenBytes (C37_buf c0))\<rparr>;
          buf = buffer (C37_buf c) in
      if msgType (C37_buf c) = 0 then
        (let fracTime = be24 (buf ! 11) (buf ! 12) (buf ! 13);
             time = be32 (buf ! 6) (buf ! 7) (buf ! 8) (buf ! 9);
             c1 = c\<lparr>C37eventsRecv := C37eventsRecv c + 1\<rparr> in
         do {
           (st, outs) \<leftarrow> processC37event (env_malloc env) (env_behind env) fracTime time
                          (C37_buf c1) (c37reformat c1);
           Some (remove_current env
                   (c1\<lparr>c37reformat := st, C37eventsQueued := C37eventsQueued c1 + 1\<rparr>), outs) })
      else if msgType (C37_buf c) = 2 then do {
        d \<leftarrow> parseCfg_msg (env_crc env) (env_junk env) buf (msgLenBytes (C37_buf c));
        Some (remove_current env (c\<lparr>cfg_1_Descriptor := d\<rparr>), []) }
      else if msgType (C37_buf c) = 3 then do {
        d \<leftarrow> parseCfg_msg (env_crc env) (env_junk env) buf (msgLenBytes (C37_buf c));
        Some (remove_current env (c\<lparr>cfg_2_Descriptor := d\<rparr>), []) }
      else Some (remove_current env c, []))"

partial_function (option) read_loop ::
  "channel_env \<Rightarrow> data_channel \<Rightarrow> bytes list \<Rightarrow> (data_channel \<times> bytes list) option option" where
  "read_loop env c outs =
     (if fst (examineBuffer (C37_buf c)) = 0 then
        (case dispatch env (c\<lparr>C37_buf := snd (examineBuffer (C37_buf c))\<rparr>) of
           None \<Rightarrow> Some None
         | Some (c', o') \<Rightarrow> read_loop env c' (outs @ o'))
      else Some (Some (c\<lparr>C37_buf := snd (examineBuffer (C37_buf c))\<rparr>, outs)))"

definition store_received :: "bytes \<Rightarrow> data_channel \<Rightarrow> data_channel" where
  "store_received bs c =
     (let pos = fst (getBufferDesc (C37_buf c)) in
      c\<lparr>C37_buf := (C37_buf c)\<lparr>buffer := take pos (buffer (C37_buf c)) @ bs @
                       drop (pos + length bs) (buffer (C37_buf c))\<rparr>\<rparr>)"

definition read_handler ::
  "channel_env \<Rightarrow> u32 \<Rightarrow> data_channel \<Rightarrow> (data_channel \<times> bytes list) option option" where
  "read_handler env bytes_transferred c =
     (if bytes_transferred \<noteq> 0 then
        map_option (map_option (\<lambda>(c', outs). (async_read c', outs)))
          (read_loop env (c\<lparr>C37_buf := setBytesReceived bytes_transferred (C37_buf c)\<rparr>) [])
      else Some (Some (connect (c\<lparr>C37_buf := init_buffer (C37_buf c)\<rparr>), [])))"

subsection \<open>Sending\<close>

text \<open>
  The command frame for \<open>dataLen\<close> bytes of extended data (which the code never copies):
  16 bytes of head, the data, and 2 bytes of checksum, computed while they are still 0.
\<close>

definition sendCommand :: "(bytes \<Rightarrow> u16) \<Rightarrow> u64 \<Rightarrow> u32 \<Rightarrow> bool \<Rightarrow> u32 \<Rightarrow> bytes" where
  "sendCommand crc t commandType hasData dataLen0 =
     (let dataLen = (if hasData then dataLen0 else 0);
          frameLen = 16 + dataLen + 2;
          sendData = [0xaa, 0x41, ucast (drop_bit 8 frameLen AND 0xff), ucast (frameLen AND 0xff),
                      0, 1,
                      ucast (drop_bit 24 t AND 0xff), ucast (drop_bit 16 t AND 0xff),
                      ucast (drop_bit 8 t AND 0xff), ucast (t AND 0xff),
                      0, 0, 0, 0, 0, ucast (commandType AND 0xff)]
                     @ replicate (unat dataLen) 0 @ [0, 0];
          sum = crc sendData
      in sendData[unat dataLen + 16 := ucast (drop_bit 8 sum AND 0xff),
                  unat dataLen + 17 := ucast (sum AND 0xff)])"

definition sendCFG_1cmd :: "(bytes \<Rightarrow> u16) \<Rightarrow> u64 \<Rightarrow> data_channel \<Rightarrow> data_channel" where
  "sendCFG_1cmd crc t c = c\<lparr>written := written c @ [sendCommand crc t 0x4 False 0]\<rparr>"

definition sendCFG_2cmd :: "(bytes \<Rightarrow> u16) \<Rightarrow> u64 \<Rightarrow> data_channel \<Rightarrow> data_channel" where
  "sendCFG_2cmd crc t c = c\<lparr>written := written c @ [sendCommand crc t 0x5 False 0]\<rparr>"

subsection \<open>The loop follows the framing\<close>

lemma dispatch_buf:
  "dispatch env c = Some (c', outs) \<Longrightarrow>
   C37_buf c' = snd (removeMsgFromBuffer (env_past env) (C37_buf c))"
  by (auto simp: dispatch_def Let_def remove_current_def bind_eq_Some split: if_splits)

primrec dispatch_all ::
  "channel_env \<Rightarrow> c37_buffer list \<Rightarrow> data_channel \<Rightarrow> (data_channel \<times> bytes list) option" where
  "dispatch_all env [] c = Some (c, [])"
| "dispatch_all env (b # bs) c = do {
     (c1, o1) \<leftarrow> dispatch env (c\<lparr>C37_buf := b\<rparr>);
     (c2, o2) \<leftarrow> dispatch_all env bs c1;
     Some (c2, o1 @ o2) }"

lemma read_loop_drains:
  assumes "framer.drains examineBuffer (\<lambda>b. snd (removeMsgFromBuffer (env_past env) b)) b bs b'"
    and "C37_buf c = b"
  shows "read_loop env c outs = Some (case dispatch_all env bs c of
      None \<Rightarrow> None | Some (c1, o1) \<Rightarrow> Some (c1\<lparr>C37_buf := b'\<rparr>, outs @ o1))"
  using assms
proof (induction arbitrary: c outs rule: c37.drains.induct [where past = "env_past env"])
  case (drains_stop b)
  then show ?case by (subst read_loop.simps) simp
next
  case (drains_step b bs b')
  show ?case
  proof (cases "dispatch env (c\<lparr>C37_buf := snd (examineBuffer b)\<rparr>)")
    case None
    with drains_step show ?thesis by (subst read_loop.simps) simp
  next
    case (Some r)
    then obtain c1 o1 where r: "dispatch env (c\<lparr>C37_buf := snd (examineBuffer b)\<rparr>) = Some (c1, o1)"
      by (cases r) auto
    then have "C37_buf c1 = snd (removeMsgFromBuffer (env_past env) (snd (examineBuffer b)))"
      using dispatch_buf [OF r] by simp
    from drains_step.IH [OF this, of "outs @ o1"] r drains_step show ?thesis
      by (subst read_loop.simps) (auto split: option.splits)
  qed
qed

subsection \<open>The specification: a stream of frames\<close>

definition frame_type :: "bytes \<Rightarrow> u32" where
  "frame_type f = drop_bit 4 (ucast (f ! 1) AND 0x70)"

definition buffer_holding :: "bytes \<Rightarrow> c37_buffer" where
  "buffer_holding f = (new_C37_Buffer (f @ replicate (1024 - length f) 0) 0)
     \<lparr>msgLenBytes := of_nat (length f)\<rparr>"

definition frame_event :: "bytes \<Rightarrow> event" where
  "frame_event f =
     (be24 (f ! 11) (f ! 12) (f ! 13), be32 (f ! 6) (f ! 7) (f ! 8) (f ! 9), buffer_holding f)"

text \<open>A frame of a length that holds sync word and size; if it is a configuration frame that the
  parser accepts, its PMU blocks end inside it.\<close>

definition sound_frame :: "channel_env \<Rightarrow> bytes \<Rightarrow> bool" where
  "sound_frame env f \<longleftrightarrow> 4 \<le> length f \<and> (frame_type f = 2 \<or> frame_type f = 3 \<longrightarrow> cfg_inside (env_crc env) f)"

text \<open>The descriptor that the last configuration frame of a type leaves behind.\<close>

definition latest_cfg :: "channel_env \<Rightarrow> u32 \<Rightarrow> bytes list \<Rightarrow> cfg_data option \<Rightarrow> cfg_data option" where
  "latest_cfg env ty fs d = fold (\<lambda>f d. if frame_type f = ty then cfg_of_frame (env_crc env) f else d) fs d"

lemma latest_cfg_simps [simp]:
  "latest_cfg env ty [] d = d"
  "latest_cfg env ty (f # fs) d = latest_cfg env ty fs (if frame_type f = ty then cfg_of_frame (env_crc env) f else d)"
  "latest_cfg env ty (fs @ gs) d = latest_cfg env ty gs (latest_cfg env ty fs d)"
  by (simp_all add: latest_cfg_def)

definition data_frames :: "bytes list \<Rightarrow> bytes list" where
  "data_frames fs = filter (\<lambda>f. frame_type f = 0) fs"

definition complete_buffer :: "c37_buffer \<Rightarrow> bool" where
  "complete_buffer b \<longleftrightarrow> buffer_wf b \<and> bufState b = completeMsg \<and>
     4 \<le> unat (validBufferBytes b) \<and> msgType b = frame_type_field (buffer b)"

lemma complete_current:
  assumes "complete_buffer b"
  shows "length (current_frame b) = unat (msgLenBytes b)"
    and "\<And>i. i < unat (msgLenBytes b) \<Longrightarrow> buffer b ! i = current_frame b ! i"
    and "take (unat (msgLenBytes b)) (buffer b) = current_frame b"
proof -
  have wf: "buffer_wf b" and st: "bufState b = completeMsg"
    using assms by (simp_all add: complete_buffer_def)
  note wfs = buffer_wfD [OF wf]
  have le: "unat (msgLenBytes b) \<le> unat (validBufferBytes b)" using wfs(5) st by simp
  then show "take (unat (msgLenBytes b)) (buffer b) = current_frame b"
    by (simp add: current_frame_def valid_bytes_def min_absorb1)
  then show "length (current_frame b) = unat (msgLenBytes b)"
    and "\<And>i. i < unat (msgLenBytes b) \<Longrightarrow> buffer b ! i = current_frame b ! i"
    using le wfs(1,3) by (simp_all flip: \<open>take _ _ = _\<close>)
qed

lemma drained_complete:
  "framer.drains examineBuffer (\<lambda>b. snd (removeMsgFromBuffer past b)) b bs b' \<Longrightarrow>
   buffer_ready b \<Longrightarrow> list_all complete_buffer bs"
proof (induction rule: c37.drains.induct)
  case (drains_step b bs b')
  have nf: "next_frame (valid_bytes b) \<noteq> None"
  proof
    assume "next_frame (valid_bytes b) = None"
    with drains_step.hyps(1) c37.exam_none [OF drains_step.prems] show False by simp
  qed
  then obtain f r where fr: "next_frame (valid_bytes b) = Some (f, r)"
    by (cases "next_frame (valid_bytes b)") auto
  from drains_step.prems have "complete_buffer (snd (examineBuffer b))"
  proof (cases rule: examine_ready_cases)
    case complete
    with buffer_ready_wf [OF drains_step.prems] show ?thesis
      by (simp add: complete_buffer_def buffer_wf_def word_le_nat_alt)
  qed (use nf in simp)
  moreover have "list_all complete_buffer bs"
    using drains_step.IH examine_remove_complete(4) [OF drains_step.prems fr] by simp
  ultimately show ?case by simp
qed simp

text \<open>The regrouping machine sees nothing of the array but the frame.\<close>

lemma processC37event_frame:
  assumes "complete_buffer b" and "length behind = 4" and "f = current_frame b"
  shows "processC37event malloc behind
           (be24 (buffer b ! 11) (buffer b ! 12) (buffer b ! 13))
           (be32 (buffer b ! 6) (buffer b ! 7) (buffer b ! 8) (buffer b ! 9)) b st
    = (case frame_event f of (fr, s, b') \<Rightarrow> processC37event malloc behind fr s b' st)"
proof -
  have len: "length f = unat (msgLenBytes b)"
    using complete_current(1) [OF assms(1)] assms(3) by simp
  have "(of_nat (length f) :: u32) = msgLenBytes b"
    by (simp only: len of_nat_unat ucast_id)
  then have msg: "msgLenBytes (buffer_holding f) = msgLenBytes b"
    by (simp add: buffer_holding_def)
  show ?thesis
  proof (cases "msgLenBytes b = C37_DATUM_TYPICAL_LEN")
    case True
    then have l74: "unat (msgLenBytes b) = 74" by (simp add: C37_DATUM_TYPICAL_LEN_def)
    have de: "data_event b"
      using True assms(1) by (simp add: data_event_def complete_buffer_def buffer_wf_def)
    have dh: "data_event (buffer_holding f)"
      using True msg len l74
      by (simp add: data_event_def) (simp add: buffer_holding_def new_C37_Buffer_def)
    have same: "frame_of (buffer_holding f) = frame_of b"
      using complete_current(3) [OF assms(1)] assms(3) len l74
      by (simp add: frame_of_def buffer_holding_def new_C37_Buffer_def)
    have save: "saveC37event behind b x = saveC37event behind (buffer_holding f) x" for x
      by (simp add: saveC37event_spec [OF de assms(2)] saveC37event_spec [OF dh assms(2)] same)
    have idx: "buffer b ! i = f ! i" if "i < 74" for i
      using complete_current(2) [OF assms(1)] that l74 assms(3) by simp
    have "sync_event behind fr s b st = sync_event behind fr s (buffer_holding f) st"
      and "fill_event malloc behind fr s b st = fill_event malloc behind fr s (buffer_holding f) st"
      for fr s
      unfolding sync_event_def fill_event_def save by (rule refl)+
    then show ?thesis
      by (cases "currentState st") (simp_all add: frame_event_def processC37event_def msg idx)
  next
    case False
    then show ?thesis by (simp add: frame_event_def processC37event_def msg)
  qed
qed

lemma dispatch_frame:
  assumes "complete_buffer b" and "env_ok env" and "f = current_frame b" and "sound_frame env f"
  shows "dispatch env (c\<lparr>C37_buf := b\<rparr>) =
    (let c1 = c\<lparr>C37_buf := snd (removeMsgFromBuffer (env_past env) b),
                cfg_1_Descriptor := latest_cfg env 2 [f] (cfg_1_Descriptor c),
                cfg_2_Descriptor := latest_cfg env 3 [f] (cfg_2_Descriptor c),
                BytesRecv := BytesRecv c + of_nat (length f)\<rparr>
     in if frame_type f = 0
        then map_option (\<lambda>(st, outs). (c1\<lparr>c37reformat := st, C37eventsRecv := C37eventsRecv c + 1,
                 C37eventsQueued := C37eventsQueued c + 1\<rparr>, outs))
               (case frame_event f of (fr, s, b') \<Rightarrow>
                  processC37event (env_malloc env) (env_behind env) fr s b' (c37reformat c))
        else Some (c1, []))"
proof -
  have len: "length f = unat (msgLenBytes b)"
    using complete_current(1) [OF assms(1)] assms(3) by simp
  have b1: "buffer b ! 1 = f ! 1"
    using complete_current(2) [OF assms(1), of 1] assms(3,4) len by (simp add: sound_frame_def)
  have ty: "msgType b = frame_type f"
    using assms(1) b1 by (simp add: complete_buffer_def frame_type_field_def frame_type_def)
  have bytes: "(ucast (msgLenBytes b) :: u64) = of_nat (length f)"
    by (simp add: len of_nat_unat)
  have beh: "length (env_behind env) = 4" using assms(2) by (simp add: env_ok_def)
  note ev = processC37event_frame [OF assms(1) beh assms(3), of "env_malloc env" "c37reformat c"]
  note wf = buffer_wfD [of b]
  have cfg: "parseCfg_msg (env_crc env) (env_junk env) (buffer b) (msgLenBytes b) = Some (cfg_of_frame (env_crc env) f)"
    if "frame_type f = 2 \<or> frame_type f = 3"
    using assms(1,4) that wf complete_current(3) [OF assms(1)] len
    by (intro parseCfg_frame) (auto simp: complete_buffer_def sound_frame_def assms(3))
  consider "frame_type f = 0" | "frame_type f = 2" | "frame_type f = 3" | "frame_type f \<notin> {0, 2, 3}" by auto
  then show ?thesis
  proof cases
    case 1
    then show ?thesis
      by (cases "case frame_event f of (fr, s, b') \<Rightarrow>
            processC37event (env_malloc env) (env_behind env) fr s b' (c37reformat c)")
        (auto simp: dispatch_def Let_def ty ev bytes remove_current_def)
  qed (use cfg in \<open>simp_all add: dispatch_def Let_def ty bytes remove_current_def\<close>)
qed

text \<open>What a list of frames does to the regrouping machine, and to the descriptors and counters.\<close>

primrec process_frames ::
  "channel_env \<Rightarrow> bytes list \<Rightarrow> reformat \<Rightarrow> (reformat \<times> bytes list) option" where
  "process_frames env [] st = Some (st, [])"
| "process_frames env (f # fs) st =
     (if frame_type f = 0 then do {
        (st1, o1) \<leftarrow> (case frame_event f of (fr, s, b) \<Rightarrow>
            processC37event (env_malloc env) (env_behind env) fr s b st);
        (st2, o2) \<leftarrow> process_frames env fs st1;
        Some (st2, o1 @ o2) }
      else process_frames env fs st)"

definition after_frames :: "channel_env \<Rightarrow> bytes list \<Rightarrow> reformat \<Rightarrow> data_channel \<Rightarrow> data_channel" where
  "after_frames env fs st c = c\<lparr>c37reformat := st,
     cfg_1_Descriptor := latest_cfg env 2 fs (cfg_1_Descriptor c),
     cfg_2_Descriptor := latest_cfg env 3 fs (cfg_2_Descriptor c),
     C37eventsRecv := C37eventsRecv c + of_nat (length (data_frames fs)),
     C37eventsQueued := C37eventsQueued c + of_nat (length (data_frames fs)),
     BytesRecv := BytesRecv c + of_nat (length (concat fs))\<rparr>"

lemma dispatch_all_frames:
  assumes "list_all complete_buffer bs" and "env_ok env" and "list_all (sound_frame env) (map current_frame bs)"
  shows "map_option (\<lambda>(c', outs). (c'\<lparr>C37_buf := b'\<rparr>, outs)) (dispatch_all env bs c)
    = map_option (\<lambda>(st, outs). ((after_frames env (map current_frame bs) st c)\<lparr>C37_buf := b'\<rparr>, outs))
        (process_frames env (map current_frame bs) (c37reformat c))"
  using assms
proof (induction bs arbitrary: c)
  case Nil
  then show ?case by (simp add: after_frames_def data_frames_def)
next
  case (Cons b bs)
  let ?f = "current_frame b"
  have step: "dispatch env (c\<lparr>C37_buf := b\<rparr>) =
    (let c1 = c\<lparr>C37_buf := snd (removeMsgFromBuffer (env_past env) b),
                cfg_1_Descriptor := latest_cfg env 2 [?f] (cfg_1_Descriptor c),
                cfg_2_Descriptor := latest_cfg env 3 [?f] (cfg_2_Descriptor c),
                BytesRecv := BytesRecv c + of_nat (length ?f)\<rparr>
     in if frame_type ?f = 0
        then map_option (\<lambda>(st, outs). (c1\<lparr>c37reformat := st, C37eventsRecv := C37eventsRecv c + 1,
                 C37eventsQueued := C37eventsQueued c + 1\<rparr>, outs))
               (case frame_event ?f of (fr, s, b') \<Rightarrow>
                  processC37event (env_malloc env) (env_behind env) fr s b' (c37reformat c))
        else Some (c1, []))"
    using Cons.prems by (intro dispatch_frame) simp_all
  note IH = Cons.IH [OF _ Cons.prems(2)]
  have IH': "map_option (\<lambda>(c', outs). (c'\<lparr>C37_buf := b'\<rparr>, outs)) (dispatch_all env bs c2)
    = map_option (\<lambda>(st, outs). ((after_frames env (map current_frame bs) st c2)\<lparr>C37_buf := b'\<rparr>, outs))
        (process_frames env (map current_frame bs) (c37reformat c2))" for c2
    using Cons.prems by (intro Cons.IH) simp_all
  show ?case
  proof (cases "frame_type ?f = 0")
    case True
    show ?thesis
    proof (cases "case frame_event ?f of (fr, s, b') \<Rightarrow>
        processC37event (env_malloc env) (env_behind env) fr s b' (c37reformat c)")
      case None
      with True step show ?thesis by (simp add: Let_def)
    next
      case (Some r)
      obtain st1 o1 where r: "r = (st1, o1)" by (cases r)
      let ?c2 = "c\<lparr>C37_buf := snd (removeMsgFromBuffer (env_past env) b),
                   cfg_1_Descriptor := latest_cfg env 2 [?f] (cfg_1_Descriptor c),
                   cfg_2_Descriptor := latest_cfg env 3 [?f] (cfg_2_Descriptor c),
                   BytesRecv := BytesRecv c + of_nat (length ?f), c37reformat := st1,
                   C37eventsRecv := C37eventsRecv c + 1, C37eventsQueued := C37eventsQueued c + 1\<rparr>"
      show ?thesis
        using True Some r step IH' [of ?c2]
        by (cases "dispatch_all env bs ?c2"; cases "process_frames env (map current_frame bs) st1")
          (auto simp: Let_def after_frames_def data_frames_def add.assoc)
    qed
  next
    case False
    let ?c2 = "c\<lparr>C37_buf := snd (removeMsgFromBuffer (env_past env) b),
                   cfg_1_Descriptor := latest_cfg env 2 [?f] (cfg_1_Descriptor c),
                   cfg_2_Descriptor := latest_cfg env 3 [?f] (cfg_2_Descriptor c),
                   BytesRecv := BytesRecv c + of_nat (length ?f)\<rparr>"
    show ?thesis
      using False step IH' [of ?c2]
      by (cases "dispatch_all env bs ?c2";
          cases "process_frames env (map current_frame bs) (c37reformat c)")
        (auto simp: Let_def after_frames_def data_frames_def add.assoc)
  qed
qed

subsection \<open>Properties of the receive path\<close>

lemma store_then_receive:
  "C37_buf (store_received bs c) = (C37_buf c)\<lparr>buffer := buffer (receive bs (C37_buf c))\<rparr>"
  "setBytesReceived (of_nat (length bs)) (C37_buf (store_received bs c)) = receive bs (C37_buf c)"
  by (simp_all add: store_received_def receive_def Let_def setBytesReceived_def getBufferDesc_def)

lemma of_nat_length_0: "length bs \<le> 1024 \<Longrightarrow> (of_nat (length bs) :: u32) = 0 \<longleftrightarrow> bs = []"
  by (auto simp: word_unat_eq_iff unat_of_nat take_bit_eq_mod)

lemma async_read_ready:
  assumes "buffer_ready (C37_buf c)"
  shows "async_read c = c\<lparr>pending := ReadPending (length (valid_bytes (C37_buf c)))
           (of_nat (1024 - length (valid_bytes (C37_buf c))))\<rparr>"
proof -
  note wf = buffer_wfD [OF buffer_ready_wf [OF assms]]
    and len = length_valid_bytes [OF buffer_ready_wf [OF assms]]
  have "1024 - validBufferBytes (C37_buf c)
      = of_nat (1024 - unat (validBufferBytes (C37_buf c)))"
    using wf(3) by (simp add: of_nat_diff of_nat_unat)
  then show ?thesis by (simp add: async_read_def getBufferDesc_def wf(2) len)
qed

text \<open>
  A read that brings bytes, whatever the cut between reads, makes the handler process
  exactly the complete frames of the byte stream, in order: the counters advance by their
  number and total length, the regrouping machine sees the data frames and nothing else, each
  configuration frame replaces the descriptor of its type, the
  incomplete rest stays in the buffer, and the next read is scheduled behind it. (Streams
  whose frames declare at least 4 bytes, and whose configuration frames, if accepted, have
  PMU blocks that end inside the frame.)
\<close>

theorem read_handler_processes_every_frame:
  assumes "buffer_ready (C37_buf c)" and "env_ok env" and "bs \<noteq> []"
    and "length (valid_bytes (C37_buf c)) + length bs \<le> 1024"
    and "split_frames (valid_bytes (C37_buf c) @ bs) = Some (fs, r)"
    and "list_all (sound_frame env) fs"
  shows "\<exists>b'. buffer_ready b' \<and> valid_bytes b' = r \<and>
    read_handler env (of_nat (length bs)) (store_received bs c) =
      Some (map_option (\<lambda>(st, outs). ((after_frames env fs st c)\<lparr>C37_buf := b',
                pending := ReadPending (length r) (of_nat (1024 - length r))\<rparr>, outs))
            (process_frames env fs (c37reformat c)))"
proof -
  let ?b = "receive bs (C37_buf c)"
  let ?c = "(store_received bs c)\<lparr>C37_buf := ?b\<rparr>"
  have rb: "valid_bytes ?b = valid_bytes (C37_buf c) @ bs" "buffer_ready ?b"
    using receive_buffer assms(1,4) by blast+
  from c37.split_drains [OF assms(5) rb(2,1), where past = "env_past env"]
  obtain ds b' where dr: "framer.drains examineBuffer
        (\<lambda>b. snd (removeMsgFromBuffer (env_past env) b)) ?b ds b'"
    and fs: "map current_frame ds = fs" and b': "valid_bytes b' = r" "buffer_ready b'"
    by auto
  have compl: "list_all complete_buffer ds" by (rule drained_complete [OF dr rb(2)])
  have all: "map_option (\<lambda>(c', outs). (c'\<lparr>C37_buf := b'\<rparr>, outs)) (dispatch_all env ds ?c)
    = map_option (\<lambda>(st, outs). ((after_frames env fs st ?c)\<lparr>C37_buf := b'\<rparr>, outs))
        (process_frames env fs (c37reformat ?c))"
    unfolding fs [symmetric] using compl assms(2,6) fs
    by (intro dispatch_all_frames) simp_all
  have same: "c37reformat ?c = c37reformat c"
    by (simp add: store_received_def Let_def)
  have loop: "read_loop env ?c [] = Some (map_option (\<lambda>(st, outs).
      ((after_frames env fs st ?c)\<lparr>C37_buf := b'\<rparr>, outs)) (process_frames env fs (c37reformat c)))"
    using all same read_loop_drains [OF dr, of ?c "[]"]
    by (cases "dispatch_all env ds ?c"; cases "process_frames env fs (c37reformat c)") auto
  have fin: "async_read ((after_frames env fs st ?c)\<lparr>C37_buf := b'\<rparr>)
      = (after_frames env fs st c)\<lparr>C37_buf := b',
           pending := ReadPending (length r) (of_nat (1024 - length r))\<rparr>" for st
    using b' by (simp add: async_read_ready after_frames_def store_received_def Let_def)
  have n0: "(of_nat (length bs) :: u32) \<noteq> 0"
    using assms(3,4) of_nat_length_0 [of bs] by simp
  have "read_handler env (of_nat (length bs)) (store_received bs c)
      = map_option (map_option (\<lambda>(c', outs). (async_read c', outs))) (read_loop env ?c [])"
    using n0 by (simp add: read_handler_def store_then_receive(2))
  then show ?thesis
    unfolding loop using b' fin
    by (intro exI [of _ b'])
      (auto simp: option.map_comp comp_def case_prod_unfold)
qed

text \<open>A buffer at whose head a frame declares length 0, of a type without configuration.\<close>

definition stuck_head :: "bytes \<Rightarrow> bool" where
  "stuck_head s \<longleftrightarrow> 4 \<le> length s \<and> declared_len s = 0 \<and> frame_type s \<noteq> 2 \<and> frame_type s \<noteq> 3"

lemma stuck_next_frame: "stuck_head s \<Longrightarrow> next_frame s = Some ([], s)"
  by (simp add: stuck_head_def next_frame_def)

lemma dispatch_stuck:
  assumes "buffer_ready b" and "stuck_head (valid_bytes b)"
    and "env_ok env"
  shows "\<exists>c' o'. dispatch env (c\<lparr>C37_buf := snd (examineBuffer b)\<rparr>) = Some (c', o')"
  using assms(1)
proof (cases rule: examine_ready_cases)
  case short
  with stuck_next_frame [OF assms(2)] show ?thesis by simp
next
  case complete
  have wf: "buffer_wf b" using assms(1) by (rule buffer_ready_wf)
  have "unat (frame_size_field (buffer b)) = 0"
    using declared_len_valid [OF wf complete(1)] assms(2) by (simp add: stuck_head_def)
  then have z: "frame_size_field (buffer b) = 0" by (simp add: unat_eq_0)
  have "valid_bytes b ! 1 = buffer b ! 1"
    using complete(1) by (simp add: valid_bytes_def)
  then have ty: "frame_type_field (buffer b) = frame_type (valid_bytes b)"
    by (simp add: frame_type_field_def frame_type_def)
  from assms(2) show ?thesis
    by (simp add: complete(4) z ty dispatch_def Let_def processC37event_def stuck_head_def
        C37_DATUM_TYPICAL_LEN_def)
qed

lemmas read_loop_induct = read_loop.raw_induct [rotated, consumes 1, case_names step]

lemma stuck_loop:
  assumes "read_loop env c outs = Some y" and "env_ok env"
    and "buffer_ready (C37_buf c)" and "stuck_head (valid_bytes (C37_buf c))"
  shows False
  using assms
proof (induction rule: read_loop_induct)
  case (step loop env c outs y)
  let ?b = "C37_buf c"
  note ready = step.prems(2) and stuck = step.prems(3)
  have nf: "next_frame (valid_bytes ?b) = Some ([], valid_bytes ?b)"
    using stuck by (rule stuck_next_frame)
  note er = examine_remove_complete [OF ready nf]
  obtain c' o' where d: "dispatch env (c\<lparr>C37_buf := snd (examineBuffer ?b)\<rparr>) = Some (c', o')"
    using dispatch_stuck [OF ready stuck step.prems(1)] by blast
  have b': "C37_buf c' = snd (removeMsgFromBuffer (env_past env) (snd (examineBuffer ?b)))"
    using dispatch_buf [OF d] by simp
  have "loop env c' (outs @ o') = Some y"
    using step.hyps er(1) d by simp
  moreover have "buffer_ready (C37_buf c')" "stuck_head (valid_bytes (C37_buf c'))"
    using er(3,4) stuck by (simp_all add: b')
  ultimately show False using step.IH step.prems(1) by blast
qed

text \<open>
  When the frame at the head of the received bytes declares length 0, the handler never
  returns: it counts the same empty message for ever, and the connection is not read again.
\<close>

theorem zero_length_frame_blocks_the_channel:
  assumes "buffer_ready (C37_buf c)" and "env_ok env" and "bs \<noteq> []"
    and "length (valid_bytes (C37_buf c)) + length bs \<le> 1024"
    and "stuck_head (valid_bytes (C37_buf c) @ bs)"
  shows "read_handler env (of_nat (length bs)) (store_received bs c) = None"
proof -
  let ?b = "receive bs (C37_buf c)"
  let ?c = "(store_received bs c)\<lparr>C37_buf := ?b\<rparr>"
  have rb: "valid_bytes ?b = valid_bytes (C37_buf c) @ bs" "buffer_ready ?b"
    using receive_buffer assms(1,4) by blast+
  have "read_loop env ?c [] = None"
  proof (rule ccontr)
    assume "read_loop env ?c [] \<noteq> None"
    then obtain y where "read_loop env ?c [] = Some y" by blast
    then show False using stuck_loop [of env ?c "[]" y] assms(2,5) rb by simp
  qed
  moreover have "(of_nat (length bs) :: u32) \<noteq> 0"
    using assms(3,4) of_nat_length_0 [of bs] by simp
  ultimately show ?thesis by (simp add: read_handler_def store_then_receive(2))
qed

subsection \<open>The connection as a state machine\<close>

definition chan_ok :: "data_channel \<Rightarrow> bool" where
  "chan_ok c \<longleftrightarrow> buffer_ready (C37_buf c) \<and> reformat_wf (c37reformat c) \<and>
     (case pending c of
        ReadPending pos len \<Rightarrow> pos = length (valid_bytes (C37_buf c)) \<and> unat len = 1024 - pos
      | _ \<Rightarrow> True)"

text \<open>The completions that the scheduler may deliver, and the handler's answer.\<close>

inductive chan_step :: "channel_env \<Rightarrow> data_channel \<Rightarrow> data_channel \<Rightarrow> bool" for env where
  connect_done: "pending c = ConnectPending \<Longrightarrow> chan_step env c (connect_handler ec c)"
| read_done: "pending c = ReadPending pos len \<Longrightarrow> length bs \<le> unat len \<Longrightarrow>
    read_handler env (of_nat (length bs)) (store_received bs c) = Some (Some (c', outs)) \<Longrightarrow>
    chan_step env c c'"

text \<open>A second has at most 512 samples.\<close>

definition bounded_second :: "bytes \<Rightarrow> bool" where
  "bounded_second out \<longleftrightarrow> length out \<le> 30724"

lemma dispatch_bounded:
  assumes "dispatch env c = Some (c', outs)" "reformat_wf (c37reformat c)" "length (buffer (C37_buf c)) = 1024" "env_ok env"
  shows "reformat_wf (c37reformat c') \<and> list_all bounded_second outs"
proof -
  have wf: "unat (sampleCnt (c37reformat c)) \<le> 512" using assms(2) by (simp add: reformat_wf_def)
  have "processC37event (env_malloc env) (env_behind env) f s (C37_buf c) (c37reformat c) = Some (st', o') \<Longrightarrow>
      reformat_wf st' \<and> list_all bounded_second o'" for f s st' o'
    using processC37event_wf [OF assms(2,3), of "env_behind env" "env_malloc env" f s st' o'] assms(4) wf
    by (auto simp: env_ok_def bounded_second_def list_all_iff)
  with assms(1,2) show ?thesis
    by (auto simp: dispatch_def Let_def remove_current_def bind_eq_Some split: if_splits)
qed

lemma read_loop_keeps:
  assumes "read_loop env c outs = Some y" and "env_ok env"
    and "buffer_ready (C37_buf c)" and "reformat_wf (c37reformat c)" and "list_all bounded_second outs"
  shows "case y of None \<Rightarrow> True
    | Some (c', outs') \<Rightarrow> buffer_ready (C37_buf c') \<and> reformat_wf (c37reformat c') \<and> list_all bounded_second outs'"
  using assms
proof (induction rule: read_loop_induct)
  case (step loop env c outs y)
  let ?b = "C37_buf c" and ?c1 = "c\<lparr>C37_buf := snd (examineBuffer (C37_buf c))\<rparr>"
  note ready = step.prems(2) and rwf = step.prems(3)
  show ?case
  proof (cases "fst (examineBuffer ?b) = 0")
    case False
    then have "next_frame (valid_bytes ?b) = None"
      using examine_remove_complete(1) [OF ready] by (cases "next_frame (valid_bytes ?b)") auto
    with False step.hyps examine_incomplete [OF ready] rwf step.prems(4) show ?thesis by auto
  next
    case True
    then obtain f r where nf: "next_frame (valid_bytes ?b) = Some (f, r)"
      using examine_incomplete [OF ready] by (cases "next_frame (valid_bytes ?b)") auto
    show ?thesis
    proof (cases "dispatch env ?c1")
      case None
      with True step.hyps show ?thesis by auto
    next
      case (Some d)
      obtain c' o' where d: "dispatch env ?c1 = Some (c', o')" using Some by (cases d) auto
      have ready': "buffer_ready (C37_buf c')"
        using dispatch_buf [OF d] examine_remove_complete(4) [OF ready nf] by simp
      have "length (buffer (snd (examineBuffer ?b))) = 1024"
        using buffer_wfD(1) [OF buffer_ready_wf [OF ready]] by (simp add: examineBuffer_frame)
      then have "reformat_wf (c37reformat c') \<and> list_all bounded_second o'"
        using dispatch_bounded [OF d] rwf step.prems(1) by simp
      with ready' True d step show ?thesis by auto
    qed
  qed
qed

lemma connect_handler_keeps: "chan_ok c \<Longrightarrow> chan_ok (connect_handler ec c)"
  by (auto simp: connect_handler_def chan_ok_def connect_def async_read_ready
      length_valid_bytes [OF buffer_ready_wf] unat_of_nat take_bit_eq_mod)

lemma read_handler_keeps:
  assumes "chan_ok c" "env_ok env" "pending c = ReadPending pos len" "length bs \<le> unat len"
    and "read_handler env (of_nat (length bs)) (store_received bs c) = Some (Some (c', outs))"
  shows "chan_ok c' \<and> list_all bounded_second outs"
proof -
  let ?b = "receive bs (C37_buf c)"
  let ?c = "(store_received bs c)\<lparr>C37_buf := ?b\<rparr>"
  have ready: "buffer_ready (C37_buf c)" and rwf: "reformat_wf (c37reformat c)"
    using assms(1) by (simp_all add: chan_ok_def)
  have room: "length (valid_bytes (C37_buf c)) + length bs \<le> 1024"
    using assms(1,3,4) length_valid_bytes [OF buffer_ready_wf [OF ready]]
      buffer_wfD(3) [OF buffer_ready_wf [OF ready]]
    by (simp add: chan_ok_def)
  have rb: "buffer_ready ?b" by (rule receive_buffer(2) [OF ready room])
  have rc: "reformat_wf (c37reformat ?c)" using rwf by (simp add: store_received_def Let_def)
  show ?thesis
  proof (cases "bs = []")
    case True
    have "length (buffer (C37_buf (store_received bs c))) = 1024"
      using buffer_wfD(1) [OF buffer_ready_wf [OF rb]] by (simp add: store_then_receive)
    with True assms(5) rc show ?thesis
      by (auto simp: read_handler_def chan_ok_def connect_def init_buffer_ready)
  next
    case False
    then have "(of_nat (length bs) :: u32) \<noteq> 0"
      using room of_nat_length_0 [of bs] by simp
    with assms(5) obtain c1 where
      l: "read_loop env ?c [] = Some (Some (c1, outs))" and c': "c' = async_read c1"
      by (auto simp: read_handler_def store_then_receive(2))
    from read_loop_keeps [OF l assms(2)] rb rc
    have "buffer_ready (C37_buf c1)" "reformat_wf (c37reformat c1)" "list_all bounded_second outs" by simp_all
    then show ?thesis
      by (simp add: c' async_read_ready chan_ok_def length_valid_bytes [OF buffer_ready_wf]
          unat_of_nat take_bit_eq_mod)
  qed
qed

text \<open>
  C16: Whatever the peer sends and however the reads are cut, between two completions the
  channel keeps its invariant: the receive machine is ready, the regrouping machine is well
  formed, and the region handed to the pending read is exactly the free end of the array, so
  no read stores outside it or over bytes not yet processed.
\<close>

theorem channel_keeps_invariant:
  assumes "(chan_step env)\<^sup>*\<^sup>* c0 c" and "chan_ok c0" and "env_ok env"
  shows "chan_ok c"
  using assms(1)
proof induction
  case base
  then show ?case by (rule assms(2))
next
  case (step c c')
  from step.hyps(2) show ?case
    by (cases rule: chan_step.cases)
      (use step.IH assms(3) in \<open>auto intro: connect_handler_keeps dest: read_handler_keeps\<close>)
qed

subsection \<open>Command frames\<close>

text \<open>
  A command frame is 18 bytes long and says so, carries the command and the low 32 bits
  of the time; its last two bytes are the checksum of the whole frame with these two bytes
  still 0, not the checksum of the bytes before them that \<open>parseCfg_msg\<close> checks.
\<close>

theorem sendCommand_layout:
  shows "let f = sendCommand crc t commandType False n in
    length f = 18 \<and> declared_len f = 18 \<and> f ! 0 = 0xaa \<and> f ! 1 = 0x41 \<and>
    be32 (f ! 6) (f ! 7) (f ! 8) (f ! 9) = ucast t \<and> f ! 15 = ucast commandType \<and>
    count_at f 16 = unat (crc (take 16 f @ [0, 0]))"
proof -
  define f where "f = sendCommand crc t commandType False n"
  define head :: bytes where "head = [0xaa, 0x41, 0, 18, 0, 1,
      ucast (drop_bit 24 t AND 0xff), ucast (drop_bit 16 t AND 0xff),
      ucast (drop_bit 8 t AND 0xff), ucast (t AND 0xff),
      0, 0, 0, 0, 0, ucast (commandType AND 0xff)]"
  define sum where "sum = crc (head @ [0, 0])"
  have f: "f = head @ [ucast (drop_bit 8 sum AND 0xff), ucast (sum AND 0xff)]"
    by (simp add: f_def sendCommand_def sum_def head_def Let_def)
  have low: "(ucast (x AND 0xff) :: u8) = ucast x" for x :: "'a::len word"
  proof -
    have m: "(0xff :: 'a word) = mask 8" by (simp add: mask_eq_exp_minus_1)
    show ?thesis
      unfolding m by (rule bit_word_eqI) (auto simp: bit_simps dest: bit_imp_le_length)
  qed
  have sum: "be16 (ucast (drop_bit 8 sum)) (ucast sum) = ucast sum"
  proof (rule bit_word_eqI)
    fix k assume "k < LENGTH(32)"
    show "bit (be16 (ucast (drop_bit 8 sum)) (ucast sum)) k = bit (ucast sum :: u32) k"
      unfolding be16_def
      by (subst disjunctive_add; cases "k < 8") (auto simp: bit_simps dest: bit_imp_le_length)
  qed
  have "unat sum < 65536" using unsigned_less [of sum] by simp
  then have "unat (ucast sum :: u32) = unat sum"
    by (simp add: unsigned_ucast_eq take_bit_eq_mod)
  then have ck: "256 * unat (ucast (drop_bit 8 sum) :: u8) + unat (ucast sum :: u8) = unat sum"
    using unat_be16 [of "ucast (drop_bit 8 sum)" "ucast sum"] sum by simp
  have soc: "be32 (ucast (drop_bit 24 t)) (ucast (drop_bit 16 t)) (ucast (drop_bit 8 t)) (ucast t)
      = ucast t"
    by (rule bit_word_eqI) (auto simp: bit_be32 bit_simps)
  have "length f = 18 \<and> declared_len f = 18 \<and> f ! 0 = 0xaa \<and> f ! 1 = 0x41 \<and>
    be32 (f ! 6) (f ! 7) (f ! 8) (f ! 9) = ucast t \<and> f ! 15 = ucast commandType \<and>
    count_at f 16 = unat (crc (take 16 f @ [0, 0]))"
    using ck soc by (simp add: f head_def low declared_len_def count_at_def)
      (simp add: sum_def head_def low)
  then show ?thesis by (simp only: f_def Let_def)
qed

subsection \<open>Concrete runs\<close>

definition sample_env :: channel_env where
  "sample_env = \<lparr>env_crc = (\<lambda>_. 0), env_junk = (\<lambda>_. sample_junk), env_malloc = (\<lambda>n. replicate n 0),
     env_behind = [0, 0, 0, 0], env_past = 0\<rparr>"

definition sample_channel :: data_channel where
  "sample_channel =
     \<lparr>c37reformat = fresh_reformat, C37_buf = new_C37_Buffer (replicate 1024 0) 0,
      cfg_1_Descriptor = None, cfg_2_Descriptor = None, C37eventsRecv = 0, C37eventsQueued = 0,
      NumConnects = 0, BytesRecv = 0, pending = ConnectPending, written = []\<rparr>"

lemma sample_env_ok: "env_ok sample_env"
  by (simp add: env_ok_def sample_env_def)

lemma sample_channel_ready: "buffer_ready (C37_buf sample_channel)"
  by (simp add: sample_channel_def new_buffer_ready)

theorem read_handler_processes_every_frame_witness:
  "\<exists>c' outs. read_handler sample_env 12
       (store_received [0xaa, 0x01, 0, 6, 7, 8, 0xaa, 0x11, 0, 5, 9, 0xaa] sample_channel)
     = Some (Some (c', outs)) \<and> valid_bytes (C37_buf c') = [0xaa] \<and> BytesRecv c' = 11 \<and>
       C37eventsRecv c' = 1 \<and> nonStdC37events (c37reformat c') = 1 \<and> pending c' = ReadPending 1 1023"
proof -
  let ?bs = "[0xaa, 0x01, 0, 6, 7, 8, 0xaa, 0x11, 0, 5, 9, 0xaa] :: bytes"
  have e: "valid_bytes (C37_buf sample_channel) = []" by (simp add: sample_channel_def)
  have sp: "split_frames (valid_bytes (C37_buf sample_channel) @ ?bs)
      = Some ([[0xaa, 0x01, 0, 6, 7, 8], [0xaa, 0x11, 0, 5, 9]], [0xaa])"
    unfolding e
    by (simp add: split_frames.simps next_frame_def declared_len_def)
  have pf: "process_frames sample_env [[0xaa, 0x01, 0, 6, 7, 8], [0xaa, 0x11, 0, 5, 9]]
      (c37reformat sample_channel)
      = Some (fresh_reformat\<lparr>nonStdC37events := 1\<rparr>, [])"
    by (simp add: frame_type_def frame_event_def buffer_holding_def new_C37_Buffer_def
        processC37event_def C37_DATUM_TYPICAL_LEN_def sample_channel_def fresh_reformat_def
        new_C37_Reformat_def)
  from read_handler_processes_every_frame [OF sample_channel_ready sample_env_ok, of ?bs,
      OF _ _ sp] obtain b' where
    "valid_bytes b' = [0xaa]" and
    "read_handler sample_env (of_nat (length ?bs)) (store_received ?bs sample_channel) =
      Some (map_option (\<lambda>(st, outs). ((after_frames sample_env [[0xaa, 0x01, 0, 6, 7, 8], [0xaa, 0x11, 0, 5, 9]]
          st sample_channel)\<lparr>C37_buf := b',
                pending := ReadPending (length ([0xaa] :: bytes)) (of_nat (1024 - length ([0xaa] :: bytes)))\<rparr>, outs))
            (process_frames sample_env [[0xaa, 0x01, 0, 6, 7, 8], [0xaa, 0x11, 0, 5, 9]]
              (c37reformat sample_channel)))"
    by (auto simp: e sound_frame_def frame_type_def)
  then show ?thesis
    unfolding pf option.map prod.case
    by (simp add: after_frames_def data_frames_def frame_type_def)
      (simp add: sample_channel_def fresh_reformat_def new_C37_Reformat_def)
qed

theorem zero_length_frame_blocks_the_channel_witness:
  "read_handler sample_env 5 (store_received [0xaa, 0x01, 0, 0, 9] sample_channel) = None"
proof -
  have e: "valid_bytes (C37_buf sample_channel) = []" by (simp add: sample_channel_def)
  show ?thesis
    using zero_length_frame_blocks_the_channel [OF sample_channel_ready sample_env_ok,
        of "[0xaa, 0x01, 0, 0, 9]"]
    by (simp add: e stuck_head_def declared_len_def frame_type_def)
qed

theorem channel_keeps_invariant_witness:
  "chan_ok (connect_handler False sample_channel)"
proof -
  have "chan_step sample_env sample_channel (connect_handler False sample_channel)"
    by (rule connect_done) (simp add: sample_channel_def)
  moreover have "chan_ok sample_channel"
    using sample_channel_ready fresh_reformat_wf by (simp add: chan_ok_def) (simp add: sample_channel_def)
  ultimately show ?thesis
    using channel_keeps_invariant [OF r_into_rtranclp _ sample_env_ok] by blast
qed

end
