(* ===== verification/Service_Stats.thy ===== *)
theory Service_Stats
  imports Sparcs_Prelude
begin

text \<open>
  The statistics of a service: \<open>uPMUgateway/serviceCommonStats.{h,cpp}\<close> and the three
  \<open>serviceSpecificStats.{h,cpp}\<close> (archiver, RabbitMQ archiver, FTP data discovery). A service
  has two maps of labels and two maps of \<open>boost::any\<close> values, which hold pointers to static
  variables; the pointer's type decides which \<open>any_cast\<close> succeeds. A failing cast throws out
  of the function with the mutex locked; a null label is dereferenced.
\<close>

subsection \<open>Variables, pointers and the service's fields\<close>

text \<open>Static variables by name; floats by their 32-bit pattern (0 is 0.0).\<close>

datatype cell = CUint u32 | CFlt u32 | CStr string

datatype stat_any =
    UintPtr string
  | AtomicUintPtr string
  | FltPtr string
  | StrPtr string

record service_stats =
  statics :: "string \<rightharpoonup> cell"
  serviceCmnStatsLabels :: "(nat \<rightharpoonup> string) option"
  serviceCmnStatsValues :: "(nat \<rightharpoonup> stat_any) option"
  serviceSpecStatsLabels :: "(nat \<rightharpoonup> string) option"
  serviceSpecStatsValues :: "(nat \<rightharpoonup> stat_any) option"
  cmnStatsLocked :: bool
  specStatsLocked :: bool

datatype stat_val = SUint u32 | SInt u32 | SFlt u32 | SStr string

type_synonym key_value = "string \<times> stat_val"
type_synonym key_value_list = "string \<times> key_value list"

text \<open>How a call ends: normally, with an exception, waiting for a mutex, or undefined.\<close>

datatype ('s, 'a) outcome = Returns 's 'a | Throws 's | Blocks | Undefined

primrec obind :: "('s, 'a) outcome \<Rightarrow> ('s \<Rightarrow> 'a \<Rightarrow> ('s, 'b) outcome) \<Rightarrow> ('s, 'b) outcome" where
  "obind (Returns s x) f = f s x"
| "obind (Throws s) f = Throws s"
| "obind Blocks f = Blocks"
| "obind Undefined f = Undefined"

definition of_run :: "'s \<Rightarrow> 'a run \<Rightarrow> ('s, 'a) outcome" where
  "of_run s r = (case r of Ok x \<Rightarrow> Returns s x | Exc \<Rightarrow> Throws s | Ub \<Rightarrow> Undefined)"

lemma obind_Returns:
  "obind m f = Returns s x \<longleftrightarrow> (\<exists>s1 x1. m = Returns s1 x1 \<and> f s1 x1 = Returns s x)"
  by (cases m) auto

lemma obind_Throws:
  "obind m f = Throws s \<longleftrightarrow> m = Throws s \<or> (\<exists>s1 x1. m = Returns s1 x1 \<and> f s1 x1 = Throws s)"
  by (cases m) auto

lemma of_run_Returns: "of_run s r = Returns s1 x \<longleftrightarrow> r = Ok x \<and> s1 = s"
  by (cases r) (auto simp: of_run_def)

lemma of_run_Throws: "of_run s r = Throws s1 \<longleftrightarrow> r = Exc \<and> s1 = s"
  by (cases r) (auto simp: of_run_def)

definition set_cells :: "(string \<times> cell) list \<Rightarrow> service_stats \<Rightarrow> service_stats" where
  "set_cells cs st = st\<lparr>statics := statics st ++ map_of cs\<rparr>"

subsection \<open>Common statistics\<close>

definition common_labels :: "(nat \<times> string) list" where
  "common_labels =
     [(0, ''Service_Start_Timestamp_GMT''), (1, ''Num_Data_Buffers_Seen''),
      (2, ''Num_Data_Buffers_Accepted''), (3, ''Num_Data_Buffers_Rejected'')]"

definition common_values :: "(nat \<times> stat_any) list" where
  "common_values =
     [(0, UintPtr ''val_serviceStartTime''), (1, UintPtr ''val_numDataBufSeen''),
      (2, UintPtr ''val_numDataBufAccepted''), (3, UintPtr ''val_numDataBufRejected'')]"

definition createServiceCommonStats ::
  "u32 \<Rightarrow> service_stats \<Rightarrow> (service_stats, unit) outcome" where
  "createServiceCommonStats now st =
     (if cmnStatsLocked st then Blocks
      else Returns ((set_cells [(''val_serviceStartTime'', CUint now), (''val_numDataBufSeen'', CUint 0),
               (''val_numDataBufAccepted'', CUint 0), (''val_numDataBufRejected'', CUint 0)] st)
             \<lparr>serviceCmnStatsLabels := Some (map_of common_labels),
              serviceCmnStatsValues := Some (map_of common_values)\<rparr>) ())"

definition destroyServiceCommonStats :: "service_stats \<Rightarrow> (service_stats, unit) outcome" where
  "destroyServiceCommonStats st =
     (if cmnStatsLocked st then Blocks
      else Returns (st\<lparr>serviceCmnStatsLabels := None, serviceCmnStatsValues := None\<rparr>) ())"

definition clearServiceCommonStats :: "service_stats \<Rightarrow> (service_stats, unit) outcome" where
  "clearServiceCommonStats st =
     (if cmnStatsLocked st then Blocks
      else Returns (set_cells [(''val_numDataBufSeen'', CUint 0),
               (''val_numDataBufAccepted'', CUint 0), (''val_numDataBufRejected'', CUint 0)] st) ())"

subsection \<open>Reading one entry\<close>

text \<open>
  \<open>any_cast<T *>\<close> of an entry, and the value it points to. An atomic counter is held as a
  pointer to another type, so the cast to \<open>uint32_t *\<close> fails.
\<close>

datatype 'a cast = Value 'a | BadCast | NullDeref

definition cast_str :: "service_stats \<Rightarrow> stat_any option \<Rightarrow> stat_val cast" where
  "cast_str st a = (case a of
     Some (StrPtr v) \<Rightarrow> (case statics st v of Some (CStr s) \<Rightarrow> Value (SStr s) | _ \<Rightarrow> NullDeref)
   | _ \<Rightarrow> BadCast)"

definition cast_uint :: "service_stats \<Rightarrow> stat_any option \<Rightarrow> stat_val cast" where
  "cast_uint st a = (case a of
     Some (UintPtr v) \<Rightarrow> (case statics st v of Some (CUint n) \<Rightarrow> Value (SUint n) | _ \<Rightarrow> NullDeref)
   | _ \<Rightarrow> BadCast)"

definition cast_int :: "service_stats \<Rightarrow> stat_any option \<Rightarrow> stat_val cast" where
  "cast_int st a = BadCast"

definition cast_flt :: "service_stats \<Rightarrow> stat_any option \<Rightarrow> stat_val cast" where
  "cast_flt st a = (case a of
     Some (FltPtr v) \<Rightarrow> (case statics st v of Some (CFlt n) \<Rightarrow> Value (SFlt n) | _ \<Rightarrow> NullDeref)
   | _ \<Rightarrow> BadCast)"

text \<open>
  One loop of a populate function over indices \<open>i, i + 1, ...\<close>. Both maps are indexed with
  \<open>operator[]\<close>: a missing label is a null pointer, a missing value an empty \<open>any\<close>. The label
  is dereferenced before the cast.
\<close>

primrec stat_pairs ::
  "(service_stats \<Rightarrow> stat_any option \<Rightarrow> stat_val cast) \<Rightarrow> service_stats \<Rightarrow> (nat \<rightharpoonup> string) \<Rightarrow>
   (nat \<rightharpoonup> stat_any) \<Rightarrow> nat \<Rightarrow> nat \<Rightarrow> key_value list cast" where
  "stat_pairs cast st lbl vals i 0 = Value []"
| "stat_pairs cast st lbl vals i (Suc n) =
     (case lbl i of
        None \<Rightarrow> NullDeref
      | Some l \<Rightarrow>
          (case cast st (vals i) of
             Value v \<Rightarrow>
               (case stat_pairs cast st lbl vals (i + 1) n of
                  Value ps \<Rightarrow> Value ((l, v) # ps) | BadCast \<Rightarrow> BadCast | NullDeref \<Rightarrow> NullDeref)
           | BadCast \<Rightarrow> BadCast
           | NullDeref \<Rightarrow> NullDeref))"

fun append_casts :: "'a list cast list \<Rightarrow> 'a list cast" where
  "append_casts [] = Value []"
| "append_casts (Value xs # cs) =
     (case append_casts cs of Value ys \<Rightarrow> Value (xs @ ys) | BadCast \<Rightarrow> BadCast | NullDeref \<Rightarrow> NullDeref)"
| "append_casts (BadCast # cs) = BadCast"
| "append_casts (NullDeref # cs) = NullDeref"

text \<open>The four loops, for the given numbers of strings, counters, integers and floats.\<close>

definition stat_lists ::
  "service_stats \<Rightarrow> (nat \<rightharpoonup> string) \<Rightarrow> (nat \<rightharpoonup> stat_any) \<Rightarrow> nat \<Rightarrow> nat \<Rightarrow> nat \<Rightarrow> nat \<Rightarrow>
   key_value list cast" where
  "stat_lists st lbl vals nstr nuint nint nflt =
     append_casts [stat_pairs cast_str st lbl vals 30 nstr, stat_pairs cast_uint st lbl vals 0 nuint,
       stat_pairs cast_int st lbl vals 10 nint, stat_pairs cast_flt st lbl vals 20 nflt]"

text \<open>
  The common list is filled from the service-specific maps, under the common mutex.
\<close>

definition populateServiceCommonProtobufStatsList ::
  "service_stats \<Rightarrow> (service_stats, key_value_list) outcome" where
  "populateServiceCommonProtobufStatsList st =
     (if cmnStatsLocked st then Blocks
      else (case (serviceSpecStatsLabels st, serviceSpecStatsValues st) of
              (Some lbl, Some vals) \<Rightarrow>
                (case stat_lists st lbl vals 0 4 0 0 of
                   Value ps \<Rightarrow> Returns st (''Service_Common_Stats'', ps)
                 | BadCast \<Rightarrow> Throws (st\<lparr>cmnStatsLocked := True\<rparr>)
                 | NullDeref \<Rightarrow> Undefined)
            | _ \<Rightarrow> Undefined))"

definition populate_specific ::
  "nat \<Rightarrow> nat \<Rightarrow> nat \<Rightarrow> nat \<Rightarrow> service_stats \<Rightarrow> (service_stats, key_value_list) outcome" where
  "populate_specific nstr nuint nint nflt st =
     (if specStatsLocked st then Blocks
      else (case (serviceSpecStatsLabels st, serviceSpecStatsValues st) of
              (Some lbl, Some vals) \<Rightarrow>
                (case stat_lists st lbl vals nstr nuint nint nflt of
                   Value ps \<Rightarrow> Returns st (''Service_Specific_Stats'', ps)
                 | BadCast \<Rightarrow> Throws (st\<lparr>specStatsLocked := True\<rparr>)
                 | NullDeref \<Rightarrow> Undefined)
            | _ \<Rightarrow> Undefined))"

definition create_specific ::
  "(nat \<times> string) list \<Rightarrow> (nat \<times> stat_any) list \<Rightarrow> (string \<times> cell) list \<Rightarrow> service_stats \<Rightarrow>
   (service_stats, unit) outcome" where
  "create_specific lbls vals inits st =
     (if specStatsLocked st then Blocks
      else Returns ((set_cells inits st)\<lparr>serviceSpecStatsLabels := Some (map_of lbls),
                                        serviceSpecStatsValues := Some (map_of vals)\<rparr>) ())"

definition clear_specific ::
  "(string \<times> cell) list \<Rightarrow> service_stats \<Rightarrow> (service_stats, unit) outcome" where
  "clear_specific inits st = (if specStatsLocked st then Blocks else Returns (set_cells inits st) ())"

definition destroy_specific :: "service_stats \<Rightarrow> (service_stats, unit) outcome" where
  "destroy_specific st =
     (if specStatsLocked st then Blocks
      else Returns (st\<lparr>serviceSpecStatsLabels := None, serviceSpecStatsValues := None\<rparr>) ())"

subsection \<open>The archiver's statistics\<close>

definition archiver_labels :: "(nat \<times> string) list" where
  "archiver_labels =
     [(0, ''Buffer_Format_Error''), (1, ''Abandoned_Buffers''),
      (2, ''Protocol_Buffer_No_Serial_Memory_Avail''), (3, ''Cassandra_Data_Insert_Error''),
      (4, ''Cassandra_Metadata_Insert_Error''), (5, ''Cassandra_Annotations_Insert_Error''),
      (6, ''Cassandra_Insert_Abandoned_No_Conn''), (20, ''Minimum_Average_Data_Insert_Time_Msec''),
      (21, ''Maximum_Average_Data_Insert_Time_Msec''), (22, ''Last_Average_Data_Insert_Time_Msec''),
      (30, ''Data_Archiver_Major_Version''), (31, ''Data_Archiver_Minor_Version'')]"

definition archiver_values :: "(nat \<times> stat_any) list" where
  "archiver_values =
     [(0, UintPtr ''val_bufFmtError''), (1, UintPtr ''val_abandonedBuffers''),
      (2, UintPtr ''val_pbNoSerialMemAvail''), (3, UintPtr ''val_cassandraDataInsertError''),
      (4, UintPtr ''val_cassandraMetadataInsertError''),
      (5, UintPtr ''val_cassandraAnnotationsInsertError''),
      (6, UintPtr ''val_insertAbandonedNoCassandraConn''),
      (20, FltPtr ''val_minAvgDataInsertMsec''), (21, FltPtr ''val_maxAvgDataInsertMsec''),
      (22, FltPtr ''val_lastAvgDataInsertMsec''),
      (30, StrPtr ''val_dataArchiverMajVer''), (31, StrPtr ''val_dataArchiverMinVer'')]"

definition archiver_inits :: "(string \<times> cell) list" where
  "archiver_inits =
     [(''val_bufFmtError'', CUint 0), (''val_abandonedBuffers'', CUint 0),
      (''val_pbNoSerialMemAvail'', CUint 0), (''val_cassandraDataInsertError'', CUint 0),
      (''val_cassandraMetadataInsertError'', CUint 0),
      (''val_cassandraAnnotationsInsertError'', CUint 0),
      (''val_insertAbandonedNoCassandraConn'', CUint 0), (''val_minAvgDataInsertMsec'', CFlt 0),
      (''val_maxAvgDataInsertMsec'', CFlt 0), (''val_lastAvgDataInsertMsec'', CFlt 0)]"

text \<open>The static variables as the program starts.\<close>

definition archiver_statics :: "(string \<times> cell) list" where
  "archiver_statics = archiver_inits @
     [(''val_dataArchiverMajVer'', CStr ''0.9''), (''val_dataArchiverMinVer'', CStr ''32'')]"

definition createServiceSpecificStats_archiver :: "service_stats \<Rightarrow> (service_stats, unit) outcome" where
  "createServiceSpecificStats_archiver = create_specific archiver_labels archiver_values archiver_inits"

definition destroyServiceSpecificStats_archiver :: "service_stats \<Rightarrow> (service_stats, unit) outcome" where
  "destroyServiceSpecificStats_archiver = destroy_specific"

definition clearServiceSpecificStats_archiver :: "service_stats \<Rightarrow> (service_stats, unit) outcome" where
  "clearServiceSpecificStats_archiver = clear_specific archiver_inits"

definition populateServiceSpecificProtobufStatsList_archiver ::
  "service_stats \<Rightarrow> (service_stats, key_value_list) outcome" where
  "populateServiceSpecificProtobufStatsList_archiver = populate_specific 2 7 0 3"

subsection \<open>The RabbitMQ archiver's statistics\<close>

definition rabbitmq_labels :: "(nat \<times> string) list" where
  "rabbitmq_labels =
     [(0, ''Buffer_Format_Error''), (1, ''Abandoned_Buffers''),
      (2, ''Protocol_Buffer_No_Serial_Memory_Avail''), (3, ''RabbitMQ_Data_Insert_Error''),
      (4, ''Cassandra_Insert_Abandoned_No_Conn''), (20, ''Minimum_Average_Data_Insert_Time_Msec''),
      (21, ''Maximum_Average_Data_Insert_Time_Msec''), (22, ''Last_Average_Data_Insert_Time_Msec''),
      (30, ''Data_Archiver_RabbitMQ_Major_Version''), (31, ''Data_Archiver_RabbitMQ_Minor_Version'')]"

definition rabbitmq_values :: "(nat \<times> stat_any) list" where
  "rabbitmq_values =
     [(0, UintPtr ''val_bufFmtError''), (1, UintPtr ''val_abandonedBuffers''),
      (2, UintPtr ''val_pbNoSerialMemAvail''), (3, UintPtr ''val_rabbitmqDataInsertError''),
      (4, UintPtr ''val_insertAbandonedNoRabbitmqConn''),
      (20, FltPtr ''val_minAvgDataInsertMsec''), (21, FltPtr ''val_maxAvgDataInsertMsec''),
      (22, FltPtr ''val_lastAvgDataInsertMsec''),
      (30, StrPtr ''val_dataArchiverRabbitmqMajVer''),
      (31, StrPtr ''val_dataArchiverRabbitmqMinVer'')]"

definition rabbitmq_inits :: "(string \<times> cell) list" where
  "rabbitmq_inits =
     [(''val_bufFmtError'', CUint 0), (''val_abandonedBuffers'', CUint 0),
      (''val_pbNoSerialMemAvail'', CUint 0), (''val_rabbitmqDataInsertError'', CUint 0),
      (''val_insertAbandonedNoRabbitmqConn'', CUint 0), (''val_minAvgDataInsertMsec'', CFlt 0),
      (''val_maxAvgDataInsertMsec'', CFlt 0), (''val_lastAvgDataInsertMsec'', CFlt 0)]"

definition rabbitmq_statics :: "(string \<times> cell) list" where
  "rabbitmq_statics = rabbitmq_inits @
     [(''val_dataArchiverRabbitmqMajVer'', CStr ''0.9''),
      (''val_dataArchiverRabbitmqMinVer'', CStr ''32'')]"

definition createServiceSpecificStats_rabbitmq :: "service_stats \<Rightarrow> (service_stats, unit) outcome" where
  "createServiceSpecificStats_rabbitmq = create_specific rabbitmq_labels rabbitmq_values rabbitmq_inits"

definition destroyServiceSpecificStats_rabbitmq :: "service_stats \<Rightarrow> (service_stats, unit) outcome" where
  "destroyServiceSpecificStats_rabbitmq = destroy_specific"

definition clearServiceSpecificStats_rabbitmq :: "service_stats \<Rightarrow> (service_stats, unit) outcome" where
  "clearServiceSpecificStats_rabbitmq = clear_specific rabbitmq_inits"

definition populateServiceSpecificProtobufStatsList_rabbitmq ::
  "service_stats \<Rightarrow> (service_stats, key_value_list) outcome" where
  "populateServiceSpecificProtobufStatsList_rabbitmq = populate_specific 2 5 0 3"

subsection \<open>The data discovery's statistics\<close>

definition discovery_labels :: "(nat \<times> string) list" where
  "discovery_labels =
     [(0, ''Buffer_Format_Error''), (2, ''In_Mem_Shared_Data_Buffers''),
      (3, ''Total_Shared_Data_Buffers''), (1, ''Abandoned_Buffers''),
      (4, ''Protocol_Buffer_No_Serial_Memory_Avail''), (5, ''Cassandra_Data_Insert_Error''),
      (6, ''Cassandra_Metadata_Insert_Error''), (7, ''Cassandra_Annotations_Insert_Error''),
      (8, ''Cassandra_Insert_Abandoned_No_Conn''),
      (30, ''Data_Discovery_Major_Version''), (31, ''Data_Discovery_Minor_Version'')]"

definition discovery_values :: "(nat \<times> stat_any) list" where
  "discovery_values =
     [(0, UintPtr ''val_bufFmtError''), (2, AtomicUintPtr ''sharedInMemDataBufferCnt''),
      (3, AtomicUintPtr ''sharedTotalDataBufferCnt''), (1, UintPtr ''val_abandonedBuffers''),
      (4, UintPtr ''val_pbNoSerialMemAvail''), (5, UintPtr ''val_cassandraDataInsertError''),
      (6, UintPtr ''val_cassandraMetadataInsertError''),
      (7, UintPtr ''val_cassandraAnnotationsInsertError''),
      (8, UintPtr ''val_insertAbandonedNoCassandraConn''),
      (30, StrPtr ''val_dataDiscoveryMajVer''), (31, StrPtr ''val_dataDiscoveryMinVer'')]"

definition discovery_inits :: "(string \<times> cell) list" where
  "discovery_inits =
     [(''val_bufFmtError'', CUint 0), (''val_abandonedBuffers'', CUint 0),
      (''val_pbNoSerialMemAvail'', CUint 0), (''val_cassandraDataInsertError'', CUint 0),
      (''val_cassandraMetadataInsertError'', CUint 0),
      (''val_cassandraAnnotationsInsertError'', CUint 0),
      (''val_insertAbandonedNoCassandraConn'', CUint 0)]"

definition discovery_statics :: "(string \<times> cell) list" where
  "discovery_statics = discovery_inits @
     [(''val_dataDiscoveryMajVer'', CStr ''0.8''), (''val_dataDiscoveryMinVer'', CStr ''32'')]"

definition createServiceSpecificStats_discovery :: "service_stats \<Rightarrow> (service_stats, unit) outcome" where
  "createServiceSpecificStats_discovery =
     create_specific discovery_labels discovery_values discovery_inits"

definition destroyServiceSpecificStats_discovery :: "service_stats \<Rightarrow> (service_stats, unit) outcome" where
  "destroyServiceSpecificStats_discovery = destroy_specific"

definition clearServiceSpecificStats_discovery :: "service_stats \<Rightarrow> (service_stats, unit) outcome" where
  "clearServiceSpecificStats_discovery = clear_specific discovery_inits"

definition populateServiceSpecificProtobufStatsList_discovery ::
  "service_stats \<Rightarrow> (service_stats, key_value_list) outcome" where
  "populateServiceSpecificProtobufStatsList_discovery = populate_specific 2 9 0 0"

subsection \<open>Counting\<close>

text \<open>
  The services count an event \<open>i\<close> by \<open>any_cast<unsigned int *>\<close> followed by \<open>*cnt++\<close>, which
  advances the local pointer and leaves the counter as it was.
\<close>

definition count_stat :: "(nat \<rightharpoonup> stat_any) option \<Rightarrow> nat \<Rightarrow> service_stats \<Rightarrow> service_stats option" where
  "count_stat vals i st =
     (case vals of
        None \<Rightarrow> None
      | Some m \<Rightarrow> (case m i of Some (UintPtr v) \<Rightarrow> Some st | _ \<Rightarrow> None))"

subsection \<open>Properties\<close>

text \<open>The entries of a service's list, by a table of labels and cells.\<close>

definition cells_hold :: "(string \<times> cell) list \<Rightarrow> service_stats \<Rightarrow> bool" where
  "cells_hold cs st \<longleftrightarrow> list_all (\<lambda>(v, c). statics st v = Some c) cs"

lemma set_cells_frame [simp]:
  "specStatsLocked (set_cells cs st) = specStatsLocked st"
  "cmnStatsLocked (set_cells cs st) = cmnStatsLocked st"
  "serviceCmnStatsLabels (set_cells cs st) = serviceCmnStatsLabels st"
  "serviceCmnStatsValues (set_cells cs st) = serviceCmnStatsValues st"
  "serviceSpecStatsLabels (set_cells cs st) = serviceSpecStatsLabels st"
  "serviceSpecStatsValues (set_cells cs st) = serviceSpecStatsValues st"
  "statics (set_cells cs st) = statics st ++ map_of cs"
  by (simp_all add: set_cells_def)

text \<open>
  After the archiver's statistics have been created, the list for its
  service-specific statistics has the two version strings, the seven counters and the three
  times, each under its own label, with the values of the static variables, and both
  mutexes are free again.
\<close>

theorem archiver_list_reports_the_counters:
  assumes "\<not> specStatsLocked st" and "statics st ''val_dataArchiverMajVer'' = Some (CStr maj)"
    and "statics st ''val_dataArchiverMinVer'' = Some (CStr mnr)"
    and "createServiceSpecificStats_archiver st = Returns st1 ()"
    and "statics st2 = statics st1 ++ map_of [(''val_bufFmtError'', CUint n0),
       (''val_abandonedBuffers'', CUint n1), (''val_pbNoSerialMemAvail'', CUint n2),
       (''val_cassandraDataInsertError'', CUint n3), (''val_cassandraMetadataInsertError'', CUint n4),
       (''val_cassandraAnnotationsInsertError'', CUint n5),
       (''val_insertAbandonedNoCassandraConn'', CUint n6), (''val_minAvgDataInsertMsec'', CFlt f0),
       (''val_maxAvgDataInsertMsec'', CFlt f1), (''val_lastAvgDataInsertMsec'', CFlt f2)]"
    and "serviceSpecStatsLabels st2 = serviceSpecStatsLabels st1"
    and "serviceSpecStatsValues st2 = serviceSpecStatsValues st1"
    and "\<not> specStatsLocked st2"
  shows "populateServiceSpecificProtobufStatsList_archiver st2 = Returns st2 (''Service_Specific_Stats'',
     [(''Data_Archiver_Major_Version'', SStr maj), (''Data_Archiver_Minor_Version'', SStr mnr),
      (''Buffer_Format_Error'', SUint n0), (''Abandoned_Buffers'', SUint n1),
      (''Protocol_Buffer_No_Serial_Memory_Avail'', SUint n2), (''Cassandra_Data_Insert_Error'', SUint n3),
      (''Cassandra_Metadata_Insert_Error'', SUint n4), (''Cassandra_Annotations_Insert_Error'', SUint n5),
      (''Cassandra_Insert_Abandoned_No_Conn'', SUint n6),
      (''Minimum_Average_Data_Insert_Time_Msec'', SFlt f0),
      (''Maximum_Average_Data_Insert_Time_Msec'', SFlt f1),
      (''Last_Average_Data_Insert_Time_Msec'', SFlt f2)])"
proof -
  have st1: "serviceSpecStatsLabels st1 = Some (map_of archiver_labels)"
    "serviceSpecStatsValues st1 = Some (map_of archiver_values)"
    "statics st1 = statics st ++ map_of archiver_inits"
    using assms(1,4) by (auto simp: createServiceSpecificStats_archiver_def create_specific_def)
  show ?thesis
    using assms(2,3,5-8) st1
    by (simp add: populateServiceSpecificProtobufStatsList_archiver_def populate_specific_def
        stat_lists_def archiver_labels_def archiver_values_def archiver_inits_def
        cast_str_def cast_uint_def cast_flt_def numeral_eq_Suc map_add_def)
qed

text \<open>
  In the data discovery, two counters are atomic, and the list of its statistics cannot be
  made: every attempt ends with an exception while the mutex stays locked, and the next
  attempt waits for ever. The same holds for the list of common statistics, which is filled
  from the service-specific maps.
\<close>

theorem discovery_list_throws_and_locks:
  assumes "\<not> specStatsLocked st" and "\<not> cmnStatsLocked st"
    and "cells_hold discovery_statics st"
    and "createServiceSpecificStats_discovery st = Returns st1 ()"
  shows "populateServiceSpecificProtobufStatsList_discovery st1
           = Throws (st1\<lparr>specStatsLocked := True\<rparr>)
       \<and> populateServiceSpecificProtobufStatsList_discovery (st1\<lparr>specStatsLocked := True\<rparr>) = Blocks
       \<and> populateServiceCommonProtobufStatsList st1 = Throws (st1\<lparr>cmnStatsLocked := True\<rparr>)"
proof -
  have st1: "st1 = (set_cells discovery_inits st)\<lparr>serviceSpecStatsLabels := Some (map_of discovery_labels),
      serviceSpecStatsValues := Some (map_of discovery_values)\<rparr>"
    using assms(1,4) by (auto simp: createServiceSpecificStats_discovery_def create_specific_def)
  show ?thesis
    using assms(1-3)
    by (simp add: st1 populateServiceSpecificProtobufStatsList_discovery_def populate_specific_def
        populateServiceCommonProtobufStatsList_def stat_lists_def cells_hold_def
        discovery_statics_def discovery_labels_def discovery_values_def discovery_inits_def
        cast_str_def cast_uint_def numeral_eq_Suc map_add_def)
qed

text \<open>
  In the RabbitMQ archiver the list of common statistics shows the first four
  service-specific counters, under their specific labels; the common counters have no
  influence on it.
\<close>

theorem rabbitmq_common_list_shows_specific_counters:
  assumes "\<not> specStatsLocked st" and "\<not> cmnStatsLocked st"
    and "createServiceSpecificStats_rabbitmq st = Returns st1 ()"
    and "cells_hold [(''val_bufFmtError'', CUint n0), (''val_abandonedBuffers'', CUint n1),
           (''val_pbNoSerialMemAvail'', CUint n2), (''val_rabbitmqDataInsertError'', CUint n3)] st2"
    and "serviceSpecStatsLabels st2 = serviceSpecStatsLabels st1"
    and "serviceSpecStatsValues st2 = serviceSpecStatsValues st1"
    and "\<not> cmnStatsLocked st2"
  shows "populateServiceCommonProtobufStatsList st2 = Returns st2 (''Service_Common_Stats'',
     [(''Buffer_Format_Error'', SUint n0), (''Abandoned_Buffers'', SUint n1),
      (''Protocol_Buffer_No_Serial_Memory_Avail'', SUint n2),
      (''RabbitMQ_Data_Insert_Error'', SUint n3)])"
proof -
  have st1: "serviceSpecStatsLabels st1 = Some (map_of rabbitmq_labels)"
    "serviceSpecStatsValues st1 = Some (map_of rabbitmq_values)"
    using assms(1,3) by (auto simp: createServiceSpecificStats_rabbitmq_def create_specific_def)
  show ?thesis
    using assms(4-7) st1
    by (simp add: populateServiceCommonProtobufStatsList_def stat_lists_def cells_hold_def
        rabbitmq_labels_def rabbitmq_values_def cast_uint_def numeral_eq_Suc)
qed

subsection \<open>Concrete runs\<close>

definition stats_at_start :: "(string \<times> cell) list \<Rightarrow> service_stats" where
  "stats_at_start cs = \<lparr>statics = map_of cs, serviceCmnStatsLabels = None, serviceCmnStatsValues = None,
     serviceSpecStatsLabels = None, serviceSpecStatsValues = None, cmnStatsLocked = False,
     specStatsLocked = False\<rparr>"

definition created_archiver_stats :: service_stats where
  "created_archiver_stats = (set_cells archiver_inits (stats_at_start archiver_statics))
     \<lparr>serviceSpecStatsLabels := Some (map_of archiver_labels),
      serviceSpecStatsValues := Some (map_of archiver_values)\<rparr>"

theorem archiver_list_reports_the_counters_witness:
  "\<exists>ps. populateServiceSpecificProtobufStatsList_archiver created_archiver_stats
     = Returns created_archiver_stats (''Service_Specific_Stats'', ps) \<and> length ps = 12 \<and>
       ps ! 0 = (''Data_Archiver_Major_Version'', SStr ''0.9'') \<and>
       ps ! 3 = (''Abandoned_Buffers'', SUint 0)"
  using archiver_list_reports_the_counters [of "stats_at_start archiver_statics" "''0.9''" "''32''"
      created_archiver_stats created_archiver_stats 0 0 0 0 0 0 0 0 0 0]
  by (simp add: created_archiver_stats_def stats_at_start_def archiver_statics_def
      archiver_inits_def createServiceSpecificStats_archiver_def create_specific_def set_cells_def
      map_add_def fun_eq_iff)

definition created_discovery_stats :: service_stats where
  "created_discovery_stats = (set_cells discovery_inits (stats_at_start discovery_statics))
     \<lparr>serviceSpecStatsLabels := Some (map_of discovery_labels),
      serviceSpecStatsValues := Some (map_of discovery_values)\<rparr>"

theorem discovery_list_throws_and_locks_witness:
  "populateServiceSpecificProtobufStatsList_discovery created_discovery_stats
     = Throws (created_discovery_stats\<lparr>specStatsLocked := True\<rparr>)"
proof -
  have "cells_hold discovery_statics (stats_at_start discovery_statics)"
    by (simp add: cells_hold_def stats_at_start_def discovery_statics_def discovery_inits_def)
  moreover have "createServiceSpecificStats_discovery (stats_at_start discovery_statics)
      = Returns created_discovery_stats ()"
    by (simp add: createServiceSpecificStats_discovery_def create_specific_def
        created_discovery_stats_def stats_at_start_def)
  ultimately show ?thesis
    by (rule discovery_list_throws_and_locks [THEN conjunct1, rotated 2]) (simp_all add: stats_at_start_def)
qed

definition created_rabbitmq_stats :: service_stats where
  "created_rabbitmq_stats = (set_cells rabbitmq_inits (stats_at_start rabbitmq_statics))
     \<lparr>serviceSpecStatsLabels := Some (map_of rabbitmq_labels),
      serviceSpecStatsValues := Some (map_of rabbitmq_values)\<rparr>"

theorem rabbitmq_common_list_shows_specific_counters_witness:
  "\<exists>ps. populateServiceCommonProtobufStatsList created_rabbitmq_stats
     = Returns created_rabbitmq_stats (''Service_Common_Stats'', ps) \<and>
       map fst ps = [''Buffer_Format_Error'', ''Abandoned_Buffers'',
         ''Protocol_Buffer_No_Serial_Memory_Avail'', ''RabbitMQ_Data_Insert_Error'']"
  using rabbitmq_common_list_shows_specific_counters [of "stats_at_start rabbitmq_statics"
      created_rabbitmq_stats 0 0 0 0 created_rabbitmq_stats]
  by (simp add: created_rabbitmq_stats_def stats_at_start_def cells_hold_def rabbitmq_inits_def
      createServiceSpecificStats_rabbitmq_def create_specific_def)

end
