(* ===== verification/Service_Queue.thy ===== *)
theory Service_Queue
  imports Sparcs_Prelude
begin

text \<open>
  The queues between services: \<open>SynchronisedCommandQueue\<close> of
  \<open>uPMUgateway/serviceCommandQueueTemplate.h\<close>, the data queue that \<open>dataBufferOffer\<close> of the
  archiver fills, and the shared buffers of \<open>serviceDataBuffer.h\<close> that
  \<open>C37_Reformat::postProcessUPMUdata\<close> offers to all services. The contract of a bounded
  queue is a locale, interpreted on both queues; what two threads can do to the data queue
  between its size check and its push is a step relation.
\<close>

subsection \<open>The command queue\<close>

datatype queueState_t = QUEUE_EMPTY | QUEUE_AVAILABLE | QUEUE_FULL

record 'a cmd_queue =
  m_queue :: "'a list"
  queueLength :: nat
  queueState :: queueState_t

definition new_cmd_queue :: "nat \<Rightarrow> 'a cmd_queue" where
  "new_cmd_queue len = \<lparr>m_queue = [], queueLength = len, queueState = QUEUE_EMPTY\<rparr>"

text \<open>\<open>Enqueue\<close> returns the new size, or 0 when the queue is full.\<close>

definition Enqueue :: "'a \<Rightarrow> 'a cmd_queue \<Rightarrow> nat \<times> 'a cmd_queue" where
  "Enqueue data q =
     (if length (m_queue q) \<ge> queueLength q then (0, q)
      else (let q1 = q\<lparr>m_queue := m_queue q @ [data]\<rparr>;
                q2 = q1\<lparr>queueState := if length (m_queue q1) < queueLength q1
                                     then QUEUE_AVAILABLE else QUEUE_FULL\<rparr>
            in (length (m_queue q2), q2)))"

definition Dequeue :: "'a cmd_queue \<Rightarrow> 'a option \<times> 'a cmd_queue" where
  "Dequeue q =
     (case m_queue q of
        [] \<Rightarrow> (None, q)
      | x # xs \<Rightarrow> (Some x, q\<lparr>m_queue := xs,
                             queueState := if length xs > 0 then QUEUE_AVAILABLE else QUEUE_EMPTY\<rparr>))"

subsection \<open>The data queue of the archiver\<close>

datatype dataBufferOffer_t = BUFFER_ACCEPTED | BUFFER_RELEASED | BUFFER_REFUSED

definition DATA_QUEUE_LEN :: u64 where "DATA_QUEUE_LEN = 16"

text \<open>The room left is computed in \<open>size_t\<close> and compared with 0 only.\<close>

definition data_queue_full :: "'a list \<Rightarrow> bool" where
  "data_queue_full q \<longleftrightarrow> DATA_QUEUE_LEN - of_nat (length q) = 0"

definition data_queue_offer :: "'a \<Rightarrow> 'a list \<Rightarrow> dataBufferOffer_t \<times> 'a list" where
  "data_queue_offer buf q =
     (if data_queue_full q then (BUFFER_REFUSED, q) else (BUFFER_ACCEPTED, q @ [buf]))"

definition data_queue_take :: "'a list \<Rightarrow> 'a option \<times> 'a list" where
  "data_queue_take q = (case q of [] \<Rightarrow> (None, []) | x # xs \<Rightarrow> (Some x, xs))"

subsection \<open>The contract of a bounded queue\<close>

datatype 'a queue_op = Put 'a | Get

text \<open>Runs a sequence of operations; the results are the accepted and the delivered elements.\<close>

fun run_ops ::
  "('a \<Rightarrow> 'q \<Rightarrow> bool \<times> 'q) \<Rightarrow> ('q \<Rightarrow> 'a option \<times> 'q) \<Rightarrow> 'a queue_op list \<Rightarrow> 'q \<Rightarrow>
   'a list \<times> 'a list \<times> 'q" where
  "run_ops put get [] q = ([], [], q)"
| "run_ops put get (Put x # ops) q =
     (let (ok, q1) = put x q; (acc, dlv, q2) = run_ops put get ops q1
      in (if ok then x # acc else acc, dlv, q2))"
| "run_ops put get (Get # ops) q =
     (let (r, q1) = get q; (acc, dlv, q2) = run_ops put get ops q1
      in (acc, (case r of None \<Rightarrow> dlv | Some x \<Rightarrow> x # dlv), q2))"

locale bounded_queue =
  fixes put :: "'a \<Rightarrow> 'q \<Rightarrow> bool \<times> 'q" and get :: "'q \<Rightarrow> 'a option \<times> 'q"
    and items :: "'q \<Rightarrow> 'a list" and valid :: "'q \<Rightarrow> bool" and capacity :: nat
  assumes bound: "valid q \<Longrightarrow> length (items q) \<le> capacity"
    and put_room: "valid q \<Longrightarrow> length (items q) < capacity \<Longrightarrow>
      fst (put x q) \<and> items (snd (put x q)) = items q @ [x]"
    and put_full: "valid q \<Longrightarrow> length (items q) = capacity \<Longrightarrow>
      \<not> fst (put x q) \<and> items (snd (put x q)) = items q"
    and put_valid: "valid q \<Longrightarrow> valid (snd (put x q))"
    and get_front: "valid q \<Longrightarrow>
      fst (get q) = (case items q of [] \<Rightarrow> None | x # _ \<Rightarrow> Some x) \<and> items (snd (get q)) = tl (items q)"
    and get_valid: "valid q \<Longrightarrow> valid (snd (get q))"
begin

lemma put_cases:
  assumes "valid q"
  shows "fst (put x q) \<and> length (items q) < capacity \<and> items (snd (put x q)) = items q @ [x] \<or>
    \<not> fst (put x q) \<and> length (items q) = capacity \<and> items (snd (put x q)) = items q"
  using bound [OF assms] put_room [OF assms, of x] put_full [OF assms, of x]
  by (cases "length (items q) < capacity") auto

text \<open>First in, first out: nothing is lost, duplicated or reordered, and the bound is kept.\<close>

lemma run_fifo:
  "run_ops put get ops q = (acc, dlv, q') \<Longrightarrow> valid q \<Longrightarrow>
   items q @ acc = dlv @ items q' \<and> valid q' \<and> length (items q') \<le> capacity"
proof (induction ops arbitrary: q acc dlv q')
  case Nil
  then show ?case using bound by auto
next
  case (Cons op ops)
  show ?case
  proof (cases op)
    case (Put x)
    obtain ok q1 where p: "put x q = (ok, q1)" by (cases "put x q")
    obtain a d q2 where r: "run_ops put get ops q1 = (a, d, q2)" by (cases "run_ops put get ops q1") auto
    have "valid q1" using put_valid [OF Cons.prems(2), of x] p by simp
    then have IH: "items q1 @ a = d @ items q2 \<and> valid q2 \<and> length (items q2) \<le> capacity"
      by (rule Cons.IH [OF r])
    have res: "acc = (if ok then x # a else a)" "dlv = d" "q' = q2"
      using Cons.prems(1) Put p r by auto
    show ?thesis
      using put_cases [OF Cons.prems(2), of x] p IH res by auto
  next
    case Get
    obtain r q1 where g: "get q = (r, q1)" by (cases "get q")
    obtain a d q2 where rr: "run_ops put get ops q1 = (a, d, q2)" by (cases "run_ops put get ops q1") auto
    have "valid q1" using get_valid [OF Cons.prems(2)] g by simp
    then have IH: "items q1 @ a = d @ items q2 \<and> valid q2 \<and> length (items q2) \<le> capacity"
      by (rule Cons.IH [OF rr])
    have res: "acc = a" "dlv = (case r of None \<Rightarrow> d | Some x \<Rightarrow> x # d)" "q' = q2"
      using Cons.prems(1) Get g rr by auto
    show ?thesis
      using get_front [OF Cons.prems(2)] g IH res by (cases "items q") auto
  qed
qed

end

subsection \<open>Both queues keep the contract\<close>

definition cmd_queue_valid :: "nat \<Rightarrow> 'a cmd_queue \<Rightarrow> bool" where
  "cmd_queue_valid len q \<longleftrightarrow> queueLength q = len \<and> length (m_queue q) \<le> len \<and>
     (queueState q = QUEUE_EMPTY \<longrightarrow> m_queue q = []) \<and>
     (queueState q = QUEUE_FULL \<longrightarrow> length (m_queue q) = len)"

definition enq :: "'a \<Rightarrow> 'a cmd_queue \<Rightarrow> bool \<times> 'a cmd_queue" where
  "enq x q = (let (n, q') = Enqueue x q in (n \<noteq> 0, q'))"

definition offer :: "'a \<Rightarrow> 'a list \<Rightarrow> bool \<times> 'a list" where
  "offer x q = (let (r, q') = data_queue_offer x q in (r = BUFFER_ACCEPTED, q'))"

definition data_queue_valid :: "'a list \<Rightarrow> bool" where
  "data_queue_valid q \<longleftrightarrow> length q \<le> 16"

lemma full_iff: "length q < 2 ^ 64 \<Longrightarrow> data_queue_full q \<longleftrightarrow> length q = 16"
proof -
  assume "length q < 2 ^ 64"
  then have "unat (of_nat (length q) :: u64) = length q"
    by (simp add: unat_of_nat take_bit_eq_mod)
  then have "(of_nat (length q) :: u64) = 16 \<longleftrightarrow> length q = 16"
    by (simp add: word_unat_eq_iff)
  then show ?thesis by (auto simp: data_queue_full_def DATA_QUEUE_LEN_def)
qed

interpretation cmdq: bounded_queue enq Dequeue m_queue "cmd_queue_valid len" len for len
  by unfold_locales
    (auto simp: enq_def Enqueue_def Dequeue_def cmd_queue_valid_def Let_def split: list.splits if_splits)

interpretation dataq: bounded_queue offer data_queue_take "\<lambda>q. q" data_queue_valid 16
proof unfold_locales
  fix q :: "'a list" and x :: 'a
  assume v: "data_queue_valid q"
  have full: "data_queue_full q \<longleftrightarrow> length q = 16"
    using v by (intro full_iff) (simp add: data_queue_valid_def)
  show "length q \<le> 16" using v by (simp add: data_queue_valid_def)
  show "length q < 16 \<Longrightarrow> fst (offer x q) \<and> snd (offer x q) = q @ [x]"
    by (simp add: offer_def data_queue_offer_def full)
  show "length q = 16 \<Longrightarrow> \<not> fst (offer x q) \<and> snd (offer x q) = q"
    by (simp add: offer_def data_queue_offer_def full)
  show "data_queue_valid (snd (offer x q))"
    using v by (simp add: offer_def data_queue_offer_def full data_queue_valid_def)
  show "fst (data_queue_take q) = (case q of [] \<Rightarrow> None | x # _ \<Rightarrow> Some x) \<and>
      snd (data_queue_take q) = tl q"
    by (simp add: data_queue_take_def split: list.split)
  show "data_queue_valid (snd (data_queue_take q))"
    using v by (cases q) (simp_all add: data_queue_take_def data_queue_valid_def)
qed

text \<open>
  Under any sequence of \<open>Enqueue\<close> and \<open>Dequeue\<close> calls the command queue delivers what
  it accepted, first in first out and nothing else, never holds more than its length, and
  its state says empty or full only when it is.
\<close>

theorem command_queue_is_fifo:
  assumes "run_ops enq Dequeue ops (new_cmd_queue len) = (acc, dlv, q)"
  shows "acc = dlv @ m_queue q \<and> length (m_queue q) \<le> len \<and>
    (queueState q = QUEUE_EMPTY \<longrightarrow> m_queue q = []) \<and>
    (queueState q = QUEUE_FULL \<longrightarrow> length (m_queue q) = len)"
proof -
  have "cmd_queue_valid len (new_cmd_queue len)"
    by (simp add: cmd_queue_valid_def new_cmd_queue_def)
  from cmdq.run_fifo [OF assms this] show ?thesis
    by (simp add: cmd_queue_valid_def) (simp add: new_cmd_queue_def)
qed

theorem command_queue_is_fifo_witness:
  "run_ops enq Dequeue [Put (1 :: int), Put 2, Put 3, Get] (new_cmd_queue 2)
     = ([1, 2], [1], \<lparr>m_queue = [2], queueLength = 2, queueState = QUEUE_AVAILABLE\<rparr>) \<and>
   ([1, 2] :: int list) = [1] @ [2]"
proof -
  have r: "run_ops enq Dequeue [Put (1 :: int), Put 2, Put 3, Get] (new_cmd_queue 2)
     = ([1, 2], [1], \<lparr>m_queue = [2], queueLength = 2, queueState = QUEUE_AVAILABLE\<rparr>)"
    by (simp add: enq_def Enqueue_def Dequeue_def new_cmd_queue_def)
  from command_queue_is_fifo [OF r] r show ?thesis by simp
qed

text \<open>
  C36: As long as its callers take turns, the archiver's data queue accepts a buffer exactly
  when it holds fewer than 16, refuses it otherwise, and hands the accepted buffers to the
  archiver in order.
\<close>

theorem data_queue_is_bounded_fifo:
  assumes "run_ops offer data_queue_take ops q = (acc, dlv, q')" and "length q \<le> 16"
  shows "q @ acc = dlv @ q' \<and> length q' \<le> 16 \<and>
    data_queue_offer buf q' = (if length q' = 16 then (BUFFER_REFUSED, q') else (BUFFER_ACCEPTED, q' @ [buf]))"
proof -
  have "data_queue_valid q" using assms(2) by (simp add: data_queue_valid_def)
  from dataq.run_fifo [OF assms(1) this] have *: "q @ acc = dlv @ q'" "length q' \<le> 16" by simp_all
  with full_iff [of q'] show ?thesis by (simp add: data_queue_offer_def)
qed

theorem data_queue_is_bounded_fifo_witness:
  "run_ops offer data_queue_take [Put 20, Get, Put 21, Put 22, Put 23] [1 :: nat, 2, 3, 4, 5, 6, 7, 8, 9, 10, 11, 12, 13, 14]
     = ([20, 21, 22], [1], [2, 3, 4, 5, 6, 7, 8, 9, 10, 11, 12, 13, 14, 20, 21, 22]) \<and>
   [1 :: nat, 2, 3, 4, 5, 6, 7, 8, 9, 10, 11, 12, 13, 14] @ [20, 21, 22]
     = [1] @ [2, 3, 4, 5, 6, 7, 8, 9, 10, 11, 12, 13, 14, 20, 21, 22] \<and>
   data_queue_offer 24 [2, 3, 4, 5, 6, 7, 8, 9, 10, 11, 12, 13, 14, 20, 21, 22 :: nat]
     = (BUFFER_REFUSED, [2, 3, 4, 5, 6, 7, 8, 9, 10, 11, 12, 13, 14, 20, 21, 22])"
proof -
  have run: "run_ops offer data_queue_take [Put 20, Get, Put 21, Put 22, Put 23] [1 :: nat, 2, 3, 4, 5, 6, 7, 8, 9, 10, 11, 12, 13, 14]
      = ([20, 21, 22], [1], [2, 3, 4, 5, 6, 7, 8, 9, 10, 11, 12, 13, 14, 20, 21, 22])"
    by (simp add: offer_def data_queue_offer_def data_queue_full_def DATA_QUEUE_LEN_def data_queue_take_def)
  from data_queue_is_bounded_fifo [OF run, of 24] run show ?thesis by simp
qed

subsection \<open>Offers of two threads\<close>

text \<open>
  The size is read before the mutex is taken, so another thread can push between check and
  push. A thread is idle or has passed the check with the buffer it will push.
\<close>

record ('t, 'a) offering =
  shared_queue :: "'a list"
  passed_check :: "'t \<Rightarrow> 'a option"
  refused :: nat

inductive offer_step :: "('t, 'a) offering \<Rightarrow> ('t, 'a) offering \<Rightarrow> bool" where
  check_room: "passed_check s t = None \<Longrightarrow> \<not> data_queue_full (shared_queue s) \<Longrightarrow>
    offer_step s (s\<lparr>passed_check := (passed_check s)(t := Some buf)\<rparr>)"
| check_full: "passed_check s t = None \<Longrightarrow> data_queue_full (shared_queue s) \<Longrightarrow>
    offer_step s (s\<lparr>refused := refused s + 1\<rparr>)"
| push: "passed_check s t = Some buf \<Longrightarrow>
    offer_step s (s\<lparr>shared_queue := shared_queue s @ [buf],
                   passed_check := (passed_check s)(t := None)\<rparr>)"

inductive_cases offer_stepE: "offer_step s s'"

definition alone :: "'a list \<Rightarrow> ('t, 'a) offering" where
  "alone q = \<lparr>shared_queue = q, passed_check = (\<lambda>_. None), refused = 0\<rparr>"

lemma offers_grow:
  assumes "16 < length q" and "length q + n < 2 ^ 64"
  shows "run_ops offer data_queue_take (map Put (replicate n x)) q = (replicate n x, [], q @ replicate n x)"
  using assms
proof (induction n arbitrary: q)
  case (Suc n)
  have "\<not> data_queue_full q" using Suc.prems by (subst full_iff) simp_all
  then have "offer x q = (True, q @ [x])" by (simp add: offer_def data_queue_offer_def)
  moreover have "run_ops offer data_queue_take (map Put (replicate n x)) (q @ [x])
      = (replicate n x, [], (q @ [x]) @ replicate n x)"
    using Suc.prems by (intro Suc.IH) simp_all
  ultimately show ?case by simp
qed simp

text \<open>
  Two threads that offer at the same time can both pass the size check with 15 buffers
  in the queue and bring it to 17; from then on the check, which only tests for exactly no
  room left, accepts every offer, so the queue grows without bound.
\<close>

theorem concurrent_offers_break_the_bound:
  assumes "length q = 15" and "(t1 :: 't) \<noteq> t2" and "n < 2 ^ 63"
  shows "\<exists>s. offer_step\<^sup>*\<^sup>* (alone q) s \<and> shared_queue s = q @ [b1, b2] \<and>
    passed_check s = (\<lambda>_ :: 't. None) \<and>
    run_ops offer data_queue_take (map Put (replicate n x)) (shared_queue s)
      = (replicate n x, [], q @ [b1, b2] @ replicate n x)"
proof -
  let ?s0 = "alone q :: ('t, 'a) offering"
  let ?s1 = "?s0\<lparr>passed_check := (passed_check ?s0)(t1 := Some b1)\<rparr>"
  let ?s2 = "?s1\<lparr>passed_check := (passed_check ?s1)(t2 := Some b2)\<rparr>"
  let ?s3 = "?s2\<lparr>shared_queue := shared_queue ?s2 @ [b1], passed_check := (passed_check ?s2)(t1 := None)\<rparr>"
  let ?s4 = "?s3\<lparr>shared_queue := shared_queue ?s3 @ [b2], passed_check := (passed_check ?s3)(t2 := None)\<rparr>"
  have room: "\<not> data_queue_full q" using assms(1) by (subst full_iff) simp_all
  have "offer_step ?s0 ?s1" by (rule check_room) (simp_all add: alone_def room)
  moreover have "offer_step ?s1 ?s2" by (rule check_room) (use assms(2) in \<open>simp_all add: alone_def room\<close>)
  moreover have "offer_step ?s2 ?s3" by (rule push) (use assms(2) in \<open>simp add: alone_def\<close>)
  moreover have "offer_step ?s3 ?s4" by (rule push) (use assms(2) in \<open>simp add: alone_def\<close>)
  ultimately have "offer_step\<^sup>*\<^sup>* ?s0 ?s4" by (meson converse_rtranclp_into_rtranclp rtranclp.rtrancl_refl)
  moreover have "run_ops offer data_queue_take (map Put (replicate n x)) (q @ [b1, b2])
      = (replicate n x, [], (q @ [b1, b2]) @ replicate n x)"
    using assms by (intro offers_grow) simp_all
  moreover have "passed_check ?s4 = (\<lambda>_. None)" by (auto simp: alone_def)
  ultimately show ?thesis
    by (intro exI [of _ ?s4]) (simp add: alone_def)
qed

theorem concurrent_offers_break_the_bound_witness:
  "\<exists>s. offer_step\<^sup>*\<^sup>* (alone (replicate 15 (0 :: nat))) s \<and> length (shared_queue s) = 17 \<and>
    passed_check s = (\<lambda>_ :: bool. None)"
  using concurrent_offers_break_the_bound [of "replicate 15 (0 :: nat)" True False 0 1 2 0]
  by auto

end
