(* ===== verification/Shared_Buffers.thy ===== *)
theory Shared_Buffers
  imports Service_Queue
begin

text \<open>
  One-second buffers shared between services: \<open>serviceDataBuffer\<close> of
  \<open>uPMUgateway/serviceDataBuffer.h\<close> behind \<open>std::shared_ptr\<close>, and
  \<open>C37_Reformat::postProcessUPMUdata\<close>, which offers a new buffer to every service of
  \<open>serviceInstanceList\<close> that accepts data. A buffer has an identity, its use count is that of the
  shared pointer, and the destructor runs when the count reaches 0.
\<close>

subsection \<open>Buffers and their counters\<close>

record data_buffer =
  byteLen :: u32
  dataBuffer :: bytes
  use_count :: nat

record buffer_pool =
  live :: "nat \<rightharpoonup> data_buffer"
  next_id :: nat
  sharedInMemDataBufferCnt :: u32
  sharedTotalDataBufferCnt :: u32

definition new_serviceDataBuffer :: "u32 \<Rightarrow> bytes \<Rightarrow> buffer_pool \<Rightarrow> nat \<times> buffer_pool" where
  "new_serviceDataBuffer bLen buf p =
     (next_id p, p\<lparr>live := (live p)(next_id p \<mapsto> \<lparr>byteLen = bLen, dataBuffer = buf, use_count = 1\<rparr>),
                   next_id := next_id p + 1,
                   sharedInMemDataBufferCnt := sharedInMemDataBufferCnt p + 1,
                   sharedTotalDataBufferCnt := sharedTotalDataBufferCnt p + 1\<rparr>)"

definition delete_serviceDataBuffer :: "nat \<Rightarrow> buffer_pool \<Rightarrow> buffer_pool" where
  "delete_serviceDataBuffer i p =
     p\<lparr>live := (live p)(i := None), sharedInMemDataBufferCnt := sharedInMemDataBufferCnt p - 1\<rparr>"

text \<open>Copying and resetting a shared pointer; \<open>None\<close> is a use of a buffer that is gone.\<close>

definition ptr_copy :: "nat \<Rightarrow> buffer_pool \<Rightarrow> buffer_pool option" where
  "ptr_copy i p = (case live p i of
     None \<Rightarrow> None
   | Some b \<Rightarrow> Some (p\<lparr>live := (live p)(i \<mapsto> b\<lparr>use_count := use_count b + 1\<rparr>)\<rparr>))"

definition ptr_reset :: "nat \<Rightarrow> buffer_pool \<Rightarrow> buffer_pool option" where
  "ptr_reset i p = (case live p i of
     None \<Rightarrow> None
   | Some b \<Rightarrow> Some (if use_count b = 1 then delete_serviceDataBuffer i p
                    else p\<lparr>live := (live p)(i \<mapsto> b\<lparr>use_count := use_count b - 1\<rparr>)\<rparr>))"

subsection \<open>Services\<close>

text \<open>
  \<open>refusesBuffers\<close> is the data discovery, whose \<open>dataBufferOffer\<close> refuses everything;
  \<open>inProcess\<close> is the local \<open>dataBuf\<close> of the service's thread.
\<close>

record service =
  serviceName :: string
  serviceAcceptsData :: bool
  refusesBuffers :: bool
  dataQueue :: "nat list"
  inProcess :: "nat option"

definition service_offer :: "nat \<Rightarrow> service \<Rightarrow> buffer_pool \<Rightarrow> (service \<times> buffer_pool) option" where
  "service_offer i s p =
     (if refusesBuffers s then Some (s, p)
      else (case data_queue_offer i (dataQueue s) of
              (BUFFER_ACCEPTED, q) \<Rightarrow> do { p' \<leftarrow> ptr_copy i p; Some (s\<lparr>dataQueue := q\<rparr>, p') }
            | _ \<Rightarrow> Some (s, p)))"

primrec offer_to_all ::
  "nat \<Rightarrow> service list \<Rightarrow> buffer_pool \<Rightarrow> (service list \<times> buffer_pool) option" where
  "offer_to_all i [] p = Some ([], p)"
| "offer_to_all i (s # ss) p = do {
     (s', p1) \<leftarrow> (if serviceAcceptsData s then service_offer i s p else Some (s, p));
     (ss', p2) \<leftarrow> offer_to_all i ss p1;
     Some (s' # ss', p2) }"

definition postProcessUPMUdata ::
  "bytes \<Rightarrow> u32 \<Rightarrow> service list \<Rightarrow> buffer_pool \<Rightarrow> (service list \<times> buffer_pool) option" where
  "postProcessUPMUdata dataBuf dataLen services p = do {
     let (i, p0) = new_serviceDataBuffer dataLen dataBuf p;
     (services', p1) \<leftarrow> offer_to_all i services p0;
     p2 \<leftarrow> ptr_reset i p1;
     Some (services', p2) }"

text \<open>The thread of a service takes the front of its queue, and later releases it.\<close>

definition service_take :: "service \<Rightarrow> service option" where
  "service_take s =
     (case (inProcess s, dataQueue s) of
        (None, i # q) \<Rightarrow> Some (s\<lparr>dataQueue := q, inProcess := Some i\<rparr>)
      | _ \<Rightarrow> None)"

definition service_release :: "service \<Rightarrow> buffer_pool \<Rightarrow> (service \<times> buffer_pool) option" where
  "service_release s p =
     (case inProcess s of
        None \<Rightarrow> None
      | Some i \<Rightarrow> do { p' \<leftarrow> ptr_reset i p; Some (s\<lparr>inProcess := None\<rparr>, p') })"

inductive sharing_step :: "service list \<times> buffer_pool \<Rightarrow> service list \<times> buffer_pool \<Rightarrow> bool" where
  publish: "postProcessUPMUdata buf len ss p = Some (ss', p') \<Longrightarrow> sharing_step (ss, p) (ss', p')"
| take_front: "k < length ss \<Longrightarrow> service_take (ss ! k) = Some s' \<Longrightarrow>
    sharing_step (ss, p) (ss[k := s'], p)"
| release: "k < length ss \<Longrightarrow> service_release (ss ! k) p = Some (s', p') \<Longrightarrow>
    sharing_step (ss, p) (ss[k := s'], p')"

inductive_cases sharing_stepE: "sharing_step a b"

subsection \<open>The invariant\<close>

definition refs_in :: "nat \<Rightarrow> service \<Rightarrow> nat" where
  "refs_in i s = count_list (dataQueue s) i + (if inProcess s = Some i then 1 else 0)"

definition refs :: "nat \<Rightarrow> service list \<Rightarrow> nat" where
  "refs i ss = sum_list (map (refs_in i) ss)"

text \<open>
  With \<open>e\<close> further references held by the running call: every live buffer is used as often
  as the services (and the call) refer to it, at least once, all others are referred to by
  nobody, and the counter of buffers in memory is the number of live ones.
\<close>

definition pool_ok :: "(nat \<Rightarrow> nat) \<Rightarrow> service list \<Rightarrow> buffer_pool \<Rightarrow> bool" where
  "pool_ok e ss p \<longleftrightarrow>
     (\<forall>i. case live p i of None \<Rightarrow> refs i ss + e i = 0
                        | Some b \<Rightarrow> use_count b = refs i ss + e i \<and> 0 < refs i ss + e i) \<and>
     (\<forall>i. next_id p \<le> i \<longrightarrow> live p i = None) \<and>
     sharedInMemDataBufferCnt p = of_nat (card (dom (live p)))"

lemma pool_ok_finite: "pool_ok e ss p \<Longrightarrow> finite (dom (live p))"
proof (rule finite_subset)
  assume "pool_ok e ss p"
  then show "dom (live p) \<subseteq> {..<next_id p}"
    by (auto simp: pool_ok_def not_le [symmetric])
qed simp

lemma refs_Cons [simp]: "refs i (s # ss) = refs_in i s + refs i ss"
  by (simp add: refs_def)

lemma refs_Nil [simp]: "refs i [] = 0"
  by (simp add: refs_def)

lemma refs_update:
  "k < length ss \<Longrightarrow> refs i (ss[k := s']) + refs_in i (ss ! k) = refs i ss + refs_in i s'"
proof (induction ss arbitrary: k)
  case (Cons s ss)
  then show ?case by (cases k) auto
qed simp

lemma pool_okD:
  assumes "pool_ok e ss p"
  shows "live p i = None \<Longrightarrow> refs i ss + e i = 0"
    and "live p i = Some b \<Longrightarrow> use_count b = refs i ss + e i \<and> 0 < refs i ss + e i"
    and "next_id p \<le> i \<Longrightarrow> live p i = None"
    and "sharedInMemDataBufferCnt p = of_nat (card (dom (live p)))"
proof -
  have i: "case live p i of None \<Rightarrow> refs i ss + e i = 0
      | Some b \<Rightarrow> use_count b = refs i ss + e i \<and> 0 < refs i ss + e i" for i
    using assms unfolding pool_ok_def by blast
  show "live p i = None \<Longrightarrow> refs i ss + e i = 0"
    and "live p i = Some b \<Longrightarrow> use_count b = refs i ss + e i \<and> 0 < refs i ss + e i"
    using i [of i] by simp_all
  show "next_id p \<le> i \<Longrightarrow> live p i = None"
    and "sharedInMemDataBufferCnt p = of_nat (card (dom (live p)))"
    using assms unfolding pool_ok_def by blast+
qed

lemma pool_okI:
  assumes "\<And>i. live p i = None \<Longrightarrow> refs i ss + e i = 0"
    and "\<And>i b. live p i = Some b \<Longrightarrow> use_count b = refs i ss + e i \<and> 0 < refs i ss + e i"
    and "\<And>i. next_id p \<le> i \<Longrightarrow> live p i = None"
    and "sharedInMemDataBufferCnt p = of_nat (card (dom (live p)))"
  shows "pool_ok e ss p"
  unfolding pool_ok_def using assms by (auto split: option.split)

lemma ptr_copy_ok:
  assumes "pool_ok e ss p" and "ptr_copy i p = Some p'"
  shows "pool_ok (e(i := e i + 1)) ss p'"
proof -
  obtain b where b: "live p i = Some b"
    and p': "p' = p\<lparr>live := (live p)(i \<mapsto> b\<lparr>use_count := use_count b + 1\<rparr>)\<rparr>"
    using assms(2) by (auto simp: ptr_copy_def split: option.splits)
  note ok = pool_okD [OF assms(1)]
  have "i < next_id p" using ok(3) [of i] b by (cases "next_id p \<le> i") auto
  moreover have "insert i (dom (live p)) = dom (live p)" using b by auto
  ultimately show ?thesis
    using ok(1) ok(2) ok(3) ok(4) ok(2) [OF b]
    by (intro pool_okI) (auto simp: p' split: if_splits)
qed

lemma ptr_reset_ok:
  assumes "pool_ok e ss p" and "ptr_reset i p = Some p'" and "0 < e i"
  shows "pool_ok (e(i := e i - 1)) ss p'"
proof -
  obtain b where b: "live p i = Some b"
    using assms(2) by (auto simp: ptr_reset_def split: option.splits)
  note ok = pool_okD [OF assms(1)]
  have cnt: "use_count b = refs i ss + e i" using ok(2) [OF b] by simp
  have fin: "finite (dom (live p))" using assms(1) by (rule pool_ok_finite)
  have lt: "i < next_id p" using ok(3) [of i] b by (cases "next_id p \<le> i") auto
  show ?thesis
  proof (cases "use_count b = 1")
    case True
    have p': "p' = delete_serviceDataBuffer i p" using assms(2) b True by (simp add: ptr_reset_def)
    have "card (dom (live p)) = Suc (card (dom (live p) - {i}))"
      using fin b by (metis card.remove domI)
    with ok(1) ok(2) ok(3) ok(4) cnt True assms(3) show ?thesis
      by (intro pool_okI) (auto simp: p' delete_serviceDataBuffer_def split: if_splits)
  next
    case False
    have p': "p' = p\<lparr>live := (live p)(i \<mapsto> b\<lparr>use_count := use_count b - 1\<rparr>)\<rparr>"
      using assms(2) b False by (simp add: ptr_reset_def)
    moreover have "insert i (dom (live p)) = dom (live p)" using b by auto
    ultimately show ?thesis
      using ok(1) ok(2) ok(3) ok(4) ok(2) [OF b] cnt False assms(3) lt
      by (intro pool_okI) (auto split: if_splits)
  qed
qed

lemma new_buffer_ok:
  assumes "pool_ok e ss p" and "new_serviceDataBuffer len buf p = (i, p')"
  shows "pool_ok (e(i := 1)) ss p'" and "live p i = None" and "e i = 0" and "refs i ss = 0"
proof -
  note ok = pool_okD [OF assms(1)]
  have i: "i = next_id p" using assms(2) by (simp add: new_serviceDataBuffer_def)
  show none: "live p i = None" using ok(3) i by simp
  then show z: "e i = 0" "refs i ss = 0" using ok(1) [of i] by simp_all
  have "i \<notin> dom (live p)" using none by auto
  then have "card (insert i (dom (live p))) = Suc (card (dom (live p)))"
    using pool_ok_finite [OF assms(1)] by simp
  then show "pool_ok (e(i := 1)) ss p'"
    using ok(1) ok(3) ok(4) assms(2) z none
    by (intro pool_okI)
      (auto simp: new_serviceDataBuffer_def i ok(2) split: if_splits, use ok(2) in fastforce)
qed

text \<open>Moving references between the services and the running call changes nothing.\<close>

lemma pool_ok_move:
  assumes "pool_ok e ss p" and "\<And>i. refs i ss' + e' i = refs i ss + e i"
  shows "pool_ok e' ss' p"
  using assms(1) unfolding pool_ok_def assms(2) .

lemma service_offer_ok:
  assumes "pool_ok e (ss1 @ s # ss2) p" and "0 < e i"
    and "service_offer i s p = Some (s', p')"
  shows "pool_ok e (ss1 @ s' # ss2) p' \<and> inProcess s' = inProcess s"
proof (cases "refusesBuffers s \<or> data_queue_full (dataQueue s)")
  case True
  with assms show ?thesis by (auto simp: service_offer_def data_queue_offer_def split: if_splits)
next
  case False
  then obtain p1 where c: "ptr_copy i p = Some p1" and p': "p' = p1"
    and s': "s' = s\<lparr>dataQueue := dataQueue s @ [i]\<rparr>"
    using assms(3) by (auto simp: service_offer_def data_queue_offer_def bind_eq_Some split: if_splits)
  have "pool_ok e (ss1 @ s' # ss2) p1"
    by (rule pool_ok_move [OF ptr_copy_ok [OF assms(1) c]])
      (auto simp: s' refs_def refs_in_def)
  with p' s' show ?thesis by simp
qed

lemma offer_to_all_ok:
  assumes "pool_ok e (ss1 @ ss) p" and "0 < e i" and "offer_to_all i ss p = Some (ss', p')"
  shows "pool_ok e (ss1 @ ss') p' \<and> length ss' = length ss"
  using assms
proof (induction ss arbitrary: ss1 p ss' p')
  case (Cons s ss)
  from Cons.prems(3) obtain s1 p1 ss2 where
    o: "(if serviceAcceptsData s then service_offer i s p else Some (s, p)) = Some (s1, p1)"
    and rest: "offer_to_all i ss p1 = Some (ss2, p')" and ss': "ss' = s1 # ss2"
    by (auto simp: bind_eq_Some)
  have "pool_ok e (ss1 @ s1 # ss) p1"
    using o Cons.prems(1,2) service_offer_ok [of e ss1 s ss p i s1 p1] by (auto split: if_splits)
  then have "pool_ok e ((ss1 @ [s1]) @ ss) p1" by simp
  from Cons.IH [OF this Cons.prems(2) rest] show ?case by (simp add: ss')
qed simp

lemma postProcess_ok:
  assumes "pool_ok (\<lambda>_. 0) ss p" and "postProcessUPMUdata buf len ss p = Some (ss', p')"
  shows "pool_ok (\<lambda>_. 0) ss' p' \<and> length ss' = length ss"
proof -
  obtain i p0 where n: "new_serviceDataBuffer len buf p = (i, p0)" by (cases "new_serviceDataBuffer len buf p")
  with assms(2) obtain p1 where o: "offer_to_all i ss p0 = Some (ss', p1)"
    and r: "ptr_reset i p1 = Some p'"
    by (auto simp: postProcessUPMUdata_def bind_eq_Some)
  let ?e = "(\<lambda>_. 0)(i := 1) :: nat \<Rightarrow> nat"
  have "pool_ok ?e ss p0" by (rule new_buffer_ok(1) [OF assms(1) n])
  then have 1: "pool_ok ?e ss' p1 \<and> length ss' = length ss"
    using offer_to_all_ok [of ?e "[]" ss p0 i ss' p1] o by simp
  then have "pool_ok ?e ss' p1" by simp
  then have "pool_ok (?e(i := ?e i - 1)) ss' p'"
    by (intro ptr_reset_ok [OF _ r]) simp_all
  then have "pool_ok (\<lambda>_. 0) ss' p'" by (rule pool_ok_move) simp
  with 1 show ?thesis by simp
qed

lemma take_ok:
  assumes "pool_ok (\<lambda>_. 0) ss p" and "k < length ss" and "service_take (ss ! k) = Some s'"
  shows "pool_ok (\<lambda>_. 0) (ss[k := s']) p"
proof (rule pool_ok_move [OF assms(1)])
  fix i
  have "refs_in i s' = refs_in i (ss ! k)"
    using assms(3) by (auto simp: service_take_def refs_in_def split: option.splits list.splits)
  with refs_update [OF assms(2), of i s'] show "refs i (ss[k := s']) + 0 = refs i ss + 0" by simp
qed

lemma release_ok:
  assumes "pool_ok (\<lambda>_. 0) ss p" and "k < length ss" and "service_release (ss ! k) p = Some (s', p')"
  shows "pool_ok (\<lambda>_. 0) (ss[k := s']) p'"
proof -
  obtain i where i: "inProcess (ss ! k) = Some i" and r: "ptr_reset i p = Some p'"
    and s': "s' = (ss ! k)\<lparr>inProcess := None\<rparr>"
    using assms(3) by (auto simp: service_release_def bind_eq_Some split: option.splits)
  let ?e = "(\<lambda>_. 0)(i := 1) :: nat \<Rightarrow> nat"
  have "refs j (ss[k := s']) + ?e j = refs j ss + 0" for j
    using refs_update [OF assms(2), of j s'] i by (auto simp: s' refs_in_def split: if_splits)
  then have "pool_ok ?e (ss[k := s']) p" by (rule pool_ok_move [OF assms(1)])
  then have "pool_ok (?e(i := ?e i - 1)) (ss[k := s']) p'" by (rule ptr_reset_ok [OF _ r]) simp
  then show ?thesis by (rule pool_ok_move) simp
qed

lemma sharing_steps_ok:
  "sharing_step\<^sup>*\<^sup>* a b \<Longrightarrow> pool_ok (\<lambda>_. 0) (fst a) (snd a) \<Longrightarrow> pool_ok (\<lambda>_. 0) (fst b) (snd b)"
proof (induction rule: rtranclp_induct)
  case (step b c)
  then have "pool_ok (\<lambda>_. 0) (fst b) (snd b)" by simp
  with step.hyps(2) show ?case
    by (cases rule: sharing_step.cases) (auto dest: postProcess_ok take_ok release_ok)
qed simp

subsection \<open>Publishing a buffer\<close>

text \<open>The services that take a new buffer: those that accept data and have room.\<close>

definition takes_buffer :: "service \<Rightarrow> bool" where
  "takes_buffer s \<longleftrightarrow> serviceAcceptsData s \<and> \<not> refusesBuffers s \<and> \<not> data_queue_full (dataQueue s)"

lemma offer_to_all_spec:
  assumes "live p i = Some b"
  shows "offer_to_all i ss p = Some (map (\<lambda>s. if takes_buffer s then s\<lparr>dataQueue := dataQueue s @ [i]\<rparr> else s) ss,
    p\<lparr>live := (live p)(i \<mapsto> b\<lparr>use_count := use_count b + length (filter takes_buffer ss)\<rparr>)\<rparr>)"
  using assms
proof (induction ss arbitrary: p b)
  case Nil
  then show ?case by (simp add: fun_upd_idem)
next
  case (Cons s ss)
  show ?case
  proof (cases "takes_buffer s")
    case True
    let ?b1 = "b\<lparr>use_count := use_count b + 1\<rparr>"
    let ?p1 = "p\<lparr>live := (live p)(i \<mapsto> ?b1)\<rparr>"
    have "(if serviceAcceptsData s then service_offer i s p else Some (s, p))
        = Some (s\<lparr>dataQueue := dataQueue s @ [i]\<rparr>, ?p1)"
      using True Cons.prems
      by (simp add: takes_buffer_def service_offer_def data_queue_offer_def ptr_copy_def)
    moreover have "live ?p1 i = Some ?b1" by simp
    note Cons.IH [OF this]
    ultimately show ?thesis using True by (simp cong: if_cong)
  next
    case False
    then have "(if serviceAcceptsData s then service_offer i s p else Some (s, p)) = Some (s, p)"
      by (auto simp: takes_buffer_def service_offer_def data_queue_offer_def)
    with False Cons.IH [OF Cons.prems] show ?thesis by simp
  qed
qed

lemma publish_spec:
  assumes "pool_ok (\<lambda>_. 0) ss p"
  shows "\<exists>p'. postProcessUPMUdata buf len ss p =
      Some (map (\<lambda>s. if takes_buffer s then s\<lparr>dataQueue := dataQueue s @ [next_id p]\<rparr> else s) ss, p') \<and>
    live p' = (live p)(next_id p :=
       (if filter takes_buffer ss = [] then None
        else Some \<lparr>byteLen = len, dataBuffer = buf, use_count = length (filter takes_buffer ss)\<rparr>)) \<and>
    sharedInMemDataBufferCnt p' = sharedInMemDataBufferCnt p +
       (if filter takes_buffer ss = [] then 0 else 1) \<and>
    sharedTotalDataBufferCnt p' = sharedTotalDataBufferCnt p + 1"
proof -
  let ?i = "next_id p"
  let ?b = "\<lparr>byteLen = len, dataBuffer = buf, use_count = 1\<rparr>"
  obtain p0 where n: "new_serviceDataBuffer len buf p = (?i, p0)"
    and p0: "live p0 = (live p)(?i \<mapsto> ?b)" "sharedInMemDataBufferCnt p0 = sharedInMemDataBufferCnt p + 1"
      "sharedTotalDataBufferCnt p0 = sharedTotalDataBufferCnt p + 1"
    by (simp add: new_serviceDataBuffer_def)
  have "live p0 ?i = Some ?b" by (simp add: p0)
  note all = offer_to_all_spec [OF this, of ss]
  show ?thesis
    by (auto simp: postProcessUPMUdata_def n all ptr_reset_def delete_serviceDataBuffer_def p0
        fun_upd_idem)
qed

lemma publish_adds_one:
  assumes "pool_ok (\<lambda>_. 0) ss p" and "postProcessUPMUdata buf len ss p = Some (ss', p')"
  shows "card (dom (live p')) \<le> Suc (card (dom (live p)))"
proof -
  from publish_spec [OF assms(1), of buf len] assms(2)
  have "live p' = (live p)(next_id p := (if filter takes_buffer ss = [] then None
        else Some \<lparr>byteLen = len, dataBuffer = buf, use_count = length (filter takes_buffer ss)\<rparr>))" by auto
  then have "dom (live p') \<subseteq> insert (next_id p) (dom (live p))" by (auto split: if_splits)
  then have "card (dom (live p')) \<le> card (insert (next_id p) (dom (live p)))"
    using pool_ok_finite [OF assms(1)] by (intro card_mono) simp_all
  also have "\<dots> \<le> Suc (card (dom (live p)))" using pool_ok_finite [OF assms(1)] by (simp add: card_insert_if)
  finally show ?thesis .
qed

text \<open>
  Publishing a second's buffer puts it at the end of the queue of every service that
  accepts data and has room, and of no other; it stays in memory, with its contents, exactly
  when at least one service took it, and is freed at once otherwise.
\<close>

theorem publish_reaches_the_accepting_services:
  assumes "pool_ok (\<lambda>_. 0) ss p"
  shows "\<exists>p'. postProcessUPMUdata buf len ss p =
      Some (map (\<lambda>s. if takes_buffer s then s\<lparr>dataQueue := dataQueue s @ [next_id p]\<rparr> else s) ss, p') \<and>
    live p' = (live p)(next_id p :=
       (if filter takes_buffer ss = [] then None
        else Some \<lparr>byteLen = len, dataBuffer = buf, use_count = length (filter takes_buffer ss)\<rparr>)) \<and>
    sharedInMemDataBufferCnt p' = sharedInMemDataBufferCnt p +
       (if filter takes_buffer ss = [] then 0 else 1) \<and>
    sharedTotalDataBufferCnt p' = sharedTotalDataBufferCnt p + 1"
  by (rule publish_spec [OF assms])

theorem publish_reaches_the_accepting_services_witness:
  "\<exists>p'. postProcessUPMUdata [1, 2] 2
     [\<lparr>serviceName = ''a'', serviceAcceptsData = True, refusesBuffers = False, dataQueue = [], inProcess = None\<rparr>,
      \<lparr>serviceName = ''d'', serviceAcceptsData = False, refusesBuffers = True, dataQueue = [], inProcess = None\<rparr>]
     \<lparr>live = Map.empty, next_id = 5, sharedInMemDataBufferCnt = 0, sharedTotalDataBufferCnt = 5\<rparr>
   = Some ([\<lparr>serviceName = ''a'', serviceAcceptsData = True, refusesBuffers = False, dataQueue = [5], inProcess = None\<rparr>,
      \<lparr>serviceName = ''d'', serviceAcceptsData = False, refusesBuffers = True, dataQueue = [], inProcess = None\<rparr>], p')
   \<and> sharedInMemDataBufferCnt p' = 1 \<and> sharedTotalDataBufferCnt p' = 6"
proof -
  let ?ss = "[\<lparr>serviceName = ''a'', serviceAcceptsData = True, refusesBuffers = False, dataQueue = [], inProcess = None\<rparr>,
      \<lparr>serviceName = ''d'', serviceAcceptsData = False, refusesBuffers = True, dataQueue = [], inProcess = None\<rparr>]"
  let ?p = "\<lparr>live = Map.empty, next_id = 5, sharedInMemDataBufferCnt = 0, sharedTotalDataBufferCnt = 5\<rparr>"
  have "pool_ok (\<lambda>_. 0) ?ss ?p" by (simp add: pool_ok_def refs_in_def)
  from publish_reaches_the_accepting_services [OF this, of "[1, 2]" 2] show ?thesis
    by (auto simp: takes_buffer_def data_queue_full_def DATA_QUEUE_LEN_def)
qed

subsection \<open>The life of a shared buffer\<close>

lemma refs_nth: "k < length ss \<Longrightarrow> refs_in i (ss ! k) \<le> refs i ss"
  unfolding refs_def by (rule member_le_sum_list) simp_all

lemma release_defined:
  assumes "pool_ok (\<lambda>_. 0) ss p" and "k < length ss" and "inProcess (ss ! k) = Some i"
  shows "\<exists>s' p'. service_release (ss ! k) p = Some (s', p')"
proof -
  have "0 < refs i ss" using refs_nth [OF assms(2), of i] assms(3) by (simp add: refs_in_def)
  then obtain b where "live p i = Some b" using pool_okD(1) [OF assms(1), of i] by (cases "live p i") auto
  with assms(3) show ?thesis by (simp add: service_release_def ptr_reset_def)
qed

text \<open>
  C15: Whatever the services do, a shared buffer is in memory exactly as long as some queue or
  some thread refers to it, its use count is the number of these references, and the counter
  of buffers in memory is the number of buffers in memory: none is freed while in use and none
  is left behind. No publication and no release finds a buffer it refers to already freed, so
  none is freed twice.
\<close>

theorem shared_buffers_live_while_referenced:
  assumes "sharing_step\<^sup>*\<^sup>* (ss0, p0) (ss, p)" and "pool_ok (\<lambda>_. 0) ss0 p0"
  shows "(\<forall>i. (live p i \<noteq> None \<longleftrightarrow> 0 < refs i ss) \<and>
              (\<forall>b. live p i = Some b \<longrightarrow> use_count b = refs i ss)) \<and>
         sharedInMemDataBufferCnt p = of_nat (card (dom (live p))) \<and>
         (\<forall>buf len. postProcessUPMUdata buf len ss p \<noteq> None) \<and>
         (\<forall>k < length ss. inProcess (ss ! k) \<noteq> None \<longrightarrow> service_release (ss ! k) p \<noteq> None)"
proof -
  have ok: "pool_ok (\<lambda>_. 0) ss p"
    using sharing_steps_ok [OF assms(1)] assms(2) by simp
  have "\<forall>i. (live p i \<noteq> None \<longleftrightarrow> 0 < refs i ss) \<and>
      (\<forall>b. live p i = Some b \<longrightarrow> use_count b = refs i ss)"
  proof (rule allI, rule conjI)
    fix i
    show "live p i \<noteq> None \<longleftrightarrow> 0 < refs i ss"
      using pool_okD(1,2) [OF ok, of i] by (cases "live p i") auto
    show "\<forall>b. live p i = Some b \<longrightarrow> use_count b = refs i ss"
      using pool_okD(2) [OF ok, of i] by simp
  qed
  moreover have "\<forall>buf len. postProcessUPMUdata buf len ss p \<noteq> None"
    using publish_spec [OF ok] by fast
  moreover have "\<forall>k < length ss. inProcess (ss ! k) \<noteq> None \<longrightarrow> service_release (ss ! k) p \<noteq> None"
    using release_defined [OF ok] by fast
  ultimately show ?thesis using pool_okD(4) [OF ok] by blast
qed

text \<open>
  Two services and the discovery: a buffer is published, the first service takes it and
  releases it, a second one is published and taken by the first service.
\<close>

theorem shared_buffers_live_while_referenced_witness:
  "\<exists>p. sharing_step\<^sup>*\<^sup>*
     ([\<lparr>serviceName = ''a'', serviceAcceptsData = True, refusesBuffers = False, dataQueue = [], inProcess = None\<rparr>,
       \<lparr>serviceName = ''b'', serviceAcceptsData = True, refusesBuffers = False, dataQueue = [], inProcess = None\<rparr>,
       \<lparr>serviceName = ''d'', serviceAcceptsData = False, refusesBuffers = True, dataQueue = [], inProcess = None\<rparr>],
      \<lparr>live = Map.empty, next_id = 5, sharedInMemDataBufferCnt = 0, sharedTotalDataBufferCnt = 5\<rparr>)
     ([\<lparr>serviceName = ''a'', serviceAcceptsData = True, refusesBuffers = False, dataQueue = [], inProcess = Some 6\<rparr>,
       \<lparr>serviceName = ''b'', serviceAcceptsData = True, refusesBuffers = False, dataQueue = [5, 6], inProcess = None\<rparr>,
       \<lparr>serviceName = ''d'', serviceAcceptsData = False, refusesBuffers = True, dataQueue = [], inProcess = None\<rparr>], p) \<and>
   (\<exists>b. live p 5 = Some b \<and> use_count b = 1 \<and> dataBuffer b = [1, 2]) \<and>
   (\<exists>b. live p 6 = Some b \<and> use_count b = 2 \<and> dataBuffer b = [3]) \<and>
   live p 7 = None \<and> sharedInMemDataBufferCnt p = of_nat (card (dom (live p))) \<and>
   service_release \<lparr>serviceName = ''a'', serviceAcceptsData = True, refusesBuffers = False, dataQueue = [], inProcess = Some 6\<rparr> p \<noteq> None"
proof -
  let ?s = "\<lambda>n q w. \<lparr>serviceName = n, serviceAcceptsData = True, refusesBuffers = False, dataQueue = q, inProcess = w\<rparr>"
  let ?d = "\<lparr>serviceName = ''d'', serviceAcceptsData = False, refusesBuffers = True, dataQueue = [], inProcess = None\<rparr>"
  let ?p0 = "\<lparr>live = Map.empty, next_id = 5, sharedInMemDataBufferCnt = 0, sharedTotalDataBufferCnt = 5\<rparr>"
  let ?b = "\<lambda>buf len n. \<lparr>byteLen = len, dataBuffer = buf, use_count = n\<rparr>"
  let ?p1 = "\<lparr>live = [5 \<mapsto> ?b [1, 2] 2 2], next_id = 6, sharedInMemDataBufferCnt = 1, sharedTotalDataBufferCnt = 6\<rparr>"
  let ?p2 = "\<lparr>live = [5 \<mapsto> ?b [1, 2] 2 1], next_id = 6, sharedInMemDataBufferCnt = 1, sharedTotalDataBufferCnt = 6\<rparr>"
  let ?p3 = "\<lparr>live = [5 \<mapsto> ?b [1, 2] 2 1, 6 \<mapsto> ?b [3] 1 2], next_id = 7, sharedInMemDataBufferCnt = 2, sharedTotalDataBufferCnt = 7\<rparr>"
  let ?c0 = "([?s ''a'' [] None, ?s ''b'' [] None, ?d], ?p0)"
  let ?c5 = "([?s ''a'' [] (Some 6), ?s ''b'' [5, 6] None, ?d], ?p3)"
  note eval = postProcessUPMUdata_def new_serviceDataBuffer_def service_offer_def data_queue_offer_def
    data_queue_full_def DATA_QUEUE_LEN_def ptr_copy_def ptr_reset_def service_take_def service_release_def
  have two: "Suc (Suc 0) = 2" by simp
  have "sharing_step ?c0 ([?s ''a'' [5] None, ?s ''b'' [5] None, ?d], ?p1)"
    by (rule sharing_step.publish [of "[1, 2]" 2]) (simp add: eval two)
  moreover have "sharing_step ([?s ''a'' [5] None, ?s ''b'' [5] None, ?d], ?p1)
      ([?s ''a'' [] (Some 5), ?s ''b'' [5] None, ?d], ?p1)"
    using sharing_step.take_front [of 0 "[?s ''a'' [5] None, ?s ''b'' [5] None, ?d]"
        "?s ''a'' [] (Some 5)" ?p1] by (simp add: eval)
  moreover have "sharing_step ([?s ''a'' [] (Some 5), ?s ''b'' [5] None, ?d], ?p1)
      ([?s ''a'' [] None, ?s ''b'' [5] None, ?d], ?p2)"
    using sharing_step.release [of 0 "[?s ''a'' [] (Some 5), ?s ''b'' [5] None, ?d]" ?p1
        "?s ''a'' [] None" ?p2] by (simp add: eval)
  moreover have "sharing_step ([?s ''a'' [] None, ?s ''b'' [5] None, ?d], ?p2)
      ([?s ''a'' [6] None, ?s ''b'' [5, 6] None, ?d], ?p3)"
    by (rule sharing_step.publish [of "[3]" 1]) (simp add: eval two)
  moreover have "sharing_step ([?s ''a'' [6] None, ?s ''b'' [5, 6] None, ?d], ?p3) ?c5"
    using sharing_step.take_front [of 0 "[?s ''a'' [6] None, ?s ''b'' [5, 6] None, ?d]"
        "?s ''a'' [] (Some 6)" ?p3] by (simp add: eval)
  ultimately have run: "sharing_step\<^sup>*\<^sup>* ?c0 ?c5"
    by (meson converse_rtranclp_into_rtranclp rtranclp.rtrancl_refl)
  have "pool_ok (\<lambda>_. 0) (fst ?c0) ?p0" by (simp add: pool_ok_def refs_in_def)
  then have "pool_ok (\<lambda>_. 0) [?s ''a'' [] None, ?s ''b'' [] None, ?d] ?p0" by simp
  note ok = shared_buffers_live_while_referenced [OF run this]
  from ok have "\<forall>k < length [?s ''a'' [] (Some 6), ?s ''b'' [5, 6] None, ?d].
      inProcess ([?s ''a'' [] (Some 6), ?s ''b'' [5, 6] None, ?d] ! k) \<noteq> None \<longrightarrow>
      service_release ([?s ''a'' [] (Some 6), ?s ''b'' [5, 6] None, ?d] ! k) ?p3 \<noteq> None" by blast
  from this [rule_format, of 0] have rel: "service_release (?s ''a'' [] (Some 6)) ?p3 \<noteq> None" by simp
  from ok have cnt: "sharedInMemDataBufferCnt ?p3 = of_nat (card (dom (live ?p3)))" by blast
  show ?thesis by (rule exI [of _ ?p3]) (use run rel cnt in simp)
qed

end
