(* ===== verification/Gm_Time.thy ===== *)
theory Gm_Time
  imports Sparcs_Prelude "HOL-Library.Signed_Division"
begin

text \<open>
  The inverse of \<open>gmtime\<close>: \<open>_mkgmtime\<close> in \<open>uPMUgateway/uPMUgmtime.cpp\<close>. The whole expression
  is computed in 32-bit \<open>int\<close> before it is widened to \<open>time_t\<close>; a result that does not fit
  is undefined behaviour, \<open>None\<close> here. Division and remainder truncate towards zero, as
  \<open>sdiv\<close> and \<open>smod\<close> do. The specification counts days in the Gregorian calendar.
\<close>

record tm =
  tm_sec :: int
  tm_min :: int
  tm_hour :: int
  tm_mday :: int
  tm_mon :: int
  tm_year :: int

definition int_ok :: "int \<Rightarrow> int option" where
  "int_ok x = (if - 2147483648 \<le> x \<and> x < 2147483648 then Some x else None)"

definition month_day :: "int list" where
  "month_day = [0, 31, 59, 90, 120, 151, 181, 212, 243, 273, 304, 334]"

definition mkgmtime :: "tm \<Rightarrow> int option" where
  "mkgmtime tm = do {
     let month0 = tm_mon tm smod 12;
     year0 \<leftarrow> int_ok (tm_year tm + tm_mon tm sdiv 12);
     let month = (if month0 < 0 then month0 + 12 else month0);
     year \<leftarrow> (if month0 < 0 then int_ok (year0 - 1) else Some year0);
     year_for_leap \<leftarrow> (if month > 1 then int_ok (year + 1) else Some year);
     d1 \<leftarrow> int_ok (month_day ! nat month + tm_mday tm);
     d2 \<leftarrow> int_ok (d1 - 1);
     y70 \<leftarrow> int_ok (year - 70);
     dy \<leftarrow> int_ok (365 * y70);
     d3 \<leftarrow> int_ok (d2 + dy);
     l4 \<leftarrow> int_ok (year_for_leap - 69);
     d4 \<leftarrow> int_ok (d3 + l4 sdiv 4);
     l100 \<leftarrow> int_ok (year_for_leap - 1);
     d5 \<leftarrow> int_ok (d4 - l100 sdiv 100);
     l400 \<leftarrow> int_ok (year_for_leap + 299);
     d6 \<leftarrow> int_ok (d5 + l400 sdiv 400);
     h1 \<leftarrow> int_ok (24 * d6);
     h2 \<leftarrow> int_ok (tm_hour tm + h1);
     m1 \<leftarrow> int_ok (60 * h2);
     m2 \<leftarrow> int_ok (tm_min tm + m1);
     s1 \<leftarrow> int_ok (60 * m2);
     rt \<leftarrow> int_ok (tm_sec tm + s1);
     Some (if rt < 0 then - 1 else rt) }"

subsection \<open>The calendar\<close>

definition leap_year :: "int \<Rightarrow> bool" where
  "leap_year y \<longleftrightarrow> y mod 4 = 0 \<and> (y mod 100 \<noteq> 0 \<or> y mod 400 = 0)"

text \<open>Days from 1970-01-01 to the first of January \<open>n\<close> years later.\<close>

primrec days_of_years :: "nat \<Rightarrow> int" where
  "days_of_years 0 = 0"
| "days_of_years (Suc n) = days_of_years n + (if leap_year (1970 + int n) then 366 else 365)"

text \<open>Length of a month, and days of a year before a month (\<open>0\<close> is January).\<close>

definition month_length :: "int \<Rightarrow> nat \<Rightarrow> int" where
  "month_length y m =
     (if m = 1 then (if leap_year y then 29 else 28)
      else if m \<in> {3, 5, 8, 10} then 30 else 31)"

primrec days_of_months :: "int \<Rightarrow> nat \<Rightarrow> int" where
  "days_of_months y 0 = 0"
| "days_of_months y (Suc m) = days_of_months y m + month_length y m"

definition epoch_seconds :: "nat \<Rightarrow> nat \<Rightarrow> int \<Rightarrow> int \<Rightarrow> int \<Rightarrow> int \<Rightarrow> int" where
  "epoch_seconds n mon mday hour mnt sec =
     sec + 60 * (mnt + 60 * (hour + 24 *
       (days_of_years n + days_of_months (1970 + int n) mon + mday - 1)))"

lemma div_succ:
  assumes "0 < (k :: int)"
  shows "(x + 1) div k = x div k + (if (x + 1) mod k = 0 then 1 else 0)"
proof -
  have r: "0 \<le> x mod k" "x mod k < k" and x: "x = k * (x div k) + x mod k"
    using assms by (simp_all add: mult.commute)
  show ?thesis
  proof (cases "x mod k + 1 = k")
    case True
    have "x + 1 = k * (x div k) + (x mod k + 1)" using x by linarith
    then have "x + 1 = k * (x div k + 1) + 0" using True by (simp add: distrib_left)
    with assms show ?thesis
      using int_div_pos_eq [of "x + 1" k "x div k + 1" 0] int_mod_pos_eq [of "x + 1" k "x div k + 1" 0]
      by simp
  next
    case False
    then have "x + 1 = k * (x div k) + (x mod k + 1)" "x mod k + 1 < k" using x r by simp_all
    with r show ?thesis
      using int_div_pos_eq [of "x + 1" k "x div k" "x mod k + 1"]
        int_mod_pos_eq [of "x + 1" k "x div k" "x mod k + 1"]
      by simp
  qed
qed

lemma mod_shift: "((x :: int) + k * m) mod k = x mod k"
  by simp

text \<open>The leap days before a year, as three quotients.\<close>

definition leap_days :: "int \<Rightarrow> int" where
  "leap_days n = (n + 1) div 4 - (n + 69) div 100 + (n + 369) div 400"

lemma leap_days_step:
  "leap_days (int n + 1) = leap_days (int n) + (if leap_year (1970 + int n) then 1 else 0)"
proof -
  let ?y = "1970 + int n"
  have m: "(int n + 1 + 1) mod 4 = ?y mod 4" "(int n + 69 + 1) mod 100 = ?y mod 100"
    "(int n + 369 + 1) mod 400 = ?y mod 400"
    using mod_shift [of "int n + 1 + 1" 4 492] mod_shift [of "int n + 69 + 1" 100 19]
      mod_shift [of "int n + 369 + 1" 400 4] by simp_all
  have 4: "(int n + 1 + 1) div 4 = (int n + 1) div 4 + (if ?y mod 4 = 0 then 1 else 0)"
    using div_succ [of 4 "int n + 1"] unfolding m by simp
  have 100: "(int n + 69 + 1) div 100 = (int n + 69) div 100 + (if ?y mod 100 = 0 then 1 else 0)"
    using div_succ [of 100 "int n + 69"] unfolding m by simp
  have 400: "(int n + 369 + 1) div 400 = (int n + 369) div 400 + (if ?y mod 400 = 0 then 1 else 0)"
    using div_succ [of 400 "int n + 369"] unfolding m by simp
  have sw: "int n + 1 + 69 = int n + 69 + 1" "int n + 1 + 369 = int n + 369 + 1" by simp_all
  have imp: "?y mod 400 = 0 \<Longrightarrow> ?y mod 100 = 0" "?y mod 100 = 0 \<Longrightarrow> ?y mod 4 = 0"
    using dvd_trans [of 100 400 ?y] dvd_trans [of 4 100 ?y] by (simp_all add: mod_eq_0_iff_dvd)
  show ?thesis
    unfolding leap_days_def sw 4 100 400 leap_year_def using imp
    by (cases "?y mod 4 = 0"; cases "?y mod 100 = 0"; cases "?y mod 400 = 0") simp_all
qed

lemma leap_days_nonneg: "0 \<le> leap_days (int n)"
proof (induction n)
  case 0
  then show ?case by (simp add: leap_days_def)
next
  case (Suc n)
  then show ?case by (simp add: leap_days_step add.commute [of 1])
qed

lemma days_of_years_closed: "days_of_years n = 365 * int n + leap_days (int n)"
proof (induction n)
  case 0
  then show ?case by (simp add: leap_days_def)
next
  case (Suc n)
  then show ?case by (simp add: leap_days_step add.commute [of 1])
qed

lemma month_days:
  assumes "mon < 12"
  shows "days_of_months y mon = month_day ! mon + (if 1 < mon \<and> leap_year y then 1 else 0)"
proof -
  have "mon \<in> set [0..<12]" using assms by simp
  then show ?thesis
    by (auto simp: upt_rec month_day_def month_length_def numeral_eq_Suc)
qed

subsection \<open>The code computes the calendar\<close>

lemma seconds_chain:
  assumes "0 \<le> d" "0 \<le> hour" "0 \<le> mnt" "0 \<le> sec"
  shows "do { h1 \<leftarrow> int_ok (24 * d); h2 \<leftarrow> int_ok (hour + h1); m1 \<leftarrow> int_ok (60 * h2);
     m2 \<leftarrow> int_ok (mnt + m1); s1 \<leftarrow> int_ok (60 * m2); rt \<leftarrow> int_ok (sec + s1);
     Some (if rt < 0 then - 1 else rt) } = int_ok (sec + 60 * (mnt + 60 * (hour + 24 * d)))"
  using assms by (auto simp: int_ok_def)

lemma sdiv_nonneg: "0 \<le> (x :: int) \<Longrightarrow> 0 < k \<Longrightarrow> x sdiv k = x div k"
  by (auto simp: signed_divide_int_def sgn_if)

lemma smod_small: "0 \<le> (x :: int) \<Longrightarrow> x < k \<Longrightarrow> x smod k = x"
  by (simp add: signed_modulo_int_def signed_divide_int_def sgn_if)

lemma month_day_bounds: "mon < 12 \<Longrightarrow> 0 \<le> month_day ! mon \<and> month_day ! mon \<le> 334"
proof -
  assume "mon < 12"
  then have "mon \<in> set [0..<12]" by simp
  then show ?thesis by (auto simp: upt_rec month_day_def)
qed

lemma quotient_bounds: "0 \<le> (x :: int) \<Longrightarrow> 0 < k \<Longrightarrow> 0 \<le> x div k \<and> x div k \<le> x"
  using div_by_1 [of x] zdiv_mono2 [of x 1 k] by (simp add: pos_imp_zdiv_nonneg_iff)

lemma int_ok_Some: "- 2147483648 \<le> x \<Longrightarrow> x < 2147483648 \<Longrightarrow> int_ok x = Some x"
  by (simp add: int_ok_def)

lemma mkgmtime_calendar:
  assumes "n \<le> 5000000" and "mon < 12" and "1 \<le> mday" and "mday \<le> 31"
    and "0 \<le> hour" and "hour < 24" and "0 \<le> mnt" and "mnt < 60" and "0 \<le> sec" and "sec \<le> 60"
  shows "mkgmtime \<lparr>tm_sec = sec, tm_min = mnt, tm_hour = hour, tm_mday = mday, tm_mon = int mon,
           tm_year = 70 + int n\<rparr>
    = (if epoch_seconds n mon mday hour mnt sec < 2147483648
       then Some (epoch_seconds n mon mday hour mnt sec) else None)"
proof -
  define c :: int where "c = (if 1 < mon then 1 else 0)"
  have c01: "0 \<le> c" "c \<le> 1" by (simp_all add: c_def)
  define q4 where "q4 = (int n + c + 1) div 4"
  define q100 where "q100 = (int n + c + 69) div 100"
  define q400 where "q400 = (int n + c + 369) div 400"
  define md where "md = month_day ! mon"
  define d where "d = md + mday - 1 + 365 * int n + q4 - q100 + q400"
  have q: "0 \<le> q4" "q4 \<le> int n + 2" "0 \<le> q100" "q100 \<le> int n + 70" "0 \<le> q400" "q400 \<le> int n + 370"
    using quotient_bounds [of "int n + c + 1" 4] quotient_bounds [of "int n + c + 69" 100]
      quotient_bounds [of "int n + c + 369" 400] c01
    by (auto simp: q4_def q100_def q400_def)
  have md: "0 \<le> md" "md \<le> 334" using month_day_bounds [OF assms(2)] by (simp_all add: md_def)
  have leap: "q4 - q100 + q400 = leap_days (int n) + (if 1 < mon \<and> leap_year (1970 + int n) then 1 else 0)"
    using leap_days_step [of n] by (simp add: q4_def q100_def q400_def c_def leap_days_def)
  have months: "days_of_months (1970 + int n) mon = md + (if 1 < mon \<and> leap_year (1970 + int n) then 1 else 0)"
    unfolding md_def by (rule month_days [OF assms(2)])
  have d: "days_of_years n + days_of_months (1970 + int n) mon + mday - 1 = d"
    unfolding days_of_years_closed months d_def using leap by linarith
  have "0 \<le> leap_days (int n)" by (rule leap_days_nonneg)
  moreover have "0 \<le> days_of_months (1970 + int n) mon" using months md by simp
  ultimately have "0 \<le> d" using d assms(3) days_of_years_closed [of n] by linarith
  have head: "int mon smod 12 = int mon" "int mon sdiv 12 = 0"
    using assms(2) by (simp_all add: smod_small sdiv_nonneg)
  have sd: "(1 + (int n + c)) sdiv 4 = q4" "(69 + (int n + c)) sdiv 100 = q100"
    "(369 + (int n + c)) sdiv 400 = q400"
    using c01 by (simp_all add: sdiv_nonneg q4_def q100_def q400_def add.commute)
  have n: "int n \<le> 5000000" using assms(1) by simp
  have bind1: "Option.bind (int_ok x) f = f x" if "- 2147483648 \<le> x" "x < 2147483648" for x and f :: "int \<Rightarrow> int option"
    using that by (simp add: int_ok_Some)
  have "mkgmtime \<lparr>tm_sec = sec, tm_min = mnt, tm_hour = hour, tm_mday = mday, tm_mon = int mon,
           tm_year = 70 + int n\<rparr>
    = do { h1 \<leftarrow> int_ok (24 * d); h2 \<leftarrow> int_ok (hour + h1); m1 \<leftarrow> int_ok (60 * h2);
     m2 \<leftarrow> int_ok (mnt + m1); s1 \<leftarrow> int_ok (60 * m2); rt \<leftarrow> int_ok (sec + s1);
     Some (if rt < 0 then - 1 else rt) }"
  proof (cases "1 < mon")
    case True
    then have "(2 + int n) sdiv 4 = q4" "(70 + int n) sdiv 100 = q100" "(370 + int n) sdiv 400 = q400"
      using sd by (simp_all add: c_def)
    with True show ?thesis using q md n c01 assms(3,4) unfolding mkgmtime_def
      by (simp add: head bind1 md_def [symmetric] d_def)
  next
    case False
    then have "(1 + int n) sdiv 4 = q4" "(69 + int n) sdiv 100 = q100" "(369 + int n) sdiv 400 = q400"
      using sd by (simp_all add: c_def)
    with False show ?thesis using q md n c01 assms(3,4) unfolding mkgmtime_def
      by (simp add: head bind1 md_def [symmetric] d_def)
  qed
  also have "\<dots> = int_ok (sec + 60 * (mnt + 60 * (hour + 24 * d)))"
    using \<open>0 \<le> d\<close> assms by (intro seconds_chain) simp_all
  also have "sec + 60 * (mnt + 60 * (hour + 24 * d)) = epoch_seconds n mon mday hour mnt sec"
    by (simp add: epoch_seconds_def d)
  finally show ?thesis
    using \<open>0 \<le> d\<close> assms by (simp add: int_ok_def epoch_seconds_def d)
qed

text \<open>The seconds of a broken-down time whose fields are in their ranges.\<close>

definition date_ok :: "tm \<Rightarrow> bool" where
  "date_ok t \<longleftrightarrow> 70 \<le> tm_year t \<and> tm_year t \<le> 5000070 \<and> 0 \<le> tm_mon t \<and> tm_mon t < 12 \<and>
     1 \<le> tm_mday t \<and> tm_mday t \<le> 31 \<and> 0 \<le> tm_hour t \<and> tm_hour t < 24 \<and>
     0 \<le> tm_min t \<and> tm_min t < 60 \<and> 0 \<le> tm_sec t \<and> tm_sec t \<le> 60"

definition tm_epoch :: "tm \<Rightarrow> int" where
  "tm_epoch t = epoch_seconds (nat (tm_year t - 70)) (nat (tm_mon t)) (tm_mday t) (tm_hour t)
     (tm_min t) (tm_sec t)"

lemma mkgmtime_date:
  assumes "date_ok t"
  shows "mkgmtime t = (if tm_epoch t < 2147483648 then Some (tm_epoch t) else None)"
proof -
  have "t = \<lparr>tm_sec = tm_sec t, tm_min = tm_min t, tm_hour = tm_hour t, tm_mday = tm_mday t,
      tm_mon = int (nat (tm_mon t)), tm_year = 70 + int (nat (tm_year t - 70))\<rparr>" (is "t = ?t")
    using assms by (simp add: date_ok_def)
  then have "mkgmtime t = mkgmtime ?t" by simp
  also have "\<dots> = (if tm_epoch t < 2147483648 then Some (tm_epoch t) else None)"
    unfolding tm_epoch_def using assms by (intro mkgmtime_calendar) (auto simp: date_ok_def)
  finally show ?thesis .
qed

subsection \<open>The calendar of the C library\<close>

text \<open>\<open>gmtime\<close>: years from 1970 and months are counted off a number of days.\<close>

definition year_length :: "int \<Rightarrow> int" where
  "year_length y = (if leap_year y then 366 else 365)"

function split_years :: "nat \<Rightarrow> int \<Rightarrow> nat \<times> int" where
  "split_years n d =
     (if d < year_length (1970 + int n) then (n, d)
      else split_years (n + 1) (d - year_length (1970 + int n)))"
  by pat_completeness auto
termination
  by (relation "measure (\<lambda>(n, d). nat d)") (auto simp: year_length_def split: if_splits)

function split_months :: "int \<Rightarrow> nat \<Rightarrow> int \<Rightarrow> nat \<times> int" where
  "split_months y m d =
     (if d < month_length y m \<or> 11 \<le> m then (m, d) else split_months y (m + 1) (d - month_length y m))"
  by pat_completeness auto
termination
  by (relation "measure (\<lambda>(y, m, d). 11 - m)") auto

declare split_years.simps [simp del] split_months.simps [simp del]

definition gmtime :: "nat \<Rightarrow> tm" where
  "gmtime t =
     (let (n, yday) = split_years 0 (int (t div 86400));
          (m, mday) = split_months (1970 + int n) 0 yday;
          s = int (t mod 86400)
      in \<lparr>tm_sec = s mod 60, tm_min = s div 60 mod 60, tm_hour = s div 3600, tm_mday = mday + 1,
          tm_mon = int m, tm_year = 70 + int n\<rparr>)"

lemma split_years_spec:
  "0 \<le> d \<Longrightarrow> split_years n d = (n', d') \<Longrightarrow>
   days_of_years n + d = days_of_years n' + d' \<and> 0 \<le> d' \<and> d' < year_length (1970 + int n')"
proof (induction n d rule: split_years.induct)
  case (1 n d)
  show ?case
  proof (cases "d < year_length (1970 + int n)")
    case True
    then show ?thesis using 1(2,3) by (simp add: split_years.simps [of n d])
  next
    case False
    then have "split_years (n + 1) (d - year_length (1970 + int n)) = (n', d')"
      using 1(3) by (simp add: split_years.simps [of n d])
    with 1(1) [OF False] False have "days_of_years (n + 1) + (d - year_length (1970 + int n)) =
        days_of_years n' + d' \<and> 0 \<le> d' \<and> d' < year_length (1970 + int n')" by simp
    then show ?thesis by (simp add: year_length_def)
  qed
qed

lemma days_of_months_12: "days_of_months y 12 = year_length y"
  by (simp add: numeral_eq_Suc month_length_def year_length_def)

lemma split_months_spec:
  "0 \<le> d \<Longrightarrow> m \<le> 11 \<Longrightarrow> days_of_months y m + d < year_length y \<Longrightarrow> split_months y m d = (m', d') \<Longrightarrow>
   days_of_months y m + d = days_of_months y m' + d' \<and> 0 \<le> d' \<and> d' < month_length y m' \<and> m' \<le> 11"
proof (induction y m d rule: split_months.induct)
  case (1 y m d)
  show ?case
  proof (cases "d < month_length y m \<or> 11 \<le> m")
    case True
    then have r: "m' = m" "d' = d" using 1(5) by (simp_all add: split_months.simps [of y m d])
    have "d < month_length y m"
    proof (cases "m = 11")
      case m: True
      have "days_of_months y 11 + month_length y 11 = year_length y"
        using days_of_months_12 [of y] by (simp add: numeral_eq_Suc)
      then show ?thesis using 1(4) m by simp
    qed (use True 1(3) in auto)
    then show ?thesis using r 1(2,3) by simp
  next
    case False
    then have "split_months y (m + 1) (d - month_length y m) = (m', d')"
      using 1(5) by (simp add: split_months.simps [of y m d])
    with 1(1) [OF False] False 1(4) show ?thesis by simp
  qed
qed

lemma gmtime_calendar:
  assumes "gmtime t = b" and "t < 2 ^ 32"
  shows "date_ok b \<and> tm_epoch b = int t"
proof -
  obtain n yday where 1: "split_years 0 (int (t div 86400)) = (n, yday)" by fastforce
  obtain m mday where 2: "split_months (1970 + int n) 0 yday = (m, mday)" by fastforce
  define s where "s = int (t mod 86400)"
  have b: "b = \<lparr>tm_sec = s mod 60, tm_min = s div 60 mod 60, tm_hour = s div 3600, tm_mday = mday + 1,
      tm_mon = int m, tm_year = 70 + int n\<rparr>"
    using assms(1) by (simp add: gmtime_def 1 2 s_def Let_def)
  from split_years_spec [OF _ 1] have y: "int (t div 86400) = days_of_years n + yday" "0 \<le> yday"
    "yday < year_length (1970 + int n)" by simp_all
  from split_months_spec [OF y(2) _ _ 2] y(3) have m: "yday = days_of_months (1970 + int n) m + mday"
    "0 \<le> mday" "mday < month_length (1970 + int n) m" "m \<le> 11" by simp_all
  have "t div 86400 < 50000" using assms(2) by (simp add: less_mult_imp_div_less)
  then have "days_of_years n < 50000" using y(1,2) by linarith
  then have n: "int n \<le> 5000000"
    using days_of_years_closed [of n] leap_days_nonneg [of n] by linarith
  have s: "0 \<le> s" "s < 86400" by (simp_all add: s_def)
  have sec: "s mod 60 + 60 * (s div 60 mod 60 + 60 * (s div 3600)) = s"
  proof -
    have "s div 3600 = s div 60 div 60" by (simp add: zdiv_zmult2_eq [symmetric])
    then have "s div 60 mod 60 + 60 * (s div 3600) = s div 60" by simp
    then show ?thesis by simp
  qed
  have "mday < 31" using m(3) by (auto simp: month_length_def split: if_splits)
  moreover have "s div 3600 < 24" using s by (simp add: div_less_iff_less_mult)
  ultimately have "date_ok b" using n m(2,4) s by (simp add: b date_ok_def pos_imp_zdiv_nonneg_iff)
  moreover have "tm_epoch b = int t"
  proof -
    have "tm_epoch b = (s mod 60 + 60 * (s div 60 mod 60 + 60 * (s div 3600))) +
        86400 * (days_of_years n + days_of_months (1970 + int n) m + mday)"
      by (simp add: b tm_epoch_def epoch_seconds_def)
    also have "\<dots> = s + 86400 * int (t div 86400)" unfolding sec y(1) m(1) by simp
    also have "\<dots> = int t" unfolding s_def by (simp flip: of_nat_mult of_nat_add add: zdiv_int zmod_int)
    finally show ?thesis .
  qed
  ultimately show ?thesis by simp
qed

lemma mkgmtime_gmtime: "t < 2147483648 \<Longrightarrow> mkgmtime (gmtime t) = Some (int t)"
  using gmtime_calendar [OF refl, of t] by (simp add: mkgmtime_date)

text \<open>
  C29: For every date from 1970 on, the function returns the seconds that the Gregorian
  calendar counts, leap days and century rules included, exactly as long as they fit into
  31 bits; from 2038-01-19 03:14:08 on its arithmetic overflows.
\<close>

theorem mkgmtime_counts_the_calendar:
  assumes "date_ok t"
  shows "mkgmtime t = (if tm_epoch t < 2147483648 then Some (tm_epoch t) else None)"
  by (rule mkgmtime_date [OF assms])

lemma mkgmtime_counts_the_calendar_witness:
  "mkgmtime \<lparr>tm_sec = 7, tm_min = 14, tm_hour = 3, tm_mday = 19, tm_mon = 0, tm_year = 138\<rparr>
     = Some 2147483647 \<and>
   mkgmtime \<lparr>tm_sec = 8, tm_min = 14, tm_hour = 3, tm_mday = 19, tm_mon = 0, tm_year = 138\<rparr> = None"
  using mkgmtime_counts_the_calendar [of "\<lparr>tm_sec = 7, tm_min = 14, tm_hour = 3, tm_mday = 19, tm_mon = 0, tm_year = 138\<rparr>"]
    mkgmtime_counts_the_calendar [of "\<lparr>tm_sec = 8, tm_min = 14, tm_hour = 3, tm_mday = 19, tm_mon = 0, tm_year = 138\<rparr>"]
  by (simp add: date_ok_def tm_epoch_def epoch_seconds_def days_of_years_closed leap_days_def)

end
