(* ===== verification/Float_Ops.thy ===== *)
theory Float_Ops
  imports Sparcs_Prelude
begin

text \<open>
  Floating-point values are kept as the bit patterns that the program stores and sends: a
  \<open>float\<close> is 32 bits, a \<open>double\<close> 64. The arithmetic of the machine is a record of operations
  over these patterns, an argument of every definition that computes with them (\<open>i2d\<close> and
  \<open>s2f\<close> round an integer to the nearest value, \<open>d2i\<close> and \<open>f2u64\<close> drop the fraction and yield
  whatever the machine yields where the result does not fit); a theorem that needs a law of it
  states it as a hypothesis. The constants are the patterns of the literals in the code.
\<close>

type_synonym f32 = u32
type_synonym f64 = u64

record fp_ops =
  f2d :: "f32 \<Rightarrow> f64"
  d2f :: "f64 \<Rightarrow> f32"
  d_add :: "f64 \<Rightarrow> f64 \<Rightarrow> f64"
  d_sub :: "f64 \<Rightarrow> f64 \<Rightarrow> f64"
  d_mul :: "f64 \<Rightarrow> f64 \<Rightarrow> f64"
  d_div :: "f64 \<Rightarrow> f64 \<Rightarrow> f64"
  d_fmod :: "f64 \<Rightarrow> f64 \<Rightarrow> f64"
  d_less :: "f64 \<Rightarrow> f64 \<Rightarrow> bool"
  d_le :: "f64 \<Rightarrow> f64 \<Rightarrow> bool"
  f_add :: "f32 \<Rightarrow> f32 \<Rightarrow> f32"
  f_sub :: "f32 \<Rightarrow> f32 \<Rightarrow> f32"
  f_mul :: "f32 \<Rightarrow> f32 \<Rightarrow> f32"
  f_div :: "f32 \<Rightarrow> f32 \<Rightarrow> f32"
  f_eq :: "f32 \<Rightarrow> f32 \<Rightarrow> bool"
  f_less :: "f32 \<Rightarrow> f32 \<Rightarrow> bool"
  i2f :: "u32 \<Rightarrow> f32"
  i2d :: "int \<Rightarrow> f64"
  d2i :: "f64 \<Rightarrow> int"
  s2f :: "int \<Rightarrow> f32"
  f2u64 :: "f32 \<Rightarrow> u64"

definition d_180 :: f64 where "d_180 = 0x4066800000000000"
definition d_360 :: f64 where "d_360 = 0x4076800000000000"
definition d_pi :: f64 where "d_pi = 0x400921FB54442D18"
definition d_1000 :: f64 where "d_1000 = 0x408F400000000000"
definition d_8_33333333 :: f64 where "d_8_33333333 = 0x4020AAAAAA8E0897"
definition d_8_33333 :: f64 where "d_8_33333 = 0x4020AAAA3AD18D26"
definition d_120 :: f64 where "d_120 = 0x405E000000000000"

text \<open>A concrete machine for the examples: exact for the operands they use, namely zeros.\<close>

definition zero_fp :: fp_ops where
  "zero_fp = \<lparr>f2d = (\<lambda>x. ucast x), d2f = (\<lambda>x. ucast x), d_add = (+), d_sub = (-), d_mul = (\<lambda>_ _. 0),
     d_div = (\<lambda>_ _. 0), d_fmod = (\<lambda>x _. x), d_less = (<), d_le = (\<le>), f_add = (+), f_sub = (-),
     f_mul = (\<lambda>_ _. 0), f_div = (\<lambda>_ _. 0), f_eq = (=), f_less = (<), i2f = (\<lambda>x. x),
     i2d = of_int, d2i = sint, s2f = of_int,
     f2u64 = ucast\<rparr>"

end
