(* ===== verification/Archiver.thy ===== *)
theory Archiver
  imports Shared_Buffers Service_Stats Gm_Time Float_Ops Reformat
begin

text \<open>
  The archiving service: \<open>serviceDataArchiver/serviceDataArchiver.cpp\<close> of the C37.118 gateway
  and its variant in \<open>ftp/serviceDataArchiver\<close>. The thread takes shared buffers from its data
  queue, cuts them into seconds, turns each second into an \<open>upmuData\<close> message and inserts it
  into Cassandra. What the world contributes to one pass of the loop (connection flags, the
  outcome of \<open>malloc\<close> and of the insert, the time it took, the stop flag, the bytes behind
  the heap block) is a record; serialisation is the generated protobuf code, a parameter.
\<close>

subsection \<open>Data\<close>

record sync_sample =
  lockState :: u32
  L1angle :: f32
  L1mag :: f32
  L2angle :: f32
  L2mag :: f32
  L3angle :: f32
  L3mag :: f32
  C1angle :: f32
  C1mag :: f32
  C2angle :: f32
  C2mag :: f32
  C3angle :: f32
  C3mag :: f32

record upmu_data =
  timeStamp :: u32
  sampleIntervalMsec :: f32
  numSamples :: u32
  samples :: "sync_sample list"

record archive_row =
  row_timestamp_msec :: u64
  row_day :: u64
  row_device :: string
  row_domain :: u32
  row_msg_type :: u32
  row_data :: bytes

definition DOMAIN_DATA :: u32 where "DOMAIN_DATA = 2"
definition MSG_KEY_VALUE_LIST :: u32 where "MSG_KEY_VALUE_LIST = 1"
definition UPMU_SAMPLES_PER_SEC :: nat where "UPMU_SAMPLES_PER_SEC = 120"
definition UPMU_1SEC_BUF_LEN :: u32 where "UPMU_1SEC_BUF_LEN = 6312"

text \<open>\<open>numRecords\<close> is an \<open>int\<close>; it is compared after conversion to unsigned.\<close>

record buffer_processing_record =
  numRecords :: u32
  nextRecord :: u32
  numInsertsInAccum :: u32
  accumInsertTime :: f32

record archiver =
  cmdQueue :: "nat cmd_queue"
  dataQ :: "data_buffer list"
  bpr :: buffer_processing_record
  dataBuf :: "data_buffer option"
  processingBuffer :: bool
  stats :: service_stats
  rows :: "archive_row list"
  operations_log :: "(string \<times> string) list"
  key_value_lists :: "(string \<times> u32 \<times> (string \<times> (string \<times> string) list)) list"
  sleeps :: nat

record surroundings =
  cassArchivingEnabled :: bool
  cassConnected :: bool
  mallocSucceeds :: bool
  insertOk :: bool
  insertTime :: f32
  upmuSerialNumber :: string
  serialize :: "upmu_data \<Rightarrow> bytes"
  fp :: fp_ops
  behind_heap :: bytes

text \<open>Counting in the specific statistics: a failing cast leaves the thread function.\<close>

definition count_spec :: "nat \<Rightarrow> archiver \<Rightarrow> archiver run" where
  "count_spec i st = (case count_stat (serviceSpecStatsValues (stats st)) i (stats st) of
     None \<Rightarrow> Exc | Some s \<Rightarrow> Ok (st\<lparr>stats := s\<rparr>))"

definition count_cmn :: "nat \<Rightarrow> archiver \<Rightarrow> archiver run" where
  "count_cmn i st = (case count_stat (serviceCmnStatsValues (stats st)) i (stats st) of
     None \<Rightarrow> Exc | Some s \<Rightarrow> Ok (st\<lparr>stats := s\<rparr>))"

subsection \<open>Offering a buffer\<close>

definition dataBufferOffer :: "data_buffer \<Rightarrow> archiver \<Rightarrow> (dataBufferOffer_t \<times> archiver) run" where
  "dataBufferOffer b st =
     run_bind (count_cmn 1 st) (\<lambda>st1.
       if data_queue_full (dataQ st1)
       then run_bind (count_cmn 3 st1) (\<lambda>st2. Ok (BUFFER_REFUSED, st2))
       else run_bind (count_cmn 2 (st1\<lparr>dataQ := dataQ st1 @ [b]\<rparr>)) (\<lambda>st2. Ok (BUFFER_ACCEPTED, st2)))"

subsection \<open>Inserting into Cassandra\<close>

text \<open>
  The statement \<open>bpr->numInsertsInAccum;\<close> at the end has no effect: the number of
  accumulated times stays as it is.
\<close>

definition cassandraDataArchive ::
  "surroundings \<Rightarrow> u64 \<Rightarrow> u64 \<Rightarrow> u32 \<Rightarrow> u32 \<Rightarrow> bytes \<Rightarrow> archiver \<Rightarrow> archiver run" where
  "cassandraDataArchive e timestampMsec day dtype mtype buf st =
     run_bind (if insertOk e
               then Ok (st\<lparr>rows := rows st @ [\<lparr>row_timestamp_msec = timestampMsec, row_day = day,
                      row_device = upmuSerialNumber e, row_domain = dtype,
                      row_msg_type = mtype, row_data = buf\<rparr>]\<rparr>)
               else count_spec 3 st)
       (\<lambda>st1. Ok (st1\<lparr>bpr := (bpr st1)\<lparr>accumInsertTime :=
                        f_add (fp e) (accumInsertTime (bpr st1)) (insertTime e)\<rparr>\<rparr>))"

text \<open>The same for any table, with the session and the service for that of the operations; nothing in
  the gateways calls it.\<close>

datatype cass_table = DataTable | OperationsTable | OtherTable

record common_row =
  cr_table :: cass_table
  cr_operations :: "(u32 \<times> string) option"
  cr_row :: archive_row

definition cassandraCommonArchive ::
  "surroundings \<Rightarrow> u32 \<Rightarrow> string \<Rightarrow> cass_table \<Rightarrow> nat \<Rightarrow> u64 \<Rightarrow> u64 \<Rightarrow> string \<Rightarrow> u32 \<Rightarrow> u32 \<Rightarrow> bytes \<Rightarrow>
   archiver \<Rightarrow> (archiver \<times> common_row option) run" where
  "cassandraCommonArchive e session component prepared statsIndex timestampMsec day device dtype mtype buf st =
     (if insertOk e
      then Ok (st, Some \<lparr>cr_table = prepared,
             cr_operations = (if prepared = OperationsTable then Some (session, component) else None),
             cr_row = \<lparr>row_timestamp_msec = timestampMsec, row_day = day, row_device = device, row_domain = dtype,
                       row_msg_type = mtype, row_data = buf\<rparr>\<rparr>)
      else run_bind (count_spec statsIndex st) (\<lambda>st1. Ok (st1, None)))"

lemma common_archive_is_data_archive:
  assumes "cassandraDataArchive e ms day dtype mtype buf st = Ok st'"
  shows "\<exists>st1 r. cassandraCommonArchive e sess svc DataTable 3 ms day (upmuSerialNumber e) dtype mtype buf st = Ok (st1, r) \<and>
    rows st' = rows st1 @ (case r of None \<Rightarrow> [] | Some x \<Rightarrow> [cr_row x])"
  using assms by (auto simp: cassandraDataArchive_def cassandraCommonArchive_def run_bind_Ok split: if_splits)

definition next_record :: "archiver \<Rightarrow> archiver" where
  "next_record st = st\<lparr>bpr := (bpr st)\<lparr>nextRecord := nextRecord (bpr st) + 1\<rparr>\<rparr>"

subsection \<open>The C37.118 variant\<close>

definition preProcessData_c37 :: "surroundings \<Rightarrow> data_buffer \<Rightarrow> archiver \<Rightarrow> (archiver \<times> int) run" where
  "preProcessData_c37 e b st =
     (if byteLen b \<noteq> of_nat (SECBLK_LEN_BYTES * 120 + 4)
      then run_bind (count_spec 0 st) (\<lambda>st1. Ok (st1\<lparr>bpr := (bpr st1)\<lparr>numRecords := - 1\<rparr>\<rparr>, - 1))
      else Ok (st\<lparr>bpr := \<lparr>numRecords = 1, nextRecord = 0, numInsertsInAccum = 0,
                          accumInsertTime = 0\<rparr>\<rparr>, 1))"

text \<open>\<open>__bswap_32 (*p++)\<close> for \<open>n\<close> words from word \<open>p\<close> on.\<close>

primrec swapped_words :: "bytes \<Rightarrow> nat \<Rightarrow> nat \<Rightarrow> u32 list option" where
  "swapped_words mem p 0 = Some []"
| "swapped_words mem p (Suc n) = do {
     w \<leftarrow> get_bytes mem (4 * p) 4;
     ws \<leftarrow> swapped_words mem (p + 1) n;
     Some (bswap_32 (le32_of w) # ws) }"

text \<open>Radians to degrees, and to degrees relative to the first voltage's angle.\<close>

definition to_degrees :: "fp_ops \<Rightarrow> f32 \<Rightarrow> f32" where
  "to_degrees m x = d2f m (d_mul m (f2d m x) (d_div m d_180 d_pi))"

definition relative_degrees :: "fp_ops \<Rightarrow> f32 \<Rightarrow> f32 \<Rightarrow> f32" where
  "relative_degrees m ref x =
     d2f m (d_sub m (d_mul m (f2d m x) (d_div m d_180 d_pi)) (f2d m ref))"

definition fmod_360 :: "fp_ops \<Rightarrow> f32 \<Rightarrow> f32" where
  "fmod_360 m x = d2f m (d_fmod m (f2d m x) d_360)"

definition c37_sample :: "fp_ops \<Rightarrow> u32 list \<Rightarrow> sync_sample" where
  "c37_sample m ws =
     (let L1ang = to_degrees m (ws ! 1) in
      \<lparr>lockState = 0,
       L1angle = fmod_360 m 0, L1mag = ws ! 0,
       L2angle = fmod_360 m (relative_degrees m L1ang (ws ! 3)), L2mag = ws ! 2,
       L3angle = fmod_360 m (relative_degrees m L1ang (ws ! 5)), L3mag = ws ! 4,
       C1angle = fmod_360 m (relative_degrees m L1ang (ws ! 7)), C1mag = ws ! 6,
       C2angle = fmod_360 m (relative_degrees m L1ang (ws ! 9)), C2mag = ws ! 8,
       C3angle = fmod_360 m (relative_degrees m L1ang (ws ! 11)), C3mag = ws ! 10\<rparr>)"

primrec c37_samples :: "fp_ops \<Rightarrow> bytes \<Rightarrow> nat \<Rightarrow> nat \<Rightarrow> sync_sample list option" where
  "c37_samples m mem p34 0 = Some []"
| "c37_samples m mem p34 (Suc n) = do {
     ws \<leftarrow> swapped_words mem p34 12;
     so \<leftarrow> c37_samples m mem (p34 + 15) n;
     Some (c37_sample m ws # so) }"

definition c37_second :: "fp_ops \<Rightarrow> bytes \<Rightarrow> upmu_data option" where
  "c37_second m mem = do {
     epoch \<leftarrow> swapped_words mem (8 + 40) 1;
     so \<leftarrow> c37_samples m mem (8 + 40 + 2 - 15 * 3) UPMU_SAMPLES_PER_SEC;
     Some \<lparr>timeStamp = epoch ! 0, sampleIntervalMsec = d2f m (d_div m d_1000 d_120),
           numSamples = of_nat UPMU_SAMPLES_PER_SEC, samples = so\<rparr> }"

definition archive_second_c37 :: "surroundings \<Rightarrow> upmu_data \<Rightarrow> archiver \<Rightarrow> (archiver \<times> bool) run" where
  "archive_second_c37 e secData st =
     (let epochTime = (ucast (timeStamp secData) :: u64);
          epochTimeMsec = epochTime * 1000;
          epochDay = epochTime div 86400 in
      if \<not> cassArchivingEnabled e \<or> \<not> cassConnected e
      then run_bind (count_spec 6 st) (\<lambda>st1. Ok (next_record st1, False))
      else if \<not> mallocSucceeds e
      then run_bind (count_spec 2 st) (\<lambda>st1. Ok (next_record st1, True))
      else run_bind (cassandraDataArchive e epochTimeMsec epochDay DOMAIN_DATA
                       MSG_KEY_VALUE_LIST (serialize e secData) st)
             (\<lambda>st1. Ok (next_record st1, False)))"

definition processData_c37 :: "surroundings \<Rightarrow> data_buffer \<Rightarrow> archiver \<Rightarrow> (archiver \<times> bool) run" where
  "processData_c37 e b st =
     (if nextRecord (bpr st) \<ge> numRecords (bpr st) then Ok (st, True)
      else run_bind (checked (c37_second (fp e) (dataBuffer b @ behind_heap e)))
             (\<lambda>secData. archive_second_c37 e secData st))"

subsection \<open>The FTP variant\<close>

text \<open>
  A second of a uPMU file is the struct \<open>sync_output\<close>: the sample rate, six time fields, 120
  lock states and six arrays of 120 pairs (angle, magnitude), read in host order.
\<close>

definition word_at :: "bytes \<Rightarrow> nat \<Rightarrow> nat \<Rightarrow> u32 option" where
  "word_at mem base i = map_option le32_of (get_bytes mem (base + 4 * i) 4)"

definition LOCKSTATE_AT :: nat where "LOCKSTATE_AT = 7"
definition PHASORS_AT :: nat where "PHASORS_AT = 127"

text \<open>Pair \<open>k\<close> of the six arrays L1, L2, L3, C1, C2, C3, at sample \<open>i\<close>.\<close>

definition angle_at :: "bytes \<Rightarrow> nat \<Rightarrow> nat \<Rightarrow> nat \<Rightarrow> u32 option" where
  "angle_at mem base k i = word_at mem base (PHASORS_AT + 240 * k + 2 * i)"

definition mag_at :: "bytes \<Rightarrow> nat \<Rightarrow> nat \<Rightarrow> nat \<Rightarrow> u32 option" where
  "mag_at mem base k i = word_at mem base (PHASORS_AT + 240 * k + 2 * i + 1)"

definition ftp_sample :: "fp_ops \<Rightarrow> bytes \<Rightarrow> nat \<Rightarrow> nat \<Rightarrow> sync_sample option" where
  "ftp_sample m mem base i = do {
     lock \<leftarrow> word_at mem base (LOCKSTATE_AT + i);
     a0 \<leftarrow> angle_at mem base 0 i; m0 \<leftarrow> mag_at mem base 0 i;
     a1 \<leftarrow> angle_at mem base 1 i; m1 \<leftarrow> mag_at mem base 1 i;
     a2 \<leftarrow> angle_at mem base 2 i; m2 \<leftarrow> mag_at mem base 2 i;
     a3 \<leftarrow> angle_at mem base 3 i; m3 \<leftarrow> mag_at mem base 3 i;
     a4 \<leftarrow> angle_at mem base 4 i; m4 \<leftarrow> mag_at mem base 4 i;
     a5 \<leftarrow> angle_at mem base 5 i; m5 \<leftarrow> mag_at mem base 5 i;
     Some \<lparr>lockState = lock,
       L1angle = fmod_360 m a0, L1mag = m0, L2angle = fmod_360 m a1, L2mag = m1,
       L3angle = fmod_360 m a2, L3mag = m2, C1angle = fmod_360 m a3, C1mag = m3,
       C2angle = fmod_360 m a4, C2mag = m4, C3angle = fmod_360 m a5, C3mag = m5\<rparr> }"

primrec ftp_samples :: "fp_ops \<Rightarrow> bytes \<Rightarrow> nat \<Rightarrow> nat \<Rightarrow> nat \<Rightarrow> sync_sample list option" where
  "ftp_samples m mem base i 0 = Some []"
| "ftp_samples m mem base i (Suc n) = do {
     s \<leftarrow> ftp_sample m mem base i;
     so \<leftarrow> ftp_samples m mem base (i + 1) n;
     Some (s # so) }"

text \<open>The broken-down time of the second: unsigned differences, stored as \<open>int\<close>.\<close>

definition ftp_section_time :: "bytes \<Rightarrow> nat \<Rightarrow> tm option" where
  "ftp_section_time mem base = do {
     y \<leftarrow> word_at mem base 1; mo \<leftarrow> word_at mem base 2; d \<leftarrow> word_at mem base 3;
     h \<leftarrow> word_at mem base 4; mi \<leftarrow> word_at mem base 5; s \<leftarrow> word_at mem base 6;
     Some \<lparr>tm_sec = sint s, tm_min = sint mi, tm_hour = sint h, tm_mday = sint d,
           tm_mon = sint (mo - 1), tm_year = sint (y - 1900)\<rparr> }"

definition ftp_second :: "fp_ops \<Rightarrow> bytes \<Rightarrow> nat \<Rightarrow> (int \<times> upmu_data) option" where
  "ftp_second m mem base = do {
     t \<leftarrow> ftp_section_time mem base;
     epochTime \<leftarrow> mkgmtime t;
     rate \<leftarrow> word_at mem base 0;
     so \<leftarrow> ftp_samples m mem base 0 UPMU_SAMPLES_PER_SEC;
     Some (epochTime, \<lparr>timeStamp = of_int epochTime, sampleIntervalMsec = rate,
           numSamples = of_nat UPMU_SAMPLES_PER_SEC, samples = so\<rparr>) }"

definition preProcessData_ftp :: "surroundings \<Rightarrow> data_buffer \<Rightarrow> archiver \<Rightarrow> (archiver \<times> int) run" where
  "preProcessData_ftp e b st =
     (if byteLen b mod UPMU_1SEC_BUF_LEN \<noteq> 0
      then run_bind (count_spec 0 st) (\<lambda>st1. Ok (st1\<lparr>bpr := (bpr st1)\<lparr>numRecords := - 1\<rparr>\<rparr>, - 1))
      else if \<not> cassArchivingEnabled e \<or> \<not> cassConnected e
      then run_bind (count_spec 6 st) (\<lambda>st1. Ok (st1\<lparr>bpr := (bpr st1)\<lparr>numRecords := - 1\<rparr>\<rparr>, - 1))
      else Ok (st\<lparr>bpr := \<lparr>numRecords = byteLen b div UPMU_1SEC_BUF_LEN, nextRecord = 0,
                          numInsertsInAccum = 0, accumInsertTime = 0\<rparr>\<rparr>, 1))"

definition archive_second_ftp ::
  "surroundings \<Rightarrow> int \<Rightarrow> upmu_data \<Rightarrow> archiver \<Rightarrow> (archiver \<times> bool) run" where
  "archive_second_ftp e epochTime secData st =
     (let epochTimeMsec = (of_int epochTime :: u64) * 1000;
          epochDay = (of_int (epochTime sdiv 86400) :: u64) in
      if \<not> cassArchivingEnabled e \<or> \<not> cassConnected e
      then run_bind (count_spec 6 st) (\<lambda>st1. Ok (st1, False))
      else if \<not> mallocSucceeds e
      then run_bind (count_spec 2 st) (\<lambda>st1. Ok (next_record st1, False))
      else run_bind (cassandraDataArchive e epochTimeMsec epochDay DOMAIN_DATA
                       MSG_KEY_VALUE_LIST (serialize e secData) st)
             (\<lambda>st1. Ok (next_record st1, False)))"

definition processData_ftp :: "surroundings \<Rightarrow> data_buffer \<Rightarrow> archiver \<Rightarrow> (archiver \<times> bool) run" where
  "processData_ftp e b st =
     (if nextRecord (bpr st) \<ge> numRecords (bpr st) then Ok (st, True)
      else run_bind (checked (ftp_second (fp e) (dataBuffer b @ behind_heap e)
                       (unat (nextRecord (bpr st) * UPMU_1SEC_BUF_LEN))))
             (\<lambda>(epochTime, secData). archive_second_ftp e epochTime secData st))"

subsection \<open>The thread\<close>

definition flt_ptr :: "nat \<Rightarrow> archiver \<Rightarrow> string run" where
  "flt_ptr i st = (case serviceSpecStatsValues (stats st) of
     Some m \<Rightarrow> (case m i of Some (FltPtr v) \<Rightarrow> Ok v | _ \<Rightarrow> Exc) | None \<Rightarrow> Exc)"

definition flt_get :: "string \<Rightarrow> archiver \<Rightarrow> f32" where
  "flt_get v st = (case statics (stats st) v of Some (CFlt x) \<Rightarrow> x | _ \<Rightarrow> 0)"

definition flt_set :: "string \<Rightarrow> f32 \<Rightarrow> archiver \<Rightarrow> archiver" where
  "flt_set v x st = st\<lparr>stats := set_cells [(v, CFlt x)] (stats st)\<rparr>"

definition insert_timer :: "surroundings \<Rightarrow> archiver \<Rightarrow> archiver run" where
  "insert_timer e st =
     (if 0 < sint (numInsertsInAccum (bpr st))
      then (let m = fp e;
                avg = f_div m (accumInsertTime (bpr st)) (i2f m (numInsertsInAccum (bpr st))) in
        run_bind (flt_ptr 20 st) (\<lambda>vmin. run_bind (flt_ptr 21 st) (\<lambda>vmax.
          let st1 = (if f_eq m (flt_get vmin st) 0 then flt_set vmin avg st
                     else if f_less m avg (flt_get vmin st) then flt_set vmin avg st else st);
              st2 = (if f_eq m (flt_get vmax st1) 0 then flt_set vmax avg st1
                     else if f_less m (flt_get vmax st1) avg then flt_set vmax avg st1 else st1)
          in run_bind (flt_ptr 22 st2) (\<lambda>vlast. Ok (flt_set vlast avg st2)))))
      else Ok st)"

type_synonym pre_processor = "surroundings \<Rightarrow> data_buffer \<Rightarrow> archiver \<Rightarrow> (archiver \<times> int) run"
type_synonym processor = "surroundings \<Rightarrow> data_buffer \<Rightarrow> archiver \<Rightarrow> (archiver \<times> bool) run"

definition process_current :: "processor \<Rightarrow> surroundings \<Rightarrow> archiver \<Rightarrow> archiver run" where
  "process_current proc e st = (case dataBuf st of
     None \<Rightarrow> Ok st
   | Some b \<Rightarrow> run_bind (proc e b st) (\<lambda>(st1, complete).
       if complete
       then run_bind (insert_timer e st1) (\<lambda>st2. Ok (st2\<lparr>dataBuf := None, processingBuffer := False\<rparr>))
       else Ok st1))"

definition take_next :: "pre_processor \<Rightarrow> surroundings \<Rightarrow> archiver \<Rightarrow> archiver run" where
  "take_next pre e st = (case data_queue_take (dataQ st) of
     (None, _) \<Rightarrow> Ok st
   | (Some b, q) \<Rightarrow> run_bind (pre e b (st\<lparr>dataQ := q, dataBuf := Some b\<rparr>)) (\<lambda>(st1, sts).
       if sts \<le> 0 then run_bind (count_spec 1 st1) (\<lambda>st2. Ok (st2\<lparr>dataBuf := None\<rparr>))
       else Ok (st1\<lparr>processingBuffer := True\<rparr>)))"

text \<open>One pass of the loop; \<open>processCmd\<close> only prints.\<close>

definition archiver_pass :: "pre_processor \<Rightarrow> processor \<Rightarrow> surroundings \<Rightarrow> archiver \<Rightarrow> archiver run" where
  "archiver_pass pre proc e st =
     (let st0 = st\<lparr>cmdQueue := snd (Dequeue (cmdQueue st))\<rparr> in
      run_bind (if processingBuffer st0 then process_current proc e st0 else take_next pre e st0)
        (\<lambda>st1. Ok (if \<not> processingBuffer st1 \<and> dataQ st1 = [] then st1\<lparr>sleeps := sleeps st1 + 1\<rparr> else st1)))"

primrec archiver_passes :: "(surroundings \<Rightarrow> archiver \<Rightarrow> archiver run) \<Rightarrow> surroundings list \<Rightarrow> archiver \<Rightarrow> archiver run" where
  "archiver_passes pass [] st = Ok st"
| "archiver_passes pass (e # es) st = run_bind (pass e st) (archiver_passes pass es)"

datatype serviceState_t = NOT_STARTED | RUNNING | STOPPING | NORMAL_STOP | ERROR_STOP

text \<open>
  The loop of \<open>operator()\<close>, over the passes and the stop flag read after each. What an
  exception leaves behind of its pass is not kept.
\<close>

fun archiver_loop ::
  "(surroundings \<Rightarrow> archiver \<Rightarrow> archiver run) \<Rightarrow> (surroundings \<times> bool) list \<Rightarrow> archiver \<Rightarrow>
   (serviceState_t \<times> archiver option) run" where
  "archiver_loop pass [] st = Ok (RUNNING, Some st)"
| "archiver_loop pass ((e, stop) # es) st =
     (case pass e st of
        Ub \<Rightarrow> Ub
      | Exc \<Rightarrow> Ok (ERROR_STOP, None)
      | Ok st' \<Rightarrow> if stop then Ok (NORMAL_STOP, Some st') else archiver_loop pass es st')"

text \<open>The two services.\<close>

definition archiver_pass_c37 :: "surroundings \<Rightarrow> archiver \<Rightarrow> archiver run" where
  "archiver_pass_c37 = archiver_pass preProcessData_c37 processData_c37"

definition archiver_pass_ftp :: "surroundings \<Rightarrow> archiver \<Rightarrow> archiver run" where
  "archiver_pass_ftp = archiver_pass preProcessData_ftp processData_ftp"

subsection \<open>Starting the service\<close>

definition str_stat :: "service_stats \<Rightarrow> nat \<Rightarrow> (string \<times> string) option" where
  "str_stat s i = do {
     lbl \<leftarrow> serviceSpecStatsLabels s; l \<leftarrow> lbl i; vals \<leftarrow> serviceSpecStatsValues s;
     (case cast_str s (vals i) of Value (SStr x) \<Rightarrow> Some (l, x) | _ \<Rightarrow> None) }"

definition createServiceStartupKeyValueList ::
  "u32 \<Rightarrow> service_stats \<Rightarrow> (string \<times> u32 \<times> (string \<times> (string \<times> string) list)) option" where
  "createServiceStartupKeyValueList now s = do {
     maj \<leftarrow> str_stat s 30; mnr \<leftarrow> str_stat s 31;
     Some (''Service_Startup_Info'', now, (''ServiceStatus'', [maj, mnr])) }"

definition initService :: "bool \<Rightarrow> u32 \<Rightarrow> u32 \<Rightarrow> surroundings \<Rightarrow> archiver \<Rightarrow> (archiver, bool) outcome" where
  "initService dbConnected now now2 e st =
     (case createServiceCommonStats now (stats st) of
        Returns s1 _ \<Rightarrow> (case createServiceSpecificStats_archiver s1 of
          Returns s2 _ \<Rightarrow>
            (let st2 = st\<lparr>stats := s2\<rparr> in
             if \<not> dbConnected then Returns st2 False
             else (case (str_stat s2 30, str_stat s2 31, createServiceStartupKeyValueList now2 s2) of
               (Some maj, Some mnr, Some kv) \<Rightarrow>
                 (let st3 = st2\<lparr>operations_log := operations_log st2 @
                        [(''Service_Startup_Msg'', ''Initialized, waiting for input buffers.''), maj, mnr]\<rparr>
                  in Returns (if cassArchivingEnabled e \<and> cassConnected e \<and> mallocSucceeds e
                              then st3\<lparr>key_value_lists := key_value_lists st3 @ [kv]\<rparr> else st3) True)
             | _ \<Rightarrow> Undefined))
        | Throws s \<Rightarrow> Throws (st\<lparr>stats := s\<rparr>) | Blocks \<Rightarrow> Blocks | Undefined \<Rightarrow> Undefined)
      | Throws s \<Rightarrow> Throws (st\<lparr>stats := s\<rparr>) | Blocks \<Rightarrow> Blocks | Undefined \<Rightarrow> Undefined)"

subsection \<open>The contract of a variant\<close>

lemma count_keeps:
  "count_spec i st = Ok st' \<Longrightarrow> st' = st" "count_cmn i st = Ok st' \<Longrightarrow> st' = st"
  by (auto simp: count_spec_def count_cmn_def count_stat_def split: option.splits stat_any.splits)

definition quiet :: "archiver \<Rightarrow> archiver \<Rightarrow> bool" where
  "quiet st st' \<longleftrightarrow> stats st' = stats st \<and>
     (numInsertsInAccum (bpr st) = 0 \<longrightarrow> numInsertsInAccum (bpr st') = 0)"

lemma quiet_trans [trans]: "quiet a b \<Longrightarrow> quiet b c \<Longrightarrow> quiet a c"
  by (simp add: quiet_def)

lemma cassandraDataArchive_quiet:
  "cassandraDataArchive e ms day dt mt buf st = Ok st' \<Longrightarrow> quiet st st'"
  by (auto simp: cassandraDataArchive_def quiet_def run_bind_Ok dest: count_keeps split: if_splits)

locale archiver_variant =
  fixes pre :: pre_processor and proc :: processor
  assumes pre_quiet: "pre e b st = Ok (st', sts) \<Longrightarrow> quiet st st'"
    and proc_quiet: "proc e b st = Ok (st', complete) \<Longrightarrow> quiet st st'"
    and proc_done: "nextRecord (bpr st) \<ge> numRecords (bpr st) \<Longrightarrow> proc e b st = Ok (st, True)"
begin

lemma process_current_quiet:
  assumes "process_current proc e st = Ok st'" and "numInsertsInAccum (bpr st) = 0"
  shows "quiet st st'"
proof (cases "dataBuf st")
  case None
  then show ?thesis using assms(1) by (simp add: process_current_def quiet_def)
next
  case (Some b)
  with assms(1) obtain st1 c where 1: "proc e b st = Ok (st1, c)"
    and 2: "(if c then run_bind (insert_timer e st1) (\<lambda>st2. Ok (st2\<lparr>dataBuf := None, processingBuffer := False\<rparr>))
             else Ok st1) = Ok st'"
    by (auto simp: process_current_def run_bind_Ok)
  have q: "quiet st st1" by (rule proc_quiet [OF 1])
  with assms(2) have "insert_timer e st1 = Ok st1" by (simp add: insert_timer_def quiet_def)
  with 2 q show ?thesis by (auto simp: quiet_def split: if_splits)
qed

lemma take_next_quiet:
  assumes "take_next pre e st = Ok st'"
  shows "quiet st st'"
proof (cases "dataQ st")
  case Nil
  then show ?thesis using assms by (simp add: take_next_def data_queue_take_def quiet_def)
next
  case (Cons b q)
  with assms obtain st1 s where 1: "pre e b (st\<lparr>dataQ := q, dataBuf := Some b\<rparr>) = Ok (st1, s)"
    and 2: "(if s \<le> 0 then run_bind (count_spec 1 st1) (\<lambda>st2. Ok (st2\<lparr>dataBuf := None\<rparr>))
             else Ok (st1\<lparr>processingBuffer := True\<rparr>)) = Ok st'"
    by (auto simp: take_next_def data_queue_take_def run_bind_Ok)
  from pre_quiet [OF 1] 2 show ?thesis
    by (auto simp: quiet_def run_bind_Ok dest: count_keeps split: if_splits)
qed

lemma pass_quiet:
  assumes "archiver_pass pre proc e st = Ok st'" and "numInsertsInAccum (bpr st) = 0"
  shows "stats st' = stats st \<and> numInsertsInAccum (bpr st') = 0"
proof -
  let ?st0 = "st\<lparr>cmdQueue := snd (Dequeue (cmdQueue st))\<rparr>"
  from assms(1) obtain st1 where 1: "(if processingBuffer ?st0 then process_current proc e ?st0
      else take_next pre e ?st0) = Ok st1"
    and 2: "st' = (if \<not> processingBuffer st1 \<and> dataQ st1 = [] then st1\<lparr>sleeps := sleeps st1 + 1\<rparr> else st1)"
    unfolding archiver_pass_def Let_def run_bind_Ok by blast
  have "quiet ?st0 st1"
    using 1 assms(2) process_current_quiet [of e ?st0 st1] take_next_quiet [of e ?st0 st1]
    by (cases "processingBuffer ?st0") simp_all
  with assms(2) show ?thesis unfolding 2 by (simp add: quiet_def)
qed

lemma passes_quiet:
  "archiver_passes (archiver_pass pre proc) es st = Ok st' \<Longrightarrow> numInsertsInAccum (bpr st) = 0 \<Longrightarrow>
   stats st' = stats st \<and> numInsertsInAccum (bpr st') = 0"
proof (induction es arbitrary: st)
  case (Cons e es)
  then obtain st1 where "archiver_pass pre proc e st = Ok st1" "archiver_passes (archiver_pass pre proc) es st1 = Ok st'"
    by (auto simp: run_bind_Ok)
  with Cons.IH [of st1] pass_quiet [of e st st1] Cons.prems(2) show ?case by simp
qed simp

end

text \<open>A variant that turns record \<open>k\<close> of a buffer into the rows \<open>row e b k\<close>.\<close>

definition begun :: "nat \<Rightarrow> buffer_processing_record" where
  "begun n = \<lparr>numRecords = of_nat n, nextRecord = 0, numInsertsInAccum = 0, accumInsertTime = 0\<rparr>"

locale record_processor = archiver_variant +
  fixes good :: "surroundings \<Rightarrow> bool" and wf :: "data_buffer \<Rightarrow> bool"
    and records :: "data_buffer \<Rightarrow> nat"
    and row :: "surroundings \<Rightarrow> data_buffer \<Rightarrow> nat \<Rightarrow> archive_row list"
    and ready :: "service_stats \<Rightarrow> bool"
  assumes records_bound: "wf b \<Longrightarrow> records b < 2 ^ 32"
    and pre_accepts: "good e \<Longrightarrow> wf b \<Longrightarrow> ready (stats st) \<Longrightarrow>
      pre e b st = Ok (st\<lparr>bpr := begun (records b)\<rparr>, 1)"
    and proc_step: "good e \<Longrightarrow> wf b \<Longrightarrow> ready (stats st) \<Longrightarrow> numRecords (bpr st) = of_nat (records b) \<Longrightarrow>
      nextRecord (bpr st) = of_nat k \<Longrightarrow> k < records b \<Longrightarrow>
      \<exists>x. proc e b st = Ok (st\<lparr>rows := rows st @ row e b k,
             bpr := (bpr st)\<lparr>nextRecord := of_nat (Suc k), accumInsertTime := x\<rparr>\<rparr>, False)"
begin

lemma one_record:
  assumes "good e" "wf b" "ready (stats st)" "numRecords (bpr st) = of_nat (records b)"
    and "nextRecord (bpr st) = of_nat k" "k < records b"
    and "processingBuffer st" "dataBuf st = Some b" "m_queue (cmdQueue st) = []"
  shows "\<exists>x. archiver_pass pre proc e st = Ok (st\<lparr>rows := rows st @ row e b k,
      bpr := (bpr st)\<lparr>nextRecord := of_nat (Suc k), accumInsertTime := x\<rparr>\<rparr>)"
proof -
  have cq: "st\<lparr>cmdQueue := snd (Dequeue (cmdQueue st))\<rparr> = st"
    using assms(9) by (simp add: Dequeue_def)
  show ?thesis
    using proc_step [OF assms(1-6)] assms(7,8) unfolding archiver_pass_def cq
    by (auto simp: process_current_def)
qed

lemma all_records:
  assumes "wf b"
  shows "list_all good es \<Longrightarrow> ready (stats st) \<Longrightarrow> numRecords (bpr st) = of_nat (records b) \<Longrightarrow>
    nextRecord (bpr st) = of_nat k \<Longrightarrow> k + length es = records b \<Longrightarrow>
    processingBuffer st \<Longrightarrow> dataBuf st = Some b \<Longrightarrow> m_queue (cmdQueue st) = [] \<Longrightarrow>
    \<exists>x. archiver_passes (archiver_pass pre proc) es st = Ok (st\<lparr>rows := rows st @ concat (map2 (\<lambda>e. row e b) es [k..<records b]),
      bpr := (bpr st)\<lparr>nextRecord := of_nat (records b), accumInsertTime := x\<rparr>\<rparr>)"
proof (induction es arbitrary: st k)
  case Nil
  then have "st\<lparr>bpr := (bpr st)\<lparr>nextRecord := of_nat (records b), accumInsertTime := accumInsertTime (bpr st)\<rparr>\<rparr> = st"
    by simp
  with Nil show ?case by (intro exI [of _ "accumInsertTime (bpr st)"]) simp
next
  case (Cons e es)
  then have "k < records b" "good e" by simp_all
  with one_record [of e b st k] Cons.prems assms obtain x where
    1: "archiver_pass pre proc e st = Ok (st\<lparr>rows := rows st @ row e b k,
      bpr := (bpr st)\<lparr>nextRecord := of_nat (Suc k), accumInsertTime := x\<rparr>\<rparr>)" (is "_ = Ok ?s") by blast
  have up: "[k..<records b] = k # [Suc k..<records b]" using \<open>k < records b\<close> by (rule upt_conv_Cons)
  show ?case
    using Cons.IH [of ?s "Suc k"] Cons.prems 1 by (auto simp: up)
qed

lemma buffer_taken:
  assumes "wf b" "good e" "ready (stats st)" "\<not> processingBuffer st" "dataQ st = b # q" "m_queue (cmdQueue st) = []"
  shows "archiver_pass pre proc e st =
    Ok (st\<lparr>dataQ := q, dataBuf := Some b, bpr := begun (records b), processingBuffer := True\<rparr>)"
proof -
  have cq: "st\<lparr>cmdQueue := snd (Dequeue (cmdQueue st))\<rparr> = st"
    using assms(6) by (simp add: Dequeue_def)
  show ?thesis
    unfolding archiver_pass_def cq using assms pre_accepts [of e b "st\<lparr>dataQ := q, dataBuf := Some b\<rparr>"]
    by (simp add: take_next_def data_queue_take_def)
qed

text \<open>From the queue to the release of the buffer.\<close>

lemma buffer_archived:
  assumes "wf b" "list_all good es" "length es = records b" "good e0" "ready (stats st)"
    and "\<not> processingBuffer st" "dataQ st = b # q" "m_queue (cmdQueue st) = []"
  shows "\<exists>st'. archiver_passes (archiver_pass pre proc) (e0 # es @ [e1]) st = Ok st' \<and> dataBuf st' = None \<and>
    \<not> processingBuffer st' \<and> dataQ st' = q \<and> stats st' = stats st \<and>
    rows st' = rows st @ concat (map2 (\<lambda>e. row e b) es [0..<records b])"
proof -
  let ?s0 = "st\<lparr>dataQ := q, dataBuf := Some b, bpr := begun (records b), processingBuffer := True\<rparr>"
  have 0: "archiver_pass pre proc e0 st = Ok ?s0" by (rule buffer_taken [OF assms(1,4-8)])
  obtain x where 1: "archiver_passes (archiver_pass pre proc) es ?s0 = Ok (?s0\<lparr>
      rows := rows st @ concat (map2 (\<lambda>e. row e b) es [0..<records b]),
      bpr := (begun (records b))\<lparr>nextRecord := of_nat (records b), accumInsertTime := x\<rparr>\<rparr>)"
    (is "_ = Ok ?s1")
    using all_records [OF assms(1,2), of ?s0 0] assms(3,5,8) by (auto simp: begun_def)
  have cq1: "?s1\<lparr>cmdQueue := snd (Dequeue (cmdQueue ?s1))\<rparr> = ?s1"
    using assms(8) by (simp add: Dequeue_def)
  have "proc e1 b ?s1 = Ok (?s1, True)" by (rule proc_done) (simp add: begun_def)
  then obtain s where 2: "archiver_pass pre proc e1 ?s1 = Ok s" "dataBuf s = None" "\<not> processingBuffer s"
    "dataQ s = q" "stats s = stats st" "rows s = rows ?s1"
    unfolding archiver_pass_def cq1
    by (auto simp: process_current_def insert_timer_def begun_def)
  have app: "archiver_passes (archiver_pass pre proc) (xs @ ys) s = run_bind (archiver_passes (archiver_pass pre proc) xs s) (archiver_passes (archiver_pass pre proc) ys)"
    for xs ys s
  proof (induction xs arbitrary: s)
    case (Cons x xs)
    then show ?case by (cases "archiver_pass pre proc x s") simp_all
  qed simp
  show ?thesis using 0 1 2 by (auto simp: app)
qed

end

subsection \<open>What the variants read\<close>

lemma swapped_words_spec:
  "4 * (p + n) \<le> length mem \<Longrightarrow>
   swapped_words mem p n = Some (map (\<lambda>j. wire32 mem (4 * (p + j))) [0..<n])"
proof (induction n arbitrary: p)
  case (Suc n)
  from Suc.IH [of "p + 1"] Suc.prems have
    "swapped_words mem (p + 1) n = Some (map (\<lambda>j. wire32 mem (4 * (p + Suc j))) [0..<n])" by simp
  then show ?case
    using Suc.prems
    by (simp add: wire32_def bswap_be32 upt_conv_Cons map_Suc_upt [symmetric] comp_def ac_simps del: upt_Suc)
qed simp

definition c37_words :: "bytes \<Rightarrow> nat \<Rightarrow> nat \<Rightarrow> u32 list" where
  "c37_words mem p i = map (\<lambda>j. wire32 mem (4 * (p + 15 * i + j))) [0..<12]"

lemma c37_samples_spec:
  "(\<And>i. i < n \<Longrightarrow> 4 * (p + 15 * i + 12) \<le> length mem) \<Longrightarrow>
   c37_samples m mem p n = Some (map (\<lambda>i. c37_sample m (c37_words mem p i)) [0..<n])"
proof (induction n arbitrary: p)
  case (Suc n)
  have "swapped_words mem p 12 = Some (c37_words mem p 0)"
    using Suc.prems [of 0] by (subst swapped_words_spec) (simp_all add: c37_words_def)
  moreover have "c37_samples m mem (p + 15) n =
      Some (map (\<lambda>i. c37_sample m (c37_words mem p (Suc i))) [0..<n])"
  proof (subst Suc.IH)
    show "4 * (p + 15 + 15 * i + 12) \<le> length mem" if "i < n" for i
      using Suc.prems [of "Suc i"] that by simp
    show "Some (map (\<lambda>i. c37_sample m (c37_words mem (p + 15) i)) [0..<n]) =
        Some (map (\<lambda>i. c37_sample m (c37_words mem p (Suc i))) [0..<n])"
      by (simp add: c37_words_def add.assoc)
  qed
  ultimately show ?case
    by (simp add: upt_conv_Cons map_Suc_upt [symmetric] comp_def del: upt_Suc)
qed simp

definition c37_message :: "fp_ops \<Rightarrow> bytes \<Rightarrow> upmu_data" where
  "c37_message m mem = \<lparr>timeStamp = wire32 mem 192, sampleIntervalMsec = d2f m (d_div m d_1000 d_120),
     numSamples = 120, samples = map (\<lambda>i. c37_sample m (c37_words mem 5 i)) [0..<120]\<rparr>"

lemma c37_second_spec:
  assumes "7208 \<le> length mem"
  shows "c37_second m mem = Some (c37_message m mem)"
proof -
  have "swapped_words mem 48 1 = Some [wire32 mem 192]"
    using assms by (subst swapped_words_spec) simp_all
  moreover have "c37_samples m mem 5 120 = Some (map (\<lambda>i. c37_sample m (c37_words mem 5 i)) [0..<120])"
    using assms by (intro c37_samples_spec) simp
  ultimately show ?thesis
    by (simp add: c37_second_def c37_message_def UPMU_SAMPLES_PER_SEC_def)
qed

definition archiver_stats_ready :: "service_stats \<Rightarrow> bool" where
  "archiver_stats_ready s \<longleftrightarrow> serviceSpecStatsValues s = Some (map_of archiver_values)"

lemma count_spec_ready: "archiver_stats_ready (stats st) \<Longrightarrow> i < 7 \<Longrightarrow> count_spec i st = Ok st"
  by (auto simp: count_spec_def count_stat_def archiver_stats_ready_def archiver_values_def)

definition insert_row :: "surroundings \<Rightarrow> u64 \<Rightarrow> u64 \<Rightarrow> upmu_data \<Rightarrow> archive_row" where
  "insert_row e ms day d = \<lparr>row_timestamp_msec = ms, row_day = day, row_device = upmuSerialNumber e,
     row_domain = 2, row_msg_type = 1, row_data = serialize e d\<rparr>"

lemma cassandraDataArchive_ready:
  "archiver_stats_ready (stats st) \<Longrightarrow> cassandraDataArchive e ms day DOMAIN_DATA MSG_KEY_VALUE_LIST (serialize e d) st
   = Ok (st\<lparr>rows := rows st @ (if insertOk e then [insert_row e ms day d] else []),
            bpr := (bpr st)\<lparr>accumInsertTime := f_add (fp e) (accumInsertTime (bpr st)) (insertTime e)\<rparr>\<rparr>)"
  by (simp add: cassandraDataArchive_def count_spec_ready insert_row_def DOMAIN_DATA_def MSG_KEY_VALUE_LIST_def)

definition good_c37 :: "surroundings \<Rightarrow> bool" where
  "good_c37 e \<longleftrightarrow> mallocSucceeds e \<and> 4 \<le> length (behind_heap e)"

definition wf_c37 :: "data_buffer \<Rightarrow> bool" where
  "wf_c37 b \<longleftrightarrow> byteLen b = 7204 \<and> length (dataBuffer b) = 7204"

definition row_c37 :: "surroundings \<Rightarrow> data_buffer \<Rightarrow> nat \<Rightarrow> archive_row list" where
  "row_c37 e b k =
     (if cassArchivingEnabled e \<and> cassConnected e \<and> insertOk e
      then (let d = c37_message (fp e) (dataBuffer b @ behind_heap e)
            in [insert_row e (ucast (timeStamp d) * 1000) (ucast (timeStamp d) div 86400) d]) else [])"

lemma processData_c37_quiet: "processData_c37 e b st = Ok (st', complete) \<Longrightarrow> quiet st st'"
  by (auto simp: processData_c37_def archive_second_c37_def run_bind_Ok Let_def next_record_def quiet_def
      dest!: count_keeps cassandraDataArchive_quiet split: if_splits)

lemma preProcessData_c37_quiet: "preProcessData_c37 e b st = Ok (st', sts) \<Longrightarrow> quiet st st'"
  by (auto simp: preProcessData_c37_def run_bind_Ok quiet_def dest!: count_keeps split: if_splits)

lemma record_last: "word_of_nat (Suc 0) = (1 :: u32)" by simp

interpretation c37_archiver: record_processor preProcessData_c37 processData_c37 good_c37 wf_c37
  "\<lambda>_. 1" row_c37 archiver_stats_ready
proof
  fix e b st and st' :: archiver and sts
  show "preProcessData_c37 e b st = Ok (st', sts) \<Longrightarrow> quiet st st'"
    by (rule preProcessData_c37_quiet)
next
  fix e b st and st' :: archiver and complete
  show "processData_c37 e b st = Ok (st', complete) \<Longrightarrow> quiet st st'"
    by (rule processData_c37_quiet)
next
  fix e b and st :: archiver
  show "numRecords (bpr st) \<le> nextRecord (bpr st) \<Longrightarrow> processData_c37 e b st = Ok (st, True)"
    by (simp add: processData_c37_def)
next
  fix e b and st :: archiver
  assume "good_c37 e" "wf_c37 b" "archiver_stats_ready (stats st)"
  then show "preProcessData_c37 e b st = Ok (st\<lparr>bpr := begun 1\<rparr>, 1)"
    by (simp add: preProcessData_c37_def wf_c37_def SECBLK_LEN_BYTES_def begun_def)
next
  fix e b k and st :: archiver
  assume a: "good_c37 e" "wf_c37 b" "archiver_stats_ready (stats st)" "numRecords (bpr st) = of_nat 1"
    "nextRecord (bpr st) = of_nat k" "k < 1"
  then have m: "c37_second (fp e) (dataBuffer b @ behind_heap e) =
      Some (c37_message (fp e) (dataBuffer b @ behind_heap e))"
    by (intro c37_second_spec) (simp add: wf_c37_def good_c37_def)
  have keep: "bpr st\<lparr>nextRecord := 1\<rparr> = bpr st\<lparr>nextRecord := 1, accumInsertTime := accumInsertTime (bpr st)\<rparr>"
    by simp
  show "\<exists>x. processData_c37 e b st = Ok (st\<lparr>rows := rows st @ row_c37 e b k,
      bpr := (bpr st)\<lparr>nextRecord := of_nat (Suc k), accumInsertTime := x\<rparr>\<rparr>, False)"
  proof (cases "cassArchivingEnabled e \<and> cassConnected e")
    case True
    with a m show ?thesis
      by (intro exI [of _ "f_add (fp e) (accumInsertTime (bpr st)) (insertTime e)"])
        (auto simp: processData_c37_def archive_second_c37_def good_c37_def cassandraDataArchive_ready next_record_def row_c37_def Let_def)
  next
    case False
    with a m show ?thesis
      by (intro exI [of _ "accumInsertTime (bpr st)"])
        (auto simp: processData_c37_def archive_second_c37_def count_spec_ready next_record_def row_c37_def)
  qed
qed simp

subsection \<open>The FTP variant meets the contract\<close>

text \<open>The message of the second at byte \<open>base\<close>, by the offsets of the struct.\<close>

definition ftp_time :: "bytes \<Rightarrow> nat \<Rightarrow> tm" where
  "ftp_time mem base = \<lparr>tm_sec = sint (host32 mem (base + 24)), tm_min = sint (host32 mem (base + 20)),
     tm_hour = sint (host32 mem (base + 16)), tm_mday = sint (host32 mem (base + 12)),
     tm_mon = sint (host32 mem (base + 8) - 1), tm_year = sint (host32 mem (base + 4) - 1900)\<rparr>"

definition sample_in :: "fp_ops \<Rightarrow> bytes \<Rightarrow> nat \<Rightarrow> nat \<Rightarrow> sync_sample" where
  "sample_in m mem base i = \<lparr>lockState = host32 mem (base + 28 + 4 * i),
     L1angle = fmod_360 m (host32 mem (base + 508 + 8 * i)), L1mag = host32 mem (base + 512 + 8 * i),
     L2angle = fmod_360 m (host32 mem (base + 1468 + 8 * i)), L2mag = host32 mem (base + 1472 + 8 * i),
     L3angle = fmod_360 m (host32 mem (base + 2428 + 8 * i)), L3mag = host32 mem (base + 2432 + 8 * i),
     C1angle = fmod_360 m (host32 mem (base + 3388 + 8 * i)), C1mag = host32 mem (base + 3392 + 8 * i),
     C2angle = fmod_360 m (host32 mem (base + 4348 + 8 * i)), C2mag = host32 mem (base + 4352 + 8 * i),
     C3angle = fmod_360 m (host32 mem (base + 5308 + 8 * i)), C3mag = host32 mem (base + 5312 + 8 * i)\<rparr>"

definition ftp_message :: "fp_ops \<Rightarrow> bytes \<Rightarrow> nat \<Rightarrow> upmu_data" where
  "ftp_message m mem base = \<lparr>timeStamp = of_int (tm_epoch (ftp_time mem base)),
     sampleIntervalMsec = host32 mem base, numSamples = 120,
     samples = map (sample_in m mem base) [0..<120]\<rparr>"

lemma word_at_inside: "base + 4 * i + 4 \<le> length mem \<Longrightarrow> word_at mem base i = Some (host32 mem (base + 4 * i))"
  by (simp add: word_at_def host32_def)

lemma ftp_sample_spec:
  assumes "base + 6268 \<le> length mem" and "i < 120"
  shows "ftp_sample m mem base i = Some (sample_in m mem base i)"
proof -
  have "word_at mem base (LOCKSTATE_AT + i) = Some (host32 mem (base + 28 + 4 * i))"
    using assms by (simp add: word_at_inside LOCKSTATE_AT_def add.assoc)
  moreover have "angle_at mem base k i = Some (host32 mem (base + (508 + 960 * k) + 8 * i))"
    "mag_at mem base k i = Some (host32 mem (base + (512 + 960 * k) + 8 * i))" if "k < 6" for k
    using assms that by (simp_all add: angle_at_def mag_at_def word_at_inside PHASORS_AT_def algebra_simps)
  ultimately show ?thesis by (simp add: ftp_sample_def sample_in_def)
qed

lemma ftp_samples_spec:
  "base + 6268 \<le> length mem \<Longrightarrow> i + n \<le> 120 \<Longrightarrow>
   ftp_samples m mem base i n = Some (map (sample_in m mem base) [i..<i + n])"
proof (induction n arbitrary: i)
  case (Suc n)
  then show ?case
    using Suc.IH [of "i + 1"] by (simp add: ftp_sample_spec upt_conv_Cons del: upt_Suc)
qed simp

lemma ftp_second_spec:
  assumes "base + 6268 \<le> length mem" and "date_ok (ftp_time mem base)"
    and "tm_epoch (ftp_time mem base) < 2147483648"
  shows "ftp_second m mem base = Some (tm_epoch (ftp_time mem base), ftp_message m mem base)"
proof -
  have "ftp_section_time mem base = Some (ftp_time mem base)"
    using assms(1) by (simp add: ftp_section_time_def ftp_time_def word_at_inside)
  moreover have "word_at mem base 0 = Some (host32 mem base)"
    using assms(1) by (simp add: word_at_inside)
  moreover have "ftp_samples m mem base 0 120 = Some (map (sample_in m mem base) [0..<120])"
    using ftp_samples_spec [OF assms(1), of 0 120 m] by (simp only: add_0 order_refl)
  ultimately show ?thesis
    using assms(2,3)
    by (simp add: ftp_second_def ftp_message_def UPMU_SAMPLES_PER_SEC_def mkgmtime_date del: upt_rec_numeral)
qed

definition good_ftp :: "surroundings \<Rightarrow> bool" where
  "good_ftp e \<longleftrightarrow> cassArchivingEnabled e \<and> cassConnected e"

definition records_ftp :: "data_buffer \<Rightarrow> nat" where
  "records_ftp b = unat (byteLen b) div 6312"

text \<open>A file of whole seconds, each with a date before 2038-01-19 03:14:08.\<close>

definition wf_ftp :: "data_buffer \<Rightarrow> bool" where
  "wf_ftp b \<longleftrightarrow> length (dataBuffer b) = unat (byteLen b) \<and> unat (byteLen b) mod 6312 = 0 \<and>
     list_all (\<lambda>k. date_ok (ftp_time (dataBuffer b) (6312 * k)) \<and>
       tm_epoch (ftp_time (dataBuffer b) (6312 * k)) < 2147483648) [0..<records_ftp b]"

definition row_ftp :: "surroundings \<Rightarrow> data_buffer \<Rightarrow> nat \<Rightarrow> archive_row list" where
  "row_ftp e b k =
     (if mallocSucceeds e \<and> insertOk e
      then (let s = tm_epoch (ftp_time (dataBuffer b) (6312 * k))
            in [insert_row e (of_int s * 1000) (of_int (s sdiv 86400)) (ftp_message (fp e) (dataBuffer b) (6312 * k))])
      else [])"

lemma host32_append: "i + 4 \<le> length xs \<Longrightarrow> host32 (xs @ ys) i = host32 xs i"
  by (simp add: host32_def nth_append)

lemma ftp_time_append: "base + 28 \<le> length xs \<Longrightarrow> ftp_time (xs @ ys) base = ftp_time xs base"
  by (simp add: ftp_time_def host32_append)

lemma ftp_message_append:
  assumes "base + 6268 \<le> length xs"
  shows "ftp_message m (xs @ ys) base = ftp_message m xs base"
proof -
  have "sample_in m (xs @ ys) base i = sample_in m xs base i" if "i < 120" for i
    using assms that by (simp add: sample_in_def host32_append)
  then have "map (sample_in m (xs @ ys) base) [0..<120] = map (sample_in m xs base) [0..<120]"
    by (intro map_cong refl) simp
  then show ?thesis
    using assms by (simp add: ftp_message_def ftp_time_append host32_append del: upt_rec_numeral)
qed

lemma unat_record_offset:
  assumes "k < records_ftp b"
  shows "unat ((of_nat k :: u32) * UPMU_1SEC_BUF_LEN) = 6312 * k"
proof -
  have "6312 * k \<le> unat (byteLen b)"
    using assms unfolding records_ftp_def by (metis div_times_less_eq_dividend dual_order.strict_implies_order mult.commute mult_le_mono1 order_trans)
  also have "unat (byteLen b) < 2 ^ 32" by (rule order_less_le_trans [OF unsigned_less]) simp
  finally have "6312 * k < 2 ^ 32" .
  then show ?thesis by (simp add: UPMU_1SEC_BUF_LEN_def unat_word_ariths unat_of_nat take_bit_eq_mod)
qed

lemma record_inside:
  assumes "k < records_ftp b" "length (dataBuffer b) = unat (byteLen b)"
  shows "6312 * k + 6312 \<le> length (dataBuffer b)"
proof -
  have "Suc k \<le> unat (byteLen b) div 6312" using assms(1) by (simp add: records_ftp_def)
  then have "Suc k * 6312 \<le> unat (byteLen b)" by (simp add: less_eq_div_iff_mult_less_eq)
  then show ?thesis using assms(2) by simp
qed

lemma processData_ftp_quiet: "processData_ftp e b st = Ok (st', complete) \<Longrightarrow> quiet st st'"
  by (auto simp: processData_ftp_def archive_second_ftp_def run_bind_Ok Let_def next_record_def quiet_def
      dest!: count_keeps cassandraDataArchive_quiet split: if_splits)

lemma preProcessData_ftp_quiet: "preProcessData_ftp e b st = Ok (st', sts) \<Longrightarrow> quiet st st'"
  by (auto simp: preProcessData_ftp_def run_bind_Ok quiet_def dest!: count_keeps split: if_splits)


lemma whole_seconds: "byteLen b mod UPMU_1SEC_BUF_LEN = 0 \<longleftrightarrow> unat (byteLen b) mod 6312 = 0"
  by (simp add: word_unat_eq_iff unat_mod UPMU_1SEC_BUF_LEN_def)

lemma records_ftp_bound: "records_ftp b < 2 ^ 32"
  unfolding records_ftp_def by (rule order_le_less_trans [OF div_le_dividend]) (rule order_less_le_trans [OF unsigned_less], simp)

lemma records_ftp_word: "byteLen b div UPMU_1SEC_BUF_LEN = of_nat (records_ftp b)"
  using records_ftp_bound [of b]
  by (simp add: word_unat_eq_iff records_ftp_def UPMU_1SEC_BUF_LEN_def unat_div unat_of_nat take_bit_eq_mod)

lemma next_ftp_second:
  assumes "wf_ftp b" and "nextRecord (bpr st) = of_nat k" and "k < records_ftp b"
  shows "ftp_second m (dataBuffer b @ mem) (unat (nextRecord (bpr st) * UPMU_1SEC_BUF_LEN)) =
    Some (tm_epoch (ftp_time (dataBuffer b) (6312 * k)), ftp_message m (dataBuffer b) (6312 * k))"
proof -
  have in_b: "6312 * k + 6312 \<le> length (dataBuffer b)"
    using record_inside [OF assms(3)] assms(1) by (simp add: wf_ftp_def)
  have ok: "date_ok (ftp_time (dataBuffer b) (6312 * k)) \<and> tm_epoch (ftp_time (dataBuffer b) (6312 * k)) < 2147483648"
    using assms(1,3) by (simp add: wf_ftp_def list_all_iff)
  have t: "ftp_time (dataBuffer b @ mem) (6312 * k) = ftp_time (dataBuffer b) (6312 * k)"
    using in_b by (intro ftp_time_append) simp
  have m: "ftp_message m (dataBuffer b @ mem) (6312 * k) = ftp_message m (dataBuffer b) (6312 * k)"
    using in_b by (intro ftp_message_append) simp
  show ?thesis
    unfolding assms(2) unat_record_offset [OF assms(3)]
    using ftp_second_spec [of "6312 * k" "dataBuffer b @ mem" m] in_b ok by (simp add: t m)
qed

interpretation ftp_archiver: record_processor preProcessData_ftp processData_ftp good_ftp wf_ftp
  records_ftp row_ftp archiver_stats_ready
proof
  fix e b st and st' :: archiver and sts
  show "preProcessData_ftp e b st = Ok (st', sts) \<Longrightarrow> quiet st st'"
    by (rule preProcessData_ftp_quiet)
next
  fix e b st and st' :: archiver and complete
  show "processData_ftp e b st = Ok (st', complete) \<Longrightarrow> quiet st st'"
    by (rule processData_ftp_quiet)
next
  fix e b and st :: archiver
  show "numRecords (bpr st) \<le> nextRecord (bpr st) \<Longrightarrow> processData_ftp e b st = Ok (st, True)"
    by (simp add: processData_ftp_def archive_second_ftp_def)
next
  fix b :: data_buffer
  show "records_ftp b < 2 ^ 32" by (rule records_ftp_bound)
next
  fix e b and st :: archiver
  assume "good_ftp e" "wf_ftp b" "archiver_stats_ready (stats st)"
  then show "preProcessData_ftp e b st = Ok (st\<lparr>bpr := begun (records_ftp b)\<rparr>, 1)"
    by (simp add: preProcessData_ftp_def wf_ftp_def good_ftp_def whole_seconds begun_def records_ftp_word)
next
  fix e b k and st :: archiver
  assume a: "good_ftp e" "wf_ftp b" "archiver_stats_ready (stats st)"
    "numRecords (bpr st) = of_nat (records_ftp b)" "nextRecord (bpr st) = of_nat k" "k < records_ftp b"
  have "nextRecord (bpr st) < numRecords (bpr st)"
    using a(4-6) records_ftp_bound [of b] by (simp add: word_less_nat_alt unat_of_nat take_bit_eq_mod)
  then have lt: "\<not> numRecords (bpr st) \<le> nextRecord (bpr st)" by simp
  note second = next_ftp_second [OF a(2,5,6), of "fp e" "behind_heap e", unfolded a(5)]
  show "\<exists>x. processData_ftp e b st = Ok (st\<lparr>rows := rows st @ row_ftp e b k,
      bpr := (bpr st)\<lparr>nextRecord := of_nat (Suc k), accumInsertTime := x\<rparr>\<rparr>, False)"
  proof (cases "mallocSucceeds e")
    case True
    with a lt show ?thesis
      by (intro exI [of _ "f_add (fp e) (accumInsertTime (bpr st)) (insertTime e)"])
        (simp add: processData_ftp_def archive_second_ftp_def second good_ftp_def cassandraDataArchive_ready
          next_record_def row_ftp_def Let_def add.commute)
  next
    case False
    have keep: "bpr st\<lparr>nextRecord := x\<rparr> = bpr st\<lparr>nextRecord := x, accumInsertTime := accumInsertTime (bpr st)\<rparr>" for x
      by simp
    from False a lt show ?thesis
      by (intro exI [of _ "accumInsertTime (bpr st)"])
        (simp add: processData_ftp_def archive_second_ftp_def second good_ftp_def count_spec_ready next_record_def
          row_ftp_def Let_def add.commute)
  qed
qed

subsection \<open>Properties\<close>

text \<open>
  C14: Every whole file that the FTP archiver takes from its queue is archived completely: one
  row per second, in the order of the file, with the second's calendar time in milliseconds
  and days, and 120 samples read at the offsets of the struct. All reads stay inside the file.
  After one pass to take the buffer, one per second and one more, the buffer is released and
  the queue has advanced. Rows are missing only where \<open>malloc\<close> or the insert failed.
\<close>

theorem ftp_files_are_archived_completely:
  assumes "wf_ftp b" and "list_all good_ftp es" and "length es = records_ftp b" and "good_ftp e0"
    and "archiver_stats_ready (stats st)"
    and "\<not> processingBuffer st" and "dataQ st = b # q" and "m_queue (cmdQueue st) = []"
  shows "\<exists>st'. archiver_passes archiver_pass_ftp (e0 # es @ [e1]) st = Ok st' \<and>
    dataBuf st' = None \<and> \<not> processingBuffer st' \<and> dataQ st' = q \<and> stats st' = stats st \<and>
    rows st' = rows st @ concat (map2 (\<lambda>e. row_ftp e b) es [0..<records_ftp b])"
  unfolding archiver_pass_ftp_def by (rule ftp_archiver.buffer_archived [OF assms])

text \<open>
  When Cassandra goes away while a file is being processed, the FTP archiver never leaves
  it: no number of passes without a connection changes its state, since \<open>processData\<close> neither
  completes nor advances \<open>nextRecord\<close>; each pass converts the same second again.
\<close>

theorem ftp_archiver_stalls_without_cassandra:
  assumes "wf_ftp b" and "processingBuffer st" and "dataBuf st = Some b"
    and "nextRecord (bpr st) = of_nat k" and "numRecords (bpr st) = of_nat (records_ftp b)"
    and "k < records_ftp b" and "archiver_stats_ready (stats st)" and "m_queue (cmdQueue st) = []"
    and "list_all (\<lambda>e. \<not> (cassArchivingEnabled e \<and> cassConnected e)) es"
  shows "archiver_passes archiver_pass_ftp es st = Ok st"
proof -
  have "nextRecord (bpr st) < numRecords (bpr st)"
    using assms(4-6) records_ftp_bound [of b] by (simp add: word_less_nat_alt unat_of_nat take_bit_eq_mod)
  then have lt: "\<not> numRecords (bpr st) \<le> nextRecord (bpr st)" by simp
  have cq: "st\<lparr>cmdQueue := snd (Dequeue (cmdQueue st))\<rparr> = st" using assms(8) by (simp add: Dequeue_def)
  have "archiver_pass_ftp e st = Ok st"
    if "\<not> (cassArchivingEnabled e \<and> cassConnected e)" for e
  proof -
    have "processData_ftp e b st = Ok (st, False)"
      using that lt next_ftp_second [OF assms(1,4,6)] assms(7)
      by (auto simp: processData_ftp_def archive_second_ftp_def count_spec_ready Let_def)
    then show ?thesis
      unfolding archiver_pass_ftp_def archiver_pass_def cq using assms(2,3) by (simp add: process_current_def)
  qed
  then show ?thesis using assms(9) by (induction es) simp_all
qed

lemma nth_concat_blocks:
  "list_all (\<lambda>x. length x = n) xs \<Longrightarrow> k < length xs \<Longrightarrow> j < n \<Longrightarrow> concat xs ! (n * k + j) = xs ! k ! j"
proof (induction xs arbitrary: k)
  case (Cons x xs)
  show ?case
  proof (cases k)
    case (Suc i)
    then have "n * k + j = n + (n * i + j)" by simp
    with Suc Cons show ?thesis by (simp add: nth_append)
  qed (use Cons in \<open>simp add: nth_append\<close>)
qed simp

lemma length_concat_blocks: "list_all (\<lambda>x. length x = n) xs \<Longrightarrow> length (concat xs) = n * length xs"
  by (induction xs) simp_all

lemma frame_record_nth:
  assumes "length f = 74" and "j < 60"
  shows "frame_record f ! j = (if j = 0 then 60 else if j = 1 then 0 else if j = 2 then f ! 9
    else if j = 3 then 0 else if j < 8 then f ! (j - 2) else if j < 12 then f ! (j - 2) else f ! j)"
proof -
  have l: "length (frame_record f) = 60" using assms(1) by (simp add: frame_record_def)
  have tail: "drop 4 (frame_record f) = take 4 (drop 2 f) @ take 4 (drop 6 f) @ take 48 (drop 12 f)"
    by (simp add: frame_record_def)
  show ?thesis
  proof (cases "j < 4")
    case True
    then have "j = 0 \<or> j = 1 \<or> j = 2 \<or> j = 3" by linarith
    then show ?thesis by (elim disjE) (simp_all add: frame_record_def nth_append)
  next
    case False
    then have "frame_record f ! j = drop 4 (frame_record f) ! (j - 4)" using l by simp
    moreover have "Suc (Suc (j - 4)) = j - 2" using False by simp
    ultimately show ?thesis unfolding tail using False assms by (auto simp: nth_append)
  qed
qed

text \<open>A buffer of 120 records, as the regrouping emits it, with what follows it in memory.\<close>

definition second_memory :: "bytes list \<Rightarrow> bytes \<Rightarrow> bytes" where
  "second_memory fs mem = le32_bytes 7204 @ concat (map frame_record fs) @ mem"

lemma length_frame_records: "list_all (\<lambda>f. length f = 74) fs \<Longrightarrow> list_all (\<lambda>x. length x = 60) (map frame_record fs)"
  by (auto simp: list_all_iff frame_record_def)

lemma second_memory_nth:
  assumes "list_all (\<lambda>f. length f = 74) fs" and "k < length fs" and "j < 60"
  shows "second_memory fs mem ! (4 + 60 * k + j) = frame_record (fs ! k) ! j"
proof -
  let ?rs = "map frame_record fs"
  have l: "length (concat ?rs) = 60 * length fs"
    using length_concat_blocks [OF length_frame_records [OF assms(1)]] by simp
  have "60 * k + 60 \<le> 60 * length fs" using assms(2) by simp
  then have in_rs: "60 * k + j < length (concat ?rs)" unfolding l using assms(3) by linarith
  have "second_memory fs mem ! (4 + 60 * k + j) = (concat ?rs @ mem) ! (60 * k + j)"
    unfolding second_memory_def using nth_append_length_plus [of "le32_bytes 7204" "concat ?rs @ mem" "60 * k + j"]
    by (simp add: add.assoc)
  also have "\<dots> = concat ?rs ! (60 * k + j)" using in_rs by (simp add: nth_append)
  also have "\<dots> = frame_record (fs ! k) ! j"
    using nth_concat_blocks [OF length_frame_records [OF assms(1)], of k j] assms(2,3) by simp
  finally show ?thesis .
qed

text \<open>The words of sample \<open>i\<close>: eleven phasor words of its frame, then a word of what follows.\<close>

definition sample_words :: "bytes list \<Rightarrow> bytes \<Rightarrow> nat \<Rightarrow> u32 list" where
  "sample_words fs mem i = map (\<lambda>j. wire32 (fs ! i) (16 + 4 * j)) [0..<11] @
     [if i < 119 then be32 60 0 (fs ! (i + 1) ! 9) 0 else wire32 mem 0]"

lemma second_memory_wire:
  assumes "list_all (\<lambda>f. length f = 74) fs" and "k < length fs" and "j < 57"
  shows "wire32 (second_memory fs mem) (4 + 60 * k + j) = wire32 (frame_record (fs ! k)) j"
proof -
  have "second_memory fs mem ! (4 + 60 * k + j + d) = frame_record (fs ! k) ! (j + d)" if "d < 4" for d
    using second_memory_nth [OF assms(1,2), of "j + d" mem] assms(3) that by (simp add: add.assoc)
  from this [of 0] this [of 1] this [of 2] this [of 3] show ?thesis by (simp add: wire32_def)
qed

lemma c37_words_of_frames:
  assumes "list_all (\<lambda>f. length f = 74) fs" and "length fs = 120" and "4 \<le> length mem" and "i < 120"
  shows "c37_words (second_memory fs mem) 5 i = sample_words fs mem i"
proof -
  have f: "length (fs ! k) = 74" if "k < 120" for k using assms(1,2) that by (simp add: list_all_length)
  have phasor: "wire32 (second_memory fs mem) (4 * (5 + 15 * i + j)) = wire32 (fs ! i) (16 + 4 * j)"
    if "j < 11" for j
  proof -
    have "4 * (5 + 15 * i + j) = 4 + 60 * i + (16 + 4 * j)" by simp
    then have "wire32 (second_memory fs mem) (4 * (5 + 15 * i + j)) = wire32 (frame_record (fs ! i)) (16 + 4 * j)"
      using second_memory_wire [OF assms(1), of i "16 + 4 * j" mem] assms(2,4) that
      by (simp add: add.assoc)
    then show ?thesis using f [OF assms(4)] that by (simp add: wire32_def frame_record_nth)
  qed
  have last: "wire32 (second_memory fs mem) (4 * (5 + 15 * i + 11)) =
      (if i < 119 then be32 60 0 (fs ! (i + 1) ! 9) 0 else wire32 mem 0)"
  proof (cases "i < 119")
    case True
    have "4 * (5 + 15 * i + 11) = 4 + 60 * (i + 1) + 0" by simp
    then have "wire32 (second_memory fs mem) (4 * (5 + 15 * i + 11)) = wire32 (frame_record (fs ! (i + 1))) 0"
      using second_memory_wire [OF assms(1), of "i + 1" 0 mem] assms(2) True by simp
    then show ?thesis using f [of "i + 1"] True by (simp add: wire32_def frame_record_nth)
  next
    case False
    then have i: "4 * (5 + 15 * i + 11) = 7204" using assms(4) by simp
    have "length (le32_bytes 7204 @ concat (map frame_record fs)) = 7204"
      using length_concat_blocks [OF length_frame_records [OF assms(1)]] assms(2) by simp
    then have "second_memory fs mem ! (7204 + d) = mem ! d" for d
      using nth_append_length_plus [of "le32_bytes 7204 @ concat (map frame_record fs)" mem d]
      unfolding second_memory_def by simp
    from this [of 0] this [of 1] this [of 2] this [of 3] False show ?thesis
      unfolding i by (simp add: wire32_def numeral_2_eq_2)
  qed
  have up: "[0..<12] = [0..<11] @ [11 :: nat]" using upt_Suc_append [of 0 11] by simp
  have "map (\<lambda>j. wire32 (second_memory fs mem) (4 * (5 + 15 * i + j))) [0..<11] =
      map (\<lambda>j. wire32 (fs ! i) (16 + 4 * j)) [0..<11]"
    by (intro map_cong refl phasor) simp
  then show ?thesis unfolding c37_words_def sample_words_def up map_append last list.map by (rule arg_cong)
qed

text \<open>
  End to end, from the frames of a second to the row in the archive: the buffer that the
  regrouping emits for 120 frames becomes exactly one row. Its time is the second of the
  century of the fourth frame; sample \<open>i\<close> has the phasors of frame \<open>i\<close>, because the archiver's
  word offsets undo the shift of the regrouping, except that the angle of C3 is not the
  frame's: it is the header word of the next record, and for the last sample four bytes behind
  the heap block. Three passes take, archive and release the buffer.
\<close>

theorem c37_second_is_archived:
  assumes "list_all (\<lambda>f. length f = 74) fs" and "length fs = 120"
    and "byteLen b = 7204" and "dataBuffer b = second_memory fs []"
    and "good_c37 e0" and "mallocSucceeds e" and "length (behind_heap e) = 4"
    and "cassArchivingEnabled e" and "cassConnected e" and "insertOk e"
    and "archiver_stats_ready (stats st)"
    and "\<not> processingBuffer st" and "dataQ st = b # q" and "m_queue (cmdQueue st) = []"
    and "soc = wire32 (fs ! 3) 6"
  shows "\<exists>st'. archiver_passes archiver_pass_c37 [e0, e, e1] st = Ok st' \<and>
    dataBuf st' = None \<and> \<not> processingBuffer st' \<and> dataQ st' = q \<and>
    rows st' = rows st @ [\<lparr>row_timestamp_msec = ucast soc * 1000, row_day = ucast soc div 86400,
      row_device = upmuSerialNumber e, row_domain = 2, row_msg_type = 1,
      row_data = serialize e \<lparr>timeStamp = soc, sampleIntervalMsec = d2f (fp e) (d_div (fp e) d_1000 d_120),
        numSamples = 120,
        samples = map (\<lambda>i. c37_sample (fp e) (sample_words fs (behind_heap e) i)) [0..<120]\<rparr>\<rparr>]"
proof -
  let ?mem = "second_memory fs (behind_heap e)"
  have mem: "dataBuffer b @ behind_heap e = ?mem" by (simp add: assms(4) second_memory_def)
  have "wire32 ?mem 192 = wire32 (frame_record (fs ! 3)) 8"
    using second_memory_wire [OF assms(1), of 3 8 "behind_heap e"] assms(2) by simp
  also have "\<dots> = soc"
    using assms(1,2,15) by (simp add: wire32_def frame_record_nth list_all_length)
  finally have time: "wire32 ?mem 192 = soc" .
  have "map (\<lambda>i. c37_sample (fp e) (c37_words ?mem 5 i)) [0..<120] =
      map (\<lambda>i. c37_sample (fp e) (sample_words fs (behind_heap e) i)) [0..<120]"
    using assms(1,2,7) by (intro map_cong refl) (simp add: c37_words_of_frames)
  then have msg: "c37_message (fp e) ?mem = \<lparr>timeStamp = soc,
      sampleIntervalMsec = d2f (fp e) (d_div (fp e) d_1000 d_120), numSamples = 120,
      samples = map (\<lambda>i. c37_sample (fp e) (sample_words fs (behind_heap e) i)) [0..<120]\<rparr>"
    by (simp only: c37_message_def time)
  have row: "row_c37 e b 0 = [\<lparr>row_timestamp_msec = ucast soc * 1000, row_day = ucast soc div 86400,
      row_device = upmuSerialNumber e, row_domain = 2, row_msg_type = 1,
      row_data = serialize e \<lparr>timeStamp = soc, sampleIntervalMsec = d2f (fp e) (d_div (fp e) d_1000 d_120),
        numSamples = 120,
        samples = map (\<lambda>i. c37_sample (fp e) (sample_words fs (behind_heap e) i)) [0..<120]\<rparr>\<rparr>]"
    using assms(8-10) by (simp only: row_c37_def mem msg Let_def insert_row_def upmu_data.simps simp_thms if_True)
  have "length (dataBuffer b) = 7204"
    using length_concat_blocks [OF length_frame_records [OF assms(1)]] assms(2,4)
    by (simp add: second_memory_def)
  then have "wf_c37 b" using assms(3) by (simp add: wf_c37_def)
  moreover have "list_all good_c37 [e]" using assms(6,7) by (simp add: good_c37_def)
  ultimately show ?thesis
    using c37_archiver.buffer_archived [of b "[e]" e0 st q e1] assms(5,11-14) row
    by (auto simp: archiver_pass_c37_def)
qed

text \<open>
  The archiver's counters never move: whatever buffers arrive, however they fail, and in
  whatever state Cassandra is, every pass leaves all statistics as they were, the insertion
  times included, because \<open>*cnt++\<close> advances the pointer and the number of accumulated inserts
  is never incremented.
\<close>

theorem archiver_statistics_never_change:
  assumes "archiver_passes archiver_pass_c37 es st = Ok st' \<or>
           archiver_passes archiver_pass_ftp es st = Ok st'"
    and "numInsertsInAccum (bpr st) = 0"
  shows "stats st' = stats st"
  using assms c37_archiver.passes_quiet ftp_archiver.passes_quiet
  unfolding archiver_pass_c37_def archiver_pass_ftp_def by blast

subsection \<open>Concrete runs\<close>

definition calm_world :: surroundings where
  "calm_world = \<lparr>cassArchivingEnabled = True, cassConnected = True, mallocSucceeds = True,
     insertOk = True, insertTime = 0, upmuSerialNumber = ''P3001065'',
     serialize = (\<lambda>d. [of_nat (length (samples d))]), fp = zero_fp, behind_heap = [1, 2, 3, 4]\<rparr>"

definition idle_archiver :: "data_buffer list \<Rightarrow> archiver" where
  "idle_archiver q = \<lparr>cmdQueue = new_cmd_queue 32, dataQ = q, bpr = begun 0, dataBuf = None,
     processingBuffer = False, stats = created_archiver_stats, rows = [], operations_log = [],
     key_value_lists = [], sleeps = 0\<rparr>"

lemma idle_archiver_ready: "archiver_stats_ready (stats (idle_archiver q))"
  by (simp add: idle_archiver_def archiver_stats_ready_def created_archiver_stats_def)

definition example_file :: data_buffer where
  "example_file = \<lparr>byteLen = 6312, dataBuffer = [0, 0, 0, 0, 225, 7, 0, 0, 4, 0, 0, 0, 24, 0, 0, 0] @
     replicate 6296 0, use_count = 1\<rparr>"

lemma example_file_time: "ftp_time (dataBuffer example_file) 0 =
    \<lparr>tm_sec = 0, tm_min = 0, tm_hour = 0, tm_mday = 24, tm_mon = 3, tm_year = 117\<rparr>"
  by (simp add: ftp_time_def host32_def example_file_def nth_append be32_def)

lemma example_file_epoch: "tm_epoch (ftp_time (dataBuffer example_file) 0) = 1492992000"
  unfolding example_file_time
  by (simp add: tm_epoch_def epoch_seconds_def days_of_years_closed leap_days_def numeral_eq_Suc
      month_length_def leap_year_def)

lemma example_file_wf: "wf_ftp example_file" "records_ftp example_file = 1"
proof -
  show r: "records_ftp example_file = 1" by (simp add: records_ftp_def example_file_def)
  have "length (dataBuffer example_file) = 6312 \<and> byteLen example_file = 6312" by (simp add: example_file_def)
  moreover have "date_ok (ftp_time (dataBuffer example_file) 0)" by (simp add: example_file_time date_ok_def)
  ultimately show "wf_ftp example_file"
    using example_file_epoch by (simp add: wf_ftp_def r)
qed

theorem ftp_files_are_archived_completely_witness:
  "\<exists>st'. archiver_passes archiver_pass_ftp [calm_world, calm_world, calm_world]
      (idle_archiver [example_file]) = Ok st' \<and> dataQ st' = [] \<and>
    map row_timestamp_msec (rows st') = [1492992000000] \<and> map row_day (rows st') = [17280] \<and>
    map row_data (rows st') = [[120]]"
proof -
  have "\<exists>st'. archiver_passes archiver_pass_ftp (calm_world # [calm_world] @ [calm_world])
      (idle_archiver [example_file]) = Ok st' \<and> dataBuf st' = None \<and> \<not> processingBuffer st' \<and>
    dataQ st' = [] \<and> stats st' = stats (idle_archiver [example_file]) \<and>
    rows st' = rows (idle_archiver [example_file]) @
      concat (map2 (\<lambda>e. row_ftp e example_file) [calm_world] [0..<records_ftp example_file])"
    by (rule ftp_files_are_archived_completely)
      (simp_all add: example_file_wf calm_world_def good_ftp_def idle_archiver_ready,
        simp_all add: idle_archiver_def new_cmd_queue_def)
  moreover have "row_ftp calm_world example_file 0 =
      [insert_row calm_world 1492992000000 17280 (ftp_message zero_fp (dataBuffer example_file) 0)]"
    by (simp add: row_ftp_def calm_world_def example_file_epoch sdiv_nonneg)
  ultimately show ?thesis
    by (auto simp: example_file_wf insert_row_def idle_archiver_def calm_world_def ftp_message_def simp del: upt_rec_numeral)
qed

theorem ftp_archiver_stalls_without_cassandra_witness:
  "(let st = (idle_archiver [])\<lparr>processingBuffer := True, dataBuf := Some example_file, bpr := begun 1\<rparr>
    in archiver_passes archiver_pass_ftp
         (replicate 1000 (calm_world\<lparr>cassConnected := False\<rparr>)) st = Ok st)"
  unfolding Let_def
  by (rule ftp_archiver_stalls_without_cassandra [where k = 0, OF example_file_wf(1)])
    (simp_all add: example_file_wf(2) begun_def idle_archiver_ready list_all_iff,
      simp_all add: idle_archiver_def new_cmd_queue_def archiver_stats_ready_def created_archiver_stats_def)

definition example_second :: data_buffer where
  "example_second = \<lparr>byteLen = 7204, dataBuffer = second_memory (replicate 120 (replicate 74 2)) [], use_count = 1\<rparr>"

theorem c37_second_is_archived_witness:
  "\<exists>st'. archiver_passes archiver_pass_c37 [calm_world, calm_world, calm_world]
      (idle_archiver [example_second]) = Ok st' \<and> dataQ st' = [] \<and>
    map row_timestamp_msec (rows st') = [33686018000] \<and> map row_day (rows st') = [389] \<and>
    map row_data (rows st') = [[120]]"
proof -
  have soc: "(33686018 :: u32) = wire32 (replicate 120 (replicate 74 2) ! 3) 6"
    by (simp add: wire32_def be32_def)
  have "\<exists>st'. archiver_passes archiver_pass_c37 [calm_world, calm_world, calm_world]
      (idle_archiver [example_second]) = Ok st' \<and> dataBuf st' = None \<and> \<not> processingBuffer st' \<and> dataQ st' = [] \<and>
    rows st' = rows (idle_archiver [example_second]) @ [\<lparr>row_timestamp_msec = ucast (33686018 :: u32) * 1000,
      row_day = ucast (33686018 :: u32) div 86400,
      row_device = upmuSerialNumber calm_world, row_domain = 2, row_msg_type = 1,
      row_data = serialize calm_world \<lparr>timeStamp = 33686018,
        sampleIntervalMsec = d2f (fp calm_world) (d_div (fp calm_world) d_1000 d_120), numSamples = 120,
        samples = map (\<lambda>i. c37_sample (fp calm_world)
          (sample_words (replicate 120 (replicate 74 2)) (behind_heap calm_world) i)) [0..<120]\<rparr>\<rparr>]"
    by (rule c37_second_is_archived [OF _ _ _ _ _ _ _ _ _ _ _ _ _ _ soc])
      (simp_all add: example_second_def calm_world_def good_c37_def idle_archiver_ready list_all_iff,
        simp_all add: idle_archiver_def new_cmd_queue_def)
  then show ?thesis by (auto simp: idle_archiver_def calm_world_def simp del: upt_rec_numeral)
qed

theorem archiver_statistics_never_change_witness:
  "\<exists>st'. archiver_passes archiver_pass_c37 [calm_world] (idle_archiver [example_file]) = Ok st' \<and>
     dataQ st' = [] \<and> stats st' = created_archiver_stats"
proof -
  let ?st' = "(idle_archiver [])\<lparr>bpr := (begun 0)\<lparr>numRecords := - 1\<rparr>, sleeps := 1\<rparr>"
  have run: "archiver_passes archiver_pass_c37 [calm_world] (idle_archiver [example_file]) = Ok ?st'"
    by (simp add: archiver_pass_c37_def archiver_pass_def take_next_def preProcessData_c37_def idle_archiver_def new_cmd_queue_def
        Dequeue_def data_queue_take_def example_file_def SECBLK_LEN_BYTES_def count_spec_def count_stat_def
        created_archiver_stats_def archiver_values_def)
  then have "stats ?st' = stats (idle_archiver [example_file])"
    by (intro archiver_statistics_never_change [of "[calm_world]" _ _, OF disjI1]) (simp_all add: idle_archiver_def begun_def)
  with run show ?thesis by (auto simp: idle_archiver_def)
qed

end
