(* ===== verification/Archive_Line.thy ===== *)
theory Archive_Line
  imports Archiver
begin

text \<open>
  The archiver as the end of a line: buffers are accepted at the end of its queue and leave it as
  rows. What is in the archive, in the thread and in the queue adds up to what was accepted, in
  order. Stated once for both variants of the service.
\<close>

subsection \<open>What was accepted\<close>

text \<open>The buffers of a variant: which are turned into records, how many, with which times; the others
  are dropped. Buffers that are not sane are outside the contract.\<close>

record archive_spec =
  as_wf :: "data_buffer \<Rightarrow> bool"
  as_records :: "data_buffer \<Rightarrow> nat"
  as_sane :: "data_buffer \<Rightarrow> bool"
  as_stamps :: "bytes \<Rightarrow> u64 list"

definition times_of :: "archive_spec \<Rightarrow> bytes list \<Rightarrow> u64 list" where
  "times_of sp bs = concat (map (as_stamps sp) bs)"

lemma times_of_simps [simp]: "times_of sp [] = []" "times_of sp (b # bs) = as_stamps sp b @ times_of sp bs"
  "times_of sp (bs @ cs) = times_of sp bs @ times_of sp cs"
  by (simp_all add: times_of_def)

text \<open>\<open>held\<close> is the buffer of the thread, with the number of records that are written.\<close>

definition holds :: "archive_spec \<Rightarrow> archiver \<Rightarrow> (bytes \<times> nat) option \<Rightarrow> bool" where
  "holds sp st held \<longleftrightarrow>
     (if processingBuffer st
      then (\<exists>b k. held = Some (dataBuffer b, k) \<and> dataBuf st = Some b \<and> as_sane sp b \<and> as_wf sp b \<and> k \<le> as_records sp b \<and>
              numRecords (bpr st) = of_nat (as_records sp b) \<and> nextRecord (bpr st) = of_nat k)
      else held = None)"

definition held_bytes :: "(bytes \<times> nat) option \<Rightarrow> bytes list" where
  "held_bytes held = (case held of None \<Rightarrow> [] | Some (b, k) \<Rightarrow> [b])"

definition held_times :: "archive_spec \<Rightarrow> (bytes \<times> nat) option \<Rightarrow> u64 list" where
  "held_times sp held = (case held of None \<Rightarrow> [] | Some (b, k) \<Rightarrow> take k (as_stamps sp b))"

text \<open>\<open>old\<close> is what the archive holds of an earlier life of the service.\<close>

definition archived_from :: "archive_spec \<Rightarrow> u64 list \<Rightarrow> bytes list \<Rightarrow> archiver \<Rightarrow> bool" where
  "archived_from sp old acc st \<longleftrightarrow> archiver_stats_ready (stats st) \<and>
     (processingBuffer st \<longrightarrow> numInsertsInAccum (bpr st) = 0) \<and>
     list_all (as_sane sp) (dataQ st) \<and> length (dataQ st) \<le> 16 \<and>
     (\<exists>past held. holds sp st held \<and> acc = past @ held_bytes held @ map dataBuffer (dataQ st) \<and>
        map row_timestamp_msec (rows st) = old @ times_of sp past @ held_times sp held)"

abbreviation archived :: "archive_spec \<Rightarrow> bytes list \<Rightarrow> archiver \<Rightarrow> bool" where
  "archived sp \<equiv> archived_from sp []"

lemma archived_accept:
  assumes "archived_from sp old acc st" "as_sane sp b" "length (dataQ st) < 16"
  shows "archived_from sp old (acc @ [dataBuffer b]) (st\<lparr>dataQ := dataQ st @ [b]\<rparr>)"
proof -
  from assms(1) obtain past held where "holds sp st held" "acc = past @ held_bytes held @ map dataBuffer (dataQ st)"
    "map row_timestamp_msec (rows st) = old @ times_of sp past @ held_times sp held"
    by (auto simp: archived_from_def)
  then show ?thesis
    using assms unfolding archived_from_def
    by (intro conjI exI [of _ past] exI [of _ held]) (simp_all add: holds_def)
qed

lemma offer_effect:
  assumes "dataBufferOffer b st = Ok (r, st')" "length (dataQ st) \<le> 16"
  shows "st' = (if r = BUFFER_ACCEPTED then st\<lparr>dataQ := dataQ st @ [b]\<rparr> else st)"
    "r = BUFFER_ACCEPTED \<longleftrightarrow> length (dataQ st) \<noteq> 16"
proof -
  have "data_queue_full (dataQ st) \<longleftrightarrow> length (dataQ st) = 16" using assms(2) by (intro full_iff) simp
  then have "st' = (if r = BUFFER_ACCEPTED then st\<lparr>dataQ := dataQ st @ [b]\<rparr> else st) \<and>
      (r = BUFFER_ACCEPTED \<longleftrightarrow> length (dataQ st) \<noteq> 16)"
    using assms(1) by (auto simp: dataBufferOffer_def run_bind_Ok split: if_splits dest!: count_keeps)
  then show "st' = (if r = BUFFER_ACCEPTED then st\<lparr>dataQ := dataQ st @ [b]\<rparr> else st)"
    "r = BUFFER_ACCEPTED \<longleftrightarrow> length (dataQ st) \<noteq> 16" by simp_all
qed

lemma offer_keeps_archived:
  assumes "archived_from sp old acc st" "as_sane sp b" "dataBufferOffer b st = Ok (r, st')"
  shows "archived_from sp old (if r = BUFFER_ACCEPTED then acc @ [dataBuffer b] else acc) st'"
proof -
  have len: "length (dataQ st) \<le> 16" using assms(1) by (simp add: archived_from_def)
  show ?thesis
    using offer_effect [OF assms(3) len] len assms(1) archived_accept [OF assms(1,2)] by auto
qed

subsection \<open>A pass of the thread\<close>

text \<open>What a pass does with the buffers: the thread keeps or releases its own, or takes the front of
  the queue, and then keeps or drops it.\<close>

definition pass_effect :: "archiver \<Rightarrow> archiver \<Rightarrow> bool" where
  "pass_effect st st' \<longleftrightarrow>
     (if processingBuffer st then dataQ st' = dataQ st \<and>
        (if processingBuffer st' then dataBuf st' = dataBuf st else dataBuf st' = None)
      else (case dataQ st of
          [] \<Rightarrow> dataQ st' = [] \<and> dataBuf st' = dataBuf st \<and> \<not> processingBuffer st'
        | b # q \<Rightarrow> dataQ st' = q \<and> dataBuf st' = (if processingBuffer st' then Some b else None)))"

text \<open>How often a buffer is shared does not matter to the archiver.\<close>

definition same_data :: "data_buffer \<Rightarrow> data_buffer \<Rightarrow> bool" where
  "same_data b b' \<longleftrightarrow> byteLen b' = byteLen b \<and> dataBuffer b' = dataBuffer b"

definition by_content :: "archive_spec \<Rightarrow> bool" where
  "by_content sp \<longleftrightarrow> (\<forall>b b'. same_data b b' \<longrightarrow> as_wf sp b' = as_wf sp b \<and> as_records sp b' = as_records sp b \<and>
     as_sane sp b' = as_sane sp b)"

lemma by_contentD:
  "by_content sp \<Longrightarrow> same_data b b' \<Longrightarrow> as_wf sp b' = as_wf sp b \<and> as_records sp b' = as_records sp b \<and> as_sane sp b' = as_sane sp b"
  unfolding by_content_def by blast

lemma same_data_list:
  assumes "list_all2 same_data q q'" "by_content sp"
  shows "map dataBuffer q' = map dataBuffer q" "list_all (as_sane sp) q' = list_all (as_sane sp) q"
  using assms(1)
proof (induction rule: list_all2_induct)
  case (Cons b bs b' bs')
  { case 1 with Cons show ?case by (simp add: same_data_def) }
  { case 2 with Cons by_contentD [OF assms(2) Cons.hyps(1)] show ?case by simp }
qed simp_all

lemma archived_same_data:
  assumes "archived_from sp old acc st" "by_content sp" "list_all2 same_data (dataQ st) q" "rel_option same_data (dataBuf st) ob"
  shows "archived_from sp old acc (st\<lparr>dataQ := q, dataBuf := ob\<rparr>)"
proof -
  let ?st = "st\<lparr>dataQ := q, dataBuf := ob\<rparr>"
  from assms(1) obtain past held where held: "holds sp st held" "acc = past @ held_bytes held @ map dataBuffer (dataQ st)"
    "map row_timestamp_msec (rows st) = old @ times_of sp past @ held_times sp held"
    by (auto simp: archived_from_def)
  have "holds sp ?st held"
  proof (cases "processingBuffer st")
    case True
    then obtain b k where b: "held = Some (dataBuffer b, k)" "dataBuf st = Some b" "as_sane sp b" "as_wf sp b" "k \<le> as_records sp b"
      "numRecords (bpr st) = of_nat (as_records sp b)" "nextRecord (bpr st) = of_nat k"
      using held(1) by (auto simp: holds_def)
    then obtain b' where "ob = Some b'" "same_data b b'" using assms(4) by (auto simp: option_rel_Some1)
    with by_contentD [OF assms(2) this(2)] b True show ?thesis by (simp add: holds_def same_data_def)
  qed (use held(1) in \<open>simp add: holds_def\<close>)
  then show ?thesis
    using assms(1) held same_data_list [OF assms(3,2)] list_all2_lengthD [OF assms(3)] unfolding archived_from_def
    by (intro conjI exI [of _ past] exI [of _ held]) simp_all
qed

locale archive_line = record_processor pre proc good "as_wf sp" "as_records sp" row archiver_stats_ready
  for pre :: pre_processor and proc :: processor and good :: "surroundings \<Rightarrow> bool" and sp :: archive_spec
    and row :: "surroundings \<Rightarrow> data_buffer \<Rightarrow> nat \<Rightarrow> archive_row list" +
  fixes up :: "surroundings \<Rightarrow> bool"
  assumes up_good: "up e \<Longrightarrow> good e"
    and row_time: "up e \<Longrightarrow> as_wf sp b \<Longrightarrow> k < as_records sp b \<Longrightarrow>
      map row_timestamp_msec (row e b k) = [as_stamps sp (dataBuffer b) ! k]"
    and stamps_length: "as_wf sp b \<Longrightarrow> length (as_stamps sp (dataBuffer b)) = as_records sp b"
    and no_stamps: "as_sane sp b \<Longrightarrow> \<not> as_wf sp b \<Longrightarrow> as_stamps sp (dataBuffer b) = []"
    and rejects: "up e \<Longrightarrow> as_sane sp b \<Longrightarrow> \<not> as_wf sp b \<Longrightarrow> archiver_stats_ready (stats st) \<Longrightarrow>
      pre e b st = Ok (st\<lparr>bpr := (bpr st)\<lparr>numRecords := - 1\<rparr>\<rparr>, - 1)"
begin

lemma pass_holding:
  assumes "archived_from sp old acc st" "up e" "processingBuffer st" "archiver_pass pre proc e st = Ok st'"
  shows "archived_from sp old acc st' \<and> pass_effect st st'"
proof -
  let ?st = "st\<lparr>cmdQueue := snd (Dequeue (cmdQueue st))\<rparr>"
  from assms(1,3) obtain past b k where b: "dataBuf st = Some b" "as_sane sp b" "as_wf sp b" "k \<le> as_records sp b"
    "numRecords (bpr st) = of_nat (as_records sp b)" "nextRecord (bpr st) = of_nat k"
    and acc: "acc = past @ dataBuffer b # map dataBuffer (dataQ st)"
    and times: "map row_timestamp_msec (rows st) = old @ times_of sp past @ take k (as_stamps sp (dataBuffer b))"
    and inv: "archiver_stats_ready (stats st)" "processingBuffer st \<longrightarrow> numInsertsInAccum (bpr st) = 0" "list_all (as_sane sp) (dataQ st)"
      "length (dataQ st) \<le> 16"
    by (auto simp: archived_from_def holds_def held_bytes_def held_times_def)
  show ?thesis
  proof (cases "k < as_records sp b")
    case True
    obtain x where "proc e b ?st = Ok (?st\<lparr>rows := rows st @ row e b k,
        bpr := (bpr st)\<lparr>nextRecord := of_nat (Suc k), accumInsertTime := x\<rparr>\<rparr>, False)"
      using proc_step [of e b ?st k] up_good [OF assms(2)] b inv True by auto
    then have st': "st' = ?st\<lparr>rows := rows st @ row e b k, bpr := (bpr st)\<lparr>nextRecord := of_nat (Suc k), accumInsertTime := x\<rparr>\<rparr>"
      using assms(3,4) b(1) by (simp add: archiver_pass_def process_current_def Let_def)
    have "k < length (as_stamps sp (dataBuffer b))" using stamps_length [OF b(3)] True by simp
    then have "map row_timestamp_msec (rows st') = old @ times_of sp past @ take (Suc k) (as_stamps sp (dataBuffer b))"
      using times row_time [OF assms(2) b(3) True] by (simp add: st' take_Suc_conv_app_nth)
    moreover have "holds sp st' (Some (dataBuffer b, Suc k))" using assms(3) b True by (simp add: holds_def st')
    moreover have "archiver_stats_ready (stats st') \<and> (processingBuffer st' \<longrightarrow> numInsertsInAccum (bpr st') = 0) \<and> list_all (as_sane sp) (dataQ st') \<and>
        length (dataQ st') \<le> 16 \<and> acc = past @ held_bytes (Some (dataBuffer b, Suc k)) @ map dataBuffer (dataQ st')"
      using acc inv by (simp add: st' held_bytes_def)
    ultimately have "archived_from sp old acc st'"
      unfolding archived_from_def by (intro conjI exI [of _ past] exI [of _ "Some (dataBuffer b, Suc k)"]) (simp_all add: held_times_def)
    then show ?thesis using assms(3) by (simp add: pass_effect_def st')
  next
    case False
    then have k: "k = as_records sp b" using b(4) by simp
    have "proc e b ?st = Ok (?st, True)" by (rule proc_done) (simp add: b(5,6) k)
    then obtain n where st': "st' = ?st\<lparr>dataBuf := None, processingBuffer := False, sleeps := n\<rparr>"
      using assms(3,4) b(1) inv(2)
      by (auto simp: archiver_pass_def process_current_def insert_timer_def Let_def split: if_splits
          intro: that [of "sleeps st"] that [of "sleeps st + 1"])
    have "map row_timestamp_msec (rows st') = old @ times_of sp (past @ [dataBuffer b])"
      using times stamps_length [OF b(3)] by (simp add: st' k)
    moreover have "holds sp st' None" by (simp add: holds_def st')
    moreover have "archiver_stats_ready (stats st') \<and> (processingBuffer st' \<longrightarrow> numInsertsInAccum (bpr st') = 0) \<and> list_all (as_sane sp) (dataQ st') \<and>
        length (dataQ st') \<le> 16 \<and> acc = (past @ [dataBuffer b]) @ held_bytes None @ map dataBuffer (dataQ st')"
      using acc inv by (simp add: st' held_bytes_def)
    ultimately have "archived_from sp old acc st'"
      unfolding archived_from_def by (intro conjI exI [of _ "past @ [dataBuffer b]"] exI [of _ None]) (simp_all add: held_times_def)
    then show ?thesis using assms(3) by (simp add: pass_effect_def st')
  qed
qed

lemma pass_waiting:
  assumes "archived_from sp old acc st" "up e" "\<not> processingBuffer st" "archiver_pass pre proc e st = Ok st'"
  shows "archived_from sp old acc st' \<and> pass_effect st st'"
proof -
  let ?st = "st\<lparr>cmdQueue := snd (Dequeue (cmdQueue st))\<rparr>"
  from assms(1,3) obtain past where acc: "acc = past @ map dataBuffer (dataQ st)"
    and times: "map row_timestamp_msec (rows st) = old @ times_of sp past"
    and inv: "archiver_stats_ready (stats st)" "processingBuffer st \<longrightarrow> numInsertsInAccum (bpr st) = 0" "list_all (as_sane sp) (dataQ st)"
      "length (dataQ st) \<le> 16"
    by (auto simp: archived_from_def holds_def held_bytes_def held_times_def)
  show ?thesis
  proof (cases "dataQ st")
    case Nil
    then have st': "st' = ?st\<lparr>sleeps := sleeps st + 1\<rparr>"
      using assms(3,4) by (simp add: archiver_pass_def take_next_def data_queue_take_def)
    have "archived_from sp old acc st'"
      unfolding archived_from_def
      by (intro conjI exI [of _ past] exI [of _ None])
        (use assms(3) acc times inv in \<open>simp_all add: st' holds_def held_bytes_def held_times_def\<close>)
    then show ?thesis using assms(3) Nil by (simp add: pass_effect_def st')
  next
    case (Cons b q)
    then have sane: "as_sane sp b" "list_all (as_sane sp) q" using inv(3) by simp_all
    show ?thesis
    proof (cases "as_wf sp b")
      case True
      have st': "st' = ?st\<lparr>dataQ := q, dataBuf := Some b, bpr := begun (as_records sp b), processingBuffer := True\<rparr>"
        using assms(3,4) Cons pre_accepts [of e b "?st\<lparr>dataQ := q, dataBuf := Some b\<rparr>"] up_good [OF assms(2)] True inv(1)
        by (simp add: archiver_pass_def take_next_def data_queue_take_def)
      have "archived_from sp old acc st'"
        unfolding archived_from_def
        by (intro conjI exI [of _ past] exI [of _ "Some (dataBuffer b, 0)"])
          (use acc times inv(1,4) sane True Cons in \<open>simp_all add: st' holds_def held_bytes_def held_times_def begun_def\<close>)
      then show ?thesis using assms(3) Cons by (simp add: pass_effect_def st')
    next
      case False
      obtain n where st': "st' = ?st\<lparr>dataQ := q, dataBuf := None, bpr := (bpr st)\<lparr>numRecords := - 1\<rparr>, sleeps := n\<rparr>"
        using assms(3,4) Cons rejects [of e b "?st\<lparr>dataQ := q, dataBuf := Some b\<rparr>"] assms(2) sane False inv(1)
        by (auto simp: archiver_pass_def take_next_def data_queue_take_def count_spec_ready Let_def split: if_splits
            intro: that [of "sleeps st"] that [of "sleeps st + 1"])
      have "times_of sp [dataBuffer b] = []" using no_stamps [OF sane(1) False] by simp
      then have "archived_from sp old acc st'"
        unfolding archived_from_def
        by (intro conjI exI [of _ "past @ [dataBuffer b]"] exI [of _ None])
          (use assms(3) acc times inv sane(2) Cons in \<open>simp_all add: st' holds_def held_bytes_def held_times_def\<close>)
      then show ?thesis using assms(3) Cons by (simp add: pass_effect_def st')
    qed
  qed
qed

lemma pass_keeps_archived:
  assumes "archived_from sp old acc st" "up e" "archiver_pass pre proc e st = Ok st'"
  shows "archived_from sp old acc st'" "pass_effect st st'"
  using pass_holding [OF assms(1,2) _ assms(3)] pass_waiting [OF assms(1,2) _ assms(3)]
  by (cases "processingBuffer st"; simp)+

lemma pass_succeeds:
  assumes "archived_from sp old acc st" "up e"
  shows "\<exists>st'. archiver_pass pre proc e st = Ok st'"
proof -
  let ?st = "st\<lparr>cmdQueue := snd (Dequeue (cmdQueue st))\<rparr>"
  have ready: "archiver_stats_ready (stats st)" using assms(1) by (simp add: archived_from_def)
  show ?thesis
  proof (cases "processingBuffer st")
    case True
    then obtain b k where b: "dataBuf st = Some b" "as_wf sp b" "k \<le> as_records sp b"
      "numRecords (bpr st) = of_nat (as_records sp b)" "nextRecord (bpr st) = of_nat k" "numInsertsInAccum (bpr st) = 0"
      using assms(1) by (auto simp: archived_from_def holds_def)
    show ?thesis
    proof (cases "k < as_records sp b")
      case True
      then show ?thesis
        using proc_step [of e b ?st k] up_good [OF assms(2)] b ready \<open>processingBuffer st\<close>
        by (auto simp: archiver_pass_def process_current_def)
    next
      case False
      have "proc e b ?st = Ok (?st, True)" by (rule proc_done) (use b False in simp)
      then show ?thesis using b \<open>processingBuffer st\<close> by (auto simp: archiver_pass_def process_current_def insert_timer_def Let_def)
    qed
  next
    case False
    show ?thesis
    proof (cases "dataQ st")
      case Nil
      then show ?thesis using False by (simp add: archiver_pass_def take_next_def data_queue_take_def)
    next
      case (Cons b q)
      then have "as_sane sp b" using assms(1) by (simp add: archived_from_def)
      then show ?thesis
        using False Cons ready rejects [OF assms(2), of b "?st\<lparr>dataQ := q, dataBuf := Some b\<rparr>"] up_good [OF assms(2)]
          pre_accepts [of e b "?st\<lparr>dataQ := q, dataBuf := Some b\<rparr>"]
        by (cases "as_wf sp b") (simp_all add: archiver_pass_def take_next_def data_queue_take_def count_spec_ready Let_def)
    qed
  qed
qed

end

end
