(* ===== verification/Ftp_Access.thy ===== *)
theory Ftp_Access
  imports Gm_Time "HOL-Library.List_Lexorder" "HOL-Library.Char_ord"
begin

text \<open>
  Access to the FTP server of a uPMU: \<open>ftp/serviceDataDiscovery/upmuFtpAccess.{h,cpp}\<close>. The
  server holds one directory per hour; names of directories and files carry the time. What
  libcurl answers is a record of functions; the C++ string and iostream operations that the
  code uses are defined here. Unsigned fields of a directory are 32-bit words.
\<close>

subsection \<open>Strings as the code handles them\<close>

definition digit :: "nat \<Rightarrow> char" where
  "digit n = char_of (48 + n mod 10)"

fun dec :: "nat \<Rightarrow> string" where
  "dec n = (if n < 10 then [digit n] else dec (n div 10) @ [digit n])"

declare dec.simps [simp del]

definition setw :: "nat \<Rightarrow> char \<Rightarrow> string \<Rightarrow> string" where
  "setw w fill s = replicate (w - length s) fill @ s"

text \<open>\<open>find\<close> of a substring, and \<open>erase\<close>, which throws when it starts beyond the end.\<close>

fun find_sub :: "string \<Rightarrow> string \<Rightarrow> nat option" where
  "find_sub pat s =
     (if take (length pat) s = pat then Some 0
      else (case s of [] \<Rightarrow> None | _ # r \<Rightarrow> map_option Suc (find_sub pat r)))"

declare find_sub.simps [simp del]

definition erase :: "string \<Rightarrow> nat option \<Rightarrow> nat \<Rightarrow> string run" where
  "erase s pos n = (case pos of
     None \<Rightarrow> Exc
   | Some p \<Rightarrow> if p \<le> length s then Ok (take p s @ drop (p + n) s) else Exc)"

text \<open>\<open>boost::tokenizer\<close> with a \<open>char_separator\<close>: empty tokens are dropped.\<close>

fun split_at :: "char \<Rightarrow> string \<Rightarrow> string list" where
  "split_at c [] = [[]]"
| "split_at c (x # s) =
     (if x = c then [] # split_at c s
      else (case split_at c s of [] \<Rightarrow> [[x]] | t # ts \<Rightarrow> (x # t) # ts))"

definition tokenize :: "char \<Rightarrow> string \<Rightarrow> string list" where
  "tokenize c s = List.filter (\<lambda>t. t \<noteq> []) (split_at c s)"

text \<open>\<open>std::stoi\<close>: leading space, a sign, decimal digits; it throws without a digit or out of range.\<close>

definition is_digit :: "char \<Rightarrow> bool" where
  "is_digit c \<longleftrightarrow> 48 \<le> (of_char c :: nat) \<and> (of_char c :: nat) \<le> 57"

definition is_space :: "char \<Rightarrow> bool" where
  "is_space c \<longleftrightarrow> (of_char c :: nat) \<in> {9, 10, 11, 12, 13, 32}"

definition digits_value :: "string \<Rightarrow> int" where
  "digits_value ds = foldl (\<lambda>v c. 10 * v + int (of_char c - 48)) 0 ds"

definition stoi :: "string \<Rightarrow> int option" where
  "stoi s =
     (let s1 = dropWhile is_space s;
          (sgn, s2) = (case s1 of [] \<Rightarrow> (1, [])
             | c # r \<Rightarrow> if c = CHR ''-'' then (- 1, r) else if c = CHR ''+'' then (1, r) else (1, s1));
          ds = takeWhile is_digit s2
      in if ds = [] then None else int_ok (sgn * digits_value ds))"

text \<open>A buffer of characters read as a C string.\<close>

definition c_str :: "string \<Rightarrow> string" where
  "c_str s = takeWhile (\<lambda>c. c \<noteq> char_of (0 :: nat)) s"

subsection \<open>The server\<close>

datatype curl_code = CURLE_OK | CURLE_OPERATION_TIMEDOUT | CURLE_OTHER

record ftp_server =
  curl_init :: bool
  ftp_head :: "string \<Rightarrow> curl_code"
  ftp_list :: "string \<Rightarrow> string option"
  ftp_size :: "string \<Rightarrow> int option"
  ftp_get :: "string \<Rightarrow> bytes option"
  ftpAccessString :: string
  garbage :: string

datatype dir_status = DIR_PRESENT | DIR_NOT_PRESENT | FTP_NOT_RESP

text \<open>Without a curl handle the status stays uninitialised.\<close>

definition verifyDataDirPresent :: "ftp_server \<Rightarrow> string \<Rightarrow> dir_status run" where
  "verifyDataDirPresent srv s =
     (if curl_init srv
      then Ok (case ftp_head srv (ftpAccessString srv @ s) of
             CURLE_OK \<Rightarrow> DIR_PRESENT
           | CURLE_OPERATION_TIMEDOUT \<Rightarrow> FTP_NOT_RESP
           | CURLE_OTHER \<Rightarrow> DIR_NOT_PRESENT)
      else Ub)"

text \<open>The callback that collects what curl receives; \<open>None\<close> is a failed \<open>realloc\<close>.\<close>

definition WriteMemoryCallback :: "bool \<Rightarrow> 'a list \<Rightarrow> 'a list \<Rightarrow> 'a list option \<times> nat" where
  "WriteMemoryCallback realloc_ok contents mem =
     (if realloc_ok then (Some (mem @ contents), length contents) else (None, 0))"

definition DATA_ACCESS_ERROR :: int where "DATA_ACCESS_ERROR = - 1"

text \<open>
  The file list is a sorted set. When the server sends nothing, the text is what \<open>malloc\<close>
  returned.
\<close>

definition add_file :: "string list option \<Rightarrow> string list \<Rightarrow> string \<Rightarrow> string list" where
  "add_file processedFileList fileList fileName =
     (case processedFileList of
        None \<Rightarrow> insort_insert fileName fileList
      | Some ps \<Rightarrow> if fileName \<in> set ps then fileList else insort_insert fileName fileList)"

definition getDataFileList ::
  "ftp_server \<Rightarrow> string list \<Rightarrow> string list option \<Rightarrow> string \<Rightarrow> string list \<times> int" where
  "getDataFileList srv fileList processedFileList dirName =
     (if \<not> curl_init srv then (fileList, DATA_ACCESS_ERROR)
      else (case ftp_list srv (ftpAccessString srv @ dirName) of
        None \<Rightarrow> (fileList, DATA_ACCESS_ERROR)
      | Some received \<Rightarrow>
          (let txt = c_str (if received = [] then garbage srv else received);
               fileList' = foldl (add_file processedFileList) fileList (tokenize (char_of (10 :: nat)) txt)
           in (fileList', int (length fileList')))))"

definition getDataFileLength :: "ftp_server \<Rightarrow> string \<Rightarrow> string \<Rightarrow> int option" where
  "getDataFileLength srv dirName fileName =
     (if curl_init srv then ftp_size srv (ftpAccessString srv @ dirName @ fileName) else None)"

text \<open>
  On an error \<open>getDataFile\<close> returns -1 and leaves the buffer pointer as it was; without a
  handle it falls off its end.
\<close>

definition getDataFile :: "ftp_server \<Rightarrow> string \<Rightarrow> string \<Rightarrow> (u32 \<times> bytes option) run" where
  "getDataFile srv dirName fileName =
     (if curl_init srv
      then (case ftp_get srv (ftpAccessString srv @ dirName @ fileName) of
              None \<Rightarrow> Ok (- 1, None)
            | Some content \<Rightarrow> Ok (of_nat (length content), Some content))
      else Ub)"

subsection \<open>Directories\<close>

datatype data_dir_state = current | proposed | abandoned | processed | unknown

record data_dir =
  year :: u32
  month :: u32
  day :: u32
  hour :: u32
  dirName :: string
  epochDay :: u32
  dbID :: u32
  dir_state :: data_dir_state

definition DIRECTORY_PREFIX :: string where "DIRECTORY_PREFIX = ''/upmu_data''"

definition createDirName_Yr :: "data_dir \<Rightarrow> string" where
  "createDirName_Yr dd = DIRECTORY_PREFIX @ ''/'' @ setw 4 (CHR '' '') (dec (unat (year dd))) @ ''/''"

definition createDirName_YrMon :: "data_dir \<Rightarrow> string" where
  "createDirName_YrMon dd = DIRECTORY_PREFIX @ ''/'' @ setw 4 (CHR '' '') (dec (unat (year dd))) @
     ''/Month_'' @ setw 2 (CHR ''0'') (dec (unat (month dd))) @ ''/''"

definition createDirName_YrMonDay :: "data_dir \<Rightarrow> string" where
  "createDirName_YrMonDay dd = DIRECTORY_PREFIX @ ''/'' @ setw 4 (CHR '' '') (dec (unat (year dd))) @
     ''/Month_'' @ setw 2 (CHR ''0'') (dec (unat (month dd))) @
     ''/Day_'' @ setw 2 (CHR ''0'') (dec (unat (day dd))) @ ''/''"

definition createDirName_YrMonDayHr :: "data_dir \<Rightarrow> string" where
  "createDirName_YrMonDayHr dd = DIRECTORY_PREFIX @ ''/'' @ setw 4 (CHR '' '') (dec (unat (year dd))) @
     ''/Month_'' @ setw 2 (CHR ''0'') (dec (unat (month dd))) @
     ''/Day_'' @ setw 2 (CHR ''0'') (dec (unat (day dd))) @
     ''/Hour_'' @ setw 2 (CHR ''0'') (dec (unat (hour dd))) @ ''/''"

definition createTimeFromDataDir :: "data_dir \<Rightarrow> u32 option" where
  "createTimeFromDataDir dd = map_option of_int (mkgmtime
     \<lparr>tm_sec = 0, tm_min = 0, tm_hour = sint (hour dd), tm_mday = sint (day dd),
      tm_mon = sint (month dd - 1), tm_year = sint (year dd - 1900)\<rparr>)"

datatype dir_time = DATA_DIR_AT_PRESENT | DATA_DIR_OK

definition isDataDirAtPresent :: "nat \<Rightarrow> data_dir \<Rightarrow> dir_time" where
  "isDataDirAtPresent now dd =
     (let t = gmtime now in
      if year dd = of_int (tm_year t + 1900) \<and> month dd = of_int (tm_mon t + 1) \<and>
         day dd = of_int (tm_mday t) \<and> hour dd = of_int (tm_hour t)
      then DATA_DIR_AT_PRESENT else DATA_DIR_OK)"

definition incDataDir :: "nat \<Rightarrow> data_dir \<Rightarrow> data_dir \<times> dir_time" where
  "incDataDir now dd =
     (let h = (hour dd + 1) mod 24;
          e = (if h = 0 then epochDay dd + 1 else epochDay dd);
          t = gmtime (unat (e * 86400));
          dd1 = dd\<lparr>hour := h, epochDay := e, year := of_int (tm_year t + 1900),
                   month := of_int (tm_mon t + 1), day := of_int (tm_mday t), dir_state := proposed\<rparr>;
          dd2 = dd1\<lparr>dirName := createDirName_YrMonDayHr dd1\<rparr>
      in (dd2, isDataDirAtPresent now dd2))"

subsection \<open>The time in a file's name\<close>

text \<open>Six tokens through \<open>stoi\<close>; dereferencing the end of the tokens is undefined.\<close>

fun take_ints :: "nat \<Rightarrow> string list \<Rightarrow> int list run" where
  "take_ints 0 ts = Ok []"
| "take_ints (Suc n) [] = Ub"
| "take_ints (Suc n) (t # ts) =
     (case stoi t of None \<Rightarrow> Exc | Some i \<Rightarrow> run_bind (take_ints n ts) (\<lambda>is. Ok (i # is)))"

definition createTimeFromDataFileName :: "string \<Rightarrow> u32 run" where
  "createTimeFromDataFileName dataFileName =
     (let n = (case find_sub ''_'' dataFileName of None \<Rightarrow> 0 | Some n \<Rightarrow> n + 1) in
      run_bind (erase dataFileName (Some 0) n) (\<lambda>s1.
      run_bind (erase s1 (find_sub ''.dat'' s1) (length s1 - 1)) (\<lambda>s2.
      run_bind (take_ints 6 (tokenize (CHR ''-'') s2)) (\<lambda>is.
      run_bind (checked (int_ok (is ! 0 - 1900))) (\<lambda>y.
      run_bind (checked (int_ok (is ! 1 - 1))) (\<lambda>m.
      run_bind (checked (mkgmtime \<lparr>tm_sec = is ! 5, tm_min = is ! 4, tm_hour = is ! 3,
                  tm_mday = is ! 2, tm_mon = m, tm_year = y\<rparr>)) (\<lambda>et. Ok (of_int et))))))))"

subsection \<open>Directories walk through the hours\<close>

text \<open>A directory that stands for hour \<open>h\<close> since 1970, with consistent fields.\<close>

definition dir_at :: "data_dir \<Rightarrow> nat \<Rightarrow> bool" where
  "dir_at dd h \<longleftrightarrow> unat (hour dd) < 24 \<and> h = 24 * unat (epochDay dd) + unat (hour dd) \<and> 3600 * h < 2 ^ 31 \<and>
     (let t = gmtime (86400 * unat (epochDay dd)) in
      year dd = of_int (tm_year t + 1900) \<and> month dd = of_int (tm_mon t + 1) \<and> day dd = of_int (tm_mday t))"

lemma gmtime_date:
  "tm_year (gmtime t) = tm_year (gmtime (86400 * (t div 86400)))"
  "tm_mon (gmtime t) = tm_mon (gmtime (86400 * (t div 86400)))"
  "tm_mday (gmtime t) = tm_mday (gmtime (86400 * (t div 86400)))"
  by (simp_all add: gmtime_def Let_def split: prod.splits)

lemma gmtime_clock:
  "tm_hour (gmtime t) = int (t mod 86400 div 3600)" "tm_min (gmtime t) = int (t mod 86400 div 60 mod 60)"
  "tm_sec (gmtime t) = int (t mod 86400 mod 60)"
  by (simp_all add: gmtime_def zdiv_int zmod_int Let_def split: prod.splits)

lemma sint_of_int_small: "- 2147483648 \<le> i \<Longrightarrow> i < 2147483648 \<Longrightarrow> sint (of_int i :: u32) = i"
  by (simp add: signed_of_int signed_take_bit_int_eq_self)

lemma of_int_eq_small:
  assumes "of_int i = (of_int j :: u32)" and "- 2147483648 \<le> i" "i < 2147483648" "- 2147483648 \<le> j" "j < 2147483648"
  shows "i = j"
  using arg_cong [OF assms(1), of sint] assms(2-5) by (simp add: sint_of_int_small)

lemma dir_tm_epoch:
  "tm_epoch \<lparr>tm_sec = 0, tm_min = 0, tm_hour = h, tm_mday = tm_mday t, tm_mon = tm_mon t, tm_year = tm_year t\<rparr>
   = tm_epoch t - tm_sec t - 60 * tm_min t - 3600 * tm_hour t + 3600 * h"
  by (simp add: tm_epoch_def epoch_seconds_def)

lemma dir_day:
  assumes "dir_at dd h"
  defines "t \<equiv> gmtime (86400 * unat (epochDay dd))"
  shows "date_ok t" "tm_epoch t = 86400 * int (unat (epochDay dd))" "tm_year t < 2147481748"
    "tm_hour t = 0" "tm_min t = 0" "tm_sec t = 0"
proof -
  have "86400 * unat (epochDay dd) < 2 ^ 32" using assms(1) by (simp add: dir_at_def)
  from gmtime_calendar [OF refl this] show "date_ok t" "tm_epoch t = 86400 * int (unat (epochDay dd))"
    by (simp_all add: t_def)
  then show "tm_year t < 2147481748" by (simp add: date_ok_def)
  show "tm_hour t = 0" "tm_min t = 0" "tm_sec t = 0" by (simp_all add: t_def gmtime_clock)
qed

lemma sint_less_numeral: "unat (w :: u32) < 24 \<Longrightarrow> sint w = int (unat w)"
  by (rule sint_small) simp

lemma dir_time:
  assumes "dir_at dd h"
  shows "createTimeFromDataDir dd = Some (of_nat (3600 * h))"
proof -
  define t where "t = gmtime (86400 * unat (epochDay dd))"
  note d = dir_day [OF assms, folded t_def]
  have f: "year dd = of_int (tm_year t + 1900)" "month dd = of_int (tm_mon t + 1)" "day dd = of_int (tm_mday t)"
    and h: "unat (hour dd) < 24" "h = 24 * unat (epochDay dd) + unat (hour dd)" "3600 * h < 2 ^ 31"
    using assms by (simp_all add: dir_at_def Let_def t_def)
  have s: "sint (year dd - 1900) = tm_year t" "sint (month dd - 1) = tm_mon t" "sint (day dd) = tm_mday t"
    "sint (hour dd) = int (unat (hour dd))"
    using d(1,3) h(1) unfolding f by (simp_all add: sint_of_int_small date_ok_def sint_less_numeral)
  let ?b = "\<lparr>tm_sec = 0, tm_min = 0, tm_hour = int (unat (hour dd)), tm_mday = tm_mday t,
      tm_mon = tm_mon t, tm_year = tm_year t\<rparr>"
  have "date_ok ?b" using d(1) h(1) by (simp add: date_ok_def del: of_nat_unat)
  moreover have e: "tm_epoch ?b = int (3600 * h)"
    unfolding dir_tm_epoch d(2,4-6) by (simp add: h(2) del: of_nat_unat)
  ultimately have "mkgmtime ?b = Some (int (3600 * h))"
    using h(3) by (simp add: mkgmtime_date)
  then show ?thesis unfolding createTimeFromDataDir_def s by simp
qed

lemma inc_hour:
  assumes "unat (h :: u32) < 24"
  shows "unat ((h + 1) mod 24) = (if unat h = 23 then 0 else unat h + 1)"
  using assms by (simp add: unat_mod unat_word_ariths)

lemma inc_dir_at:
  assumes "dir_at dd h" and "3600 * (h + 1) < 2 ^ 31"
  shows "dir_at (fst (incDataDir now dd)) (h + 1)"
proof -
  have h: "unat (hour dd) < 24" "h = 24 * unat (epochDay dd) + unat (hour dd)"
    using assms(1) by (simp_all add: dir_at_def)
  define hr where "hr = (hour dd + 1) mod 24"
  define e where "e = (if hr = 0 then epochDay dd + 1 else epochDay dd)"
  have hr: "unat hr = (if unat (hour dd) = 23 then 0 else unat (hour dd) + 1)"
    unfolding hr_def by (rule inc_hour [OF h(1)])
  then have z: "hr = 0 \<longleftrightarrow> unat (hour dd) = 23" by (auto simp: word_unat_eq_iff)
  have day: "unat (epochDay dd) < 24856" using assms(2) h(2) by simp
  then have e: "unat e = (if unat (hour dd) = 23 then unat (epochDay dd) + 1 else unat (epochDay dd))"
    unfolding e_def z by (simp add: unat_word_ariths)
  then have "unat (e * 86400) = 86400 * unat e" using day by (simp add: unat_word_ariths)
  moreover have "h + 1 = 24 * unat e + unat hr" using e hr h(2) by simp
  moreover have "unat hr < 24" using hr h(1) by simp
  ultimately show ?thesis
    unfolding incDataDir_def hr_def [symmetric] Let_def e_def [symmetric] dir_at_def using assms(2) by simp
qed

lemma hour_split: "(now :: nat) div 3600 = 24 * (now div 86400) + now mod 86400 div 3600"
proof -
  have "now mod 86400 = now mod 3600 + (now div 3600 mod 24) * 3600"
    using mod_mult2_eq [of now 3600 24] by simp
  then have "now mod 86400 div 3600 = (now mod 3600 + (now div 3600 mod 24) * 3600) div 3600"
    by (rule arg_cong)
  also have "\<dots> = now div 3600 mod 24" by simp
  finally have "now mod 86400 div 3600 = now div 3600 mod 24" .
  moreover have "now div 86400 = now div 3600 div 24" by (simp add: div_mult2_eq [symmetric])
  ultimately show ?thesis by (simp only: mult_div_mod_eq)
qed

lemma hours_unique:
  assumes "x < (24 :: nat)" and "b < 24"
  shows "24 * e + x = 24 * a + b \<longleftrightarrow> e = a \<and> x = b"
proof
  assume eq: "24 * e + x = 24 * a + b"
  have "e = (24 * e + x) div 24" using assms(1) by simp
  also have "\<dots> = a" unfolding eq using assms(2) by simp
  finally show "e = a \<and> x = b" using eq by simp
qed simp

lemma word_of_hour: "n < 24 \<Longrightarrow> (w :: u32) = of_int (int n) \<longleftrightarrow> unat w = n"
  by (auto simp: word_unat_eq_iff unat_of_nat take_bit_eq_mod)

lemma present_iff:
  assumes "dir_at dd h" and "now < 2 ^ 31"
  shows "isDataDirAtPresent now dd = DATA_DIR_AT_PRESENT \<longleftrightarrow> h = now div 3600"
proof -
  define t where "t = gmtime (86400 * unat (epochDay dd))"
  define u where "u = gmtime (86400 * (now div 86400))"
  note d = dir_day [OF assms(1), folded t_def]
  have f: "year dd = of_int (tm_year t + 1900)" "month dd = of_int (tm_mon t + 1)" "day dd = of_int (tm_mday t)"
    and h: "unat (hour dd) < 24" "h = 24 * unat (epochDay dd) + unat (hour dd)"
    using assms(1) by (simp_all add: dir_at_def Let_def t_def)
  have "86400 * (now div 86400) < 2 ^ 32"
    using assms(2) times_div_less_eq_dividend [of 86400 now] by simp
  from gmtime_calendar [OF refl this] have u: "date_ok u" "tm_epoch u = int (86400 * (now div 86400))"
    "tm_hour u = 0" "tm_min u = 0" "tm_sec u = 0"
    by (simp_all add: u_def gmtime_clock)
  have "now mod 86400 div 3600 < 24" by (simp add: less_mult_imp_div_less)
  then have hr: "hour dd = of_int (int (now mod 86400 div 3600)) \<longleftrightarrow> unat (hour dd) = now mod 86400 div 3600"
    by (rule word_of_hour)
  have date: "year dd = of_int (tm_year u + 1900) \<and> month dd = of_int (tm_mon u + 1) \<and> day dd = of_int (tm_mday u)
      \<longleftrightarrow> unat (epochDay dd) = now div 86400" (is "?l \<longleftrightarrow> ?r")
  proof
    assume ?l
    then have "tm_year t + 1900 = tm_year u + 1900" "tm_mon t + 1 = tm_mon u + 1" "tm_mday t = tm_mday u"
      unfolding f using d(1,3) u(1) by (auto intro!: of_int_eq_small simp: date_ok_def)
    then have "tm_epoch t = tm_epoch u"
      using dir_tm_epoch [of 0 t] dir_tm_epoch [of 0 u] d(4-6) u(3-5) by simp
    then show ?r using d(2) u(2) by (simp del: of_nat_unat)
  next
    assume ?r
    then have "t = u" by (simp add: t_def u_def)
    then show ?l using f by simp
  qed
  have "now mod 86400 div 3600 < 24" by (simp add: less_mult_imp_div_less)
  then have same: "h = now div 3600 \<longleftrightarrow> unat (epochDay dd) = now div 86400 \<and> unat (hour dd) = now mod 86400 div 3600"
    unfolding hour_split [of now] h(2) by (rule hours_unique [OF h(1)])
  have "(year dd = of_int (tm_year u + 1900) \<and> month dd = of_int (tm_mon u + 1) \<and> day dd = of_int (tm_mday u) \<and>
      hour dd = of_int (int (now mod 86400 div 3600))) \<longleftrightarrow> h = now div 3600"
    unfolding same hr using date by blast
  then show ?thesis
    unfolding isDataDirAtPresent_def Let_def gmtime_date [of now] gmtime_clock u_def by simp
qed

subsection \<open>Reading back a file name\<close>

lemma digit_is_digit: "is_digit (digit n)" "of_char (digit n) - 48 = n mod 10"
proof -
  have "(of_char (digit n) :: nat) = 48 + n mod 10"
    by (simp add: digit_def)
  then show "is_digit (digit n)" "of_char (digit n) - 48 = n mod 10" by (simp_all add: is_digit_def)
qed

lemma digits_value_snoc: "digits_value (ds @ [c]) = 10 * digits_value ds + int (of_char c - 48)"
  by (simp add: digits_value_def)

lemma dec_spec: "dec n \<noteq> [] \<and> list_all is_digit (dec n) \<and> digits_value (dec n) = int n"
proof (induction n rule: dec.induct)
  case (1 n)
  show ?case
  proof (cases "n < 10")
    case True
    then show ?thesis by (simp add: dec.simps [of n] digit_is_digit digits_value_def)
  next
    case False
    then have d: "dec n = dec (n div 10) @ [digit n]" by (simp add: dec.simps [of n])
    have "digits_value (dec n) = int (10 * (n div 10) + n mod 10)"
      unfolding d digits_value_snoc using 1 [OF False] by (simp only: digit_is_digit of_nat_add of_nat_mult of_nat_numeral)
    then show ?thesis using 1 False d by (simp add: digit_is_digit)
  qed
qed

lemma setw_digits:
  assumes "list_all is_digit s" and "s \<noteq> []"
  shows "list_all is_digit (setw w (CHR ''0'') s)" "setw w (CHR ''0'') s \<noteq> []"
    "digits_value (setw w (CHR ''0'') s) = digits_value s"
proof -
  have "digits_value (replicate k (CHR ''0'') @ s) = digits_value s" for k
    by (induction k) (simp_all add: digits_value_def)
  then show "digits_value (setw w (CHR ''0'') s) = digits_value s" by (simp add: setw_def)
  show "list_all is_digit (setw w (CHR ''0'') s)" "setw w (CHR ''0'') s \<noteq> []"
    using assms by (auto simp: setw_def list_all_iff is_digit_def)
qed

lemma stoi_digits:
  assumes "list_all is_digit s" and "s \<noteq> []" and "digits_value s < 2147483648" and "0 \<le> digits_value s"
  shows "stoi s = Some (digits_value s)"
proof -
  obtain c r where s: "s = c # r" using assms(2) by (cases s) auto
  with assms(1) have c: "is_digit c" by simp
  then have "\<not> is_space c" "c \<noteq> CHR ''-''" "c \<noteq> CHR ''+''" by (auto simp: is_digit_def is_space_def)
  moreover have "takeWhile is_digit s = s" using assms(1) by (simp add: list_all_iff)
  ultimately show ?thesis using assms(3,4) s by (simp add: stoi_def int_ok_Some)
qed

text \<open>A number in a file name, two places wide.\<close>

definition num2 :: "int \<Rightarrow> string" where
  "num2 i = setw 2 (CHR ''0'') (dec (nat i))"

lemma num2_spec:
  assumes "0 \<le> i" and "i < 2147483648"
  shows "stoi (num2 i) = Some i" "num2 i \<noteq> []" "list_all is_digit (num2 i)"
proof -
  note d = dec_spec [of "nat i"]
  have "digits_value (num2 i) = i" using d assms(1) by (simp add: num2_def setw_digits)
  moreover show "num2 i \<noteq> []" "list_all is_digit (num2 i)" using d by (simp_all add: num2_def setw_digits)
  ultimately show "stoi (num2 i) = Some i" using assms by (simp add: stoi_digits)
qed

lemma num2_plain: "0 \<le> i \<Longrightarrow> i < 2147483648 \<Longrightarrow> \<not> is_digit c \<Longrightarrow> c \<notin> set (num2 i)"
  using num2_spec(3) [of i] by (auto simp: list_all_iff)

definition data_file_name :: "string \<Rightarrow> tm \<Rightarrow> string" where
  "data_file_name device t = device @ ''_'' @ num2 (tm_year t + 1900) @ ''-'' @ num2 (tm_mon t + 1) @ ''-'' @
     num2 (tm_mday t) @ ''-'' @ num2 (tm_hour t) @ ''-'' @ num2 (tm_min t) @ ''-'' @ num2 (tm_sec t) @ ''.dat''"

lemma split_at_plain: "c \<notin> set s \<Longrightarrow> split_at c s = [s]"
  by (induction s) auto

lemma split_at_append: "c \<notin> set s \<Longrightarrow> split_at c (s @ c # r) = s # split_at c r"
  by (induction s) auto

lemma find_sub_first: "c \<notin> set s \<Longrightarrow> find_sub (c # p) (s @ c # p @ r) = Some (length s)"
proof (induction s)
  case Nil
  then show ?case by (simp add: find_sub.simps)
next
  case (Cons x s)
  then show ?case by (auto simp: find_sub.simps [of _ "x # _"])
qed

lemma name_fields:
  assumes "list_all (\<lambda>i. 0 \<le> i \<and> i < 2147483648) [a, b, c, d, e, g]"
  defines "body \<equiv> num2 a @ ''-'' @ num2 b @ ''-'' @ num2 c @ ''-'' @ num2 d @ ''-'' @ num2 e @ ''-'' @ num2 g"
  shows "take_ints 6 (tokenize (CHR ''-'') body) = Ok [a, b, c, d, e, g]" "CHR ''.'' \<notin> set body"
proof -
  have n: "\<not> is_digit (CHR ''-'')" "\<not> is_digit (CHR ''.'')" by (simp_all add: is_digit_def)
  have p: "CHR ''-'' \<notin> set (num2 i) \<and> CHR ''.'' \<notin> set (num2 i) \<and> num2 i \<noteq> [] \<and> stoi (num2 i) = Some i"
    if "i \<in> {a, b, c, d, e, g}" for i
    using assms(1) that n num2_plain [of i] num2_spec [of i] by auto
  then show "CHR ''.'' \<notin> set body" by (simp add: body_def)
  have "tokenize (CHR ''-'') body = [num2 a, num2 b, num2 c, num2 d, num2 e, num2 g]"
    using p by (simp add: body_def tokenize_def split_at_append split_at_plain)
  then show "take_ints 6 (tokenize (CHR ''-'') body) = Ok [a, b, c, d, e, g]"
    using p by (simp add: numeral_eq_Suc)
qed

subsection \<open>Properties\<close>

text \<open>
  C30: The time of a data file is read back from its name: for every device name without an
  underscore and every calendar time before 2038, the parser of file names returns the
  seconds since 1970 that the name was made from.
\<close>

theorem file_name_time_roundtrip:
  assumes "CHR ''_'' \<notin> set device" and "date_ok t" and "tm_epoch t < 2147483648"
  shows "createTimeFromDataFileName (data_file_name device t) = Ok (of_int (tm_epoch t))"
proof -
  define body where "body = num2 (tm_year t + 1900) @ ''-'' @ num2 (tm_mon t + 1) @ ''-'' @
     num2 (tm_mday t) @ ''-'' @ num2 (tm_hour t) @ ''-'' @ num2 (tm_min t) @ ''-'' @ num2 (tm_sec t)"
  have f: "list_all (\<lambda>i. 0 \<le> i \<and> i < 2147483648)
      [tm_year t + 1900, tm_mon t + 1, tm_mday t, tm_hour t, tm_min t, tm_sec t]"
    using assms(2) by (simp add: date_ok_def)
  note body = name_fields [OF f, folded body_def]
  have name: "data_file_name device t = device @ CHR ''_'' # [] @ (body @ ''.dat'')"
    by (simp add: data_file_name_def body_def)
  have 1: "find_sub ''_'' (data_file_name device t) = Some (length device)"
    unfolding name by (rule find_sub_first [OF assms(1)])
  have 2: "erase (data_file_name device t) (Some 0) (length device + 1) = Ok (body @ ''.dat'')"
    unfolding name by (simp add: erase_def)
  have 3: "find_sub ''.dat'' (body @ ''.dat'') = Some (length body)"
    using find_sub_first [OF body(2), of "''dat''" "[]"] by simp
  have "body \<noteq> []" by (simp add: body_def)
  then have 4: "erase (body @ ''.dat'') (Some (length body)) (length (body @ ''.dat'') - 1) = Ok body"
    by (cases body) (simp_all add: erase_def)
  have t: "\<lparr>tm_sec = tm_sec t, tm_min = tm_min t, tm_hour = tm_hour t, tm_mday = tm_mday t, tm_mon = tm_mon t,
      tm_year = tm_year t\<rparr> = t" by simp
  have ok: "int_ok (tm_year t) = Some (tm_year t)" "int_ok (tm_mon t) = Some (tm_mon t)"
    using assms(2) by (simp_all add: date_ok_def int_ok_Some)
  show ?thesis
    unfolding createTimeFromDataFileName_def 1 Let_def option.case 2 run_bind.simps 3 4 body(1)
    using assms(2,3) by (simp add: ok t mkgmtime_date numeral_eq_Suc)
qed

text \<open>
  C31: The next directory is the next hour: from a directory that stands for hour \<open>h\<close>,
  \<open>incDataDir\<close> leads to the one for hour \<open>h + 1\<close>, over the ends of days, months and years, with
  the state set to proposed, the name built from the new fields, and the time of the directory
  3600 seconds later; it reports that the present has been reached exactly when the new hour
  is the hour of the clock.
\<close>

theorem incDataDir_steps_one_hour:
  assumes "dir_at dd h" and "3600 * (h + 1) < 2 ^ 31" and "now < 2 ^ 31"
    and "incDataDir now dd = (dd', s)"
  shows "dir_at dd' (h + 1) \<and> createTimeFromDataDir dd = Some (of_nat (3600 * h)) \<and>
    createTimeFromDataDir dd' = Some (of_nat (3600 * (h + 1))) \<and> dir_state dd' = proposed \<and>
    dirName dd' = createDirName_YrMonDayHr dd' \<and> dbID dd' = dbID dd \<and>
    (s = DATA_DIR_AT_PRESENT \<longleftrightarrow> h + 1 = now div 3600)"
proof -
  have dd': "dd' = fst (incDataDir now dd)" "s = isDataDirAtPresent now dd'"
    using assms(4) by (auto simp: incDataDir_def Let_def)
  have at: "dir_at dd' (h + 1)" unfolding dd' by (rule inc_dir_at [OF assms(1,2)])
  have "dir_state dd' = proposed \<and> dirName dd' = createDirName_YrMonDayHr dd' \<and> dbID dd' = dbID dd"
    unfolding dd' by (simp add: incDataDir_def Let_def createDirName_YrMonDayHr_def)
  then show ?thesis
    unfolding dd'(2) using at dir_time [OF assms(1)] dir_time [OF at] present_iff [OF at assms(3)] by blast
qed

subsection \<open>Concrete runs\<close>

theorem file_name_time_roundtrip_witness:
  "createTimeFromDataFileName ''P3001065_2018-07-05-22-10-00.dat'' = Ok 1530828600"
proof -
  let ?t = "\<lparr>tm_sec = 0, tm_min = 10, tm_hour = 22, tm_mday = 5, tm_mon = 6, tm_year = 118\<rparr>"
  have e: "tm_epoch ?t = 1530828600"
    by (simp add: tm_epoch_def epoch_seconds_def days_of_years_closed leap_days_def numeral_eq_Suc
        month_length_def leap_year_def)
  have "data_file_name ''P3001065'' ?t = ''P3001065_2018-07-05-22-10-00.dat''"
    by (simp add: data_file_name_def num2_def setw_def dec.simps digit_def char_of_def bit_Suc_0_iff)
  moreover have "createTimeFromDataFileName (data_file_name ''P3001065'' ?t) = Ok (of_int (tm_epoch ?t))"
    by (rule file_name_time_roundtrip) (simp_all add: date_ok_def e)
  ultimately show ?thesis by (simp add: e)
qed

definition new_year_eve :: data_dir where
  "new_year_eve = \<lparr>year = 2019, month = 12, day = 31, hour = 23, dirName = [], epochDay = 18261, dbID = 7,
     dir_state = current\<rparr>"

lemma gmtime_new_year_eve: "tm_year (gmtime 1577750400) = 119" "tm_mon (gmtime 1577750400) = 11"
  "tm_mday (gmtime 1577750400) = 31"
  by (simp_all add: gmtime_def split_years.simps split_months.simps year_length_def leap_year_def month_length_def Let_def)

theorem incDataDir_steps_one_hour_witness:
  "\<exists>dd'. incDataDir 1577836800 new_year_eve = (dd', DATA_DIR_AT_PRESENT) \<and>
     dir_at dd' 438288 \<and> createTimeFromDataDir dd' = Some 1577836800"
proof -
  obtain dd' s where r: "incDataDir 1577836800 new_year_eve = (dd', s)" by fastforce
  have "dir_at new_year_eve 438287"
    by (simp add: dir_at_def new_year_eve_def gmtime_new_year_eve)
  from incDataDir_steps_one_hour [OF this _ _ r] r show ?thesis by simp
qed

end
