(* ===== verification/Ftp_Discovery.thy ===== *)
theory Ftp_Discovery
  imports Ftp_Access Shared_Buffers Service_Stats
begin

text \<open>
  The data discovery of the FTP gateway: \<open>ftp/serviceDataDiscovery/serviceDataDiscovery.{h,cpp}\<close>.
  The service walks through the hourly directories of a uPMU, fetches each file once it is
  complete, converts its byte order, and publishes it to the other services. Its progress is kept
  in two database tables. Calls carry their state also when they throw; what the world
  contributes to one pass is a record. The clock stands still within a pass.
\<close>

subsection \<open>State\<close>

datatype dir_record_state = DirCurrent | DirProcessed | DirAbandoned
datatype file_record_state = FileProcessing | FileReleased | FileAbandoned

record dir_record =
  dr_id :: u32
  dr_year :: u32
  dr_month :: u32
  dr_day :: u32
  dr_hour :: u32
  dr_name :: string
  dr_state :: dir_record_state

record file_record =
  fr_id :: u32
  fr_name :: string
  fr_dir :: u32
  fr_state :: file_record_state

datatype scan_mode = catch_up | normal

record discovery =
  dataDir :: data_dir
  dataDirValid :: bool
  dataDirAccessInProgress :: bool
  mostRecentDataFileNameValid :: bool
  mostRecentDataFileName :: string
  mostRecentDataFileLength :: u32
  dataFilesInDir :: "string list"
  dataFilesProcessed :: "string list"
  scanMode :: scan_mode
  dirTable :: "dir_record list"
  fileTable :: "file_record list"
  dirSeq :: u32
  fileSeq :: u32
  dbLocked :: bool
  services :: "service list"
  pool :: buffer_pool

datatype db_statement =
    SelectCurrentDir | SelectProcessedDir | AddDir | SelectNewDir | AbandonDir | SearchFiles
  | AddFile | GetFileKey | ReleaseFile | ReleaseDir | GetDirKey

record discovery_world =
  clock :: nat
  server :: ftp_server
  dbThrows :: "db_statement \<Rightarrow> bool"
  heap_garbage :: bytes

datatype dir_result = DirOk | NoDataDir | DirError | DbAccessError

subsection \<open>The database\<close>

definition db_call :: "discovery_world \<Rightarrow> db_statement \<Rightarrow> discovery \<Rightarrow> (discovery, unit) outcome" where
  "db_call w q st = (if dbThrows w q then Throws st else Returns st ())"

definition acquireDBaccess :: "discovery \<Rightarrow> (discovery, unit) outcome" where
  "acquireDBaccess st = (if dbLocked st then Blocks else Returns (st\<lparr>dbLocked := True\<rparr>) ())"

definition releaseDBaccess :: "discovery \<Rightarrow> discovery" where
  "releaseDBaccess st = st\<lparr>dbLocked := False\<rparr>"

definition add_dir_record :: "discovery \<Rightarrow> discovery" where
  "add_dir_record st = st\<lparr>dirSeq := dirSeq st + 1,
     dirTable := dirTable st @ [\<lparr>dr_id = dirSeq st + 1, dr_year = year (dataDir st),
       dr_month = month (dataDir st), dr_day = day (dataDir st), dr_hour = hour (dataDir st),
       dr_name = dirName (dataDir st), dr_state = DirCurrent\<rparr>]\<rparr>"

definition mark_dir :: "u32 \<Rightarrow> dir_record_state \<Rightarrow> discovery \<Rightarrow> discovery" where
  "mark_dir k s st = st\<lparr>dirTable := map (\<lambda>r. if dr_id r = k then r\<lparr>dr_state := s\<rparr> else r) (dirTable st)\<rparr>"

definition add_data_record :: "string \<Rightarrow> discovery \<Rightarrow> discovery" where
  "add_data_record f st = st\<lparr>fileSeq := fileSeq st + 1,
     fileTable := fileTable st @ [\<lparr>fr_id = fileSeq st + 1, fr_name = f, fr_dir = dbID (dataDir st),
       fr_state = FileProcessing\<rparr>]\<rparr>"

definition mark_file :: "u32 \<Rightarrow> file_record_state \<Rightarrow> discovery \<Rightarrow> discovery" where
  "mark_file k s st = st\<lparr>fileTable := map (\<lambda>r. if fr_id r = k then r\<lparr>fr_state := s\<rparr> else r) (fileTable st)\<rparr>"

definition current_dirs :: "discovery \<Rightarrow> dir_record list" where
  "current_dirs st = filter (\<lambda>r. dr_state r = DirCurrent) (dirTable st)"

definition last_processed :: "discovery \<Rightarrow> dir_record option" where
  "last_processed st = foldl (\<lambda>a r. case a of None \<Rightarrow> Some r
       | Some x \<Rightarrow> if dr_id x < dr_id r then Some r else a) None
     (filter (\<lambda>r. dr_state r = DirProcessed) (dirTable st))"

subsection \<open>Finding the directory to start with\<close>

text \<open>The fields of a row are taken over one by one; a bad month or day stops in between.\<close>

definition adopt_row :: "dir_record \<Rightarrow> data_dir_state \<Rightarrow> data_dir \<Rightarrow> data_dir \<times> bool" where
  "adopt_row r s dd =
     (let d1 = dd\<lparr>year := dr_year r, month := dr_month r\<rparr> in
      if dr_month r < 1 \<or> dr_month r > 12 then (d1, False)
      else (let d2 = d1\<lparr>day := dr_day r\<rparr> in
        if dr_day r \<le> 0 then (d2, False)
        else (let d3 = d2\<lparr>hour := dr_hour r, dbID := dr_id r\<rparr>
              in (d3\<lparr>dirName := createDirName_YrMonDayHr d3, dir_state := s\<rparr>, True))))"

definition default_dir :: "data_dir \<Rightarrow> data_dir" where
  "default_dir dd =
     (let d = dd\<lparr>year := 2018, month := 7, day := 5, hour := 22\<rparr>
      in d\<lparr>dirName := createDirName_YrMonDayHr d, dir_state := proposed\<rparr>)"

definition load_directory :: "discovery_world \<Rightarrow> discovery \<Rightarrow> (discovery, bool) outcome" where
  "load_directory w st =
     obind (acquireDBaccess st) (\<lambda>st1 _. obind (db_call w SelectCurrentDir st1) (\<lambda>st2 _.
       case current_dirs st2 of
         [r] \<Rightarrow> (let (d, ok) = adopt_row r current (dataDir st2)
                in Returns (releaseDBaccess (st2\<lparr>dataDir := d\<rparr>)) ok)
       | _ \<Rightarrow> obind (db_call w SelectProcessedDir st2) (\<lambda>st3 _.
           case last_processed st3 of
             Some r \<Rightarrow> (let (d, ok) = adopt_row r processed (dataDir st3)
                       in Returns (releaseDBaccess (st3\<lparr>dataDir := d\<rparr>)) ok)
           | None \<Rightarrow> Returns (releaseDBaccess (st3\<lparr>dataDir := default_dir (dataDir st3)\<rparr>)) True)))"

text \<open>One pass of the search loop; the result is \<open>None\<close> when the loop goes on.\<close>

definition search_absent :: "discovery_world \<Rightarrow> discovery \<Rightarrow> (discovery, dir_result option) outcome" where
  "search_absent w st =
     obind (if dir_state (dataDir st) = current
            then obind (acquireDBaccess st) (\<lambda>st1 _. obind (db_call w AbandonDir st1) (\<lambda>st2 _.
                   Returns (releaseDBaccess (mark_dir (dbID (dataDir st2)) DirAbandoned st2)) ()))
            else Returns st ())
       (\<lambda>st3 _. let (d, s) = incDataDir (clock w) (dataDir st3); st4 = st3\<lparr>dataDir := d\<rparr> in
          if s = DATA_DIR_AT_PRESENT then Returns (st4\<lparr>dataDirValid := False\<rparr>) (Some DirOk)
          else Returns st4 None)"

definition search_present :: "discovery_world \<Rightarrow> discovery \<Rightarrow> (discovery, dir_result option) outcome" where
  "search_present w st =
     obind (if dir_state (dataDir st) = proposed
            then obind (acquireDBaccess st) (\<lambda>st1 _. obind (db_call w AddDir st1) (\<lambda>st2 _.
                   let st3 = add_dir_record st2 in
                   obind (db_call w SelectNewDir st3) (\<lambda>st4 _. case current_dirs st4 of
                       [] \<Rightarrow> Undefined
                     | r # _ \<Rightarrow> Returns (releaseDBaccess (st4\<lparr>dataDir := (dataDir st4)
                                  \<lparr>dbID := dr_id r, dir_state := current\<rparr>\<rparr>)) ())))
            else Returns st ())
       (\<lambda>st5 _. Returns (st5\<lparr>dataDirValid := True\<rparr>) (Some DirOk))"

definition search_verify :: "discovery_world \<Rightarrow> discovery \<Rightarrow> (discovery, dir_result option) outcome" where
  "search_verify w st =
     obind (of_run st (verifyDataDirPresent (server w) (dirName (dataDir st)))) (\<lambda>st1 s. case s of
         FTP_NOT_RESP \<Rightarrow> Returns (st1\<lparr>dataDirValid := False\<rparr>) (Some DirOk)
       | DIR_PRESENT \<Rightarrow> search_present w st1
       | DIR_NOT_PRESENT \<Rightarrow> search_absent w st1)"

definition search_step :: "discovery_world \<Rightarrow> discovery \<Rightarrow> (discovery, dir_result option) outcome" where
  "search_step w st =
     (if dir_state (dataDir st) = processed
      then (let (d, s) = incDataDir (clock w) (dataDir st); st1 = st\<lparr>dataDir := d\<rparr> in
            if s = DATA_DIR_AT_PRESENT then Returns (st1\<lparr>dataDirValid := False\<rparr>) (Some NoDataDir)
            else search_verify w st1)
      else search_verify w st)"

text \<open>At most \<open>n\<close> passes; \<open>None\<close> when all of them went on.\<close>

primrec search_dirs :: "nat \<Rightarrow> discovery_world \<Rightarrow> discovery \<Rightarrow> (discovery, dir_result option) outcome" where
  "search_dirs 0 w st = Returns st None"
| "search_dirs (Suc n) w st = obind (search_step w st) (\<lambda>st1 r. case r of
     Some x \<Rightarrow> Returns st1 (Some x) | None \<Rightarrow> search_dirs n w st1)"

definition getCurrentDirectory ::
  "nat \<Rightarrow> discovery_world \<Rightarrow> discovery \<Rightarrow> (discovery, dir_result option) outcome" where
  "getCurrentDirectory n w st =
     (case obind (load_directory w st) (\<lambda>st1 ok.
        if \<not> ok then Returns st1 (Some DirError)
        else (case createTimeFromDataDir (dataDir st1) of
            None \<Rightarrow> Undefined
          | Some et \<Rightarrow> search_dirs n w (st1\<lparr>dataDir := (dataDir st1)\<lparr>epochDay := et div 86400\<rparr>,
                         dataDirValid := False, mostRecentDataFileNameValid := False\<rparr>))) of
        Throws s \<Rightarrow> Returns s (Some NoDataDir)
      | r \<Rightarrow> r)"

definition getCurrentDataFileSet :: "discovery_world \<Rightarrow> discovery \<Rightarrow> (discovery, dir_result) outcome" where
  "getCurrentDataFileSet w st =
     (case obind (acquireDBaccess st) (\<lambda>st1 _. obind (db_call w SearchFiles st1) (\<lambda>st2 _.
        let r = filter (\<lambda>f. fr_dir f = dbID (dataDir st2)) (fileTable st2) in
        Returns (releaseDBaccess
          (if r = [] then st2\<lparr>dataDirAccessInProgress := False\<rparr>
           else st2\<lparr>dataFilesInDir := [], dataDirAccessInProgress := True,
             dataFilesProcessed := foldl (\<lambda>fs f. insort_insert (fr_name f) fs) []
               (filter (\<lambda>f. fr_state f = FileAbandoned \<or> fr_state f = FileReleased) r)\<rparr>)) DirOk)) of
        Throws s \<Rightarrow> Returns (releaseDBaccess s) DirError
      | r \<Rightarrow> r)"

subsection \<open>Byte order\<close>

definition swapBytesUint :: "u32 \<Rightarrow> u32" where
  "swapBytesUint temp =
     (drop_bit 24 (temp AND 0xff000000)) OR (drop_bit 8 (temp AND 0x00ff0000)) OR
     (push_bit 8 (temp AND 0x0000ff00)) OR (push_bit 24 (temp AND 0x000000ff))"

primrec swap_words :: "bytes \<Rightarrow> nat \<Rightarrow> nat \<Rightarrow> bytes option" where
  "swap_words mem p 0 = Some mem"
| "swap_words mem p (Suc n) = do {
     v \<leftarrow> get_bytes mem p 4;
     mem' \<leftarrow> put_bytes mem p (le32_bytes (swapBytesUint (le32_of v)));
     swap_words mem' (p + 4) n }"

function swap_seconds :: "bytes \<Rightarrow> nat \<Rightarrow> nat \<Rightarrow> bytes option" where
  "swap_seconds mem p len =
     (if p < len then do { mem' \<leftarrow> swap_words mem p 1578; swap_seconds mem' (p + 6312) len }
      else Some mem)"
  by pat_completeness auto
termination by (relation "measure (\<lambda>(mem, p, len). len - p)") auto

declare swap_seconds.simps [simp del]

text \<open>The host is little-endian; a file whose year has two zero bytes in front is not.\<close>

definition to_host_order :: "bytes \<Rightarrow> nat \<Rightarrow> bytes option" where
  "to_host_order mem len = do {
     b4 \<leftarrow> byte_at mem 4;
     dataBigEndian \<leftarrow> (if b4 = 0 then map_option (\<lambda>b5. b5 = 0) (byte_at mem 5) else Some False);
     if dataBigEndian then swap_seconds mem 0 len else Some mem }"

text \<open>\<open>mem\<close> is the heap block, of which \<open>len\<close> bytes are the file.\<close>

definition publish_file :: "bytes \<Rightarrow> u32 \<Rightarrow> discovery \<Rightarrow> (discovery, unit) outcome" where
  "publish_file mem len st =
     (case to_host_order mem (unat len) of
        None \<Rightarrow> Undefined
      | Some mem' \<Rightarrow>
          (case postProcessUPMUdata (take (unat len) mem') len (services st) (pool st) of
             None \<Rightarrow> Undefined
           | Some (ss, p) \<Rightarrow> Returns (st\<lparr>services := ss, pool := p\<rparr>) ()))"

subsection \<open>One pass over the current directory\<close>

definition dataFileComplete :: "discovery_world \<Rightarrow> string \<Rightarrow> discovery \<Rightarrow> (discovery, bool) outcome" where
  "dataFileComplete w f st =
     obind (of_run st (createTimeFromDataFileName f)) (\<lambda>st1 dft.
       if (of_nat (clock w) - dft :: u32) > 200 then Returns (st1\<lparr>scanMode := catch_up\<rparr>) True
       else (let st2 = st1\<lparr>scanMode := normal\<rparr> in
         case getDataFileLength (server w) (dirName (dataDir st2)) f of
           None \<Rightarrow> Returns st2 False
         | Some fileLength \<Rightarrow>
             if 0 \<le> fileLength \<and> fileLength < 4294967296
             then Returns st2 (\<not> (of_int fileLength < mostRecentDataFileLength st2))
             else Undefined))"

definition refresh_files :: "discovery_world \<Rightarrow> discovery \<Rightarrow> discovery" where
  "refresh_files w st =
     (let st1 = (if \<not> dataDirAccessInProgress st
                 then st\<lparr>dataDirAccessInProgress := True, dataFilesInDir := [], dataFilesProcessed := []\<rparr> else st)
      in if dataFilesInDir st1 = []
         then st1\<lparr>dataFilesInDir := fst (getDataFileList (server w) (dataFilesInDir st1)
                    (Some (dataFilesProcessed st1)) (dirName (dataDir st1)))\<rparr>
         else st1)"

text \<open>
  Transfer of one file, inside the \<open>try\<close> block. After a failed transfer the buffer's address
  is uninitialised; an empty transfer leaves what \<open>malloc (1000)\<close> returned, any other ends in
  a zero byte.
\<close>

definition fetch_and_publish :: "discovery_world \<Rightarrow> string \<Rightarrow> discovery \<Rightarrow> (discovery, unit) outcome" where
  "fetch_and_publish w f st =
     obind (of_run st (getDataFile (server w) (dirName (dataDir st)) f)) (\<lambda>st1 x. case x of
         (_, None) \<Rightarrow> Undefined
       | (fileLen, Some c) \<Rightarrow>
           obind (publish_file (if c = [] then heap_garbage w else c @ [0]) fileLen st1) (\<lambda>st2 _.
             Returns (st2\<lparr>mostRecentDataFileLength := fileLen\<rparr>) ()))"

definition transfer_file :: "discovery_world \<Rightarrow> string \<Rightarrow> discovery \<Rightarrow> (discovery, unit) outcome" where
  "transfer_file w f st =
     obind (db_call w AddFile st) (\<lambda>st1 _.
     obind (db_call w GetFileKey (add_data_record f st1)) (\<lambda>st2 _.
     obind (fetch_and_publish w f st2) (\<lambda>st3 _.
     obind (db_call w ReleaseFile st3) (\<lambda>st4 _.
       Returns (mark_file (fileSeq st2) FileReleased st4) ()))))"

definition MAX_OUTSTANDING_MEM_BUF :: u32 where "MAX_OUTSTANDING_MEM_BUF = 5"

definition process_first_file :: "discovery_world \<Rightarrow> discovery \<Rightarrow> (discovery, dir_result option) outcome" where
  "process_first_file w st =
     (case dataFilesInDir st of
        [] \<Rightarrow> Returns st None
      | f # _ \<Rightarrow>
          if sharedInMemDataBufferCnt (pool st) \<le> MAX_OUTSTANDING_MEM_BUF
          then obind (dataFileComplete w f st) (\<lambda>st1 complete.
            if complete
            then (let st2 = st1\<lparr>mostRecentDataFileNameValid := True, mostRecentDataFileName := f,
                        dataFilesProcessed := insort_insert f (dataFilesProcessed st1),
                        dataFilesInDir := remove1 f (dataFilesInDir st1)\<rparr>
                  in case transfer_file w f st2 of
                       Throws s \<Rightarrow> Returns s (Some DbAccessError)
                     | Returns s _ \<Rightarrow> Returns s None
                     | Blocks \<Rightarrow> Blocks
                     | Undefined \<Rightarrow> Undefined)
            else Returns st1 None)
          else Returns st None)"

definition leave_directory :: "discovery_world \<Rightarrow> discovery \<Rightarrow> (discovery, unit) outcome" where
  "leave_directory w st =
     (if dataFilesInDir st = [] then
        (case createTimeFromDataDir (dataDir st) of
           None \<Rightarrow> Undefined
         | Some dirt \<Rightarrow>
             if (of_nat (clock w) - dirt :: u32) > 60 * 60
             then Returns (st\<lparr>dataDirValid := False, dataDirAccessInProgress := False,
                              mostRecentDataFileNameValid := False\<rparr>) ()
             else Returns st ())
      else Returns st ())"

definition scan_directory :: "discovery_world \<Rightarrow> discovery \<Rightarrow> (discovery, dir_result option) outcome" where
  "scan_directory w st =
     (if dataDirValid st
      then obind (process_first_file w (refresh_files w st)) (\<lambda>st1 r. case r of
             Some x \<Rightarrow> Returns st1 (Some x)
           | None \<Rightarrow> obind (leave_directory w st1) (\<lambda>st2 _. Returns st2 None))
      else Returns st None)"

subsection \<open>The next directory\<close>

text \<open>Exceptions are swallowed: the record may then be missing, or the key be the old one.\<close>

definition addCurrentDirectoryRecord :: "discovery_world \<Rightarrow> discovery \<Rightarrow> discovery" where
  "addCurrentDirectoryRecord w st =
     (if dbThrows w AddDir then st
      else (let st1 = add_dir_record st in
            if dbThrows w GetDirKey then st1
            else st1\<lparr>dataDir := (dataDir st1)\<lparr>dbID := dirSeq st1\<rparr>\<rparr>))"

definition close_directory :: "discovery_world \<Rightarrow> discovery \<Rightarrow> (discovery, unit) outcome" where
  "close_directory w st =
     (if dir_state (dataDir st) = current
      then obind (db_call w ReleaseDir st) (\<lambda>st1 _.
             let st2 = mark_dir (dbID (dataDir st1)) DirProcessed st1
             in Returns (st2\<lparr>dataDir := (dataDir st2)\<lparr>dir_state := unknown\<rparr>, dataDirAccessInProgress := False\<rparr>) ())
      else Returns st ())"

definition next_directory :: "discovery_world \<Rightarrow> discovery \<Rightarrow> (discovery, dir_result option) outcome" where
  "next_directory w st =
     (if dataDirValid st then Returns st None
      else (case close_directory w st of
          Throws s \<Rightarrow> Returns s (Some DbAccessError)
        | Blocks \<Rightarrow> Blocks
        | Undefined \<Rightarrow> Undefined
        | Returns st1 _ \<Rightarrow>
            (let st2 = (if isDataDirAtPresent (clock w) (dataDir st1) \<noteq> DATA_DIR_AT_PRESENT
                        then st1\<lparr>dataDir := fst (incDataDir (clock w) (dataDir st1))\<rparr> else st1) in
             obind (of_run st2 (verifyDataDirPresent (server w) (dirName (dataDir st2)))) (\<lambda>st3 s.
               if s = DIR_PRESENT
               then (let st4 = addCurrentDirectoryRecord w st3
                     in Returns (st4\<lparr>dataDir := (dataDir st4)\<lparr>dir_state := current\<rparr>, dataDirValid := True\<rparr>) None)
               else Returns st3 None))))"

definition processUPMUdata :: "discovery_world \<Rightarrow> discovery \<Rightarrow> (discovery, dir_result option) outcome" where
  "processUPMUdata w st =
     obind (scan_directory w st) (\<lambda>st1 r. case r of
       Some x \<Rightarrow> Returns st1 (Some x) | None \<Rightarrow> next_directory w st1)"

subsection \<open>What a pass leaves alone\<close>

lemma db_call_Returns: "db_call w q st = Returns s x \<longleftrightarrow> \<not> dbThrows w q \<and> s = st"
  by (auto simp: db_call_def)

lemma db_call_Throws: "db_call w q st = Throws s \<longleftrightarrow> dbThrows w q \<and> s = st"
  by (auto simp: db_call_def)

lemmas outcome_simps = obind_Returns obind_Throws of_run_Returns of_run_Throws db_call_Returns db_call_Throws

definition same_place :: "discovery \<Rightarrow> discovery \<Rightarrow> bool" where
  "same_place st st' \<longleftrightarrow> dataDir st' = dataDir st \<and> dirTable st' = dirTable st \<and> dirSeq st' = dirSeq st \<and>
     dbLocked st' = dbLocked st"

lemma same_place_refl [simp]: "same_place st st"
  by (simp add: same_place_def)

lemma same_place_trans: "same_place a b \<Longrightarrow> same_place b c \<Longrightarrow> same_place a c"
  by (simp add: same_place_def)

lemma refresh_same_place: "same_place st (refresh_files w st) \<and> dataDirValid (refresh_files w st) = dataDirValid st
    \<and> services (refresh_files w st) = services st \<and> pool (refresh_files w st) = pool st
    \<and> fileTable (refresh_files w st) = fileTable st \<and> dataDirAccessInProgress (refresh_files w st)"
  by (simp add: refresh_files_def same_place_def Let_def)

text \<open>\<open>buf\<close> is what is published of a file of the server: its content in the order of the host.\<close>

definition fetched :: "discovery_world \<Rightarrow> bytes \<Rightarrow> u32 \<Rightarrow> bool" where
  "fetched w buf len \<longleftrightarrow> (\<exists>path content mem. ftp_get (server w) path = Some content \<and> len = of_nat (length content) \<and>
     to_host_order (if content = [] then heap_garbage w else content @ [0]) (unat len) = Some mem \<and>
     buf = take (unat len) mem)"

text \<open>The file of that name in the current directory is fetched and published once.\<close>

definition publishes_file :: "discovery_world \<Rightarrow> string \<Rightarrow> discovery \<Rightarrow> discovery \<Rightarrow> bool" where
  "publishes_file w f st st' \<longleftrightarrow> (\<exists>content mem.
     let len = of_nat (length content) in
     ftp_get (server w) (ftpAccessString (server w) @ dirName (dataDir st) @ f) = Some content \<and>
     to_host_order (if content = [] then heap_garbage w else content @ [0]) (unat len) = Some mem \<and>
     postProcessUPMUdata (take (unat len) mem) len (services st) (pool st) = Some (services st', pool st'))"

lemma publishes_fetched:
  "publishes_file w f st st' \<Longrightarrow> \<exists>buf len. fetched w buf len \<and>
     postProcessUPMUdata buf len (services st) (pool st) = Some (services st', pool st')"
  unfolding publishes_file_def fetched_def Let_def by blast

text \<open>What a returning or throwing transfer does, in one statement.\<close>

definition transferred :: "discovery_world \<Rightarrow> string \<Rightarrow> discovery \<Rightarrow> discovery \<Rightarrow> bool" where
  "transferred w f st st' \<longleftrightarrow> same_place st st' \<and> dataFilesInDir st' = dataFilesInDir st \<and>
     dataFilesProcessed st' = dataFilesProcessed st \<and> dataDirValid st' = dataDirValid st \<and>
     dataDirAccessInProgress st' = dataDirAccessInProgress st \<and>
     (services st' = services st \<and> pool st' = pool st \<and>
        map (\<lambda>r. (fr_dir r, fr_name r)) (fileTable st') = map (\<lambda>r. (fr_dir r, fr_name r)) (fileTable st) \<or>
      map (\<lambda>r. (fr_dir r, fr_name r)) (fileTable st') =
        map (\<lambda>r. (fr_dir r, fr_name r)) (fileTable st) @ [(dbID (dataDir st), f)] \<and>
      (services st' = services st \<and> pool st' = pool st \<or> publishes_file w f st st'))"

lemma mark_file_names: "map (\<lambda>r. (fr_dir r, fr_name r)) (fileTable (mark_file k s st)) =
    map (\<lambda>r. (fr_dir r, fr_name r)) (fileTable st)"
  by (simp add: mark_file_def)

lemma publish_file_Returns:
  "publish_file mem len st = Returns st' u \<Longrightarrow>
   \<exists>mem' ss p. to_host_order mem (unat len) = Some mem' \<and>
     postProcessUPMUdata (take (unat len) mem') len (services st) (pool st) = Some (ss, p) \<and>
     st' = st\<lparr>services := ss, pool := p\<rparr>"
  by (auto simp: publish_file_def split: option.splits)

lemma publish_file_no_Throws: "publish_file mem len st \<noteq> Throws st'"
  by (auto simp: publish_file_def split: option.splits)

lemma fetch_and_publish_Returns:
  assumes "fetch_and_publish w f st = Returns st' u"
  shows "\<exists>len ss p. publishes_file w f st st' \<and> st' = st\<lparr>services := ss, pool := p, mostRecentDataFileLength := len\<rparr>"
proof -
  from assms obtain len c st2 where
    c: "ftp_get (server w) (ftpAccessString (server w) @ dirName (dataDir st) @ f) = Some c" "len = of_nat (length c)"
    and p: "publish_file (if c = [] then heap_garbage w else c @ [0]) len st = Returns st2 ()"
    and st': "st' = st2\<lparr>mostRecentDataFileLength := len\<rparr>"
    by (auto simp: fetch_and_publish_def outcome_simps getDataFile_def split: option.splits if_splits)
  from publish_file_Returns [OF p] obtain mem ss q where m: "to_host_order (if c = [] then heap_garbage w else c @ [0]) (unat len) = Some mem"
    "postProcessUPMUdata (take (unat len) mem) len (services st) (pool st) = Some (ss, q)" "st2 = st\<lparr>services := ss, pool := q\<rparr>"
    by blast
  have "publishes_file w f st st'" using c m st' unfolding publishes_file_def Let_def by auto
  then show ?thesis using m(3) st' by auto
qed

lemma fetch_and_publish_no_Throws: "fetch_and_publish w f st \<noteq> Throws st'"
proof -
  have "getDataFile (server w) d f \<noteq> Exc" for d
    by (simp add: getDataFile_def split: option.split)
  then show ?thesis
    using publish_file_no_Throws
    by (auto simp: fetch_and_publish_def obind_Throws of_run_Throws split: option.splits)
qed

lemma transfer_file_spec:
  assumes "transfer_file w f st = Returns st' () \<or> transfer_file w f st = Throws st'"
  shows "transferred w f st st'"
proof (cases "dbThrows w AddFile \<or> dbThrows w GetFileKey")
  case True
  then have "st' = st \<or> st' = add_data_record f st"
    using assms by (cases "dbThrows w AddFile") (auto simp: transfer_file_def db_call_def)
  then show ?thesis by (auto simp: transferred_def same_place_def add_data_record_def)
next
  case False
  let ?s = "add_data_record f st"
  from False assms fetch_and_publish_no_Throws obtain s3 where
    3: "fetch_and_publish w f ?s = Returns s3 ()" and e: "st' = s3 \<or> st' = mark_file (fileSeq ?s) FileReleased s3"
    by (cases "fetch_and_publish w f ?s") (auto simp: transfer_file_def db_call_def split: if_splits)
  from fetch_and_publish_Returns [OF 3] obtain len ss p where
    pub: "publishes_file w f ?s s3" and s3: "s3 = ?s\<lparr>services := ss, pool := p, mostRecentDataFileLength := len\<rparr>" by blast
  from e have same: "services st' = services s3" "pool st' = pool s3" by (auto simp: mark_file_def)
  have "publishes_file w f st st'" using pub by (simp add: publishes_file_def same add_data_record_def)
  with s3 e show ?thesis
    by (auto simp: transferred_def same_place_def add_data_record_def mark_file_def comp_def split: if_splits)
qed

lemma dataFileComplete_Returns:
  "dataFileComplete w f st = Returns st' b \<Longrightarrow> \<exists>m. st' = st\<lparr>scanMode := m\<rparr>"
  by (auto simp: dataFileComplete_def outcome_simps Let_def split: if_splits option.splits)

text \<open>The three ways in which the file step returns.\<close>

lemma process_first_file_cases:
  assumes "process_first_file w st = Returns st' r"
  obtains (Idle) m where "st' = st \<or> st' = st\<lparr>scanMode := m\<rparr>"
  | (File) f rest st2 where "dataFilesInDir st = f # rest"
      "sharedInMemDataBufferCnt (pool st) \<le> 5"
      "same_place st st2" "dataFilesProcessed st2 = insort_insert f (dataFilesProcessed st)"
      "dataFilesInDir st2 = rest" "fileTable st2 = fileTable st" "dataDirValid st2 = dataDirValid st"
      "services st2 = services st" "pool st2 = pool st"
      "dataDirAccessInProgress st2 = dataDirAccessInProgress st" "transferred w f st2 st'"
proof (cases "dataFilesInDir st")
  case Nil
  with assms that(1) show ?thesis by (simp add: process_first_file_def)
next
  case (Cons f rest)
  show ?thesis
  proof (cases "sharedInMemDataBufferCnt (pool st) \<le> MAX_OUTSTANDING_MEM_BUF")
    case False
    with Cons assms that(1) show ?thesis by (simp add: process_first_file_def)
  next
    case True
    with Cons assms obtain st1 c where 1: "dataFileComplete w f st = Returns st1 c"
      by (auto simp: process_first_file_def obind_Returns)
    from dataFileComplete_Returns [OF this] obtain m where m: "st1 = st\<lparr>scanMode := m\<rparr>" by blast
    show ?thesis
    proof (cases c)
      case False
      with 1 True Cons assms have "st' = st1" by (simp add: process_first_file_def)
      with m that(1) show ?thesis by blast
    next
      case c: True
      let ?st2 = "st1\<lparr>mostRecentDataFileNameValid := True, mostRecentDataFileName := f,
          dataFilesProcessed := insort_insert f (dataFilesProcessed st1), dataFilesInDir := remove1 f (dataFilesInDir st1)\<rparr>"
      have "transfer_file w f ?st2 = Returns st' () \<or> transfer_file w f ?st2 = Throws st'"
        using 1 True Cons assms c by (auto simp: process_first_file_def split: outcome.splits)
      then have "transferred w f ?st2 st'" by (rule transfer_file_spec)
      then show ?thesis
        using True Cons m by (intro that(2) [of f rest ?st2]) (simp_all add: same_place_def MAX_OUTSTANDING_MEM_BUF_def)
    qed
  qed
qed

lemma leave_directory_Returns:
  "leave_directory w st = Returns st' u \<Longrightarrow> st' = st \<or>
     st' = st\<lparr>dataDirValid := False, dataDirAccessInProgress := False, mostRecentDataFileNameValid := False\<rparr>"
  by (auto simp: leave_directory_def split: if_splits option.splits)

lemma scan_directory_same_place:
  assumes "scan_directory w st = Returns st' r"
  shows "same_place st st'"
proof (cases "dataDirValid st")
  case True
  with assms obtain st1 r1 where 1: "process_first_file w (refresh_files w st) = Returns st1 r1"
    and 2: "st' = st1 \<or> (\<exists>u. leave_directory w st1 = Returns st' u)"
    by (auto simp: scan_directory_def obind_Returns split: option.splits)
  have "same_place (refresh_files w st) st1"
    by (rule process_first_file_cases [OF 1]) (auto simp: same_place_def transferred_def)
  moreover have "same_place st1 st'" using 2 leave_directory_Returns by (fastforce simp: same_place_def)
  ultimately show ?thesis using refresh_same_place same_place_trans by blast
next
  case False
  then show ?thesis using assms by (simp add: scan_directory_def)
qed

text \<open>The step to the next directory, in the two ways in which it returns.\<close>

definition stepped_dir :: "discovery_world \<Rightarrow> discovery \<Rightarrow> discovery" where
  "stepped_dir w st =
     (if isDataDirAtPresent (clock w) (dataDir st) \<noteq> DATA_DIR_AT_PRESENT
      then st\<lparr>dataDir := fst (incDataDir (clock w) (dataDir st))\<rparr> else st)"

definition closed_dir :: "discovery \<Rightarrow> discovery" where
  "closed_dir st =
     (if dir_state (dataDir st) = current
      then (mark_dir (dbID (dataDir st)) DirProcessed st)
             \<lparr>dataDir := (dataDir st)\<lparr>dir_state := unknown\<rparr>, dataDirAccessInProgress := False\<rparr>
      else st)"

lemma close_directory_Returns: "close_directory w st = Returns st' u \<Longrightarrow> st' = closed_dir st"
  by (auto simp: close_directory_def closed_dir_def outcome_simps mark_dir_def split: if_splits)

lemma close_directory_Throws: "close_directory w st = Throws st' \<Longrightarrow> st' = st"
  by (auto simp: close_directory_def outcome_simps Let_def split: if_splits)

lemma next_directory_cases:
  assumes "next_directory w st = Returns st' r"
  obtains "st' = st"
  | "\<not> dataDirValid st" "st' = stepped_dir w (closed_dir st)" "r = None"
  | "\<not> dataDirValid st" "r = None" "st' = (addCurrentDirectoryRecord w (stepped_dir w (closed_dir st)))
       \<lparr>dataDir := (dataDir (addCurrentDirectoryRecord w (stepped_dir w (closed_dir st))))\<lparr>dir_state := current\<rparr>,
        dataDirValid := True\<rparr>"
proof (cases "dataDirValid st")
  case True
  with assms that(1) show ?thesis by (simp add: next_directory_def)
next
  case False
  show ?thesis
  proof (cases "close_directory w st")
    case (Returns st1 u)
    then have 1: "st1 = closed_dir st" by (rule close_directory_Returns)
    then show ?thesis
      using assms False Returns that(2,3)
      by (auto simp: next_directory_def outcome_simps stepped_dir_def [symmetric] Let_def split: if_splits)
  next
    case (Throws s)
    with assms False that(1) show ?thesis by (auto simp: next_directory_def dest: close_directory_Throws)
  qed (use assms False in \<open>simp_all add: next_directory_def\<close>)
qed

lemma processUPMUdata_cases:
  assumes "processUPMUdata w st = Returns st' r"
  obtains st1 where "scan_directory w st = Returns st1 r" "st' = st1"
  | st1 where "scan_directory w st = Returns st1 None" "next_directory w st1 = Returns st' r"
proof -
  from assms obtain s1 x where 1: "scan_directory w st = Returns s1 x"
    and 2: "(case x of Some y \<Rightarrow> Returns s1 (Some y) | None \<Rightarrow> next_directory w s1) = Returns st' r"
    by (auto simp: processUPMUdata_def obind_Returns)
  show ?thesis
    by (cases x) (use 1 2 that in auto)
qed

subsection \<open>The clock\<close>

lemma dir_at_frame:
  "dir_at (dd\<lparr>dir_state := s\<rparr>) h = dir_at dd h" "dir_at (dd\<lparr>dbID := k\<rparr>) h = dir_at dd h"
  by (simp_all add: dir_at_def)

lemma closed_dir_at: "dir_at (dataDir (closed_dir st)) h = dir_at (dataDir st) h"
  by (simp add: closed_dir_def dir_at_frame)

lemma stepped_dir_at:
  assumes "dir_at (dataDir st) h" and "h \<le> clock w div 3600" and "clock w < 2 ^ 31"
  shows "\<exists>h'. dir_at (dataDir (stepped_dir w st)) h' \<and> h \<le> h' \<and> h' \<le> h + 1 \<and> h' \<le> clock w div 3600"
proof (cases "isDataDirAtPresent (clock w) (dataDir st) = DATA_DIR_AT_PRESENT")
  case True
  then show ?thesis using assms by (auto simp: stepped_dir_def)
next
  case False
  then have "h + 1 \<le> clock w div 3600" using present_iff [OF assms(1,3)] assms(2) by simp
  moreover from this have "3600 * (h + 1) \<le> clock w" by (simp add: less_eq_div_iff_mult_less_eq)
  then have "3600 * (h + 1) < 2 ^ 31" using assms(3) by linarith
  ultimately show ?thesis
    using inc_dir_at [OF assms(1), of "clock w"] False by (auto simp: stepped_dir_def)
qed

lemma add_record_dir_at:
  "dir_at (dataDir (addCurrentDirectoryRecord w st)) h = dir_at (dataDir st) h"
  by (simp add: addCurrentDirectoryRecord_def add_dir_record_def Let_def dir_at_frame)

text \<open>
  C32: The discovery never overtakes the clock: a pass leaves its directory where it is or
  moves it one hour on, and never beyond the hour of the clock.
\<close>

theorem discovery_stays_behind_the_clock:
  assumes "dir_at (dataDir st) h" and "h \<le> clock w div 3600" and "clock w < 2 ^ 31"
    and "processUPMUdata w st = Returns st' r"
  shows "\<exists>h'. dir_at (dataDir st') h' \<and> h \<le> h' \<and> h' \<le> h + 1 \<and> h' \<le> clock w div 3600"
proof (rule processUPMUdata_cases [OF assms(4)])
  fix st1 assume "scan_directory w st = Returns st1 r" "st' = st1"
  then have "dataDir st' = dataDir st" by (auto dest: scan_directory_same_place simp: same_place_def)
  with assms(1,2) show ?thesis by auto
next
  fix st1 assume 1: "scan_directory w st = Returns st1 None" and 2: "next_directory w st1 = Returns st' r"
  from 1 have st1: "dataDir st1 = dataDir st" by (auto dest: scan_directory_same_place simp: same_place_def)
  have at: "dir_at (dataDir (closed_dir st1)) h" using assms(1) by (simp add: closed_dir_at st1)
  note step = stepped_dir_at [OF at assms(2,3)]
  show ?thesis
    by (rule next_directory_cases [OF 2]) (use step assms(1,2) st1 in \<open>auto simp: add_record_dir_at dir_at_frame\<close>)
qed

subsection \<open>Each file once\<close>

definition file_keys :: "discovery \<Rightarrow> (u32 \<times> string) list" where
  "file_keys st = map (\<lambda>r. (fr_dir r, fr_name r)) (fileTable st)"

definition once_ok :: "discovery \<Rightarrow> bool" where
  "once_ok st \<longleftrightarrow> distinct (file_keys st) \<and>
     (\<forall>k\<in>set (file_keys st). unat (fst k) \<le> unat (dirSeq st)) \<and> unat (dbID (dataDir st)) \<le> unat (dirSeq st) \<and>
     (if dataDirAccessInProgress st
      then (\<forall>f. (dbID (dataDir st), f) \<in> set (file_keys st) \<longrightarrow> f \<in> set (dataFilesProcessed st)) \<and>
           distinct (dataFilesInDir st) \<and> set (dataFilesInDir st) \<inter> set (dataFilesProcessed st) = {}
      else dataDirValid st \<longrightarrow> (\<forall>f. (dbID (dataDir st), f) \<notin> set (file_keys st)))"

lemma file_keys_mem: "k \<in> set (file_keys st) \<longleftrightarrow> (\<exists>r\<in>set (fileTable st). k = (fr_dir r, fr_name r))"
  by (auto simp: file_keys_def)

lemma add_files_ok:
  "distinct fl \<Longrightarrow> set fl \<inter> set ps = {} \<Longrightarrow>
   distinct (foldl (add_file (Some ps)) fl ts) \<and> set (foldl (add_file (Some ps)) fl ts) \<inter> set ps = {}"
proof (induction ts arbitrary: fl)
  case (Cons t ts)
  then show ?case by (auto simp: add_file_def distinct_insort_insert set_insort_insert intro!: Cons.IH)
qed simp

lemma getDataFileList_ok:
  "distinct fl \<Longrightarrow> set fl \<inter> set ps = {} \<Longrightarrow>
   distinct (fst (getDataFileList sv fl (Some ps) d)) \<and> set (fst (getDataFileList sv fl (Some ps) d)) \<inter> set ps = {}"
  using add_files_ok [of fl ps] by (auto simp: getDataFileList_def Let_def split: option.split)

lemma refresh_once:
  assumes "once_ok st" and "dataDirValid st"
  shows "once_ok (refresh_files w st)"
proof -
  have k: "file_keys (refresh_files w st) = file_keys st"
    using refresh_same_place [of st w] by (simp add: file_keys_def)
  show ?thesis
    using assms getDataFileList_ok [of "[]" "dataFilesProcessed st"] getDataFileList_ok [of "[]" "[]"]
    unfolding once_ok_def k by (auto simp: refresh_files_def Let_def)
qed

lemma file_once:
  assumes "process_first_file w st = Returns st' r" and "once_ok st" and "dataDirAccessInProgress st"
  shows "once_ok st' \<and> dataDirAccessInProgress st' \<and> dataDirValid st' = dataDirValid st"
proof (rule process_first_file_cases [OF assms(1)])
  fix m assume "st' = st \<or> st' = st\<lparr>scanMode := m\<rparr>"
  then show ?thesis using assms(2,3) by (auto simp: once_ok_def file_keys_def)
next
  fix f rest st2
  assume s: "dataFilesInDir st = f # rest" "same_place st st2"
    "dataFilesProcessed st2 = insort_insert f (dataFilesProcessed st)" "dataFilesInDir st2 = rest"
    "fileTable st2 = fileTable st" "dataDirValid st2 = dataDirValid st"
    "dataDirAccessInProgress st2 = dataDirAccessInProgress st" "transferred w f st2 st'"
  have new: "(dbID (dataDir st), f) \<notin> set (file_keys st)"
    using assms(2,3) s(1) by (auto simp: once_ok_def)
  have keys: "file_keys st' = file_keys st \<or> file_keys st' = file_keys st @ [(dbID (dataDir st), f)]"
    using s(2,5,8) by (auto simp: transferred_def same_place_def file_keys_def)
  have same: "dataDir st' = dataDir st" "dirSeq st' = dirSeq st" "dataFilesInDir st' = rest"
    "dataFilesProcessed st' = insort_insert f (dataFilesProcessed st)"
    "dataDirAccessInProgress st' = dataDirAccessInProgress st" "dataDirValid st' = dataDirValid st"
    using s by (auto simp: transferred_def same_place_def)
  show ?thesis
    using keys
  proof
    assume "file_keys st' = file_keys st"
    with assms(2,3) same s(1) show ?thesis by (auto simp: once_ok_def set_insort_insert)
  next
    assume "file_keys st' = file_keys st @ [(dbID (dataDir st), f)]"
    with assms(2,3) same s(1) new show ?thesis by (auto simp: once_ok_def set_insort_insert)
  qed
qed

lemma scan_once:
  assumes "scan_directory w st = Returns st' r" and "once_ok st"
  shows "once_ok st'"
proof (cases "dataDirValid st")
  case True
  with assms obtain st1 r1 where 1: "process_first_file w (refresh_files w st) = Returns st1 r1"
    and 2: "st' = st1 \<or> (\<exists>u. leave_directory w st1 = Returns st' u)"
    by (auto simp: scan_directory_def obind_Returns split: option.splits)
  have "once_ok st1"
    using file_once [OF 1 refresh_once [OF assms(2) True]] refresh_same_place [of st w] by blast
  then show ?thesis using 2 leave_directory_Returns by (fastforce simp: once_ok_def file_keys_def)
next
  case False
  then show ?thesis using assms by (simp add: scan_directory_def)
qed

lemma incDataDir_dbID: "dbID (fst (incDataDir now dd)) = dbID dd"
  by (simp add: incDataDir_def Let_def)

lemma closed_dir_fields [simp]:
  "dirSeq (closed_dir st) = dirSeq st" "file_keys (closed_dir st) = file_keys st"
  "dbID (dataDir (closed_dir st)) = dbID (dataDir st)" "dataDirValid (closed_dir st) = dataDirValid st"
  "dataFilesInDir (closed_dir st) = dataFilesInDir st" "dataFilesProcessed (closed_dir st) = dataFilesProcessed st"
  by (simp_all add: closed_dir_def mark_dir_def file_keys_def)

lemma stepped_dir_fields [simp]:
  "dirSeq (stepped_dir w st) = dirSeq st" "file_keys (stepped_dir w st) = file_keys st"
  "dbID (dataDir (stepped_dir w st)) = dbID (dataDir st)" "dataDirValid (stepped_dir w st) = dataDirValid st"
  "dataFilesInDir (stepped_dir w st) = dataFilesInDir st"
  "dataFilesProcessed (stepped_dir w st) = dataFilesProcessed st"
  "dataDirAccessInProgress (stepped_dir w st) = dataDirAccessInProgress st"
  by (simp_all add: stepped_dir_def file_keys_def incDataDir_dbID)

lemma closed_once: "once_ok st \<Longrightarrow> \<not> dataDirValid st \<Longrightarrow> once_ok (closed_dir st)"
  by (auto simp: once_ok_def closed_dir_def mark_dir_def file_keys_def)

lemma stepped_once: "once_ok st \<Longrightarrow> once_ok (stepped_dir w st)"
  by (simp add: once_ok_def)

lemma added_once:
  assumes "once_ok st" and "\<not> dbThrows w AddDir" and "\<not> dbThrows w GetDirKey"
    and "unat (dirSeq st) < 2 ^ 32 - 1" and "st1 = addCurrentDirectoryRecord w st"
  shows "once_ok (st1\<lparr>dataDir := (dataDir st1)\<lparr>dir_state := s\<rparr>, dataDirValid := True\<rparr>)"
proof -
  have st1: "st1 = (add_dir_record st)\<lparr>dataDir := (dataDir st)\<lparr>dbID := dirSeq st + 1\<rparr>\<rparr>"
    using assms(2,3,5) by (simp add: addCurrentDirectoryRecord_def add_dir_record_def)
  have "unat (dirSeq st + 1) = unat (dirSeq st) + 1" using assms(4) by (simp add: unat_word_ariths)
  then show ?thesis
    using assms(1) unfolding st1 by (fastforce simp: once_ok_def add_dir_record_def file_keys_def)
qed

lemma pass_keeps_once:
  assumes "once_ok st" and "\<not> dbThrows w AddDir" and "\<not> dbThrows w GetDirKey"
    and "unat (dirSeq st) < 2 ^ 32 - 1" and "processUPMUdata w st = Returns st' r"
  shows "once_ok st'"
proof (rule processUPMUdata_cases [OF assms(5)])
  fix st1 assume "scan_directory w st = Returns st1 r" "st' = st1"
  then show ?thesis using scan_once assms(1) by blast
next
  fix st1 assume 1: "scan_directory w st = Returns st1 None" and 2: "next_directory w st1 = Returns st' r"
  have ok: "once_ok st1" by (rule scan_once [OF 1 assms(1)])
  have seq: "unat (dirSeq st1) < 2 ^ 32 - 1"
    using scan_directory_same_place [OF 1] assms(4) by (simp add: same_place_def)
  show ?thesis
  proof (rule next_directory_cases [OF 2])
    assume "st' = st1"
    then show ?thesis using ok by simp
  next
    assume "\<not> dataDirValid st1" "st' = stepped_dir w (closed_dir st1)"
    then show ?thesis using ok by (simp add: stepped_once closed_once)
  next
    assume v: "\<not> dataDirValid st1" and st': "st' = (addCurrentDirectoryRecord w (stepped_dir w (closed_dir st1)))
      \<lparr>dataDir := (dataDir (addCurrentDirectoryRecord w (stepped_dir w (closed_dir st1))))\<lparr>dir_state := current\<rparr>,
       dataDirValid := True\<rparr>"
    have "once_ok (stepped_dir w (closed_dir st1))" using ok v by (simp add: stepped_once closed_once)
    then show ?thesis unfolding st' using assms(2,3) seq by (intro added_once [OF _ _ _ _ refl]) simp_all
  qed
qed

text \<open>
  A pass publishes nothing, or one file of the current directory that has no record yet and has
  one afterwards; no record of a file is lost.
\<close>

definition publishes_new :: "discovery_world \<Rightarrow> discovery \<Rightarrow> discovery \<Rightarrow> bool" where
  "publishes_new w st st' \<longleftrightarrow> set (file_keys st) \<subseteq> set (file_keys st') \<and>
     (services st' = services st \<and> pool st' = pool st \<or>
      (\<exists>f. (dbID (dataDir st), f) \<notin> set (file_keys st) \<and> (dbID (dataDir st), f) \<in> set (file_keys st') \<and>
         publishes_file w f st st'))"

lemma publishes_new_cong:
  assumes "publishes_new w st1 st2" "file_keys st1 = file_keys st" "services st1 = services st" "pool st1 = pool st"
    "dataDir st1 = dataDir st" "file_keys st' = file_keys st2" "services st' = services st2" "pool st' = pool st2"
  shows "publishes_new w st st'"
  using assms by (simp add: publishes_new_def publishes_file_def)

lemma file_publishes_new:
  assumes "process_first_file w st = Returns st' r" and "once_ok st" and "dataDirAccessInProgress st"
  shows "publishes_new w st st'"
proof (rule process_first_file_cases [OF assms(1)])
  fix m assume "st' = st \<or> st' = st\<lparr>scanMode := m\<rparr>"
  then show ?thesis by (auto simp: publishes_new_def file_keys_def)
next
  fix f rest st2
  assume s: "dataFilesInDir st = f # rest" "same_place st st2" "fileTable st2 = fileTable st"
    "services st2 = services st" "pool st2 = pool st" "transferred w f st2 st'"
  have new: "(dbID (dataDir st), f) \<notin> set (file_keys st)"
    using assms(2,3) s(1) by (auto simp: once_ok_def)
  have dd: "dataDir st2 = dataDir st" using s(2) by (simp add: same_place_def)
  have pub: "publishes_file w f st2 st' \<Longrightarrow> publishes_file w f st st'"
    by (simp add: publishes_file_def dd s(4,5))
  have k: "file_keys st2 = file_keys st" using s(3) by (simp add: file_keys_def)
  from s(6) have "services st' = services st \<and> pool st' = pool st \<and> file_keys st' = file_keys st \<or>
      file_keys st' = file_keys st @ [(dbID (dataDir st), f)] \<and>
        (services st' = services st \<and> pool st' = pool st \<or> publishes_file w f st2 st')"
    unfolding transferred_def file_keys_def [symmetric] k dd s(4,5) by blast
  with new pub show ?thesis by (auto simp: publishes_new_def)
qed

lemma scan_publishes_new:
  assumes "scan_directory w st = Returns st' r" and "once_ok st"
  shows "publishes_new w st st'"
proof (cases "dataDirValid st")
  case True
  with assms obtain st1 r1 where 1: "process_first_file w (refresh_files w st) = Returns st1 r1"
    and 2: "st' = st1 \<or> (\<exists>u. leave_directory w st1 = Returns st' u)"
    by (auto simp: scan_directory_def obind_Returns split: option.splits)
  note r = refresh_same_place [of st w]
  have "dataDirAccessInProgress (refresh_files w st)" using r by (elim conjE)
  note new = file_publishes_new [OF 1 refresh_once [OF assms(2) True] this]
  have s1: "file_keys (refresh_files w st) = file_keys st" "services (refresh_files w st) = services st"
    "pool (refresh_files w st) = pool st" "dataDir (refresh_files w st) = dataDir st"
    using r by (simp_all add: file_keys_def same_place_def)
  have s2: "file_keys st' = file_keys st1" "services st' = services st1" "pool st' = pool st1"
    using 2 by (auto simp: file_keys_def dest: leave_directory_Returns)
  show ?thesis by (rule publishes_new_cong [OF new s1 s2])
next
  case False
  then show ?thesis using assms by (simp add: scan_directory_def publishes_new_def)
qed

lemma next_directory_same_files:
  assumes "next_directory w st = Returns st' r"
  shows "file_keys st' = file_keys st \<and> services st' = services st \<and> pool st' = pool st"
  by (rule next_directory_cases [OF assms])
    (auto simp: stepped_dir_def closed_dir_def mark_dir_def addCurrentDirectoryRecord_def add_dir_record_def file_keys_def Let_def)

lemma pass_publishes_new:
  assumes "processUPMUdata w st = Returns st' r" and "once_ok st"
  shows "publishes_new w st st'"
proof (rule processUPMUdata_cases [OF assms(1)])
  fix st1 assume "scan_directory w st = Returns st1 r" "st' = st1"
  then show ?thesis using scan_publishes_new assms(2) by blast
next
  fix st1 assume 1: "scan_directory w st = Returns st1 None" and 2: "next_directory w st1 = Returns st' r"
  from publishes_new_cong [OF scan_publishes_new [OF 1 assms(2)] refl refl refl refl] next_directory_same_files [OF 2]
  show ?thesis by blast
qed

text \<open>Between the passes the other services take and release buffers; they make none.\<close>

definition services_work :: "discovery \<Rightarrow> discovery \<Rightarrow> bool" where
  "services_work st st' \<longleftrightarrow> (\<exists>ss p. st' = st\<lparr>services := ss, pool := p\<rparr> \<and> next_id p = next_id (pool st))"

lemma services_work_once: "services_work st st' \<Longrightarrow> once_ok st \<Longrightarrow> once_ok st'"
proof -
  assume "services_work st st'" "once_ok st"
  then obtain ss p where st': "st' = st\<lparr>services := ss, pool := p\<rparr>" by (auto simp: services_work_def)
  then have "file_keys st' = file_keys st" by (simp add: file_keys_def)
  then show "once_ok st'" using \<open>once_ok st\<close> unfolding once_ok_def by (simp add: st')
qed

text \<open>Step \<open>i\<close> publishes the file of that directory and name, or makes no buffer.\<close>

definition published_in :: "discovery_world \<Rightarrow> discovery \<Rightarrow> discovery \<Rightarrow> (u32 \<times> string) option \<Rightarrow> bool" where
  "published_in w st st' k \<longleftrightarrow> (case k of
     None \<Rightarrow> next_id (pool st') = next_id (pool st)
   | Some (d, f) \<Rightarrow> d = dbID (dataDir st) \<and> publishes_file w f st st')"

lemma step_publishes:
  assumes "(\<exists>r. processUPMUdata w st = Returns st' r) \<or> services_work st st'" "once_ok st"
  shows "\<exists>k. published_in w st st' k \<and> set (file_keys st) \<subseteq> set (file_keys st') \<and>
    (\<forall>x. k = Some x \<longrightarrow> x \<notin> set (file_keys st) \<and> x \<in> set (file_keys st'))"
  using assms(1)
proof (elim disjE exE)
  fix r assume "processUPMUdata w st = Returns st' r"
  from pass_publishes_new [OF this assms(2)] show ?thesis
    unfolding publishes_new_def
  proof (elim conjE disjE exE)
    assume "set (file_keys st) \<subseteq> set (file_keys st')" "pool st' = pool st"
    then show ?thesis by (intro exI [of _ None]) (simp add: published_in_def)
  next
    fix f assume "set (file_keys st) \<subseteq> set (file_keys st')" "(dbID (dataDir st), f) \<notin> set (file_keys st)"
      "(dbID (dataDir st), f) \<in> set (file_keys st')" "publishes_file w f st st'"
    then show ?thesis by (intro exI [of _ "Some (dbID (dataDir st), f)"]) (simp add: published_in_def)
  qed
next
  assume "services_work st st'"
  then show ?thesis by (intro exI [of _ None]) (auto simp: services_work_def published_in_def file_keys_def)
qed

text \<open>
  C13: While the service runs, each file of a directory is recorded and published at most once. Take
  any sequence of its passes, between which the other services work on their queues, from a state in
  which the table has no two records with the same directory and name and the list of processed
  files is complete, as long as the database hands out a key for every new directory. Then the table
  never has two records of the same directory and name, and every step publishes nothing or fetches
  and publishes one file of the current directory; this file had no record when the run began, and no
  two steps publish the same one.

  The state at the start of the service is such a state only when all records of the directory
  are released or abandoned; a file whose record still is 'processing', because the service
  ended within its transfer, is taken up again (see below).
\<close>

theorem each_file_is_processed_once:
  assumes "once_ok (S 0)"
    and "\<forall>i<n. (\<exists>r. processUPMUdata (W i) (S i) = Returns (S (Suc i)) r) \<or> services_work (S i) (S (Suc i))"
    and "\<forall>i<n. \<not> dbThrows (W i) AddDir \<and> \<not> dbThrows (W i) GetDirKey \<and> unat (dirSeq (S i)) < 2 ^ 32 - 1"
  shows "once_ok (S n) \<and> distinct (map (\<lambda>r. (fr_dir r, fr_name r)) (fileTable (S n))) \<and>
    (\<exists>pub. (\<forall>i<n. published_in (W i) (S i) (S (Suc i)) (pub i)) \<and>
       (\<forall>i<n. \<forall>k. pub i = Some k \<longrightarrow> k \<notin> set (file_keys (S 0)) \<and> k \<in> set (file_keys (S n))) \<and>
       (\<forall>i<n. \<forall>j<n. pub i \<noteq> None \<and> pub i = pub j \<longrightarrow> i = j))"
proof -
  have ok: "i \<le> n \<Longrightarrow> once_ok (S i)" for i
  proof (induction i)
    case (Suc i)
    then have "once_ok (S i)" "i < n" by simp_all
    with assms(2,3) show ?case
      using pass_keeps_once [of "S i" "W i" "S (Suc i)"] services_work_once [of "S i" "S (Suc i)"] by blast
  qed (rule assms(1))
  have "\<exists>k. i < n \<longrightarrow> published_in (W i) (S i) (S (Suc i)) k \<and> set (file_keys (S i)) \<subseteq> set (file_keys (S (Suc i))) \<and>
      (\<forall>x. k = Some x \<longrightarrow> x \<notin> set (file_keys (S i)) \<and> x \<in> set (file_keys (S (Suc i))))" for i
    using assms(2) step_publishes ok [of i] by (cases "i < n") auto
  then obtain pub where pub: "published_in (W i) (S i) (S (Suc i)) (pub i)"
    and mono1: "set (file_keys (S i)) \<subseteq> set (file_keys (S (Suc i)))"
    and new: "pub i = Some x \<Longrightarrow> x \<notin> set (file_keys (S i)) \<and> x \<in> set (file_keys (S (Suc i)))" if "i < n" for i x
    by metis
  have mono: "i \<le> j \<Longrightarrow> j \<le> n \<Longrightarrow> set (file_keys (S i)) \<subseteq> set (file_keys (S j))" for i j
  proof (induction j rule: dec_induct)
    case (step m)
    then have "m < n" "set (file_keys (S i)) \<subseteq> set (file_keys (S m))" by simp_all
    with mono1 [of m] show ?case by blast
  qed simp
  have once: "pub i \<noteq> pub j" if "i < j" "j < n" "pub i \<noteq> None" for i j
  proof
    assume eq: "pub i = pub j"
    from that(3) obtain x where "pub i = Some x" by blast
    with eq new [of i x] new [of j x] mono [of "Suc i" j] that(1,2) show False by auto
  qed
  have "\<forall>i<n. \<forall>j<n. pub i \<noteq> None \<and> pub i = pub j \<longrightarrow> i = j"
    using once by (metis linorder_neqE_nat)
  moreover have "\<forall>i<n. \<forall>k. pub i = Some k \<longrightarrow> k \<notin> set (file_keys (S 0)) \<and> k \<in> set (file_keys (S n))"
    using new mono [of 0] mono [of "Suc _" n] by (meson Suc_leI in_mono less_imp_le order_refl zero_le)
  moreover have "once_ok (S n)" using ok by simp
  ultimately show ?thesis using pub by (auto simp: once_ok_def file_keys_def [symmetric])
qed

subsection \<open>After a restart\<close>

text \<open>What \<open>getCurrentDataFileSet\<close> takes from the table.\<close>

lemma fold_insert_set:
  "set (foldl (\<lambda>fs f. insort_insert (fr_name f) fs) ns fs) = set ns \<union> fr_name ` set fs"
  by (induction fs arbitrary: ns) (auto simp: set_insort_insert)

definition records_of_dir :: "discovery \<Rightarrow> file_record list" where
  "records_of_dir st = filter (\<lambda>f. fr_dir f = dbID (dataDir st)) (fileTable st)"

lemma getCurrentDataFileSet_Ok:
  assumes "getCurrentDataFileSet w st = Returns st' DirOk"
  shows "file_keys st' = file_keys st" "dirSeq st' = dirSeq st" "dataDir st' = dataDir st" "dataDirValid st' = dataDirValid st"
    "records_of_dir st = [] \<Longrightarrow> \<not> dataDirAccessInProgress st'"
    "records_of_dir st \<noteq> [] \<Longrightarrow> dataDirAccessInProgress st' \<and> dataFilesInDir st' = [] \<and>
       set (dataFilesProcessed st') = fr_name ` {f \<in> set (records_of_dir st). fr_state f \<noteq> FileProcessing}"
proof -
  have st: "fr_state f = FileAbandoned \<or> fr_state f = FileReleased \<longleftrightarrow> fr_state f \<noteq> FileProcessing" for f
    by (cases "fr_state f") simp_all
  from assms have "st' = st\<lparr>dbLocked := False\<rparr>\<lparr>dataDirAccessInProgress := False\<rparr> \<and> records_of_dir st = [] \<or>
      records_of_dir st \<noteq> [] \<and> st' = st\<lparr>dbLocked := False\<rparr>\<lparr>dataFilesInDir := [], dataDirAccessInProgress := True,
        dataFilesProcessed := foldl (\<lambda>fs f. insort_insert (fr_name f) fs) []
          (filter (\<lambda>f. fr_state f \<noteq> FileProcessing) (records_of_dir st))\<rparr>"
    by (auto simp: getCurrentDataFileSet_def acquireDBaccess_def releaseDBaccess_def db_call_def records_of_dir_def Let_def st
        split: if_splits)
  then show "file_keys st' = file_keys st" "dirSeq st' = dirSeq st" "dataDir st' = dataDir st" "dataDirValid st' = dataDirValid st"
    "records_of_dir st = [] \<Longrightarrow> \<not> dataDirAccessInProgress st'"
    "records_of_dir st \<noteq> [] \<Longrightarrow> dataDirAccessInProgress st' \<and> dataFilesInDir st' = [] \<and>
       set (dataFilesProcessed st') = fr_name ` {f \<in> set (records_of_dir st). fr_state f \<noteq> FileProcessing}"
    by (auto simp: file_keys_def fold_insert_set)
qed

text \<open>
  A start of the service on the tables of earlier runs leads to a state from which every file is
  processed once, if no record of the directory says 'processing'.
\<close>

theorem start_after_complete_transfers:
  assumes "getCurrentDataFileSet w st = Returns st' DirOk" and "distinct (file_keys st)"
    and "\<forall>k\<in>set (file_keys st). unat (fst k) \<le> unat (dirSeq st)" and "unat (dbID (dataDir st)) \<le> unat (dirSeq st)"
    and "\<forall>f\<in>set (records_of_dir st). fr_state f \<noteq> FileProcessing"
  shows "once_ok st'"
proof -
  note o = getCurrentDataFileSet_Ok [OF assms(1)]
  have "(dbID (dataDir st), f) \<in> set (file_keys st) \<longleftrightarrow> f \<in> fr_name ` set (records_of_dir st)" for f
    by (force simp: file_keys_mem records_of_dir_def)
  then show ?thesis
    using o(5,6) assms(2-5) by (cases "records_of_dir st = []") (auto simp: once_ok_def o(1-4))
qed

text \<open>
  Otherwise the file of such a record is not among the processed ones, although it has a
  record: it is transferred once more, under a second record.
\<close>

theorem a_restart_forgets_files_in_transfer:
  assumes "getCurrentDataFileSet w st = Returns st' DirOk" and "r \<in> set (records_of_dir st)" and "fr_state r = FileProcessing"
    and "distinct (file_keys st)"
  shows "(dbID (dataDir st'), fr_name r) \<in> set (file_keys st') \<and> fr_name r \<notin> set (dataFilesProcessed st') \<and> \<not> once_ok st'"
proof -
  note o = getCurrentDataFileSet_Ok [OF assms(1)]
  have key: "(dbID (dataDir st'), fr_name r) \<in> set (file_keys st')"
    using assms(2) by (force simp: o(1,3) file_keys_mem records_of_dir_def)
  have "r' = r" if "r' \<in> set (records_of_dir st)" "fr_name r' = fr_name r" for r'
    using that assms(2,4) by (auto simp: records_of_dir_def file_keys_def distinct_map inj_on_def)
  moreover have "records_of_dir st \<noteq> []" using assms(2) by auto
  note o(6) [OF this]
  ultimately have "fr_name r \<notin> set (dataFilesProcessed st')" "dataDirAccessInProgress st'"
    using assms(3) by (auto elim!: imageE)
  then show ?thesis using key by (auto simp: once_ok_def)
qed

subsection \<open>Flow control\<close>

text \<open>A pass of the discovery publishes at most one file, and only below the limit.\<close>

definition publishes_one :: "discovery_world \<Rightarrow> discovery \<Rightarrow> discovery \<Rightarrow> bool" where
  "publishes_one w st st' \<longleftrightarrow> services st' = services st \<and> pool st' = pool st \<or>
     sharedInMemDataBufferCnt (pool st) \<le> 5 \<and> (\<exists>buf len. fetched w buf len \<and>
       postProcessUPMUdata buf len (services st) (pool st) = Some (services st', pool st'))"

lemma scan_publishes:
  assumes "scan_directory w st = Returns st' r"
  shows "publishes_one w st st'"
proof (cases "dataDirValid st")
  case True
  with assms obtain st1 r1 where 1: "process_first_file w (refresh_files w st) = Returns st1 r1"
    and 2: "st' = st1 \<or> (\<exists>u. leave_directory w st1 = Returns st' u)"
    by (auto simp: scan_directory_def obind_Returns split: option.splits)
  have "publishes_one w st st1"
    by (rule process_first_file_cases [OF 1])
      (use refresh_same_place [of st w] publishes_fetched in \<open>fastforce simp: transferred_def publishes_one_def\<close>)+
  moreover have "services st' = services st1 \<and> pool st' = pool st1"
    using 2 leave_directory_Returns by fastforce
  ultimately show ?thesis by (simp add: publishes_one_def)
qed (use assms in \<open>simp add: scan_directory_def publishes_one_def\<close>)

lemma pass_publishes:
  assumes "processUPMUdata w st = Returns st' r"
  shows "publishes_one w st st'"
proof (rule processUPMUdata_cases [OF assms])
  fix st1 assume 1: "scan_directory w st = Returns st1 r" and 2: "st' = st1"
  from scan_publishes [OF 1] show ?thesis unfolding 2 .
next
  fix st1 assume 1: "scan_directory w st = Returns st1 None" and 2: "next_directory w st1 = Returns st' r"
  have "services st' = services st1 \<and> pool st' = pool st1"
    by (rule next_directory_cases [OF 2])
      (auto simp: stepped_dir_def closed_dir_def mark_dir_def addCurrentDirectoryRecord_def add_dir_record_def Let_def)
  with scan_publishes [OF 1] show ?thesis by (simp add: publishes_one_def)
qed

text \<open>The discovery and the services it feeds, taking and releasing buffers at any time.\<close>

inductive feeding_step :: "discovery \<Rightarrow> discovery \<Rightarrow> bool" where
  pass: "processUPMUdata w st = Returns st' r \<Longrightarrow> feeding_step st st'"
| take: "k < length (services st) \<Longrightarrow> service_take (services st ! k) = Some s' \<Longrightarrow>
    feeding_step st (st\<lparr>services := (services st)[k := s']\<rparr>)"
| release: "k < length (services st) \<Longrightarrow> service_release (services st ! k) (pool st) = Some (s', p') \<Longrightarrow>
    feeding_step st (st\<lparr>services := (services st)[k := s'], pool := p'\<rparr>)"

definition buffers_ok :: "discovery \<Rightarrow> bool" where
  "buffers_ok st \<longleftrightarrow> pool_ok (\<lambda>_. 0) (services st) (pool st) \<and> card (dom (live (pool st))) \<le> 6"

lemma unaffected_buffers:
  "buffers_ok st \<Longrightarrow> services st' = services st \<Longrightarrow> pool st' = pool st \<Longrightarrow> buffers_ok st'"
  by (simp add: buffers_ok_def)

lemma published_buffers:
  assumes "buffers_ok st" and "sharedInMemDataBufferCnt (pool st) \<le> 5"
    and "postProcessUPMUdata buf len (services st) (pool st) = Some (services st', pool st')"
  shows "buffers_ok st'"
proof -
  have ok: "pool_ok (\<lambda>_. 0) (services st) (pool st)" and "card (dom (live (pool st))) \<le> 6"
    using assms(1) by (simp_all add: buffers_ok_def)
  then have "card (dom (live (pool st))) \<le> 5"
    using assms(2) pool_okD(4) [OF ok] by (simp add: word_le_nat_alt unat_of_nat take_bit_eq_mod)
  then have "card (dom (live (pool st'))) \<le> 6" using publish_adds_one [OF ok assms(3)] by simp
  then show ?thesis using postProcess_ok [OF ok assms(3)] by (simp add: buffers_ok_def)
qed

lemma feeding_keeps_buffers:
  assumes "feeding_step st st'" and "buffers_ok st"
  shows "buffers_ok st'"
  using assms
proof (cases rule: feeding_step.cases)
  case (pass w r)
  from pass_publishes [OF this] show ?thesis
    unfolding publishes_one_def
  proof (elim disjE conjE exE)
    show "services st' = services st \<Longrightarrow> pool st' = pool st \<Longrightarrow> buffers_ok st'"
      by (rule unaffected_buffers [OF assms(2)])
    show "buffers_ok st'" if "sharedInMemDataBufferCnt (pool st) \<le> 5"
      "postProcessUPMUdata buf len (services st) (pool st) = Some (services st', pool st')" for buf len
      using that by (rule published_buffers [OF assms(2)])
  qed
next
  case (take k s')
  then show ?thesis using assms(2) take_ok by (auto simp: buffers_ok_def)
next
  case (release k s' p')
  have ok: "pool_ok (\<lambda>_. 0) (services st) (pool st)" using assms(2) by (simp add: buffers_ok_def)
  have "dom (live p') \<subseteq> dom (live (pool st))"
    using release(3) by (auto simp: service_release_def bind_eq_Some ptr_reset_def delete_serviceDataBuffer_def
        split: option.splits if_splits)
  then have "card (dom (live p')) \<le> card (dom (live (pool st)))"
    using pool_ok_finite [OF ok] by (rule card_mono [rotated])
  then show ?thesis
    using assms(2) release(1) release_ok [OF ok release(2,3)] by (simp add: buffers_ok_def)
qed

text \<open>
  C33: Flow control: however the discovery's passes interleave with the services taking and
  releasing buffers, there are never more than six shared buffers in memory, and the counter
  that the discovery compares with its limit is their number.
\<close>

theorem at_most_six_buffers_in_memory:
  assumes "feeding_step\<^sup>*\<^sup>* st st'" and "buffers_ok st"
  shows "card (dom (live (pool st'))) \<le> 6 \<and>
    sharedInMemDataBufferCnt (pool st') = of_nat (card (dom (live (pool st'))))"
proof -
  have "buffers_ok st'"
    using assms by (induction rule: rtranclp_induct) (auto intro: feeding_keeps_buffers)
  then show ?thesis using pool_okD(4) by (auto simp: buffers_ok_def)
qed

subsection \<open>Concrete runs\<close>

definition example_server :: ftp_server where
  "example_server = \<lparr>curl_init = True, ftp_head = (\<lambda>_. CURLE_OTHER), ftp_list = (\<lambda>_. None),
     ftp_size = (\<lambda>_. None), ftp_get = (\<lambda>_. Some [1, 2, 3, 4, 5, 6]), ftpAccessString = ''ftp://upmu'',
     garbage = []\<rparr>"

definition example_world :: "nat \<Rightarrow> discovery_world" where
  "example_world now = \<lparr>clock = now, server = example_server, dbThrows = (\<lambda>_. False), heap_garbage = []\<rparr>"

definition example_discovery :: "bool \<Rightarrow> discovery" where
  "example_discovery valid = \<lparr>dataDir = new_year_eve, dataDirValid = valid, dataDirAccessInProgress = valid,
     mostRecentDataFileNameValid = False, mostRecentDataFileName = [], mostRecentDataFileLength = 0,
     dataFilesInDir = (if valid then [''P3001065_2018-07-05-22-10-00.dat''] else []), dataFilesProcessed = [],
     scanMode = catch_up, dirTable = [], fileTable = [], dirSeq = 7, fileSeq = 0, dbLocked = False, services = [],
     pool = \<lparr>live = Map.empty, next_id = 0, sharedInMemDataBufferCnt = 0, sharedTotalDataBufferCnt = 0\<rparr>\<rparr>"

lemma example_name: "createTimeFromDataFileName ''P3001065_2018-07-05-22-10-00.dat'' = Ok 1530828600"
  by code_simp

lemma example_dir: "dir_at new_year_eve 438287"
  by (simp add: dir_at_def new_year_eve_def gmtime_new_year_eve)

lemma idle_pass:
  "\<exists>st'. processUPMUdata (example_world 1577838600) (example_discovery False) = Returns st' None"
  by (simp add: processUPMUdata_def scan_directory_def next_directory_def close_directory_def db_call_def
      example_world_def example_server_def example_discovery_def mark_dir_def of_run_def verifyDataDirPresent_def
      Let_def)

lemma busy_pass:
  "\<exists>st'. processUPMUdata (example_world 1577835000) (example_discovery True) = Returns st' None \<and>
     map (\<lambda>r. (fr_dir r, fr_name r)) (fileTable st') = [(7, ''P3001065_2018-07-05-22-10-00.dat'')] \<and>
     sharedTotalDataBufferCnt (pool st') = 1"
proof -
  note dir_time [OF example_dir, simp]
  have "dbID new_year_eve = 7" by (simp add: new_year_eve_def)
  then show ?thesis
    by (simp add: processUPMUdata_def scan_directory_def next_directory_def db_call_def refresh_files_def
      process_first_file_def dataFileComplete_def example_name transfer_file_def fetch_and_publish_def getDataFile_def
      publish_file_def to_host_order_def byte_at_def add_data_record_def mark_file_def leave_directory_def
      MAX_OUTSTANDING_MEM_BUF_def new_serviceDataBuffer_def postProcessUPMUdata_def ptr_reset_def
      delete_serviceDataBuffer_def
      example_world_def example_server_def example_discovery_def mark_dir_def of_run_def Let_def)
qed

text \<open>A pass at half past midnight on New Year's Day moves one hour on.\<close>

theorem discovery_stays_behind_the_clock_witness:
  "\<exists>st' h'. processUPMUdata (example_world 1577838600) (example_discovery False) = Returns st' None \<and>
     dir_at (dataDir st') h' \<and> 438287 \<le> h' \<and> h' \<le> 438288"
proof -
  obtain st' where r: "processUPMUdata (example_world 1577838600) (example_discovery False) = Returns st' None"
    using idle_pass by blast
  have "dir_at (dataDir (example_discovery False)) 438287" using example_dir by (simp add: example_discovery_def)
  from discovery_stays_behind_the_clock [OF this _ _ r] r show ?thesis by (auto simp: example_world_def)
qed

text \<open>Two passes publish the two files of a directory.\<close>

definition two_files :: discovery where
  "two_files = (example_discovery True)\<lparr>dataFilesInDir :=
     [''P3001065_2018-07-05-22-10-00.dat'', ''P3001065_2018-07-05-22-20-00.dat'']\<rparr>"

lemma example_name_2: "createTimeFromDataFileName ''P3001065_2018-07-05-22-20-00.dat'' = Ok 1530829200"
  by code_simp

lemma two_busy_passes:
  "\<exists>st1 st2. processUPMUdata (example_world 1577835000) two_files = Returns st1 None \<and>
     processUPMUdata (example_world 1577835000) st1 = Returns st2 None \<and> dirSeq st1 = 7 \<and>
     file_keys st2 = [(7, ''P3001065_2018-07-05-22-10-00.dat''), (7, ''P3001065_2018-07-05-22-20-00.dat'')] \<and>
     next_id (pool st2) = 2"
proof -
  note dir_time [OF example_dir, simp]
  have "dbID new_year_eve = 7" by (simp add: new_year_eve_def)
  then show ?thesis
    by (simp add: processUPMUdata_def scan_directory_def next_directory_def db_call_def refresh_files_def
      process_first_file_def dataFileComplete_def example_name example_name_2 transfer_file_def fetch_and_publish_def
      getDataFile_def publish_file_def to_host_order_def byte_at_def add_data_record_def mark_file_def leave_directory_def
      MAX_OUTSTANDING_MEM_BUF_def new_serviceDataBuffer_def postProcessUPMUdata_def ptr_reset_def
      delete_serviceDataBuffer_def two_files_def file_keys_def
      example_world_def example_server_def example_discovery_def mark_dir_def of_run_def Let_def)
qed

theorem each_file_is_processed_once_witness:
  "\<exists>st1 st2 k1 k2. processUPMUdata (example_world 1577835000) two_files = Returns st1 None \<and>
     processUPMUdata (example_world 1577835000) st1 = Returns st2 None \<and> once_ok st2 \<and>
     published_in (example_world 1577835000) two_files st1 k1 \<and>
     published_in (example_world 1577835000) st1 st2 k2 \<and> next_id (pool st2) = 2 \<and> (k1 = k2 \<longrightarrow> k1 = None) \<and>
     distinct [(7 :: u32, ''P3001065_2018-07-05-22-10-00.dat''), (7, ''P3001065_2018-07-05-22-20-00.dat'')]"
proof -
  let ?w = "example_world 1577835000"
  from two_busy_passes obtain st1 st2 where
    r: "processUPMUdata ?w two_files = Returns st1 None" "processUPMUdata ?w st1 = Returns st2 None" "dirSeq st1 = 7"
    and f: "file_keys st2 = [(7, ''P3001065_2018-07-05-22-10-00.dat''), (7, ''P3001065_2018-07-05-22-20-00.dat'')]"
      "next_id (pool st2) = 2"
    by (elim exE conjE) (rule that; assumption)
  define S where "S = (\<lambda>i :: nat. if i = 0 then two_files else if i = 1 then st1 else st2)"
  have S: "S 0 = two_files" "S (Suc 0) = st1" "S (Suc (Suc 0)) = st2" "S 2 = st2" by (simp_all add: S_def)
  have ok: "once_ok (S 0)"
    by (simp add: S once_ok_def two_files_def example_discovery_def file_keys_def new_year_eve_def)
  have passes: "\<forall>i<2. (\<exists>r. processUPMUdata ?w (S i) = Returns (S (Suc i)) r) \<or> services_work (S i) (S (Suc i))"
    using r by (auto simp: less_2_cases_iff S)
  have keys: "\<forall>i<2. \<not> dbThrows ?w AddDir \<and> \<not> dbThrows ?w GetDirKey \<and> unat (dirSeq (S i)) < 2 ^ 32 - 1"
    using r(3) by (auto simp: less_2_cases_iff S example_world_def two_files_def example_discovery_def)
  from each_file_is_processed_once [OF ok passes keys] obtain pub where
    p: "\<forall>i<2. published_in ?w (S i) (S (Suc i)) (pub i)" "once_ok (S 2)"
    "distinct (map (\<lambda>r. (fr_dir r, fr_name r)) (fileTable (S 2)))"
    and inj: "\<forall>i<2. \<forall>j<2. pub i \<noteq> None \<and> pub i = pub j \<longrightarrow> i = j"
    by blast
  have "published_in ?w two_files st1 (pub 0)" "published_in ?w st1 st2 (pub 1)"
    using p(1) [rule_format, of 0] p(1) [rule_format, of 1] by (simp_all add: S)
  moreover have "pub 0 = pub 1 \<longrightarrow> pub 0 = None"
  proof (rule impI, rule ccontr)
    assume "pub 0 = pub 1" "pub 0 \<noteq> None"
    then have "(0 :: nat) = 1" using inj [rule_format, of 0 1] by simp
    then show False by simp
  qed
  moreover have "distinct (file_keys st2)" using p(3) by (simp add: S file_keys_def)
  ultimately show ?thesis using r(1,2) f p(2) unfolding S(4) f(1) by blast
qed

theorem at_most_six_buffers_in_memory_witness:
  "\<exists>st'. feeding_step\<^sup>*\<^sup>* (example_discovery True) st' \<and> sharedTotalDataBufferCnt (pool st') = 1 \<and>
     card (dom (live (pool st'))) \<le> 6"
proof -
  obtain st' where r: "processUPMUdata (example_world 1577835000) (example_discovery True) = Returns st' None"
    and c: "sharedTotalDataBufferCnt (pool st') = 1"
    using busy_pass by (elim exE conjE) (rule that)
  have s: "feeding_step\<^sup>*\<^sup>* (example_discovery True) st'" by (rule r_into_rtranclp, rule pass [OF r])
  have "buffers_ok (example_discovery True)" by (simp add: buffers_ok_def example_discovery_def pool_ok_def refs_def)
  from at_most_six_buffers_in_memory [OF s this] s c show ?thesis by blast
qed

end
