(* ===== verification/Ftp_Startup.thy ===== *)
theory Ftp_Startup
  imports Ftp_Discovery Archiver
begin

text \<open>
  The start of the data discovery and its thread, \<open>initService\<close> and \<open>operator()\<close> of
  \<open>ftp/serviceDataDiscovery/serviceDataDiscovery.cpp\<close>, and what the search for the first
  directory and the byte-order conversion of a file come to.
\<close>

subsection \<open>The service\<close>

record discovery_service =
  disc :: discovery
  commands :: "nat cmd_queue"
  disc_stats :: service_stats
  serviceStatus :: serviceState_t
  disc_log :: "(string \<times> string) list"
  disc_kv_lists :: "(string \<times> u32 \<times> (string \<times> (string \<times> string) list)) list"
  slept :: "nat list"

definition SCAN_MODE_CATCH_UP_DELAY_SEC :: nat where "SCAN_MODE_CATCH_UP_DELAY_SEC = 7"
definition SCAN_MODE_NORMAL_DELAY_SEC :: nat where "SCAN_MODE_NORMAL_DELAY_SEC = 15"

definition createServiceStartupKeyValueList_discovery ::
  "u32 \<Rightarrow> service_stats \<Rightarrow> (string \<times> u32 \<times> (string \<times> (string \<times> string) list)) option" where
  "createServiceStartupKeyValueList_discovery now s = do {
     maj \<leftarrow> str_stat s 30; mnr \<leftarrow> str_stat s 31;
     Some (''Service_Startup_Info'', now, (''ServiceStatus'', [maj, mnr])) }"

text \<open>
  \<open>n\<close> bounds the passes of the search loop: the result is \<open>None\<close> when it has not come to an
  end by then. \<open>fresh\<close> is the content of a new \<open>DATA_DIR\<close>, \<open>archive\<close> says whether a message can
  be sent to Cassandra.
\<close>

definition init_dirs :: "nat \<Rightarrow> discovery_world \<Rightarrow> discovery \<Rightarrow> (discovery, bool option) outcome" where
  "init_dirs n w st =
     obind (getCurrentDirectory n w st) (\<lambda>st1 r. case r of
       None \<Rightarrow> Returns st1 None
     | Some DirOk \<Rightarrow> obind (getCurrentDataFileSet w st1) (\<lambda>st2 r2. Returns st2 (Some (r2 = DirOk)))
     | Some _ \<Rightarrow> Returns st1 (Some False))"

definition start_messages :: "bool \<Rightarrow> u32 \<Rightarrow> discovery_service \<Rightarrow> discovery_service option" where
  "start_messages archive now s = do {
     maj \<leftarrow> str_stat (disc_stats s) 30; mnr \<leftarrow> str_stat (disc_stats s) 31;
     kv \<leftarrow> createServiceStartupKeyValueList_discovery now (disc_stats s);
     Some (s\<lparr>disc_log := disc_log s @
               [(''Service_Startup_Msg'', ''Initialized, looking for current directory on uPMU.''), maj, mnr],
             disc_kv_lists := (if archive then disc_kv_lists s @ [kv] else disc_kv_lists s)\<rparr>) }"

definition initService_discovery ::
  "nat \<Rightarrow> bool \<Rightarrow> bool \<Rightarrow> data_dir \<Rightarrow> u32 \<Rightarrow> discovery_world \<Rightarrow> discovery_service \<Rightarrow>
   (discovery_service, bool option) outcome" where
  "initService_discovery n connected archive fresh now w s =
     (case createServiceCommonStats now (disc_stats s) of
        Throws t \<Rightarrow> Throws (s\<lparr>disc_stats := t\<rparr>) | Blocks \<Rightarrow> Blocks | Undefined \<Rightarrow> Undefined
      | Returns t _ \<Rightarrow> (case createServiceSpecificStats_discovery t of
          Throws u \<Rightarrow> Throws (s\<lparr>disc_stats := u\<rparr>) | Blocks \<Rightarrow> Blocks | Undefined \<Rightarrow> Undefined
        | Returns u _ \<Rightarrow>
            (let s1 = s\<lparr>disc_stats := u, disc := (disc s)\<lparr>mostRecentDataFileLength := 0, scanMode := catch_up\<rparr>\<rparr> in
             if \<not> connected then Returns s1 (Some False)
             else (case acquireDBaccess (disc s1) of
               Throws d \<Rightarrow> Throws (s1\<lparr>disc := d\<rparr>) | Blocks \<Rightarrow> Blocks | Undefined \<Rightarrow> Undefined
             | Returns d _ \<Rightarrow> (case start_messages archive now (s1\<lparr>disc := releaseDBaccess d\<rparr>) of
                 None \<Rightarrow> Undefined
               | Some s2 \<Rightarrow> (case init_dirs n w ((disc s2)\<lparr>dataDir := fresh\<rparr>) of
                   Throws d \<Rightarrow> Throws (s2\<lparr>disc := d\<rparr>) | Blocks \<Rightarrow> Blocks | Undefined \<Rightarrow> Undefined
                 | Returns d r \<Rightarrow> Returns (s2\<lparr>disc := d\<rparr>) r))))))"

subsection \<open>The thread\<close>

definition scan_delay :: "scan_mode \<Rightarrow> nat" where
  "scan_delay m = (case m of normal \<Rightarrow> SCAN_MODE_NORMAL_DELAY_SEC | catch_up \<Rightarrow> SCAN_MODE_CATCH_UP_DELAY_SEC)"

definition discovery_pass :: "discovery_world \<Rightarrow> discovery_service \<Rightarrow> (discovery_service, unit) outcome" where
  "discovery_pass w s =
     (let s1 = s\<lparr>commands := snd (Dequeue (commands s))\<rparr> in
      case processUPMUdata w (disc s1) of
        Throws d \<Rightarrow> Throws (s1\<lparr>disc := d\<rparr>) | Blocks \<Rightarrow> Blocks | Undefined \<Rightarrow> Undefined
      | Returns d _ \<Rightarrow> Returns (s1\<lparr>disc := d, slept := slept s1 @ [scan_delay (scanMode d)]\<rparr>) ())"

text \<open>The loop, over what the world does in each pass and the stop flag read after it.\<close>

fun discovery_loop ::
  "(discovery_world \<times> bool) list \<Rightarrow> discovery_service \<Rightarrow> (discovery_service, unit) outcome" where
  "discovery_loop [] s = Returns s ()"
| "discovery_loop ((w, stop) # ws) s =
     (case discovery_pass w s of
        Throws s1 \<Rightarrow> Returns (s1\<lparr>serviceStatus := ERROR_STOP\<rparr>) ()
      | Blocks \<Rightarrow> Blocks
      | Undefined \<Rightarrow> Undefined
      | Returns s1 _ \<Rightarrow> if stop then Returns (s1\<lparr>serviceStatus := NORMAL_STOP\<rparr>) () else discovery_loop ws s1)"

definition discovery_thread ::
  "(discovery_service \<Rightarrow> (discovery_service, bool option) outcome) \<Rightarrow> (discovery_world \<times> bool) list \<Rightarrow>
   discovery_service \<Rightarrow> (discovery_service, unit) outcome" where
  "discovery_thread init ws s =
     obind (init (s\<lparr>serviceStatus := RUNNING\<rparr>)) (\<lambda>s1 ok.
       if ok = Some True then discovery_loop ws s1 else Returns s1 ())"

subsection \<open>Byte order\<close>

lemma swapBytesUint_eq: "swapBytesUint w = bswap_32 w"
  by (simp add: swapBytesUint_def bswap_32_def)

lemma be32_bytes:
  "ucast (be32 a b c d) = d" "ucast (drop_bit 8 (be32 a b c d)) = c"
  "ucast (drop_bit 16 (be32 a b c d)) = b" "ucast (drop_bit 24 (be32 a b c d)) = a"
  by (rule bit_word_eqI, auto simp: bit_simps bit_be32)+

lemma swapped_bytes: "le32_bytes (swapBytesUint (le32_of [a, b, c, d])) = [d, c, b, a]"
  by (simp add: swapBytesUint_eq bswap_be32 le32_bytes_def be32_bytes)

lemma swap_words_inside:
  assumes "p + 4 * n \<le> length mem"
  shows "\<exists>mem'. swap_words mem p n = Some mem' \<and> length mem' = length mem \<and>
    (\<forall>i<n. host32 mem' (p + 4 * i) = wire32 mem (p + 4 * i)) \<and>
    (\<forall>k<length mem. k < p \<or> p + 4 * n \<le> k \<longrightarrow> mem' ! k = mem ! k)"
  using assms
proof (induction n arbitrary: mem p)
  case 0
  then show ?case by simp
next
  case (Suc n)
  let ?bs = "[mem ! (p + 3), mem ! (p + 2), mem ! (p + 1), mem ! p]"
  have in4: "p + 4 \<le> length mem" using Suc.prems by simp
  then obtain mem1 where put: "put_bytes mem p ?bs = Some mem1" by (simp add: put_bytes_def)
  have len: "length mem1 = length mem" by (rule put_bytes_length [OF put])
  have at: "k < length mem \<Longrightarrow> mem1 ! k = (if p \<le> k \<and> k < p + 4 then ?bs ! (k - p) else mem ! k)" for k
    using put_bytes_nth [OF put] by simp
  have step: "swap_words mem p (Suc n) = swap_words mem1 (p + 4) n"
    using in4 put by (simp add: swapped_bytes del: le32_of.simps)
  have "p + 4 + 4 * n \<le> length mem1" using Suc.prems len by simp
  from Suc.IH [OF this] obtain mem' where r: "swap_words mem1 (p + 4) n = Some mem'" "length mem' = length mem1"
    and w: "\<forall>i<n. host32 mem' (p + 4 + 4 * i) = wire32 mem1 (p + 4 + 4 * i)"
    and o: "\<forall>k<length mem1. k < p + 4 \<or> p + 4 + 4 * n \<le> k \<longrightarrow> mem' ! k = mem1 ! k" by blast
  have "host32 mem' (p + 4 * i) = wire32 mem (p + 4 * i)" if "i < Suc n" for i
  proof (cases i)
    case 0
    then show ?thesis using o in4 len by (simp add: host32_def wire32_def at)
  next
    case (Suc j)
    have "wire32 mem1 (p + 4 + 4 * j) = wire32 mem (p + 4 + 4 * j)"
      using Suc that Suc.prems by (simp add: wire32_def at)
    then show ?thesis using w Suc that by (simp add: add.assoc)
  qed
  moreover have "mem' ! k = mem ! k" if "k < length mem" "k < p \<or> p + 4 * Suc n \<le> k" for k
    using o that len at [of k] by auto
  ultimately show ?case using step r len by auto
qed

lemma swap_words_outside:
  "length mem < p + 4 * n \<Longrightarrow> 0 < n \<Longrightarrow> swap_words mem p n = None"
proof (induction n arbitrary: mem p)
  case (Suc n)
  show ?case
  proof (cases "p + 4 \<le> length mem")
    case True
    then have "0 < n" using Suc.prems by (cases n) auto
    then show ?thesis using Suc.IH Suc.prems put_bytes_length by (auto simp: bind_eq_Some split: Option.bind_splits)
  next
    case False
    then show ?thesis by (simp add: get_bytes_def)
  qed
qed simp

lemma swap_words_add:
  "swap_words mem p (m + n) = Option.bind (swap_words mem p m) (\<lambda>mem'. swap_words mem' (p + 4 * m) n)"
  by (induction m arbitrary: mem p) (simp_all add: Option.bind_assoc ac_simps)

lemma swap_seconds_words: "swap_seconds mem p len = swap_words mem p (1578 * ((len - p + 6311) div 6312))"
proof (induction mem p len rule: swap_seconds.induct)
  case (1 mem p len)
  show ?case
  proof (cases "p < len")
    case True
    have "(len - p + 6311) div 6312 = Suc ((len - (p + 6312) + 6311) div 6312)"
    proof (cases "p + 6312 \<le> len")
      case True
      then have "len - p + 6311 = (len - (p + 6312) + 6311) + 6312" by simp
      then show ?thesis by (simp only: div_add_self2)
    next
      case False
      then have "(len - p + 6311) div 6312 = 1" using True by (intro div_nat_eqI) auto
      then show ?thesis using False by simp
    qed
    then have b: "1578 * ((len - p + 6311) div 6312) = 1578 + 1578 * ((len - (p + 6312) + 6311) div 6312)"
      by (simp only: mult_Suc_right)
    show ?thesis unfolding b swap_words_add using 1 [OF True] True
      by (cases "swap_words mem p 1578") (simp_all add: swap_seconds.simps [of mem])
  next
    case False
    then show ?thesis by (simp add: swap_seconds.simps)
  qed
qed

definition blocks :: "nat \<Rightarrow> nat" where "blocks len = (len + 6311) div 6312"

lemma big_endian_order:
  "6 \<le> length mem \<Longrightarrow> mem ! 4 = 0 \<Longrightarrow> mem ! 5 = 0 \<Longrightarrow>
   to_host_order mem len = swap_words mem 0 (1578 * blocks len)"
  by (simp add: to_host_order_def swap_seconds_words blocks_def byte_at_def)

text \<open>
  C35: The byte-order conversion gives the host the words that a big-endian file has on the wire:
  of a block that holds whole one-second records, every word up to the end of the last record
  is read by the host as it was written, and nothing else changes.
\<close>

theorem big_endian_file_is_converted:
  assumes "6 \<le> length mem" and "mem ! 4 = 0" and "mem ! 5 = 0" and "6312 * blocks len \<le> length mem"
  shows "\<exists>mem'. to_host_order mem len = Some mem' \<and> length mem' = length mem \<and>
    (\<forall>i<1578 * blocks len. host32 mem' (4 * i) = wire32 mem (4 * i)) \<and>
    (\<forall>k<length mem. 6312 * blocks len \<le> k \<longrightarrow> mem' ! k = mem ! k)"
  using swap_words_inside [of 0 "1578 * blocks len" mem] big_endian_order [OF assms(1-3)] assms(4) by auto

text \<open>
  A big-endian file that does not end with a whole record is converted beyond the end of its
  block: as soon as two bytes are missing at the end of the last record, the words that
  the conversion loop touches do not all lie in the memory allocated for the file and the zero
  byte behind it.
\<close>

theorem partial_big_endian_file_overruns:
  assumes "6 \<le> length mem" and "mem ! 4 = 0" and "mem ! 5 = 0" and "length mem = len + 1"
    and "len mod 6312 \<noteq> 0" and "len mod 6312 < 6311"
  shows "to_host_order mem len = None"
proof -
  define q where "q = len div 6312"
  define r where "r = len mod 6312"
  have len: "len = 6312 * q + r" and r: "r \<noteq> 0" "r < 6311" using assms(5,6) by (simp_all add: q_def r_def)
  have "blocks len = Suc q" unfolding blocks_def using len r by (intro div_nat_eqI) auto
  then have "length mem < 0 + 4 * (1578 * blocks len)" using assms(4) len r by simp
  then show ?thesis
    unfolding big_endian_order [OF assms(1-3)] by (rule swap_words_outside) (simp add: \<open>blocks len = Suc q\<close>)
qed

subsection \<open>The search for the first directory\<close>

text \<open>The name of the directory for an hour since 1970, and what the server says of it.\<close>

definition hour_dir :: "nat \<Rightarrow> data_dir" where
  "hour_dir h = (let t = gmtime (86400 * (h div 24)) in
     \<lparr>year = of_int (tm_year t + 1900), month = of_int (tm_mon t + 1), day = of_int (tm_mday t),
      hour = of_nat (h mod 24), dirName = [], epochDay = of_nat (h div 24), dbID = 0, dir_state = unknown\<rparr>)"

definition dir_name_at :: "nat \<Rightarrow> string" where
  "dir_name_at h = createDirName_YrMonDayHr (hour_dir h)"

definition head_says :: "discovery_world \<Rightarrow> nat \<Rightarrow> curl_code \<Rightarrow> bool" where
  "head_says w h c \<longleftrightarrow> ftp_head (server w) (ftpAccessString (server w) @ dir_name_at h) = c"

definition searching :: "discovery \<Rightarrow> nat \<Rightarrow> bool" where
  "searching st h \<longleftrightarrow> dir_at (dataDir st) h \<and> dir_state (dataDir st) = proposed \<and>
     dirName (dataDir st) = dir_name_at h"

lemma dir_at_name:
  assumes "dir_at dd h"
  shows "createDirName_YrMonDayHr dd = dir_name_at h"
proof -
  have h: "h = 24 * unat (epochDay dd) + unat (hour dd)" "unat (hour dd) < 24"
    using assms by (simp_all add: dir_at_def)
  then have "h div 24 = unat (epochDay dd)" "h mod 24 = unat (hour dd)" by simp_all
  then show ?thesis
    using assms by (simp add: dir_name_at_def hour_dir_def createDirName_YrMonDayHr_def dir_at_def Let_def)
qed

lemma inc_fields:
  "dirName (fst (incDataDir now dd)) = createDirName_YrMonDayHr (fst (incDataDir now dd))"
  "dir_state (fst (incDataDir now dd)) = proposed"
  "snd (incDataDir now dd) = isDataDirAtPresent now (fst (incDataDir now dd))"
  by (simp_all add: incDataDir_def Let_def createDirName_YrMonDayHr_def)

lemma inc_searching:
  assumes "searching st h" and "3600 * (h + 1) < 2 ^ 31"
  shows "searching (st\<lparr>dataDir := fst (incDataDir now (dataDir st))\<rparr>) (h + 1)"
proof -
  have at: "dir_at (fst (incDataDir now (dataDir st))) (h + 1)"
    using assms by (intro inc_dir_at) (simp_all add: searching_def)
  then show ?thesis using dir_at_name [OF at] by (simp add: searching_def inc_fields)
qed

lemma absent_step:
  assumes "searching st h" and "head_says w h CURLE_OTHER" and "curl_init (server w)"
    and "clock w < 2 ^ 31" and "3600 * (h + 1) < 2 ^ 31"
  defines "st1 \<equiv> st\<lparr>dataDir := fst (incDataDir (clock w) (dataDir st))\<rparr>"
  shows "search_step w st = (if h + 1 = clock w div 3600 then Returns (st1\<lparr>dataDirValid := False\<rparr>) (Some DirOk)
                             else Returns st1 None)"
proof -
  have "searching st1 (h + 1)" unfolding st1_def by (rule inc_searching [OF assms(1,5)])
  then have at: "snd (incDataDir (clock w) (dataDir st)) = DATA_DIR_AT_PRESENT \<longleftrightarrow> h + 1 = clock w div 3600"
    using present_iff [OF _ assms(4), of "dataDir st1" "h + 1"]
    by (simp add: searching_def st1_def inc_fields(3))
  have "verifyDataDirPresent (server w) (dirName (dataDir st)) = Ok DIR_NOT_PRESENT"
    using assms(1-3) by (simp add: verifyDataDirPresent_def searching_def head_says_def)
  then have "search_step w st = search_absent w st"
    using assms(1) by (simp add: search_step_def searching_def search_verify_def of_run_def)
  then show ?thesis
    using assms(1) at by (simp add: search_absent_def searching_def st1_def case_prod_unfold Let_def)
qed

lemma absent_run:
  assumes "searching st h" and "\<forall>j<k. head_says w (h + j) CURLE_OTHER" and "curl_init (server w)"
    and "clock w < 2 ^ 31" and "3600 * (h + k) < 2 ^ 31" and "\<forall>j<k. h + j + 1 \<noteq> clock w div 3600"
  shows "\<exists>d. searching (st\<lparr>dataDir := d\<rparr>) (h + k) \<and>
    search_dirs (k + m) w st = search_dirs m w (st\<lparr>dataDir := d\<rparr>)"
  using assms
proof (induction k arbitrary: st h)
  case 0
  then show ?case by (intro exI [of _ "dataDir st"]) simp
next
  case (Suc k)
  let ?st1 = "st\<lparr>dataDir := fst (incDataDir (clock w) (dataDir st))\<rparr>"
  have b: "3600 * (h + 1) < 2 ^ 31" using Suc.prems(5) by simp
  have 0: "head_says w h CURLE_OTHER" "h + 1 \<noteq> clock w div 3600" using Suc.prems(2,6) by auto
  have step: "search_step w st = Returns ?st1 None"
    using absent_step [OF Suc.prems(1) 0(1) Suc.prems(3,4) b] 0(2) by simp
  have "\<forall>j<k. head_says w (h + 1 + j) CURLE_OTHER" "\<forall>j<k. h + 1 + j + 1 \<noteq> clock w div 3600"
    using Suc.prems(2,6) by auto
  from Suc.IH [OF inc_searching [OF Suc.prems(1) b] this(1) Suc.prems(3,4) _ this(2), of "clock w"] Suc.prems(5)
  obtain d where "searching (?st1\<lparr>dataDir := d\<rparr>) (h + 1 + k)"
    "search_dirs (k + m) w ?st1 = search_dirs m w (?st1\<lparr>dataDir := d\<rparr>)" by auto
  then show ?case using step by (intro exI [of _ d]) (simp add: searching_def)
qed

text \<open>
  C34: The search for the first directory ends at the first hour that the server has a directory
  for: when the directories of the hours \<open>h\<close> to \<open>h + k - 1\<close> are missing and the one of hour
  \<open>h + k\<close> is there, then after \<open>k + 1\<close> passes the search succeeds with exactly this directory,
  which is recorded once in the database as the current one, and whose key is its own.
\<close>

theorem search_finds_the_first_directory:
  assumes "searching st h" and "\<forall>j<k. head_says w (h + j) CURLE_OTHER" and "head_says w (h + k) CURLE_OK"
    and "curl_init (server w)" and "clock w < 2 ^ 31" and "3600 * (h + k) < 2 ^ 31"
    and "h + k < clock w div 3600 \<or> clock w div 3600 \<le> h"
    and "\<not> dbLocked st" and "\<not> dbThrows w AddDir" and "\<not> dbThrows w SelectNewDir" and "current_dirs st = []"
  shows "\<exists>st' r. search_dirs (k + 1) w st = Returns st' (Some DirOk) \<and> dir_at (dataDir st') (h + k) \<and>
    dataDirValid st' \<and> dir_state (dataDir st') = current \<and> \<not> dbLocked st' \<and> dirTable st' = dirTable st @ [r] \<and>
    dr_name r = dir_name_at (h + k) \<and> dr_state r = DirCurrent \<and> dbID (dataDir st') = dr_id r"
proof -
  have "\<forall>j<k. h + j + 1 \<noteq> clock w div 3600" using assms(7) by auto
  from absent_run [OF assms(1,2,4,5,6) this, of 1] obtain d where
    d: "searching (st\<lparr>dataDir := d\<rparr>) (h + k)" and run: "search_dirs (k + 1) w st = search_dirs 1 w (st\<lparr>dataDir := d\<rparr>)"
    by blast
  have "verifyDataDirPresent (server w) (dirName d) = Ok DIR_PRESENT"
    using d assms(3,4) by (simp add: verifyDataDirPresent_def searching_def head_says_def)
  then have step: "search_step w (st\<lparr>dataDir := d\<rparr>) = search_present w (st\<lparr>dataDir := d\<rparr>)"
    using d by (simp add: search_step_def searching_def search_verify_def of_run_def)
  show ?thesis
    unfolding run using d assms(8-11)
    by (simp add: step search_present_def searching_def acquireDBaccess_def db_call_def releaseDBaccess_def
        current_dirs_def add_dir_record_def dir_at_frame)
qed

text \<open>
  When no directory is there up to the present, the search ends with success at the hour
  of the clock, without a valid directory and without a record in the database.
\<close>

theorem search_waits_at_the_present:
  assumes "searching st h" and "h < clock w div 3600" and "\<forall>j. h \<le> j \<and> j < clock w div 3600 \<longrightarrow> head_says w j CURLE_OTHER"
    and "curl_init (server w)" and "clock w < 2 ^ 31"
  shows "\<exists>st'. search_dirs (clock w div 3600 - h) w st = Returns st' (Some DirOk) \<and>
    dir_at (dataDir st') (clock w div 3600) \<and> \<not> dataDirValid st' \<and> dirTable st' = dirTable st"
proof -
  define k where "k = clock w div 3600 - h - 1"
  have now: "clock w div 3600 = h + k + 1" and n: "clock w div 3600 - h = k + 1" using assms(2) by (simp_all add: k_def)
  have "3600 * (clock w div 3600) \<le> clock w" by simp
  then have b: "3600 * (h + k + 1) < 2 ^ 31" using assms(5) unfolding now by simp
  then have "3600 * (h + k) < 2 ^ 31" by simp
  moreover have "\<forall>j<k. head_says w (h + j) CURLE_OTHER" "\<forall>j<k. h + j + 1 \<noteq> clock w div 3600"
    using assms(3) now by auto
  ultimately obtain d where
    d: "searching (st\<lparr>dataDir := d\<rparr>) (h + k)" and run: "search_dirs (k + 1) w st = search_dirs 1 w (st\<lparr>dataDir := d\<rparr>)"
    using absent_run [OF assms(1) _ assms(4,5), of k 1] by blast
  have "head_says w (h + k) CURLE_OTHER" using assms(3) now by simp
  note step = absent_step [OF d this assms(4,5) b]
  show ?thesis
    using inc_searching [OF d b, of "clock w"] step now
    unfolding n run by (simp add: searching_def)
qed

text \<open>
  A search that starts at or after the hour of the clock overtakes it: as long as the server
  has no directory - and every error but a timeout counts as that - the search never ends,
  and it has reached hour \<open>h + k\<close> after \<open>k\<close> passes.
\<close>

theorem search_overtakes_the_clock:
  assumes "searching st h" and "clock w div 3600 \<le> h" and "\<forall>j<k. head_says w (h + j) CURLE_OTHER"
    and "curl_init (server w)" and "clock w < 2 ^ 31" and "3600 * (h + k) < 2 ^ 31"
  shows "\<exists>st'. search_dirs k w st = Returns st' None \<and> dir_at (dataDir st') (h + k)"
proof -
  have "\<forall>j<k. h + j + 1 \<noteq> clock w div 3600" using assms(2) by auto
  from absent_run [OF assms(1,3,4,5,6) this, of 0] show ?thesis by (auto simp: searching_def)
qed

subsection \<open>Errors at the start\<close>

text \<open>
  An exception of the database while the starting directory is looked up leaves the
  database mutex locked: the call reports that there is no directory, and whoever asks for the
  database next, in whatever state of the world, waits forever.
\<close>

theorem startup_error_keeps_the_database_locked:
  assumes "\<not> dbLocked st" and "dbThrows w SelectCurrentDir"
  shows "\<exists>st'. getCurrentDirectory n w st = Returns st' (Some NoDataDir) \<and> dbLocked st' \<and>
    acquireDBaccess st' = Blocks \<and> getCurrentDirectory m w' st' = Blocks \<and> getCurrentDataFileSet w' st' = Blocks"
  using assms
  by (auto simp: getCurrentDirectory_def load_directory_def acquireDBaccess_def db_call_def getCurrentDataFileSet_def)

subsection \<open>Concrete runs\<close>

definition big_endian_start :: "nat \<Rightarrow> bytes" where
  "big_endian_start n = [66, 5, 85, 85, 0, 0, 7, 226] @ replicate n 0"

theorem big_endian_file_is_converted_witness:
  "\<exists>mem'. to_host_order (big_endian_start 6305) 6312 = Some mem' \<and> host32 mem' 4 = 2018"
proof -
  have b: "blocks 6312 = 1" by (simp add: blocks_def)
  then obtain mem' where r: "to_host_order (big_endian_start 6305) 6312 = Some mem'"
    and w: "\<forall>i<1578. host32 mem' (4 * i) = wire32 (big_endian_start 6305) (4 * i)"
    using big_endian_file_is_converted [of "big_endian_start 6305" 6312] by (auto simp: big_endian_start_def)
  from w have "host32 mem' (4 * 1) = wire32 (big_endian_start 6305) (4 * 1)" by (rule allE [of _ 1]) simp
  moreover have "wire32 (big_endian_start 6305) 4 = 2018" by (simp add: big_endian_start_def wire32_def be32_def)
  ultimately show ?thesis using r by simp
qed

theorem partial_big_endian_file_overruns_witness: "to_host_order (big_endian_start 93) 100 = None"
  by (rule partial_big_endian_file_overruns) (simp_all add: big_endian_start_def)

definition searcher :: discovery where
  "searcher = (example_discovery False)
     \<lparr>dataDir := new_year_eve\<lparr>dirName := dir_name_at 438287, dir_state := proposed\<rparr>\<rparr>"

definition found_world :: discovery_world where
  "found_world = (example_world 1577850000)\<lparr>server := example_server\<lparr>ftp_head := (\<lambda>s.
     if s = ''ftp://upmu/upmu_data/2020/Month_01/Day_01/Hour_00/'' then CURLE_OK else CURLE_OTHER)\<rparr>\<rparr>"

lemma example_names:
  "dir_name_at 438287 = ''/upmu_data/2019/Month_12/Day_31/Hour_23/''"
  "dir_name_at 438288 = ''/upmu_data/2020/Month_01/Day_01/Hour_00/''"
  by (simp_all add: dir_name_at_def hour_dir_def gmtime_def split_years.simps split_months.simps year_length_def
      leap_year_def month_length_def createDirName_YrMonDayHr_def setw_def dec.simps digit_def char_of_def
      bit_Suc_0_iff DIRECTORY_PREFIX_def Let_def)

lemma searcher_searching: "searching searcher 438287"
  using example_dir by (simp add: searching_def searcher_def dir_at_def)

theorem search_finds_the_first_directory_witness:
  "\<exists>st'. search_dirs 2 found_world searcher = Returns st' (Some DirOk) \<and> dir_at (dataDir st') 438288 \<and>
     map dr_name (dirTable st') = [''/upmu_data/2020/Month_01/Day_01/Hour_00/'']"
proof -
  have "\<exists>st' r. search_dirs (1 + 1) found_world searcher = Returns st' (Some DirOk) \<and> dir_at (dataDir st') (438287 + 1) \<and>
    dataDirValid st' \<and> dir_state (dataDir st') = current \<and> \<not> dbLocked st' \<and> dirTable st' = dirTable searcher @ [r] \<and>
    dr_name r = dir_name_at (438287 + 1) \<and> dr_state r = DirCurrent \<and> dbID (dataDir st') = dr_id r"
    by (rule search_finds_the_first_directory [OF searcher_searching])
      (simp_all add: head_says_def found_world_def example_world_def example_server_def
        example_names searcher_def example_discovery_def current_dirs_def)
  then show ?thesis unfolding one_add_one by (auto simp: example_names searcher_def example_discovery_def)
qed

theorem search_waits_at_the_present_witness:
  "\<exists>st'. search_dirs 1 (example_world 1577838600) searcher = Returns st' (Some DirOk) \<and> dir_at (dataDir st') 438288"
proof -
  let ?w = "example_world 1577838600"
  have c: "clock ?w = 1577838600" by (simp add: example_world_def)
  have "\<exists>st'. search_dirs (clock ?w div 3600 - 438287) ?w searcher = Returns st' (Some DirOk) \<and>
    dir_at (dataDir st') (clock ?w div 3600) \<and> \<not> dataDirValid st' \<and> dirTable st' = dirTable searcher"
    by (rule search_waits_at_the_present [OF searcher_searching])
      (simp_all add: head_says_def example_world_def example_server_def)
  then show ?thesis unfolding c by auto
qed

theorem search_overtakes_the_clock_witness:
  "\<exists>st'. search_dirs 100000 (example_world 1577835000) searcher = Returns st' None \<and> dir_at (dataDir st') 538287"
  using search_overtakes_the_clock [OF searcher_searching, of "example_world 1577835000" 100000]
  by (simp add: head_says_def example_world_def example_server_def)

theorem startup_error_keeps_the_database_locked_witness:
  "\<exists>st'. getCurrentDirectory 5 ((example_world 1577835000)\<lparr>dbThrows := (\<lambda>q. q = SelectCurrentDir)\<rparr>) searcher =
       Returns st' (Some NoDataDir) \<and> acquireDBaccess st' = Blocks"
  using startup_error_keeps_the_database_locked
    [of searcher "(example_world 1577835000)\<lparr>dbThrows := (\<lambda>q. q = SelectCurrentDir)\<rparr>" 5]
  by (auto simp: searcher_def example_discovery_def)

end
