(* ===== verification/Ftp_System.thy ===== *)
theory Ftp_System
  imports Ftp_Startup Archive_Line
begin

text \<open>
  The FTP gateway at work: the discovery service, which fetches files and publishes them as shared
  buffers, and the services that take them, with the archiver in full. The queue of a service
  holds shared pointers; the archiver sees the buffers behind them. A step is a pass of the
  discovery, a pass of the archiver, or another service taking or releasing a buffer; the steps
  interleave in any order.
\<close>

subsection \<open>The system\<close>

record ftp_gateway =
  fg_discovery :: discovery
  fg_archiver :: archiver
  fg_accepted :: "bytes list"

definition pointers :: "service \<Rightarrow> nat list" where
  "pointers svc = (case inProcess svc of None \<Rightarrow> [] | Some i \<Rightarrow> [i]) @ dataQueue svc"

text \<open>The archiver with the buffers that its pointers lead to; a pointer to a buffer that is gone
  has no view.\<close>

definition archiver_view :: "service \<Rightarrow> buffer_pool \<Rightarrow> archiver \<Rightarrow> archiver option" where
  "archiver_view svc p a = do {
     q \<leftarrow> those (map (live p) (dataQueue svc));
     b \<leftarrow> (case inProcess svc of None \<Rightarrow> Some None | Some i \<Rightarrow> map_option Some (live p i));
     Some (a\<lparr>dataQ := q, dataBuf := b\<rparr>) }"

text \<open>What a pass from \<open>a\<close> to \<open>a'\<close> does with the pointers: \<open>front\<close> and \<open>pop\<close>, and \<open>reset\<close>.\<close>

definition follow_pointers :: "archiver \<Rightarrow> archiver \<Rightarrow> service \<Rightarrow> buffer_pool \<Rightarrow> (service \<times> buffer_pool) option" where
  "follow_pointers a a' svc p = do {
     svc1 \<leftarrow> (if length (dataQ a') < length (dataQ a) then service_take svc else Some svc);
     (if inProcess svc1 \<noteq> None \<and> dataBuf a' = None then service_release svc1 p else Some (svc1, p)) }"

definition with_service :: "nat \<Rightarrow> service \<times> buffer_pool \<Rightarrow> discovery \<Rightarrow> discovery" where
  "with_service k sp d = d\<lparr>services := (services d)[k := fst sp], pool := snd sp\<rparr>"

text \<open>The files that a pass of the discovery has put at the end of the queue of service \<open>j\<close>.\<close>

definition new_files :: "nat \<Rightarrow> discovery \<Rightarrow> discovery \<Rightarrow> bytes list" where
  "new_files j d d' = map (\<lambda>i. dataBuffer (the (live (pool d') i)))
     (drop (length (dataQueue (services d ! j))) (dataQueue (services d' ! j)))"

inductive ftp_step ::
  "nat \<Rightarrow> (surroundings \<Rightarrow> bool) \<Rightarrow> (discovery_world \<Rightarrow> bool) \<Rightarrow> ftp_gateway \<Rightarrow> ftp_gateway \<Rightarrow> bool" for j G W where
  discovery_runs: "W w \<Longrightarrow> processUPMUdata w (fg_discovery s) = Returns d r \<Longrightarrow>
    ftp_step j G W s (s\<lparr>fg_discovery := d, fg_accepted := fg_accepted s @ new_files j (fg_discovery s) d\<rparr>)"
| archiver_runs: "G e \<Longrightarrow> fg_discovery s = d \<Longrightarrow> archiver_view (services d ! j) (pool d) (fg_archiver s) = Some a \<Longrightarrow>
    archiver_pass_ftp e a = Ok a' \<Longrightarrow> follow_pointers a a' (services d ! j) (pool d) = Some sp \<Longrightarrow>
    ftp_step j G W s (s\<lparr>fg_discovery := with_service j sp d, fg_archiver := a'\<rparr>)"
| other_takes: "fg_discovery s = d \<Longrightarrow> k \<noteq> j \<Longrightarrow> k < length (services d) \<Longrightarrow> service_take (services d ! k) = Some svc \<Longrightarrow>
    ftp_step j G W s (s\<lparr>fg_discovery := with_service k (svc, pool d) d\<rparr>)"
| other_releases: "fg_discovery s = d \<Longrightarrow> k \<noteq> j \<Longrightarrow> k < length (services d) \<Longrightarrow>
    service_release (services d ! k) (pool d) = Some sp \<Longrightarrow>
    ftp_step j G W s (s\<lparr>fg_discovery := with_service k sp d\<rparr>)"

subsection \<open>Files\<close>

definition file_dates :: "bytes \<Rightarrow> bool" where
  "file_dates bs \<longleftrightarrow> list_all (\<lambda>k. date_ok (ftp_time bs (6312 * k)) \<and> tm_epoch (ftp_time bs (6312 * k)) < 2147483648)
     [0..<length bs div 6312]"

text \<open>The times, in milliseconds, of the rows of a file; a file that is not of whole seconds is dropped.\<close>

definition file_times :: "bytes \<Rightarrow> u64 list" where
  "file_times bs = (if length bs mod 6312 = 0
     then map (\<lambda>k. of_int (tm_epoch (ftp_time bs (6312 * k))) * 1000) [0..<length bs div 6312] else [])"

definition ftp_spec :: archive_spec where
  "ftp_spec = \<lparr>as_wf = wf_ftp, as_records = records_ftp,
     as_sane = (\<lambda>b. length (dataBuffer b) = unat (byteLen b) \<and> (unat (byteLen b) mod 6312 = 0 \<longrightarrow> file_dates (dataBuffer b))),
     as_stamps = file_times\<rparr>"

lemma ftp_spec_simps:
  "as_wf ftp_spec = wf_ftp" "as_records ftp_spec = records_ftp" "as_stamps ftp_spec = file_times"
  "as_sane ftp_spec b \<longleftrightarrow> length (dataBuffer b) = unat (byteLen b) \<and> (unat (byteLen b) mod 6312 = 0 \<longrightarrow> file_dates (dataBuffer b))"
  by (simp_all add: ftp_spec_def)

lemma wf_ftp_iff: "wf_ftp b \<longleftrightarrow> as_sane ftp_spec b \<and> unat (byteLen b) mod 6312 = 0"
  by (auto simp: wf_ftp_def ftp_spec_simps file_dates_def records_ftp_def)

lemma ftp_spec_by_content: "by_content ftp_spec"
  unfolding by_content_def
proof (intro allI impI)
  fix b b' assume "same_data b b'"
  then have "byteLen b' = byteLen b" "dataBuffer b' = dataBuffer b" by (simp_all add: same_data_def)
  then show "as_wf ftp_spec b' = as_wf ftp_spec b \<and> as_records ftp_spec b' = as_records ftp_spec b \<and> as_sane ftp_spec b' = as_sane ftp_spec b"
    by (simp add: ftp_spec_simps wf_ftp_def records_ftp_def)
qed

text \<open>A world in which a file can be archived, and one whose server has files with dates before 2038.\<close>

definition file_up :: "surroundings \<Rightarrow> bool" where
  "file_up e \<longleftrightarrow> good_ftp e \<and> mallocSucceeds e \<and> insertOk e"

definition files_dated :: "discovery_world \<Rightarrow> bool" where
  "files_dated w \<longleftrightarrow> (\<forall>buf len. fetched w buf len \<and> length buf mod 6312 = 0 \<longrightarrow> file_dates buf)"

interpretation ftp_line: archive_line preProcessData_ftp processData_ftp good_ftp ftp_spec row_ftp file_up
proof (intro archive_line.intro archive_line_axioms.intro)
  show "record_processor preProcessData_ftp processData_ftp good_ftp (as_wf ftp_spec) (as_records ftp_spec) row_ftp archiver_stats_ready"
    using ftp_archiver.record_processor_axioms by (simp add: ftp_spec_simps)
  show "file_up e \<Longrightarrow> good_ftp e" for e by (simp add: file_up_def)
next
  fix e b k
  assume a: "file_up e" "as_wf ftp_spec b" "k < as_records ftp_spec b"
  then have "length (dataBuffer b) = unat (byteLen b)" "unat (byteLen b) mod 6312 = 0" "k < unat (byteLen b) div 6312"
    by (simp_all add: ftp_spec_simps wf_ftp_def records_ftp_def)
  then show "map row_timestamp_msec (row_ftp e b k) = [as_stamps ftp_spec (dataBuffer b) ! k]"
    using a(1) by (simp add: row_ftp_def insert_row_def file_up_def file_times_def ftp_spec_simps Let_def)
next
  fix b
  assume "as_wf ftp_spec b"
  then show "length (as_stamps ftp_spec (dataBuffer b)) = as_records ftp_spec b"
    by (simp add: ftp_spec_simps wf_ftp_def records_ftp_def file_times_def)
next
  fix b
  assume "as_sane ftp_spec b" "\<not> as_wf ftp_spec b"
  then show "as_stamps ftp_spec (dataBuffer b) = []"
    using wf_ftp_iff [of b] by (simp add: ftp_spec_simps file_times_def)
next
  fix e b and st :: archiver
  assume "as_sane ftp_spec b" "\<not> as_wf ftp_spec b" "archiver_stats_ready (stats st)"
  then show "preProcessData_ftp e b st = Ok (st\<lparr>bpr := (bpr st)\<lparr>numRecords := - 1\<rparr>\<rparr>, - 1)"
    using wf_ftp_iff [of b] by (simp add: ftp_spec_simps preProcessData_ftp_def whole_seconds count_spec_ready)
qed

lemma swap_words_length: "swap_words mem p n = Some mem' \<Longrightarrow> length mem' = length mem"
  by (induction n arbitrary: mem p) (auto simp: bind_eq_Some_conv dest!: put_bytes_length)

lemma to_host_order_length: "to_host_order mem len = Some mem' \<Longrightarrow> length mem' = length mem"
  by (auto simp: to_host_order_def bind_eq_Some_conv swap_seconds_words dest: swap_words_length split: if_splits)

lemma fetched_sane:
  assumes "fetched w buf len" "files_dated w"
  shows "as_sane ftp_spec \<lparr>byteLen = len, dataBuffer = buf, use_count = n\<rparr>"
proof -
  from assms(1) obtain content mem where c: "len = of_nat (length content)" "buf = take (unat len) mem"
    and m: "to_host_order (if content = [] then heap_garbage w else content @ [0]) (unat len) = Some mem"
    unfolding fetched_def by blast
  have "unat len \<le> length content" by (simp add: c(1) unat_of_nat take_bit_eq_mod)
  then have "unat len \<le> length mem" using to_host_order_length [OF m] by (cases "content = []") simp_all
  then have "length buf = unat len" by (simp add: c(2))
  then show ?thesis using assms by (auto simp: ftp_spec_simps files_dated_def)
qed

subsection \<open>Pointers and buffers\<close>

definition buf_at :: "buffer_pool \<Rightarrow> nat \<Rightarrow> data_buffer" where
  "buf_at p i = the (live p i)"

definition seen :: "service \<Rightarrow> buffer_pool \<Rightarrow> archiver \<Rightarrow> archiver" where
  "seen svc p a = a\<lparr>dataQ := map (buf_at p) (dataQueue svc), dataBuf := map_option (buf_at p) (inProcess svc)\<rparr>"

lemma seen_simps [simp]:
  "dataQ (seen svc p a) = map (buf_at p) (dataQueue svc)" "dataBuf (seen svc p a) = map_option (buf_at p) (inProcess svc)"
  "processingBuffer (seen svc p a) = processingBuffer a" "rows (seen svc p a) = rows a"
  by (simp_all add: seen_def)

lemma pointer_live:
  assumes "pool_ok (\<lambda>_. 0) ss p" "j < length ss" "i \<in> set (pointers (ss ! j))"
  shows "live p i = Some (buf_at p i)"
proof -
  have "0 < refs_in i (ss ! j)"
    using assms(3) by (auto simp: refs_in_def pointers_def count_list_0_iff simp flip: neq0_conv split: option.splits)
  moreover have "refs_in i (ss ! j) \<le> refs i ss"
    unfolding refs_def by (rule member_le_sum_list) (use assms(2) in auto)
  ultimately show ?thesis using pool_okD(1) [OF assms(1), of i] by (cases "live p i") (auto simp: buf_at_def)
qed

lemma view_seen:
  assumes "pool_ok (\<lambda>_. 0) ss p" "j < length ss"
  shows "archiver_view (ss ! j) p a = Some (seen (ss ! j) p a)"
proof -
  have "those (map (live p) (dataQueue (ss ! j))) = Some (map (buf_at p) (dataQueue (ss ! j)))"
    using pointer_live [OF assms] by (intro those_all) (simp add: pointers_def)
  moreover have "live p i = Some (buf_at p i)" if "inProcess (ss ! j) = Some i" for i
    using pointer_live [OF assms] that by (simp add: pointers_def)
  ultimately show ?thesis by (auto simp: archiver_view_def seen_def split: option.splits)
qed

lemma ptr_reset_same:
  assumes "ptr_reset i p = Some p'" "live p' k = Some b'"
  shows "same_data (buf_at p k) b'" "buf_at p' k = b'"
  using assms by (auto simp: ptr_reset_def delete_serviceDataBuffer_def same_data_def buf_at_def split: option.splits if_splits)

text \<open>The archiver and the pointers agree: what was accepted is archived, held or waiting.\<close>

definition agrees :: "bytes list \<Rightarrow> service \<Rightarrow> buffer_pool \<Rightarrow> archiver \<Rightarrow> bool" where
  "agrees acc svc p a \<longleftrightarrow> distinct (pointers svc) \<and> (processingBuffer a \<longleftrightarrow> inProcess svc \<noteq> None) \<and>
     archived ftp_spec acc (seen svc p a)"

lemma same_data_refl [simp]: "same_data b b"
  by (simp add: same_data_def)

lemma agrees_pool:
  assumes "agrees acc svc p a" "\<And>i. i \<in> set (pointers svc) \<Longrightarrow> same_data (buf_at p i) (buf_at p' i)"
  shows "agrees acc svc p' a"
proof -
  have "list_all2 same_data (dataQ (seen svc p a)) (map (buf_at p') (dataQueue svc))"
    using assms(2) by (simp add: list_all2_map1 list_all2_map2 list_all2_same pointers_def)
  moreover have "rel_option same_data (dataBuf (seen svc p a)) (map_option (buf_at p') (inProcess svc))"
    using assms(2) by (cases "inProcess svc") (simp_all add: pointers_def)
  ultimately have "archived ftp_spec acc ((seen svc p a)\<lparr>dataQ := map (buf_at p') (dataQueue svc), dataBuf := map_option (buf_at p') (inProcess svc)\<rparr>)"
    using assms(1) by (intro archived_same_data [OF _ ftp_spec_by_content]) (simp_all add: agrees_def)
  then show ?thesis using assms(1) by (simp add: agrees_def seen_def)
qed

text \<open>After a reset, on all pointers that still lead to a buffer.\<close>

lemma agrees_reset:
  assumes "agrees acc svc p a" "ptr_reset i p = Some p'" "pool_ok (\<lambda>_. 0) ss p'" "j < length ss" "ss ! j = svc"
  shows "agrees acc svc p' a"
proof (rule agrees_pool [OF assms(1)])
  fix k assume "k \<in> set (pointers svc)"
  then have "live p' k = Some (buf_at p' k)" using pointer_live [OF assms(3,4)] assms(5) by simp
  from ptr_reset_same(1) [OF assms(2) this] show "same_data (buf_at p k) (buf_at p' k)" .
qed

lemma agrees_publish:
  assumes "agrees acc svc p a" "\<And>i. i \<in> set (pointers svc) \<Longrightarrow> live p i = Some (buf_at p i)"
    and "live p' = (live p)(n \<mapsto> b)" "live p n = None" "as_sane ftp_spec b" "\<not> data_queue_full (dataQueue svc)"
  shows "agrees (acc @ [dataBuffer b]) (svc\<lparr>dataQueue := dataQueue svc @ [n]\<rparr>) p' a"
proof -
  have n: "n \<notin> set (pointers svc)" using assms(2,4) by auto
  have old: "buf_at p' i = buf_at p i" if "i \<in> set (pointers svc)" for i
    using that n assms(3) by (auto simp: buf_at_def)
  have len: "length (dataQueue svc) \<le> 16" using assms(1) by (simp add: agrees_def archived_from_def)
  then have "length (dataQueue svc) \<noteq> 16" using assms(6) full_iff [of "dataQueue svc"] by simp
  then have "archived ftp_spec (acc @ [dataBuffer b]) ((seen svc p a)\<lparr>dataQ := dataQ (seen svc p a) @ [b]\<rparr>)"
    using assms(1,5) len by (intro archived_accept) (simp_all add: agrees_def)
  moreover have "seen (svc\<lparr>dataQueue := dataQueue svc @ [n]\<rparr>) p' a = (seen svc p a)\<lparr>dataQ := dataQ (seen svc p a) @ [b]\<rparr>"
  proof -
    have q: "map (buf_at p') (dataQueue svc) = map (buf_at p) (dataQueue svc)" using old by (auto simp: pointers_def)
    have c: "map_option (buf_at p') (inProcess svc) = map_option (buf_at p) (inProcess svc)"
      using old by (cases "inProcess svc") (simp_all add: pointers_def)
    have "buf_at p' n = b" using assms(3) by (simp add: buf_at_def)
    then show ?thesis using q c by (simp add: seen_def del: map_eq_conv)
  qed
  moreover have "distinct (pointers (svc\<lparr>dataQueue := dataQueue svc @ [n]\<rparr>))"
    using assms(1) n by (auto simp: agrees_def pointers_def split: option.splits)
  ultimately show ?thesis using assms(1) by (simp add: agrees_def)
qed

subsection \<open>Any interleaving\<close>

definition gateway_ok :: "nat \<Rightarrow> ftp_gateway \<Rightarrow> bool" where
  "gateway_ok j s \<longleftrightarrow> (let d = fg_discovery s in j < length (services d) \<and> buffers_ok d \<and>
     agrees (fg_accepted s) (services d ! j) (pool d) (fg_archiver s))"

lemma discovery_keeps:
  assumes "gateway_ok j s" "processUPMUdata w (fg_discovery s) = Returns d r" "files_dated w"
  shows "gateway_ok j (s\<lparr>fg_discovery := d, fg_accepted := fg_accepted s @ new_files j (fg_discovery s) d\<rparr>)"
proof -
  let ?d = "fg_discovery s"
  let ?svc = "services ?d ! j" and ?p = "pool ?d"
  have j: "j < length (services ?d)" and ok: "buffers_ok ?d" and pool: "pool_ok (\<lambda>_. 0) (services ?d) ?p"
    and ag: "agrees (fg_accepted s) ?svc ?p (fg_archiver s)"
    using assms(1) by (simp_all add: gateway_ok_def buffers_ok_def Let_def)
  have "feeding_step ?d d" using assms(2) by (rule feeding_step.pass)
  then have ok': "buffers_ok d" using ok by (rule feeding_keeps_buffers)
  from pass_publishes [OF assms(2)]
  consider "services d = services ?d" "pool d = ?p"
    | buf len where "fetched w buf len" "postProcessUPMUdata buf len (services ?d) ?p = Some (services d, pool d)"
    by (auto simp: publishes_one_def)
  then show ?thesis
  proof cases
    case 1
    then show ?thesis using j ok' ag by (simp add: gateway_ok_def new_files_def)
  next
    case 2
    let ?n = "next_id ?p" and ?b = "\<lparr>byteLen = len, dataBuffer = buf, use_count = length (filter takes_buffer (services ?d))\<rparr>"
    from publish_spec [OF pool, of buf len] 2(2)
    have svcs: "services d = map (\<lambda>s. if takes_buffer s then s\<lparr>dataQueue := dataQueue s @ [?n]\<rparr> else s) (services ?d)"
      and live: "live (pool d) = (live ?p)(?n := if filter takes_buffer (services ?d) = [] then None else Some ?b)" by auto
    have free: "live ?p ?n = None" using pool_okD(3) [OF pool order_refl] .
    show ?thesis
    proof (cases "takes_buffer ?svc")
      case True
      then have "filter takes_buffer (services ?d) \<noteq> []" using j by (auto simp: filter_empty_conv)
      then have new: "live (pool d) = (live ?p)(?n \<mapsto> ?b)" by (simp add: live)
      have svc: "services d ! j = ?svc\<lparr>dataQueue := dataQueue ?svc @ [?n]\<rparr>" using j True by (simp add: svcs)
      have "agrees (fg_accepted s @ [dataBuffer ?b]) (?svc\<lparr>dataQueue := dataQueue ?svc @ [?n]\<rparr>) (pool d) (fg_archiver s)"
        using True by (intro agrees_publish [OF ag pointer_live [OF pool j] new free fetched_sane [OF 2(1) assms(3)]])
          (simp_all add: takes_buffer_def)
      then show ?thesis using j ok' True by (simp add: gateway_ok_def svcs svc new_files_def new)
    next
      case False
      have svc: "services d ! j = ?svc" using j False by (simp add: svcs)
      have "agrees (fg_accepted s) ?svc (pool d) (fg_archiver s)"
      proof (rule agrees_pool [OF ag])
        fix i assume "i \<in> set (pointers ?svc)"
        then have "live ?p i \<noteq> None" using pointer_live [OF pool j] by simp
        then have "i \<noteq> ?n" using free by auto
        then show "same_data (buf_at ?p i) (buf_at (pool d) i)" by (simp add: buf_at_def live)
      qed
      then show ?thesis using j ok' False by (simp add: gateway_ok_def svcs svc new_files_def)
    qed
  qed
qed

lemma other_takes_keeps:
  assumes "gateway_ok j s" "fg_discovery s = d" "k \<noteq> j" "k < length (services d)" "service_take (services d ! k) = Some svc"
  shows "gateway_ok j (s\<lparr>fg_discovery := with_service k (svc, pool d) d\<rparr>)"
proof -
  have "feeding_step d (with_service k (svc, pool d) d)"
    using feeding_step.take [OF assms(4,5)] by (simp add: with_service_def)
  then have "buffers_ok (with_service k (svc, pool d) d)"
    using feeding_keeps_buffers assms(1,2) by (auto simp: gateway_ok_def Let_def)
  then show ?thesis using assms(1-3) by (simp add: gateway_ok_def with_service_def Let_def)
qed

lemma other_releases_keeps:
  assumes "gateway_ok j s" "fg_discovery s = d" "k \<noteq> j" "k < length (services d)" "service_release (services d ! k) (pool d) = Some sp"
  shows "gateway_ok j (s\<lparr>fg_discovery := with_service k sp d\<rparr>)"
proof -
  obtain svc p where sp: "sp = (svc, p)" by (cases sp)
  let ?d = "with_service k sp d"
  have "feeding_step d ?d" using feeding_step.release [OF assms(4)] assms(5) by (simp add: with_service_def sp)
  then have ok: "buffers_ok ?d" using feeding_keeps_buffers assms(1,2) by (auto simp: gateway_ok_def Let_def)
  obtain i where i: "ptr_reset i (pool d) = Some p"
    using assms(5) by (auto simp: service_release_def sp bind_eq_Some_conv split: option.splits)
  have "agrees (fg_accepted s) (services d ! j) p (fg_archiver s)"
    by (rule agrees_reset [OF _ i, of _ _ _ "services ?d" j])
      (use assms(1-3) ok in \<open>simp_all add: gateway_ok_def with_service_def sp buffers_ok_def Let_def\<close>)
  then show ?thesis using assms(1-3) ok by (simp add: gateway_ok_def with_service_def sp Let_def)
qed

text \<open>A pass of the archiver, by the effect that it has on the buffers.\<close>

lemma take_then_release:
  assumes "buffers_ok d" "j < length (services d)" "service_take (services d ! j) = Some svc1"
  shows "buffers_ok (with_service j (svc1, pool d) d)"
    and "service_release svc1 (pool d) = Some sp \<Longrightarrow> buffers_ok (with_service j sp d)"
proof -
  let ?d1 = "d\<lparr>services := (services d)[j := svc1]\<rparr>"
  have "feeding_step d ?d1" by (rule feeding_step.take [OF assms(2,3)])
  then have ok: "buffers_ok ?d1" using assms(1) by (rule feeding_keeps_buffers)
  then show "buffers_ok (with_service j (svc1, pool d) d)" by (simp add: with_service_def buffers_ok_def)
  assume r: "service_release svc1 (pool d) = Some sp"
  have "feeding_step ?d1 (?d1\<lparr>services := (services ?d1)[j := fst sp], pool := snd sp\<rparr>)"
    by (rule feeding_step.release) (use assms(2) r in simp_all)
  then have "buffers_ok (?d1\<lparr>services := (services ?d1)[j := fst sp], pool := snd sp\<rparr>)" using ok by (rule feeding_keeps_buffers)
  then show "buffers_ok (with_service j sp d)" by (simp add: with_service_def buffers_ok_def)
qed

lemma agrees_after_release:
  assumes "archived ftp_spec acc a'" "dataQ a' = map (buf_at p) (dataQueue svc')" "dataBuf a' = None" "\<not> processingBuffer a'"
    and "distinct (pointers svc')" "inProcess svc' = None" "ptr_reset i p = Some p'"
    and "buffers_ok (with_service j (svc', p') d)" "j < length (services d)"
  shows "agrees acc svc' p' a'"
proof (rule agrees_reset [OF _ assms(7)])
  have "seen svc' p a' = a'" using assms(2,3,6) by (simp add: seen_def)
  then show "agrees acc svc' p a'" using assms(1,4-6) by (simp add: agrees_def)
  show "pool_ok (\<lambda>_. 0) (services (with_service j (svc', p') d)) p'"
    using assms(8) by (simp add: buffers_ok_def with_service_def)
  show "j < length (services (with_service j (svc', p') d))" "services (with_service j (svc', p') d) ! j = svc'"
    using assms(9) by (simp_all add: with_service_def)
qed

lemma archiver_keeps:
  assumes "gateway_ok j s" "fg_discovery s = d" "archiver_view (services d ! j) (pool d) (fg_archiver s) = Some a"
    and "archiver_pass_ftp e a = Ok a'" "file_up e" "follow_pointers a a' (services d ! j) (pool d) = Some sp"
  shows "gateway_ok j (s\<lparr>fg_discovery := with_service j sp d, fg_archiver := a'\<rparr>)"
proof -
  let ?svc = "services d ! j" and ?p = "pool d" and ?acc = "fg_accepted s"
  have j: "j < length (services d)" and ok: "buffers_ok d" and pool: "pool_ok (\<lambda>_. 0) (services d) ?p"
    and ag: "agrees ?acc ?svc ?p (fg_archiver s)"
    using assms(1,2) by (simp_all add: gateway_ok_def buffers_ok_def Let_def)
  have a: "a = seen ?svc ?p (fg_archiver s)" using assms(3) view_seen [OF pool j] by simp
  have "archived ftp_spec ?acc a" using ag by (simp add: a agrees_def)
  from ftp_line.pass_keeps_archived [OF this assms(5) assms(4) [unfolded archiver_pass_ftp_def]]
  have arch: "archived ftp_spec ?acc a'" and eff: "pass_effect a a'" by simp_all
  have busy: "processingBuffer a \<longleftrightarrow> inProcess ?svc \<noteq> None" and dist: "distinct (pointers ?svc)" using ag by (simp_all add: a agrees_def)
  obtain svc p where sp: "sp = (svc, p)" by (cases sp)
  have "buffers_ok (with_service j sp d) \<and> agrees ?acc svc p a'"
  proof (cases "processingBuffer a")
    case True
    then obtain i where i: "inProcess ?svc = Some i" using busy by blast
    from eff True have q: "dataQ a' = map (buf_at ?p) (dataQueue ?svc)" by (simp add: pass_effect_def a)
    show ?thesis
    proof (cases "processingBuffer a'")
      case t: True
      then have b: "dataBuf a' = Some (buf_at ?p i)" using eff True i by (simp add: pass_effect_def a)
      have sp': "svc = ?svc" "p = ?p" using assms(6) q b i by (auto simp: follow_pointers_def a sp)
      have "seen ?svc ?p a' = a'" using q b i by (simp add: seen_def)
      then show ?thesis using arch dist t i ok j by (simp add: agrees_def sp sp' with_service_def)
    next
      case f: False
      then have b: "dataBuf a' = None" using eff True by (simp add: pass_effect_def)
      have rel: "service_release ?svc ?p = Some (svc, p)" using assms(6) q b i by (simp add: follow_pointers_def a sp)
      then have svc: "svc = ?svc\<lparr>inProcess := None\<rparr>" and reset: "ptr_reset i ?p = Some p"
        using i by (auto simp: service_release_def bind_eq_Some_conv)
      have "feeding_step d (with_service j sp d)" using feeding_step.release [OF j rel] by (simp add: with_service_def sp)
      then have ok': "buffers_ok (with_service j sp d)" using ok by (rule feeding_keeps_buffers)
      have "agrees ?acc svc p a'"
        by (rule agrees_after_release [OF arch _ b f _ _ reset ok' [unfolded sp] j])
          (use q dist i in \<open>simp_all add: svc pointers_def\<close>)
      then show ?thesis using ok' by simp
    qed
  next
    case False
    then have n: "inProcess ?svc = None" using busy by blast
    show ?thesis
    proof (cases "dataQueue ?svc")
      case Nil
      then have b: "dataQ a' = []" "dataBuf a' = None" "\<not> processingBuffer a'" using eff False n by (simp_all add: pass_effect_def a)
      have sp': "svc = ?svc" "p = ?p" using assms(6) b n Nil by (auto simp: follow_pointers_def a sp)
      have "seen ?svc ?p a' = a'" using b n Nil by (simp add: seen_def)
      then show ?thesis using arch dist b n ok j by (simp add: agrees_def sp sp' with_service_def)
    next
      case (Cons i q)
      let ?svc1 = "?svc\<lparr>dataQueue := q, inProcess := Some i\<rparr>"
      have b: "dataQ a' = map (buf_at ?p) q" "dataBuf a' = (if processingBuffer a' then Some (buf_at ?p i) else None)"
        using eff False Cons by (simp_all add: pass_effect_def a)
      have take: "service_take ?svc = Some ?svc1" using n Cons by (simp add: service_take_def)
      show ?thesis
      proof (cases "processingBuffer a'")
        case True
        have sp': "svc = ?svc1" "p = ?p" using assms(6) b True take Cons by (auto simp: follow_pointers_def a sp)
        have "seen ?svc1 ?p a' = a'" using b True by (simp add: seen_def)
        then show ?thesis
          using arch dist True n Cons take_then_release(1) [OF ok j take] by (simp add: agrees_def sp sp' pointers_def)
      next
        case f: False
        have rel: "service_release ?svc1 ?p = Some (svc, p)" using assms(6) b f take Cons by (simp add: follow_pointers_def a sp)
        then have svc: "svc = ?svc1\<lparr>inProcess := None\<rparr>" and reset: "ptr_reset i ?p = Some p"
          by (auto simp: service_release_def bind_eq_Some_conv)
        have ok': "buffers_ok (with_service j sp d)" using take_then_release(2) [OF ok j take rel] by (simp add: sp)
        have "agrees ?acc svc p a'"
          by (rule agrees_after_release [OF arch _ _ f _ _ reset ok' [unfolded sp] j])
            (use b f dist n Cons in \<open>simp_all add: svc pointers_def\<close>)
        then show ?thesis using ok' by simp
      qed
    qed
  qed
  then show ?thesis using j by (simp add: gateway_ok_def sp with_service_def Let_def)
qed

lemma ftp_step_keeps:
  assumes "ftp_step j G W s s'" "gateway_ok j s" "\<forall>e. G e \<longrightarrow> file_up e" "\<forall>w. W w \<longrightarrow> files_dated w"
  shows "gateway_ok j s'"
  using assms(1)
proof (cases rule: ftp_step.cases)
  case (discovery_runs w d r)
  then show ?thesis using discovery_keeps assms(2,4) by blast
next
  case (archiver_runs e d a a' sp)
  then show ?thesis using archiver_keeps assms(2,3) by blast
next
  case (other_takes d k svc)
  then show ?thesis using other_takes_keeps assms(2) by blast
next
  case (other_releases d k sp)
  then show ?thesis using other_releases_keeps assms(2) by blast
qed

lemma pointers_in_memory:
  assumes "gateway_ok j s"
  shows "length (pointers (services (fg_discovery s) ! j)) \<le> 6"
proof -
  let ?d = "fg_discovery s"
  have j: "j < length (services ?d)" and pool: "pool_ok (\<lambda>_. 0) (services ?d) (pool ?d)"
    and six: "card (dom (live (pool ?d))) \<le> 6" and dist: "distinct (pointers (services ?d ! j))"
    using assms by (simp_all add: gateway_ok_def buffers_ok_def agrees_def Let_def)
  have "set (pointers (services ?d ! j)) \<subseteq> dom (live (pool ?d))" using pointer_live [OF pool j] by blast
  then have "card (set (pointers (services ?d ! j))) \<le> 6"
    using card_mono [OF pool_ok_finite [OF pool]] six by (meson order_trans)
  then show ?thesis using dist by (simp add: distinct_card)
qed

lemma gateway_split:
  assumes "gateway_ok j s"
  shows "\<exists>past k held waiting. fg_accepted s = past @ held @ waiting \<and> length held \<le> 1 \<and> length (held @ waiting) \<le> 6 \<and>
    map row_timestamp_msec (rows (fg_archiver s)) = concat (map file_times past) @ take k (concat (map file_times held))"
proof -
  let ?d = "fg_discovery s" let ?a = "seen (services ?d ! j) (pool ?d) (fg_archiver s)"
  from assms have "archived ftp_spec (fg_accepted s) ?a" and busy: "processingBuffer ?a \<longleftrightarrow> inProcess (services ?d ! j) \<noteq> None"
    by (simp_all add: gateway_ok_def agrees_def Let_def)
  then obtain past held where h: "holds ftp_spec ?a held" and acc: "fg_accepted s = past @ held_bytes held @ map dataBuffer (dataQ ?a)"
    and r: "map row_timestamp_msec (rows (fg_archiver s)) = times_of ftp_spec past @ held_times ftp_spec held"
    by (auto simp: archived_from_def)
  have "length (held_bytes held @ map dataBuffer (dataQ ?a)) = length (pointers (services ?d ! j))"
    using h busy by (auto simp: holds_def held_bytes_def pointers_def split: if_splits)
  then have six: "length (held_bytes held @ map dataBuffer (dataQ ?a)) \<le> 6" using pointers_in_memory [OF assms] by simp
  have one: "length (held_bytes held) \<le> 1" by (simp add: held_bytes_def split: option.split)
  obtain k where "held_times ftp_spec held = take k (concat (map file_times (held_bytes held)))"
    by (cases held) (auto simp: held_times_def held_bytes_def ftp_spec_simps)
  with acc r six one show ?thesis
    by (intro exI [of _ past] exI [of _ k] exI [of _ "held_bytes held"] exI [of _ "map dataBuffer (dataQ ?a)"])
      (simp add: times_of_def ftp_spec_simps)
qed

text \<open>C4: From the FTP server to the archive no file is lost, repeated or reordered, however the
  discovery, the archiver and the other services interleave, as long as Cassandra is there - it takes
  every insert, and every \<open>malloc\<close> succeeds - and the files of the server have dates before 2038. The
  rows of the archive are, with their times and in order, the seconds of the files that the
  archiver was given, without those that are still under way; these are at most six, one of them
  in the hands of the archiver and partly written.\<close>

theorem files_are_archived_in_order:
  assumes "(ftp_step j G W)\<^sup>*\<^sup>* s0 s" "gateway_ok j s0" "\<forall>e. G e \<longrightarrow> file_up e" "\<forall>w. W w \<longrightarrow> files_dated w"
  shows "\<exists>past k held waiting. fg_accepted s = past @ held @ waiting \<and> length held \<le> 1 \<and> length (held @ waiting) \<le> 6 \<and>
    map row_timestamp_msec (rows (fg_archiver s)) = concat (map file_times past) @ take k (concat (map file_times held))"
proof -
  have "gateway_ok j s" using assms(1,2)
    by (induction rule: rtranclp_induct) (use assms(3,4) ftp_step_keeps in blast)+
  then show ?thesis by (rule gateway_split)
qed

subsection \<open>A concrete run\<close>

definition example_gateway :: ftp_gateway where
  "example_gateway = \<lparr>fg_discovery = (example_discovery False)\<lparr>services :=
       [\<lparr>serviceName = ''Archiver'', serviceAcceptsData = True, refusesBuffers = False, dataQueue = [0], inProcess = None\<rparr>],
       pool := \<lparr>live = [0 \<mapsto> example_file], next_id = 1, sharedInMemDataBufferCnt = 1, sharedTotalDataBufferCnt = 1\<rparr>\<rparr>,
     fg_archiver = idle_archiver [], fg_accepted = [dataBuffer example_file]\<rparr>"

lemma example_gateway_ok: "gateway_ok 0 example_gateway"
proof -
  have "as_sane ftp_spec example_file" using example_file_wf(1) wf_ftp_iff by blast
  then have "archived ftp_spec [dataBuffer example_file] (idle_archiver [example_file])"
    by (simp add: archived_from_def holds_def idle_archiver_ready held_bytes_def held_times_def)
      (simp add: idle_archiver_def begun_def)
  moreover have "seen (services (fg_discovery example_gateway) ! 0) (pool (fg_discovery example_gateway)) (idle_archiver [])
      = idle_archiver [example_file]"
    by (simp add: seen_def buf_at_def example_gateway_def idle_archiver_def)
  ultimately show ?thesis
    by (simp add: gateway_ok_def agrees_def example_gateway_def pointers_def idle_archiver_def)
      (simp add: buffers_ok_def pool_ok_def refs_def refs_in_def example_file_def)
qed

text \<open>The archiver takes the file and writes its second.\<close>

theorem files_are_archived_in_order_witness:
  "\<exists>s. (ftp_step 0 (\<lambda>e. e = calm_world) (\<lambda>_. False))\<^sup>*\<^sup>* example_gateway s \<and>
     file_times (dataBuffer example_file) = [1492992000000] \<and> map row_timestamp_msec (rows (fg_archiver s)) = [1492992000000] \<and>
     (\<exists>past k held waiting. fg_accepted s = past @ held @ waiting \<and> length held \<le> 1 \<and> length (held @ waiting) \<le> 6 \<and>
       [1492992000000] = concat (map file_times past) @ take k (concat (map file_times held)))"
proof -
  let ?d = "fg_discovery example_gateway" let ?G = "\<lambda>e. e = calm_world" and ?b = example_file
  let ?a = "(idle_archiver [])\<lparr>dataBuf := Some ?b, bpr := begun 1, processingBuffer := True\<rparr>"
  let ?svc = "(services ?d ! 0)\<lparr>dataQueue := [], inProcess := Some 0\<rparr>"
  let ?s = "example_gateway\<lparr>fg_discovery := with_service 0 (?svc, pool ?d) ?d, fg_archiver := ?a\<rparr>"
  have good: "good_ftp calm_world" "file_up calm_world" by (simp_all add: calm_world_def good_ftp_def file_up_def)
  have t: "file_times (dataBuffer ?b) = [1492992000000]"
    using example_file_epoch by (simp add: file_times_def example_file_def)
  have "archiver_pass_ftp calm_world (idle_archiver [?b]) = Ok ?a"
    using ftp_archiver.buffer_taken [OF example_file_wf(1) good(1) idle_archiver_ready, of "[?b]" "[]"]
    by (simp add: archiver_pass_ftp_def example_file_wf(2)) (simp add: idle_archiver_def new_cmd_queue_def)
  moreover have "archiver_view (services ?d ! 0) (pool ?d) (fg_archiver example_gateway) = Some (idle_archiver [?b])"
    by (simp add: archiver_view_def example_gateway_def idle_archiver_def)
  moreover have "follow_pointers (idle_archiver [?b]) ?a (services ?d ! 0) (pool ?d) = Some (?svc, pool ?d)"
    by (simp add: follow_pointers_def service_take_def example_gateway_def idle_archiver_def)
  ultimately have 1: "ftp_step 0 ?G (\<lambda>_. False) example_gateway ?s" by (intro archiver_runs) simp_all
  have row: "row_ftp calm_world ?b 0 = [insert_row calm_world 1492992000000 17280 (ftp_message zero_fp (dataBuffer ?b) 0)]"
    by (simp add: row_ftp_def calm_world_def example_file_epoch sdiv_nonneg)
  obtain x where x: "archiver_pass_ftp calm_world ?a = Ok (?a\<lparr>rows := rows ?a @ row_ftp calm_world ?b 0,
      bpr := (bpr ?a)\<lparr>nextRecord := of_nat (Suc 0), accumInsertTime := x\<rparr>\<rparr>)" (is "_ = Ok ?a'")
    using ftp_archiver.one_record [OF good(1) example_file_wf(1), of ?a 0] idle_archiver_ready [of "[]"]
    by (auto simp: archiver_pass_ftp_def example_file_wf(2) begun_def idle_archiver_def new_cmd_queue_def)
  let ?s' = "?s\<lparr>fg_archiver := ?a'\<rparr>"
  have "archiver_view ?svc (pool ?d) ?a = Some ?a"
    by (simp add: archiver_view_def example_gateway_def idle_archiver_def)
  moreover have "follow_pointers ?a ?a' ?svc (pool ?d) = Some (?svc, pool ?d)"
    by (simp add: follow_pointers_def)
  moreover have "services (with_service 0 (?svc, pool ?d) ?d) ! 0 = ?svc" "pool (with_service 0 (?svc, pool ?d) ?d) = pool ?d"
    "with_service 0 (?svc, pool ?d) (with_service 0 (?svc, pool ?d) ?d) = with_service 0 (?svc, pool ?d) ?d"
    by (simp_all add: with_service_def example_gateway_def)
  ultimately have 2: "ftp_step 0 ?G (\<lambda>_. False) ?s ?s'"
    using archiver_runs [where G = ?G and W = "\<lambda>_. False" and s = ?s and j = 0, OF refl refl _ x] by simp
  have reach: "(ftp_step 0 ?G (\<lambda>_. False))\<^sup>*\<^sup>* example_gateway ?s'"
    by (rule converse_rtranclp_into_rtranclp [of "ftp_step 0 ?G (\<lambda>_. False)", OF 1], rule r_into_rtranclp, rule 2)
  have times: "map row_timestamp_msec (rows (fg_archiver ?s')) = [1492992000000]"
    by (simp add: row insert_row_def idle_archiver_def)
  from files_are_archived_in_order [OF reach example_gateway_ok] good(2) have
    "\<exists>past k held waiting. fg_accepted ?s' = past @ held @ waiting \<and> length held \<le> 1 \<and> length (held @ waiting) \<le> 6 \<and>
      map row_timestamp_msec (rows (fg_archiver ?s')) = concat (map file_times past) @ take k (concat (map file_times held))" by blast
  with reach t times show ?thesis by (intro exI [of _ ?s']) simp
qed

end
