(* ===== verification/Cass_Server.thy ===== *)
theory Cass_Server
  imports Ftp_Access Archiver
begin

text \<open>
  The server that reads archived samples back and thins them out:
  \<open>readCassandrafast/cassspeed/main.cpp\<close>. A connection sends one line of fields, separated by
  semicolons; the answer is a message with one set of samples for every requested channel and
  compression method, or a code. Cassandra and the generated protobuf classes are parameters.
\<close>

subsection \<open>Ends of a computation\<close>

text \<open>
  A value, \<open>std::invalid_argument\<close>, another exception, undefined behaviour, or a loop that
  goes on for ever.
\<close>

datatype 'a call = Val 'a | Invalid | Other | Crash | Endless

primrec call_bind :: "'a call \<Rightarrow> ('a \<Rightarrow> 'b call) \<Rightarrow> 'b call" where
  "call_bind (Val x) f = f x"
| "call_bind Invalid f = Invalid"
| "call_bind Other f = Other"
| "call_bind Crash f = Crash"
| "call_bind Endless f = Endless"

lemma call_bind_cong [fundef_cong]:
  "m = m' \<Longrightarrow> (\<And>x. m' = Val x \<Longrightarrow> f x = g x) \<Longrightarrow> call_bind m f = call_bind m' g"
  by (cases m') auto

lemma call_bind_Val: "call_bind m f = Val y \<longleftrightarrow> (\<exists>x. m = Val x \<and> f x = Val y)"
  by (cases m) auto

definition int_call :: "int \<Rightarrow> int call" where
  "int_call i = (case int_ok i of None \<Rightarrow> Crash | Some j \<Rightarrow> Val j)"

definition long_call :: "int \<Rightarrow> int call" where
  "long_call i = (if - 9223372036854775808 \<le> i \<and> i < 9223372036854775808 then Val i else Crash)"

text \<open>\<open>std::vector::at\<close> with an \<open>int\<close>: a negative index is a huge \<open>size_t\<close>.\<close>

definition at_int :: "'a list \<Rightarrow> int \<Rightarrow> 'a call" where
  "at_int xs i = (if 0 \<le> i \<and> i < int (length xs) then Val (xs ! nat i) else Other)"

subsection \<open>Text\<close>

text \<open>\<open>split\<close>: \<open>getline\<close> delivers no line after a final delimiter.\<close>

definition split_str :: "string \<Rightarrow> char \<Rightarrow> string list" where
  "split_str s delim = (let ps = split_at delim s in if last ps = [] then butlast ps else ps)"

definition stoi_call :: "string \<Rightarrow> int call" where
  "stoi_call s =
     (let s1 = dropWhile is_space s;
          s2 = (case s1 of [] \<Rightarrow> [] | c # r \<Rightarrow> if c = CHR ''-'' \<or> c = CHR ''+'' then r else s1)
      in if takeWhile is_digit s2 = [] then Invalid
         else (case stoi s of None \<Rightarrow> Other | Some i \<Rightarrow> Val i))"

text \<open>\<open>operator>>\<close> into an \<open>uint64_t\<close>: 0 without a number, the largest value when it does not fit.\<close>

definition read_u64 :: "string \<Rightarrow> u64" where
  "read_u64 s =
     (let s1 = dropWhile is_space s;
          (neg, s2) = (case s1 of [] \<Rightarrow> (False, [])
             | c # r \<Rightarrow> if c = CHR ''-'' then (True, r) else if c = CHR ''+'' then (False, r) else (False, s1));
          v = digits_value (takeWhile is_digit s2)
      in if 18446744073709551616 \<le> v then - 1 else if neg then - of_int v else of_int v)"

definition to_string :: "int \<Rightarrow> string" where
  "to_string i = (if i < 0 then CHR ''-'' # dec (nat (- i)) else dec (nat i))"

subsection \<open>Compression\<close>

text \<open>
  The inner loop over a group, with \<open>j\<close> an \<open>int\<close> compared as unsigned with \<open>i + stepsize\<close>.
\<close>

function fold_group :: "(f32 \<Rightarrow> f32 \<Rightarrow> f32) \<Rightarrow> f32 list \<Rightarrow> u32 \<Rightarrow> int \<Rightarrow> f32 \<Rightarrow> f32 call" where
  "fold_group f input bound j acc =
     (if (of_int j :: u32) < bound
      then call_bind (at_int input j) (\<lambda>x. call_bind (int_call (j + 1)) (\<lambda>j'. fold_group f input bound j' (f acc x)))
      else Val acc)"
  by pat_completeness auto
termination
  by (relation "measure (\<lambda>(f, input, bound, j, acc). nat (int (length input) - j))")
    (auto simp: at_int_def int_call_def int_ok_def split: if_splits)

declare fold_group.simps [simp del]

text \<open>
  The outer loop, at most \<open>n\<close> rounds: \<open>i\<close> is an \<open>int\<close> compared as \<open>size_t\<close> with
  \<open>size () - stepsize\<close>, which wraps when the step is longer than the input.
\<close>

primrec group_loop ::
  "nat \<Rightarrow> (f32 \<Rightarrow> f32 \<Rightarrow> f32) \<Rightarrow> (f32 \<Rightarrow> f32) \<Rightarrow> f32 list \<Rightarrow> u32 \<Rightarrow> int \<Rightarrow> f32 list \<Rightarrow> f32 list call" where
  "group_loop 0 f g input stepsize i out = Endless"
| "group_loop (Suc n) f g input stepsize i out =
     (if (of_int i :: u64) \<le> of_nat (length input) - ucast stepsize
      then call_bind (at_int input i) (\<lambda>x. call_bind (int_call (i + 1)) (\<lambda>j.
           call_bind (fold_group f input (of_int i + stepsize) j x) (\<lambda>a.
             group_loop n f g input stepsize (sint (of_int i + stepsize :: u32)) (out @ [g a]))))
      else Val out)"

definition compressor_min_sample :: "fp_ops \<Rightarrow> f32 list \<Rightarrow> u32 \<Rightarrow> f32 list call" where
  "compressor_min_sample m input stepsize =
     group_loop (Suc (length input)) (\<lambda>min x. if f_less m x min then x else min) (\<lambda>min. min) input stepsize 0 []"

definition compressor_max_sample :: "fp_ops \<Rightarrow> f32 list \<Rightarrow> u32 \<Rightarrow> f32 list call" where
  "compressor_max_sample m input stepsize =
     group_loop (Suc (length input)) (\<lambda>max x. if f_less m max x then x else max) (\<lambda>max. max) input stepsize 0 []"

definition compressor_avg_sample :: "fp_ops \<Rightarrow> f32 list \<Rightarrow> u32 \<Rightarrow> f32 list call" where
  "compressor_avg_sample m input stepsize =
     group_loop (Suc (length input)) (f_add m) (\<lambda>avg. f_div m avg (i2f m stepsize)) input stepsize 0 []"

primrec skip_loop :: "nat \<Rightarrow> f32 list \<Rightarrow> u32 \<Rightarrow> int \<Rightarrow> f32 list \<Rightarrow> f32 list call" where
  "skip_loop 0 input stepsize i out = Endless"
| "skip_loop (Suc n) input stepsize i out =
     (if (of_int i :: u64) < of_nat (length input) - ucast stepsize
      then call_bind (at_int input i) (\<lambda>x.
             skip_loop n input stepsize (sint (of_int i + stepsize :: u32)) (out @ [x]))
      else Val out)"

definition compressor_skip_sample :: "f32 list \<Rightarrow> u32 \<Rightarrow> f32 list call" where
  "compressor_skip_sample input stepsize = skip_loop (Suc (length input)) input stepsize 0 []"

definition compressor_raw :: "f32 list \<Rightarrow> u32 \<Rightarrow> f32 list call" where
  "compressor_raw input stepsize = Val input"

definition compressor :: "fp_ops \<Rightarrow> nat \<Rightarrow> f32 list \<Rightarrow> u32 \<Rightarrow> f32 list call" where
  "compressor m k input stepsize =
     (if k = 1 then compressor_min_sample m input stepsize
      else if k = 2 then compressor_max_sample m input stepsize
      else if k = 3 then compressor_avg_sample m input stepsize
      else if k = 4 then compressor_skip_sample input stepsize
      else if k = 5 then compressor_raw input stepsize
      else Val [])"

definition lookuptable :: "string list" where
  "lookuptable = [''Min'', ''Max'', ''Avg'', ''Skip'', ''Raw'']"

subsection \<open>Messages\<close>

record sample_set =
  ss_name :: string
  ss_compression :: string
  ss_values :: "f32 list"

record output_set =
  os_device :: string
  os_sets :: "sample_set list"

record cass_payload =
  p_timestampstart :: u64
  p_timestampend :: u64
  p_numsamples :: "int option"
  p_numdevices :: int
  p_outputsets :: "output_set list"

definition empty_payload :: cass_payload where
  "empty_payload = \<lparr>p_timestampstart = 0, p_timestampend = 0, p_numsamples = None, p_numdevices = 0,
     p_outputsets = []\<rparr>"

datatype reply = Code string | Message cass_payload

text \<open>The channels in the order of the request.\<close>

definition channels :: "(string \<times> (sync_sample \<Rightarrow> f32)) list" where
  "channels =
     [(''L1mag'', L1mag), (''L2mag'', L2mag), (''L3mag'', L3mag),
      (''L1ang'', L1angle), (''L2ang'', L2angle), (''L3ang'', L3angle),
      (''C1mag'', C1mag), (''C2mag'', C2mag), (''C3mag'', C3mag),
      (''C1ang'', C1angle), (''C2ang'', C2angle), (''C3ang'', C3angle)]"

subsection \<open>The request\<close>

record cass_request =
  rq_devices :: "string list"
  rq_nosamplesets :: int
  rq_start :: string
  rq_end :: string
  rq_requested :: "bool list"
  rq_compression :: int
  rq_stepsize :: int

primrec take_strs :: "nat \<Rightarrow> string list \<Rightarrow> int \<Rightarrow> string list call" where
  "take_strs 0 x i = Val []"
| "take_strs (Suc n) x i = call_bind (at_int x i) (\<lambda>s. call_bind (take_strs n x (i + 1)) (\<lambda>ss. Val (s # ss)))"

primrec take_flags :: "nat \<Rightarrow> string list \<Rightarrow> int \<Rightarrow> bool list call" where
  "take_flags 0 x i = Val []"
| "take_flags (Suc n) x i =
     call_bind (at_int x i) (\<lambda>s. call_bind (stoi_call s) (\<lambda>v.
       call_bind (take_flags n x (i + 1)) (\<lambda>vs. Val ((v \<noteq> 0) # vs))))"

text \<open>A negative number of devices is rejected by \<open>new\<close>; without a device, \<open>devices[0]\<close> is undefined.\<close>

definition parse_request :: "string \<Rightarrow> cass_request call" where
  "parse_request strbuffer =
     (let x = split_str strbuffer (CHR '';'') in
      call_bind (at_int x 0) (\<lambda>s0. call_bind (stoi_call s0) (\<lambda>numdevices.
      if numdevices < 0 then Other
      else call_bind (take_strs (nat numdevices) x 1) (\<lambda>devices.
      let i = numdevices + 1 in
      call_bind (at_int x i) (\<lambda>s1. call_bind (stoi_call s1) (\<lambda>nosamplesets.
      call_bind (at_int x (i + 1)) (\<lambda>timestampstart.
      call_bind (at_int x (i + 2)) (\<lambda>timestampend.
      call_bind (take_flags 12 x (i + 3)) (\<lambda>requested.
      call_bind (at_int x (i + 15)) (\<lambda>s2. call_bind (stoi_call s2) (\<lambda>compression_method.
      call_bind (at_int x (i + 16)) (\<lambda>s3. call_bind (stoi_call s3) (\<lambda>stepsize.
        Val \<lparr>rq_devices = devices, rq_nosamplesets = nosamplesets, rq_start = timestampstart,
             rq_end = timestampend, rq_requested = requested, rq_compression = compression_method,
             rq_stepsize = stepsize\<rparr>)))))))))))))"

text \<open>What the window of the request comes to, before the first query.\<close>

record window =
  w_start :: string
  w_days :: string
  w_skip :: int

definition day_list :: "int \<Rightarrow> int \<Rightarrow> string" where
  "day_list daystart dayend =
     to_string daystart @ concat (map (\<lambda>i. '','' @ to_string (i + 1)) [daystart..dayend - 1])"

definition int_of_u64 :: "u64 \<Rightarrow> int" where
  "int_of_u64 x = sint (ucast x :: u32)"

definition request_window :: "fp_ops \<Rightarrow> cass_request \<Rightarrow> window call" where
  "request_window m r =
     (let tmp = read_u64 (rq_start r);
          daystart = int_of_u64 ((tmp - 999) div 86400000);
          dayend = int_of_u64 (read_u64 (rq_end r) div 86400000) in
      call_bind (int_call (d2i m (d_div m (i2d m (uint (tmp mod 1000))) d_8_33333333))) (\<lambda>skip.
        if rq_devices r = [] then Crash
        else Val \<lparr>w_start = dec (unat (tmp - 999)), w_days = day_list daystart dayend, w_skip = skip\<rparr>))"

definition query_text :: "string \<Rightarrow> window \<Rightarrow> string \<Rightarrow> string" where
  "query_text device w timestampend =
     ''SELECT * FROM upmu_devel.upmu_data WHERE device =  '' @ [CHR 0x27] @ device @ [CHR 0x27] @
     ''  AND day in ('' @ w_days w @
     '') AND timestamp_msec >= '' @ w_start w @ '' AND timestamp_msec < '' @ timestampend @ '' ALLOW FILTERING''"

subsection \<open>Answering a request\<close>

text \<open>
  \<open>numsamples\<close> is a global variable of the process: every computation takes it and leaves it
  behind, also when it fails.
\<close>

type_synonym 'a act = "int \<Rightarrow> 'a call \<times> int"

definition act_bind :: "'a act \<Rightarrow> ('a \<Rightarrow> 'b act) \<Rightarrow> 'b act" where
  "act_bind m f = (\<lambda>numsamples. case m numsamples of
     (Val x, n) \<Rightarrow> f x n | (Invalid, n) \<Rightarrow> (Invalid, n) | (Other, n) \<Rightarrow> (Other, n)
   | (Crash, n) \<Rightarrow> (Crash, n) | (Endless, n) \<Rightarrow> (Endless, n))"

definition plain :: "'a call \<Rightarrow> 'a act" where
  "plain c = (\<lambda>numsamples. (c, numsamples))"

definition compress_act :: "fp_ops \<Rightarrow> nat \<Rightarrow> f32 list \<Rightarrow> u32 \<Rightarrow> f32 list act" where
  "compress_act m k input stepsize = (\<lambda>numsamples. case compressor m k input stepsize of
     Val out \<Rightarrow> (Val out, if 1 \<le> k \<and> k \<le> 5 then int (length out) else numsamples)
   | c \<Rightarrow> (c, numsamples))"

text \<open>The blocks for the twelve channels, and the loop over the bits of \<open>compression_method\<close>.\<close>

primrec channel_sets :: "fp_ops \<Rightarrow> nat \<Rightarrow> u32 \<Rightarrow> (bool \<times> string \<times> f32 list) list \<Rightarrow> sample_set list act" where
  "channel_sets m k stepsize [] = plain (Val [])"
| "channel_sets m k stepsize (c # cs) = (case c of (requested, name, values) \<Rightarrow>
     if requested
     then act_bind (compress_act m k values stepsize) (\<lambda>out.
          act_bind (channel_sets m k stepsize cs) (\<lambda>rest.
            plain (Val (\<lparr>ss_name = name, ss_compression = lookuptable ! (k - 1), ss_values = out\<rparr> # rest))))
     else channel_sets m k stepsize cs)"

primrec compression_sets ::
  "fp_ops \<Rightarrow> int \<Rightarrow> u32 \<Rightarrow> (bool \<times> string \<times> f32 list) list \<Rightarrow> nat list \<Rightarrow> sample_set list act" where
  "compression_sets m compression_method stepsize cs [] = plain (Val [])"
| "compression_sets m compression_method stepsize cs (compress # ks) =
     (if bit compression_method (compress - 1)
      then act_bind (channel_sets m compress stepsize cs) (\<lambda>sets.
           act_bind (compression_sets m compression_method stepsize cs ks) (\<lambda>rest. plain (Val (sets @ rest))))
      else compression_sets m compression_method stepsize cs ks)"

record cass_env =
  session_connects :: bool
  run_query :: "string \<Rightarrow> (int \<times> bytes) list option"
  parse_upmu_data :: "bytes \<Rightarrow> upmu_data"
  machine :: fp_ops

text \<open>The rows of a device: the smallest time stamp so far, and the samples in order.\<close>

primrec read_rows ::
  "(bytes \<Rightarrow> upmu_data) \<Rightarrow> (int \<times> bytes) list \<Rightarrow> int option \<Rightarrow> (int option \<times> sync_sample list) call" where
  "read_rows parse [] timestampcass = Val (timestampcass, [])"
| "read_rows parse (row # rest) timestampcass = (case row of (timestampcassnow, data) \<Rightarrow>
     let t = (case timestampcass of None \<Rightarrow> timestampcassnow | Some t0 \<Rightarrow> min t0 timestampcassnow);
         unpack = parse data
     in if length (samples unpack) < unat (numSamples unpack) then Crash
        else call_bind (read_rows parse rest (Some t)) (\<lambda>(t', ss).
               Val (t', take (unat (numSamples unpack)) (samples unpack) @ ss)))"

definition device_columns :: "bool list \<Rightarrow> int \<Rightarrow> sync_sample list \<Rightarrow> (bool \<times> string \<times> f32 list) list call" where
  "device_columns requested samples_to_skip ss =
     (if 0 \<le> samples_to_skip \<and> samples_to_skip \<le> int (length ss)
      then Val (zip requested (map (\<lambda>(name, sel). (name, map sel (drop (nat samples_to_skip) ss))) channels))
      else Crash)"

definition shifted_time :: "fp_ops \<Rightarrow> int option \<Rightarrow> int \<Rightarrow> int call" where
  "shifted_time m timestampcass samples_to_skip = (case timestampcass of
     None \<Rightarrow> Crash
   | Some t \<Rightarrow> long_call (d2i m (d_add m (i2d m t) (d_mul m (i2d m samples_to_skip) d_8_33333))))"

definition end_time :: "int \<Rightarrow> int \<Rightarrow> int \<Rightarrow> int call" where
  "end_time timestampcass numsamples stepsize =
     call_bind (int_call (numsamples * 1000)) (\<lambda>a. call_bind (int_call (a * stepsize)) (\<lambda>b.
       long_call (timestampcass + b sdiv 120)))"

type_synonym answer_state = "cass_payload \<times> int option \<times> bool"

definition answer_device ::
  "cass_env \<Rightarrow> cass_request \<Rightarrow> window \<Rightarrow> string \<Rightarrow> answer_state \<Rightarrow> answer_state act" where
  "answer_device e r w device st = (case st of (payload, timestampcass, failed) \<Rightarrow>
     (case run_query e (query_text device w (rq_end r)) of
        None \<Rightarrow> plain (Val (payload, timestampcass, True))
      | Some result \<Rightarrow>
          act_bind (plain (read_rows (parse_upmu_data e) result timestampcass)) (\<lambda>(t, ss).
          act_bind (plain (device_columns (rq_requested r) (w_skip w) ss)) (\<lambda>cs.
          act_bind (plain (shifted_time (machine e) t (w_skip w))) (\<lambda>t'.
          act_bind (compression_sets (machine e) (rq_compression r) (of_int (rq_stepsize r)) cs [1, 2, 3, 4, 5]) (\<lambda>sets.
          (\<lambda>numsamples. plain (call_bind (end_time t' numsamples (rq_stepsize r)) (\<lambda>te.
             Val (payload\<lparr>p_numdevices := int (length (rq_devices r)), p_timestampstart := of_int t',
                    p_outputsets := p_outputsets payload @ [\<lparr>os_device = device, os_sets = sets\<rparr>],
                    p_timestampend := of_int te, p_numsamples := Some numsamples\<rparr>, Some t', failed))) numsamples)))))))"

primrec answer_devices ::
  "cass_env \<Rightarrow> cass_request \<Rightarrow> window \<Rightarrow> string list \<Rightarrow> answer_state \<Rightarrow> answer_state act" where
  "answer_devices e r w [] st = plain (Val st)"
| "answer_devices e r w (d # ds) st = act_bind (answer_device e r w d st) (answer_devices e r w ds)"

definition answer :: "cass_env \<Rightarrow> string \<Rightarrow> reply act" where
  "answer e strbuffer =
     act_bind (plain (parse_request strbuffer)) (\<lambda>r.
     act_bind (plain (request_window (machine e) r)) (\<lambda>w.
     act_bind (answer_devices e r w (rq_devices r) (empty_payload, None, False)) (\<lambda>(payload, t, failed).
       plain (Val (if failed \<and> p_numsamples payload = None then Code ''-4'' else Message payload)))))"

datatype handler_end = Replied reply | NoReply | Crashed | Hangs

text \<open>
  \<open>received\<close> is what \<open>recv\<close> has put into the zeroed buffer of 1024 characters, which is read
  as a C string.
\<close>

definition SocketHandler :: "cass_env \<Rightarrow> string \<Rightarrow> int \<Rightarrow> handler_end \<times> int" where
  "SocketHandler e received numsamples =
     (if received = [] then (NoReply, numsamples)
      else if \<not> session_connects e then (Replied (Code ''-3''), numsamples)
      else if 1024 \<le> length received \<and> char_of (0 :: nat) \<notin> set received then (Crashed, numsamples)
      else (case answer e (c_str received) numsamples of
          (Val r, n) \<Rightarrow> (Replied r, n)
        | (Invalid, n) \<Rightarrow> (Replied (Code ''-1''), n)
        | (Other, n) \<Rightarrow> (Replied (Code ''-2''), n)
        | (Crash, n) \<Rightarrow> (Crashed, n)
        | (Endless, n) \<Rightarrow> (Hangs, n)))"

subsection \<open>What compression computes\<close>

text \<open>The groups of \<open>s\<close> samples, and a fold over one of them that starts with its first sample.\<close>

definition chunk :: "nat \<Rightarrow> f32 list \<Rightarrow> nat \<Rightarrow> f32 list" where
  "chunk s xs k = take s (drop (k * s) xs)"

definition fold1 :: "(f32 \<Rightarrow> f32 \<Rightarrow> f32) \<Rightarrow> f32 list \<Rightarrow> f32" where
  "fold1 f xs = foldl f (hd xs) (tl xs)"

lemma at_int_inside [simp]: "j < length xs \<Longrightarrow> at_int xs (int j) = Val (xs ! j)"
  by (simp add: at_int_def)

lemma at_int_outside [simp]: "length xs \<le> j \<Longrightarrow> at_int xs (int j) = Other"
  by (simp add: at_int_def)

lemma int_call_small [simp]: "j < 2147483647 \<Longrightarrow> int_call (int j + 1) = Val (int (Suc j))"
  by (simp add: int_call_def int_ok_def)

lemma word_less_small: "j < 2 ^ 32 \<Longrightarrow> b < 2 ^ 32 \<Longrightarrow> ((of_nat j :: u32) < of_nat b) = (j < b)"
  by (simp add: word_less_nat_alt unat_of_nat take_bit_eq_mod)

lemma fold_group_inside:
  assumes "j \<le> b" and "b \<le> length input" and "length input < 2147483648"
  shows "fold_group f input (of_nat b) (int j) acc = Val (foldl f acc (take (b - j) (drop j input)))"
  using assms
proof (induction "b - j" arbitrary: j acc)
  case 0
  then have "b = j" by simp
  then show ?case by (subst fold_group.simps) simp
next
  case (Suc k)
  then have j: "j < b" "j < length input" "j < 2147483647" "k = b - Suc j" by auto
  have "take (b - j) (drop j input) = input ! j # take (b - Suc j) (drop (Suc j) input)"
    using j by (simp add: Cons_nth_drop_Suc [symmetric] Suc_diff_Suc [symmetric])
  moreover have "fold_group f input (of_nat b) (int (Suc j)) (f acc (input ! j)) =
      Val (foldl f (f acc (input ! j)) (take (b - Suc j) (drop (Suc j) input)))"
    using Suc.hyps(1) [OF j(4)] Suc.prems j by simp
  moreover have "((of_int (int j) :: u32) < of_nat b) = (j < b)"
    using word_less_small [of j b] j Suc.prems by simp
  ultimately show ?case
    using j by (simp add: fold_group.simps [of f input "of_nat b" "int j"] del: of_nat_Suc)
qed

lemma fold_group_outside:
  assumes "j \<le> length input" and "length input < b" and "b < 2 ^ 32" and "length input < 2147483648"
  shows "fold_group f input (of_nat b) (int j) acc = Other"
  using assms
proof (induction "length input - j" arbitrary: j acc)
  case 0
  then have j: "j = length input" by simp
  have "((of_int (int j) :: u32) < of_nat b) = (j < b)" using word_less_small [of j b] 0 by simp
  then show ?case using 0 j by (subst fold_group.simps) simp
next
  case (Suc k)
  then have j: "j < length input" "j < 2147483647" "k = length input - Suc j" by auto
  have "((of_int (int j) :: u32) < of_nat b) = (j < b)" using word_less_small [of j b] j Suc.prems by simp
  then show ?case
    using j Suc.prems Suc.hyps(1) [OF j(3)]
    by (simp add: fold_group.simps [of f input "of_nat b" "int j"] del: of_nat_Suc)
qed

lemma group_cond:
  assumes "n < 2 ^ 31" and "s \<le> n" and "i < 2 ^ 31"
  shows "((of_int (int i) :: u64) \<le> of_nat n - ucast (of_nat s :: u32)) = (i \<le> n - s)"
    "((of_int (int i) :: u64) < of_nat n - ucast (of_nat s :: u32)) = (i < n - s)"
proof -
  have "(ucast (of_nat s :: u32) :: u64) = of_nat s"
    using assms by (simp add: word_unat_eq_iff unsigned_ucast_eq unat_of_nat take_bit_eq_mod)
  then have "(of_nat n - ucast (of_nat s :: u32) :: u64) = of_nat (n - s)" using assms(2) by (simp add: of_nat_diff)
  then show "((of_int (int i) :: u64) \<le> of_nat n - ucast (of_nat s :: u32)) = (i \<le> n - s)"
    "((of_int (int i) :: u64) < of_nat n - ucast (of_nat s :: u32)) = (i < n - s)"
    using assms by (simp_all add: word_le_nat_alt word_less_nat_alt unat_of_nat take_bit_eq_mod del: of_nat_diff)
qed

lemma next_index: "q * s + s < 2 ^ 31 \<Longrightarrow> sint (of_int (int (q * s)) + of_nat s :: u32) = int (Suc q * s)"
proof -
  assume "q * s + s < 2 ^ 31"
  then have "Suc q * s < 2147483648" by (simp add: add.commute)
  moreover have "(of_int (int (q * s)) + of_nat s :: u32) = of_int (int (Suc q * s))" by (simp add: algebra_simps)
  ultimately show ?thesis by (simp only: sint_of_int_small of_nat_less_iff [symmetric, where ?'a = int])
qed

lemma before_div: "q < n div s \<longleftrightarrow> Suc q * s \<le> n" if "0 < (s :: nat)"
  using less_eq_div_iff_mult_less_eq [OF that, of "Suc q" n] by (simp add: Suc_le_eq)

lemma group_loop_inside:
  assumes "0 < s" and "s \<le> length input" and "length input < 2147483648"
    and "q \<le> length input div s" and "length input div s - q < n"
  shows "group_loop n f g input (of_nat s) (int (q * s)) out =
    Val (out @ map (\<lambda>k. g (fold1 f (chunk s input k))) [q..<length input div s])"
  using assms(4,5)
proof (induction n arbitrary: q out)
  case (Suc n)
  have le: "q * s \<le> length input"
    using Suc.prems(1) assms(1) by (simp add: less_eq_div_iff_mult_less_eq)
  have cond: "((of_int (int (q * s)) :: u64) \<le> of_nat (length input) - ucast (of_nat s :: u32)) = (q < length input div s)"
    using group_cond(1) [of "length input" s "q * s"] le assms(2,3) before_div [OF assms(1), of q "length input"]
    by (simp add: algebra_simps le_diff_conv2)
  show ?case
  proof (cases "q < length input div s")
    case True
    then have in1: "q * s + s \<le> length input" using before_div [OF assms(1)] by (simp add: add.commute)
    have b: "(of_int (int (q * s)) + of_nat s :: u32) = of_nat (q * s + s)" by simp
    have "take (q * s + s - Suc (q * s)) (drop (Suc (q * s)) input) = tl (chunk s input q)"
      using assms(1) by (simp add: chunk_def tl_take tl_drop drop_Suc)
    moreover have "input ! (q * s) = hd (chunk s input q)"
      using in1 assms(1) by (simp add: chunk_def hd_drop_conv_nth)
    ultimately have fold: "fold_group f input (of_int (int (q * s)) + of_nat s) (int (Suc (q * s))) (input ! (q * s)) =
        Val (fold1 f (chunk s input q))"
      unfolding b using in1 assms(1,3) by (subst fold_group_inside) (simp_all add: fold1_def)
    have nxt: "sint (of_int (int (q * s)) + of_nat s :: u32) = int (Suc q * s)"
      using in1 assms(3) by (intro next_index) simp
    have at: "at_int input (int (q * s)) = Val (input ! (q * s))" using in1 assms(1) by (intro at_int_inside) simp
    have j: "int_call (int (q * s) + 1) = Val (int (Suc (q * s)))" using in1 assms(1,3) by (intro int_call_small) simp
    have rest: "group_loop n f g input (of_nat s) (int (Suc q * s)) (out @ [g (fold1 f (chunk s input q))]) =
        Val ((out @ [g (fold1 f (chunk s input q))]) @ map (\<lambda>k. g (fold1 f (chunk s input k))) [Suc q..<length input div s])"
      using Suc.prems True by (intro Suc.IH) auto
    have "group_loop (Suc n) f g input (of_nat s) (int (q * s)) out =
        group_loop n f g input (of_nat s) (int (Suc q * s)) (out @ [g (fold1 f (chunk s input q))])"
      unfolding group_loop.simps cond using True by (simp only: at j fold nxt call_bind.simps if_True)
    then show ?thesis unfolding rest using True by (simp add: upt_conv_Cons)
  next
    case False
    then show ?thesis unfolding group_loop.simps cond by simp
  qed
qed simp

lemma group_loop_short:
  assumes "length input < s" and "s < 2 ^ 32" and "length input < 2147483648"
  shows "group_loop (Suc n) f g input (of_nat s) 0 out = Other"
proof (cases input)
  case Nil
  then show ?thesis by (simp add: at_int_def)
next
  case (Cons x xs)
  have "fold_group f input (of_nat s) (int 1) x = Other"
    by (rule fold_group_outside) (use assms Cons in auto)
  then show ?thesis using Cons by (simp add: at_int_def int_call_def int_ok_def)
qed

lemma group_loop_step_zero: "input \<noteq> [] \<Longrightarrow> group_loop n f g input 0 0 out = Endless"
proof (induction n arbitrary: out)
  case (Suc n)
  have "fold_group f input 0 1 a = Val a" for a by (subst fold_group.simps) simp
  then show ?case using Suc by (simp add: at_int_def int_call_def int_ok_def)
qed simp

lemma skip_loop_inside:
  assumes "0 < s" and "s \<le> length input" and "length input < 2147483648"
    and "q \<le> (length input - 1) div s" and "(length input - 1) div s - q < n"
  shows "skip_loop n input (of_nat s) (int (q * s)) out =
    Val (out @ map (\<lambda>k. hd (chunk s input k)) [q..<(length input - 1) div s])"
  using assms(4,5)
proof (induction n arbitrary: q out)
  case (Suc n)
  have le: "q * s \<le> length input - 1"
    using Suc.prems(1) assms(1) by (simp add: less_eq_div_iff_mult_less_eq)
  have "(q * s < length input - s) = (Suc q * s \<le> length input - 1)" using assms(1,2) by auto
  then have cond: "((of_int (int (q * s)) :: u64) < of_nat (length input) - ucast (of_nat s :: u32)) =
      (q < (length input - 1) div s)"
    using group_cond(2) [of "length input" s "q * s"] le assms(2,3) before_div [OF assms(1), of q "length input - 1"]
    by simp
  show ?case
  proof (cases "q < (length input - 1) div s")
    case True
    then have in1: "q * s + s \<le> length input - 1" using before_div [OF assms(1)] by (simp add: add.commute)
    have hd: "input ! (q * s) = hd (chunk s input q)"
      using in1 assms(1) by (simp add: chunk_def hd_drop_conv_nth)
    have nxt: "sint (of_int (int (q * s)) + of_nat s :: u32) = int (Suc q * s)"
      using in1 assms(3) by (intro next_index) simp
    have at: "at_int input (int (q * s)) = Val (input ! (q * s))" using in1 assms(1) by (intro at_int_inside) simp
    have rest: "skip_loop n input (of_nat s) (int (Suc q * s)) (out @ [input ! (q * s)]) =
        Val ((out @ [input ! (q * s)]) @ map (\<lambda>k. hd (chunk s input k)) [Suc q..<(length input - 1) div s])"
      using Suc.prems True by (intro Suc.IH) auto
    have "skip_loop (Suc n) input (of_nat s) (int (q * s)) out =
        skip_loop n input (of_nat s) (int (Suc q * s)) (out @ [input ! (q * s)])"
      unfolding skip_loop.simps cond using True by (simp only: at nxt call_bind.simps if_True)
    then show ?thesis unfolding rest using True hd by (simp add: upt_conv_Cons)
  next
    case False
    then show ?thesis unfolding skip_loop.simps cond by simp
  qed
qed simp

lemma skip_loop_step_zero:
  "input \<noteq> [] \<Longrightarrow> length input < 2147483648 \<Longrightarrow> skip_loop n input 0 0 out = Endless"
proof (induction n arbitrary: out)
  case (Suc n)
  then have "(0 :: u64) < of_nat (length input)"
    by (simp add: word_less_nat_alt unat_of_nat take_bit_eq_mod)
  then show ?case using Suc by (simp add: at_int_def)
qed simp

lemma wrapped_size:
  assumes "n < s" and "s < 2 ^ 32"
  shows "(of_nat s :: u64) < of_nat n - ucast (of_nat s :: u32)"
proof -
  have "(ucast (of_nat s :: u32) :: u64) = of_nat s"
    using assms by (simp add: word_unat_eq_iff unsigned_ucast_eq unat_of_nat take_bit_eq_mod)
  moreover have "unat (of_nat n - of_nat s :: u64) = 2 ^ 64 + n - s"
    using assms by (simp add: unat_sub_if_size unat_of_nat take_bit_eq_mod word_le_nat_alt word_size)
  ultimately show ?thesis using assms by (simp add: word_less_nat_alt unat_of_nat take_bit_eq_mod)
qed

lemma skip_loop_short:
  assumes "length input < s" and "s < 2 ^ 31"
  shows "skip_loop (Suc (length input)) input (of_nat s) 0 [] = Other"
proof (cases input)
  case Nil
  then show ?thesis
    using wrapped_size [of 0 s] assms by (auto simp: at_int_def word_less_nat_alt)
next
  case (Cons x xs)
  have w: "(of_nat s :: u64) < of_nat (length input) - ucast (of_nat s :: u32)"
    using wrapped_size assms by simp
  then have "(0 :: u64) < of_nat (length input) - ucast (of_nat s :: u32)"
    by (meson less_le_trans not_less word_le_0_iff word_zero_le)
  moreover have "sint (of_nat s :: u32) = int s" using sint_of_int_small [of "int s"] assms(2) by simp
  moreover have "skip_loop (Suc n) input (of_nat s) (int s) out = Other" for n out
    using w assms(1) by (simp add: at_int_def)
  ultimately show ?thesis using Cons by (simp add: at_int_def del: skip_loop.simps(2)) (simp add: at_int_def)
qed

text \<open>What a method makes of a channel, and how many values that are.\<close>

definition compressed :: "fp_ops \<Rightarrow> nat \<Rightarrow> nat \<Rightarrow> f32 list \<Rightarrow> f32 list" where
  "compressed m k s v =
     (if k = 1 then map (\<lambda>q. fold1 (\<lambda>a x. if f_less m x a then x else a) (chunk s v q)) [0..<length v div s]
      else if k = 2 then map (\<lambda>q. fold1 (\<lambda>a x. if f_less m a x then x else a) (chunk s v q)) [0..<length v div s]
      else if k = 3 then map (\<lambda>q. f_div m (fold1 (f_add m) (chunk s v q)) (i2f m (of_nat s))) [0..<length v div s]
      else if k = 4 then map (\<lambda>q. hd (chunk s v q)) [0..<(length v - 1) div s]
      else if k = 5 then v else [])"

definition value_count :: "nat \<Rightarrow> nat \<Rightarrow> nat \<Rightarrow> nat" where
  "value_count k s n = (if k = 4 then (n - 1) div s else if k = 5 then n else n div s)"

lemma length_compressed: "1 \<le> k \<Longrightarrow> k \<le> 5 \<Longrightarrow> length (compressed m k s v) = value_count k s (length v)"
  by (auto simp: compressed_def value_count_def)

lemma compressor_result:
  assumes "0 < s" and "s \<le> length v" and "length v < 2147483648"
  shows "compressor m k v (of_nat s) = Val (compressed m k s v)"
proof -
  have n: "n div s < Suc (length v)" if "n \<le> length v" for n
    using div_le_dividend [of n s] that by linarith
  have g: "group_loop (Suc (length v)) f g v (of_nat s) 0 [] = Val (map (\<lambda>k. g (fold1 f (chunk s v k))) [0..<length v div s])"
    for f g
    using group_loop_inside [OF assms, of 0 "Suc (length v)" f g "[]"] n [of "length v"] by (simp del: group_loop.simps)
  have "skip_loop (Suc (length v)) v (of_nat s) (int (0 * s)) [] =
      Val ([] @ map (\<lambda>k. hd (chunk s v k)) [0..<(length v - 1) div s])"
    using n [of "length v - 1"] by (intro skip_loop_inside [OF assms]) simp_all
  then have "compressor_skip_sample v (of_nat s) = Val (map (\<lambda>k. hd (chunk s v k)) [0..<(length v - 1) div s])"
    by (simp add: compressor_skip_sample_def del: skip_loop.simps)
  then show ?thesis
    by (simp add: compressor_def compressed_def compressor_min_sample_def compressor_max_sample_def
        compressor_avg_sample_def g compressor_raw_def del: group_loop.simps)
qed

text \<open>
  C25: Compression works on groups: for a step of at least 1 that is no longer than the input, the
  minimum, maximum and average methods return one value for each complete group of
  consecutive samples, computed from all samples of the group in their order; skipping returns
  the first sample of every group but the last complete one when the groups fill the input; raw
  returns everything.
\<close>

theorem compression_works_on_groups:
  assumes "0 < s" and "s \<le> length v" and "length v < 2147483648"
  shows "compressor m 1 v (of_nat s) =
      Val (map (\<lambda>q. fold1 (\<lambda>a x. if f_less m x a then x else a) (chunk s v q)) [0..<length v div s]) \<and>
    compressor m 2 v (of_nat s) =
      Val (map (\<lambda>q. fold1 (\<lambda>a x. if f_less m a x then x else a) (chunk s v q)) [0..<length v div s]) \<and>
    compressor m 3 v (of_nat s) =
      Val (map (\<lambda>q. f_div m (fold1 (f_add m) (chunk s v q)) (i2f m (of_nat s))) [0..<length v div s]) \<and>
    compressor m 4 v (of_nat s) = Val (map (\<lambda>q. hd (chunk s v q)) [0..<(length v - 1) div s]) \<and>
    compressor m 5 v (of_nat s) = Val v"
  unfolding compressor_result [OF assms] by (simp add: compressed_def)

text \<open>
  A step that is longer than the samples is answered with an exception by every method but
  raw, although the loops look as if they would return nothing; a step of 0 keeps them
  running for ever, however many rounds they are given.
\<close>

theorem unsuitable_steps:
  assumes "length v < 2147483648" and "1 \<le> k" and "k \<le> 4"
  shows "(\<forall>s. length v < s \<and> s < 2 ^ 31 \<longrightarrow> compressor m k v (of_nat s) = Other) \<and>
    (v \<noteq> [] \<longrightarrow> compressor m k v 0 = Endless \<and> (\<forall>n f g. group_loop n f g v 0 0 [] = Endless \<and> skip_loop n v 0 0 [] = Endless))"
proof (intro conjI allI impI)
  fix s assume s: "length v < s \<and> s < 2 ^ 31"
  show "compressor m k v (of_nat s) = Other"
    using assms(2,3) group_loop_short [of v s] skip_loop_short [of v s] s assms(1)
    by (auto simp: compressor_def compressor_min_sample_def compressor_max_sample_def compressor_avg_sample_def
        compressor_skip_sample_def simp del: group_loop.simps skip_loop.simps)
next
  assume v: "v \<noteq> []"
  note 0 = group_loop_step_zero [OF v] skip_loop_step_zero [OF v assms(1)]
  show "compressor m k v 0 = Endless"
    using assms(2,3)
    by (auto simp: compressor_def compressor_min_sample_def compressor_max_sample_def compressor_avg_sample_def
        compressor_skip_sample_def 0 simp del: group_loop.simps skip_loop.simps)
  show "group_loop n f g v 0 0 [] = Endless" "skip_loop n v 0 0 [] = Endless" for n f g by (rule 0)+
qed

subsection \<open>What a request is answered with\<close>

definition methods :: "int \<Rightarrow> nat list \<Rightarrow> nat list" where
  "methods compression_method ks = filter (\<lambda>k. bit compression_method (k - 1)) ks"

definition sets_for :: "fp_ops \<Rightarrow> nat \<Rightarrow> (bool \<times> string \<times> f32 list) list \<Rightarrow> nat \<Rightarrow> sample_set list" where
  "sets_for m s cs k = map (\<lambda>(requested, name, v). \<lparr>ss_name = name, ss_compression = lookuptable ! (k - 1),
     ss_values = compressed m k s v\<rparr>) (filter fst cs)"

lemma compress_act_result:
  "1 \<le> k \<Longrightarrow> k \<le> 5 \<Longrightarrow> 0 < s \<Longrightarrow> s \<le> length v \<Longrightarrow> length v < 2147483648 \<Longrightarrow>
   compress_act m k v (of_nat s) n = (Val (compressed m k s v), int (value_count k s (length v)))"
  by (simp add: compress_act_def compressor_result length_compressed)

lemma channel_sets_result:
  assumes "1 \<le> k" and "k \<le> 5" and "0 < s" and "s \<le> l" and "l < 2147483648"
    and "\<forall>c\<in>set cs. length (snd (snd c)) = l"
  shows "channel_sets m k (of_nat s) cs n =
    (Val (sets_for m s cs k), if \<exists>c\<in>set cs. fst c then int (value_count k s l) else n)"
  using assms(6)
proof (induction cs arbitrary: n)
  case Nil
  then show ?case by (simp add: sets_for_def plain_def)
next
  case (Cons c cs)
  obtain b nm v where c: "c = (b, nm, v)" by (cases c)
  have l: "length v = l" using Cons.prems c by simp
  have "compress_act m k v (of_nat s) n = (Val (compressed m k s v), int (value_count k s l))" for n
    using compress_act_result [OF assms(1-3), of v m n] assms(4,5) l by simp
  then show ?case
    using Cons by (auto simp: c act_bind_def plain_def sets_for_def)
qed

lemma compression_sets_result:
  assumes "0 < s" and "s \<le> l" and "l < 2147483648" and "\<forall>c\<in>set cs. length (snd (snd c)) = l"
    and "\<exists>c\<in>set cs. fst c" and "set ks \<subseteq> {1..5}"
  shows "compression_sets m cm (of_nat s) cs ks n =
    (Val (concat (map (sets_for m s cs) (methods cm ks))),
     if methods cm ks = [] then n else int (value_count (last (methods cm ks)) s l))"
  using assms(6)
proof (induction ks arbitrary: n)
  case Nil
  then show ?case by (simp add: methods_def plain_def)
next
  case (Cons k ks)
  then have "channel_sets m k (of_nat s) cs n = (Val (sets_for m s cs k), int (value_count k s l))" for n
    using channel_sets_result [OF _ _ assms(1-4), of k m n] assms(5) by simp
  then show ?case using Cons by (auto simp: act_bind_def plain_def methods_def)
qed

definition min_stamp :: "int option \<Rightarrow> int list \<Rightarrow> int option" where
  "min_stamp = foldl (\<lambda>a t. Some (case a of None \<Rightarrow> t | Some x \<Rightarrow> min x t))"

definition all_samples :: "(int \<times> upmu_data) list \<Rightarrow> sync_sample list" where
  "all_samples recs = concat (map (\<lambda>(t, x). samples x) recs)"

text \<open>Messages that survive storage: parsing undoes serialisation, and the count is that of the samples.\<close>

definition storable :: "(upmu_data \<Rightarrow> bytes) \<Rightarrow> (bytes \<Rightarrow> upmu_data) \<Rightarrow> upmu_data \<Rightarrow> bool" where
  "storable ser parse x \<longleftrightarrow> parse (ser x) = x \<and> unat (numSamples x) = length (samples x)"

lemma read_rows_result:
  "\<forall>(t, x)\<in>set recs. storable ser parse x \<Longrightarrow>
   read_rows parse (map (\<lambda>(t, x). (t, ser x)) recs) t0 = Val (min_stamp t0 (map fst recs), all_samples recs)"
proof (induction recs arbitrary: t0)
  case (Cons c recs)
  then show ?case by (cases c) (auto simp: storable_def min_stamp_def all_samples_def Let_def)
qed (simp add: min_stamp_def all_samples_def)

definition columns :: "bool list \<Rightarrow> sync_sample list \<Rightarrow> (bool \<times> string \<times> f32 list) list" where
  "columns requested ss = zip requested (map (\<lambda>(name, sel). (name, map sel ss)) channels)"

lemma columns_length: "c \<in> set (columns requested ss) \<Longrightarrow> length (snd (snd c)) = length ss"
  by (cases c) (auto simp: columns_def dest!: set_zip_rightD)

lemma columns_requested: "length requested = 12 \<Longrightarrow> True \<in> set requested \<Longrightarrow> \<exists>c\<in>set (columns requested ss). fst c"
proof -
  assume len: "length requested = 12" and "True \<in> set requested"
  then obtain i where "i < 12" "requested ! i" by (auto simp: in_set_conv_nth)
  moreover have "length (map (\<lambda>(name, sel). (name, map sel ss)) channels) = 12" by (simp add: channels_def)
  ultimately have "i < length (columns requested ss)" "fst (columns requested ss ! i)"
    using len by (simp_all add: columns_def)
  then show ?thesis using nth_mem by blast
qed

text \<open>A device's answer, up to the computation of the end of the window.\<close>

definition answered :: "cass_env \<Rightarrow> cass_request \<Rightarrow> string \<Rightarrow> nat \<Rightarrow> sync_sample list \<Rightarrow> cass_payload \<Rightarrow> int \<Rightarrow> int \<Rightarrow>
    int \<Rightarrow> cass_payload" where
  "answered e r d s ss p t1 te n = p\<lparr>p_numdevices := int (length (rq_devices r)), p_timestampstart := of_int t1,
     p_outputsets := p_outputsets p @ [\<lparr>os_device = d,
       os_sets = concat (map (sets_for (machine e) s (columns (rq_requested r) ss))
                             (methods (rq_compression r) [1, 2, 3, 4, 5]))\<rparr>],
     p_timestampend := of_int te, p_numsamples := Some n\<rparr>"

definition last_count :: "cass_request \<Rightarrow> nat \<Rightarrow> nat \<Rightarrow> nat" where
  "last_count r s n = value_count (last (methods (rq_compression r) [1, 2, 3, 4, 5])) s n"

lemma answer_device_result:
  assumes "run_query e (query_text d w (rq_end r)) = Some (map (\<lambda>(t, x). (t, ser x)) recs)"
    and "\<forall>(t, x)\<in>set recs. storable ser (parse_upmu_data e) x"
    and "w_skip w = int k" and "ss = drop k (all_samples recs)" and "k \<le> length (all_samples recs)"
    and "rq_stepsize r = int s" and "0 < s" and "s \<le> length ss" and "length ss < 2147483648"
    and "length (rq_requested r) = 12" and "True \<in> set (rq_requested r)"
    and "methods (rq_compression r) [1, 2, 3, 4, 5] \<noteq> []"
    and "shifted_time (machine e) (min_stamp t0 (map fst recs)) (int k) = Val t1"
  shows "answer_device e r w d (p, t0, failed) n =
    (call_bind (end_time t1 (int (last_count r s (length ss))) (int s))
       (\<lambda>te. Val (answered e r d s ss p t1 te (int (last_count r s (length ss))), Some t1, failed)),
     int (last_count r s (length ss)))"
proof -
  have cols: "device_columns (rq_requested r) (int k) (all_samples recs) = Val (columns (rq_requested r) ss)"
    using assms(3-5) by (simp add: device_columns_def columns_def)
  have sets: "compression_sets (machine e) (rq_compression r) (of_nat s) (columns (rq_requested r) ss) [1, 2, 3, 4, 5] n =
    (Val (concat (map (sets_for (machine e) s (columns (rq_requested r) ss)) (methods (rq_compression r) [1, 2, 3, 4, 5]))),
     int (last_count r s (length ss)))" for n
    using compression_sets_result [OF assms(7-9) _ columns_requested [OF assms(10,11)],
      where ks = "[1, 2, 3, 4, 5]"]
      columns_length assms(12) by (simp add: last_count_def)
  show ?thesis
    by (simp only: answer_device_def prod.case assms(1) option.case act_bind_def plain_def call.case
        read_rows_result [OF assms(2)] of_int_of_nat_eq assms(3) cols assms(13) sets assms(6) answered_def)
qed

lemma end_time_small:
  assumes "0 \<le> t" and "t < 2 ^ 62" and "1000 * c * s < 2147483648" and "0 < s"
  shows "end_time t (int c) (int s) = Val (t + int (1000 * c * s div 120))"
proof -
  have "1000 * c \<le> 1000 * c * s" using assms(4) by simp
  then have c: "1000 * c < 2147483648" using assms(3) by linarith
  have i: "n < 2147483648 \<Longrightarrow> int_call (int n) = Val (int n)" for n
    by (simp add: int_call_def int_ok_def)
  have a: "int_call (int c * 1000) = Val (int (1000 * c))" using i [OF c] by (simp add: mult.commute)
  have b: "int_call (int (1000 * c) * int s) = Val (int (1000 * c * s))" using i [OF assms(3)] by simp
  have "int m sdiv 120 = int (m div 120)" for m
    by (cases "m = 0") (simp_all add: signed_divide_int_def zdiv_int)
  then have q: "int (1000 * c * s) sdiv 120 = int (1000 * c * s div 120)" .
  have "1000 * c * s div 120 \<le> 1000 * c * s" by (rule div_le_dividend)
  then have "int (1000 * c * s div 120) < 2147483648" using assms(3) by linarith
  then have "long_call (t + int (1000 * c * s div 120)) = Val (t + int (1000 * c * s div 120))"
    using assms(1,2) by (simp add: long_call_def)
  then show ?thesis unfolding end_time_def a call_bind.simps b q .
qed

lemma end_time_overflow:
  assumes "2147483648 \<le> 1000 * c * s"
  shows "end_time t (int c) (int s) = Crash"
proof (cases "1000 * c < 2147483648")
  case True
  have b: "int (1000 * c) * int s = int (1000 * c * s)" by simp
  have a: "int c * 1000 = int (1000 * c)" by simp
  show ?thesis unfolding end_time_def a int_call_def int_ok_def using True assms
    by (simp add: b del: of_nat_mult)
next
  case False
  then show ?thesis by (simp add: end_time_def int_call_def int_ok_def)
qed

text \<open>
  C24: What a device is answered with: if Cassandra returns messages that were stored with
  \<open>serialize\<close>, in any number of rows, then the answer holds one set of values for every requested
  channel and every requested method, computed from the samples of all rows in order, from
  the first one asked for on; the number of samples is that of the last method, and the end
  of the window is reckoned from it.
\<close>

theorem stored_samples_are_answered:
  assumes "run_query e (query_text d w (rq_end r)) = Some (map (\<lambda>(t, x). (t, ser x)) recs)"
    and "\<forall>(t, x)\<in>set recs. storable ser (parse_upmu_data e) x"
    and "w_skip w = int k" and "ss = drop k (all_samples recs)" and "k \<le> length (all_samples recs)"
    and "rq_stepsize r = int s" and "0 < s" and "s \<le> length ss" and "length ss < 2147483648"
    and "length (rq_requested r) = 12" and "True \<in> set (rq_requested r)"
    and "methods (rq_compression r) [1, 2, 3, 4, 5] \<noteq> []"
    and "shifted_time (machine e) (min_stamp t0 (map fst recs)) (int k) = Val t1" and "0 \<le> t1" and "t1 < 2 ^ 62"
    and "1000 * last_count r s (length ss) * s < 2147483648"
  shows "answer_device e r w d (p, t0, failed) n =
    (Val (answered e r d s ss p t1 (t1 + int (1000 * last_count r s (length ss) * s div 120))
            (int (last_count r s (length ss))), Some t1, failed),
     int (last_count r s (length ss)))"
  using answer_device_result [OF assms(1-13), of p failed n] end_time_small [OF assms(14-16,7)] by simp

text \<open>
  Long answers overflow: the same request runs into the overflow of a signed multiplication
  when a thousand times the number of values and the step exceed 31 bits, that is, from
  2147484 raw samples (about five hours) on.
\<close>

theorem long_answers_overflow:
  assumes "run_query e (query_text d w (rq_end r)) = Some (map (\<lambda>(t, x). (t, ser x)) recs)"
    and "\<forall>(t, x)\<in>set recs. storable ser (parse_upmu_data e) x"
    and "w_skip w = int k" and "ss = drop k (all_samples recs)" and "k \<le> length (all_samples recs)"
    and "rq_stepsize r = int s" and "0 < s" and "s \<le> length ss" and "length ss < 2147483648"
    and "length (rq_requested r) = 12" and "True \<in> set (rq_requested r)"
    and "methods (rq_compression r) [1, 2, 3, 4, 5] \<noteq> []"
    and "shifted_time (machine e) (min_stamp t0 (map fst recs)) (int k) = Val t1"
    and "2147483648 \<le> 1000 * last_count r s (length ss) * s"
  shows "fst (answer_device e r w d (p, t0, failed) n) = Crash"
  using answer_device_result [OF assms(1-13), of p failed n] end_time_overflow [OF assms(14)] by simp

subsection \<open>Concrete runs\<close>

theorem compression_works_on_groups_witness:
  "compressor zero_fp 1 [5, 3, 7, 9, 4] 2 = Val [3, 7] \<and> compressor zero_fp 4 [5, 3, 7, 9, 4] 2 = Val [5, 7]"
  using compression_works_on_groups [of 2 "[5, 3, 7, 9, 4]" zero_fp]
  by (simp add: chunk_def fold1_def zero_fp_def upt_conv_Cons)

theorem unsuitable_steps_witness:
  "compressor zero_fp 2 [5, 3] 3 = Other \<and> compressor zero_fp 2 [5, 3] 0 = Endless"
proof -
  have "(\<forall>s. length [5, 3 :: f32] < s \<and> s < 2 ^ 31 \<longrightarrow> compressor zero_fp 2 [5, 3] (of_nat s) = Other) \<and>
    ([5, 3 :: f32] \<noteq> [] \<longrightarrow> compressor zero_fp 2 [5, 3] 0 = Endless \<and>
      (\<forall>n f g. group_loop n f g [5, 3] 0 0 [] = Endless \<and> skip_loop n [5, 3] 0 0 [] = Endless))"
    by (rule unsuitable_steps) simp_all
  then have "compressor zero_fp 2 [5, 3] (of_nat 3) = Other" "compressor zero_fp 2 [5, 3] 0 = Endless" by auto
  then show ?thesis by simp
qed

definition example_sample :: "f32 \<Rightarrow> sync_sample" where
  "example_sample x = \<lparr>lockState = 0, L1angle = 0, L1mag = x, L2angle = 0, L2mag = 0, L3angle = 0, L3mag = 0,
     C1angle = 0, C1mag = 0, C2angle = 0, C2mag = 0, C3angle = 0, C3mag = 0\<rparr>"

definition example_data :: "f32 list \<Rightarrow> upmu_data" where
  "example_data xs = \<lparr>timeStamp = 1, sampleIntervalMsec = 0, numSamples = of_nat (length xs),
     samples = map example_sample xs\<rparr>"

definition example_cass :: "upmu_data \<Rightarrow> cass_env" where
  "example_cass x = \<lparr>session_connects = True, run_query = (\<lambda>_. Some [(1000, [7])]), parse_upmu_data = (\<lambda>_. x),
     machine = zero_fp\<rparr>"

definition example_request :: "int \<Rightarrow> int \<Rightarrow> cass_request" where
  "example_request c s = \<lparr>rq_devices = [''P3001065''], rq_nosamplesets = 1, rq_start = ''1999'', rq_end = ''5000'',
     rq_requested = [True, False, False, False, False, False, False, False, False, False, False, False],
     rq_compression = c, rq_stepsize = s\<rparr>"

definition example_window :: window where
  "example_window = \<lparr>w_start = ''1000'', w_days = ''0'', w_skip = 0\<rparr>"

lemma example_time: "shifted_time zero_fp (min_stamp None [1000]) 0 = Val 1000"
  by (simp add: shifted_time_def min_stamp_def zero_fp_def long_call_def)

theorem stored_samples_are_answered_witness:
  "\<exists>p. answer_device (example_cass (example_data [5, 3, 7, 9])) (example_request 17 2) example_window ''P3001065''
       (empty_payload, None, False) 0 = (Val (p, Some 1000, False), 4) \<and>
     map (\<lambda>s. (ss_compression s, ss_values s)) (concat (map os_sets (p_outputsets p))) =
       [(''Min'', [3, 7]), (''Raw'', [5, 3, 7, 9])] \<and> p_timestampend p = 1066"
proof -
  let ?e = "example_cass (example_data [5, 3, 7, 9])" and ?r = "example_request 17 2"
  let ?ss = "map example_sample [5, 3, 7, 9]"
  have m: "methods 17 [1, 2, 3, 4, 5] = [1, 5]" by (simp add: methods_def bit_iff_odd)
  then have c: "last_count ?r 2 (length ?ss) = 4" by (simp add: last_count_def example_request_def value_count_def)
  have "answer_device ?e ?r example_window ''P3001065'' (empty_payload, None, False) 0 =
    (Val (answered ?e ?r ''P3001065'' 2 ?ss empty_payload 1000 (1000 + int (1000 * last_count ?r 2 (length ?ss) * 2 div 120))
            (int (last_count ?r 2 (length ?ss))), Some 1000, False), int (last_count ?r 2 (length ?ss)))"
    by (rule stored_samples_are_answered [where recs = "[(1000, example_data [5, 3, 7, 9])]" and ser = "\<lambda>_. [7]" and k = 0])
      (use m example_time in \<open>simp_all add: example_cass_def storable_def example_data_def example_window_def
        all_samples_def example_request_def last_count_def value_count_def\<close>)
  then have "answer_device ?e ?r example_window ''P3001065'' (empty_payload, None, False) 0 =
    (Val (answered ?e ?r ''P3001065'' 2 ?ss empty_payload 1000 (1000 + int (1000 * 4 * 2 div 120)) (int 4), Some 1000, False),
     int 4)"
    unfolding c .
  then show ?thesis
    using m by (simp add: answered_def columns_def channels_def sets_for_def compressed_def lookuptable_def chunk_def fold1_def
        example_sample_def example_request_def example_cass_def empty_payload_def zero_fp_def upt_conv_Cons)
qed

theorem long_answers_overflow_witness:
  "fst (answer_device (example_cass (example_data (replicate 2147484 1))) (example_request 16 1) example_window ''P3001065''
       (empty_payload, None, False) 0) = Crash"
proof -
  let ?x = "example_data (replicate 2147484 1)"
  have m: "methods 16 [1, 2, 3, 4, 5] = [5]" by (simp add: methods_def bit_iff_odd)
  show ?thesis
    by (rule long_answers_overflow [where recs = "[(1000, ?x)]" and ser = "\<lambda>_. [7]" and k = 0 and s = 1 and
          ss = "map example_sample (replicate 2147484 1)"])
      (use m example_time in \<open>simp_all add: example_cass_def storable_def example_data_def example_window_def
        all_samples_def example_request_def last_count_def value_count_def\<close>)
qed

end
