(* ===== verification/Cass_Client.thy ===== *)
theory Cass_Client
  imports Cass_Server
begin

text \<open>
  The client of the sample server: \<open>readCassandrafast/cassspeedclient/main.cpp\<close>. It checks its
  options, cuts the time asked for into windows, sends one request per window, and saves each
  answer as CSV or JSON. Sockets, name resolution, and the conversion between floating-point
  numbers and text are parameters.
\<close>

subsection \<open>Numbers and text\<close>

definition string_to_hex :: "string \<Rightarrow> string" where
  "string_to_hex input = concat (map (\<lambda>c. let n = of_char c :: nat in
     [''0123456789ABCDEF'' ! (n div 16), ''0123456789ABCDEF'' ! (n mod 16)]) input)"

definition parse_int :: "string \<Rightarrow> int option" where
  "parse_int s =
     (let s1 = dropWhile is_space s;
          (sgn, s2) = (case s1 of [] \<Rightarrow> (1, [])
             | c # r \<Rightarrow> if c = CHR ''-'' then (- 1, r) else if c = CHR ''+'' then (1, r) else (1, s1));
          ds = takeWhile is_digit s2
      in if ds = [] then None else Some (sgn * digits_value ds))"

text \<open>\<open>stol\<close> throws; \<open>atoi\<close> returns 0 without a number and is undefined out of range.\<close>

definition stol_call :: "string \<Rightarrow> int call" where
  "stol_call s = (case parse_int s of None \<Rightarrow> Invalid
     | Some i \<Rightarrow> if - 9223372036854775808 \<le> i \<and> i < 9223372036854775808 then Val i else Other)"

definition atoi :: "string \<Rightarrow> int call" where
  "atoi s = (case parse_int s of None \<Rightarrow> Val 0 | Some i \<Rightarrow> int_call i)"

text \<open>
  The longest window in seconds. The quotient of two integers below 2 to the 53, computed in
  \<open>double\<close>, has the integer part of the exact quotient.
\<close>

definition low_bits :: "int \<Rightarrow> nat" where
  "low_bits i = length (filter (bit i) [0..<8])"

definition delta_t_chucksize :: "string \<Rightarrow> string \<Rightarrow> string \<Rightarrow> string \<Rightarrow> int call" where
  "delta_t_chucksize nodeviceids nosamplesets compression_method stepsize =
     call_bind (stoi_call compression_method) (\<lambda>local.
     call_bind (atoi nodeviceids) (\<lambda>a. call_bind (int_call (480 * a)) (\<lambda>a1.
     call_bind (atoi nosamplesets) (\<lambda>b. call_bind (int_call (a1 * b)) (\<lambda>b1.
     call_bind (atoi stepsize) (\<lambda>c. if c = 0 then Crash else
     call_bind (int_call (b1 sdiv c)) (\<lambda>c1.
     call_bind (int_call (c1 * int (low_bits local))) (\<lambda>bps.
       if bps = 0 then Crash
       else (let delta_t = 33554432 sdiv bps in Val (if delta_t \<le> 0 then 2147483647 div 2000 else delta_t))))))))))"

subsection \<open>Saving an answer\<close>

record client_world =
  resolve_host :: "string \<Rightarrow> string"
  cw_reply :: "nat \<Rightarrow> string \<Rightarrow> reply"
  cw_machine :: fp_ops
  show_float :: "f32 \<Rightarrow> string"
  strtof :: "string \<Rightarrow> f32"

text \<open>\<open>data_keys[k] += v\<close> on a \<open>std::map\<close>, kept as the list of its entries in order.\<close>

primrec append_at :: "string \<Rightarrow> string \<Rightarrow> (string \<times> string) list \<Rightarrow> (string \<times> string) list" where
  "append_at k v [] = [(k, v)]"
| "append_at k v (e # es) =
     (if k = fst e then (k, snd e @ v) # es
      else if k < fst e then (k, v) # e # es
      else e # append_at k v es)"

definition data_keys :: "(f32 \<Rightarrow> string) \<Rightarrow> sample_set list \<Rightarrow> nat \<Rightarrow> (string \<times> string) list" where
  "data_keys show sets j =
     foldl (\<lambda>keys s. if j < length (ss_values s) then append_at (ss_name s) (show (ss_values s ! j) @ '','') keys
                     else keys) [] sets"

text \<open>The loop runs from the last sample down, while the time stamp goes up.\<close>

primrec csv_rows :: "(f32 \<Rightarrow> string) \<Rightarrow> string \<Rightarrow> sample_set list \<Rightarrow> u64 \<Rightarrow> nat \<Rightarrow> u64 \<Rightarrow> string list" where
  "csv_rows show deviceID sets step 0 timestamp_start = []"
| "csv_rows show deviceID sets step (Suc j) timestamp_start =
     map (\<lambda>(k, v). deviceID @ '','' @ dec (unat timestamp_start) @ '','' @ k @ '','' @ v) (data_keys show sets j) @
     csv_rows show deviceID sets step j (timestamp_start + step)"

text \<open>The step is converted only when there is a sample.\<close>

primrec csv_devices :: "(f32 \<Rightarrow> string) \<Rightarrow> u64 call \<Rightarrow> u64 \<Rightarrow> output_set list \<Rightarrow> string list call" where
  "csv_devices show step t [] = Val []"
| "csv_devices show step t (d # ds) =
     (case os_sets d of
        [] \<Rightarrow> Crash
      | s # _ \<Rightarrow>
          call_bind (if ss_values s = [] then Val [] else call_bind step (\<lambda>st.
             Val (csv_rows show (os_device d) (os_sets d) st (length (ss_values s)) t))) (\<lambda>ls.
          call_bind (csv_devices show step t ds) (\<lambda>ls'. Val (ls @ ls'))))"

definition time_step :: "client_world \<Rightarrow> string \<Rightarrow> u64 call" where
  "time_step w stepsize =
     (let m = cw_machine w; f = f_mul m (f_div m (strtof w stepsize) (i2f m 120)) (i2f m 1000); i = d2i m (f2d m f)
      in if 0 \<le> i \<and> i < 18446744073709551616 then Val (of_int i) else Crash)"

definition csv_header :: "int \<Rightarrow> string" where
  "csv_header local = ''Device ID,TimeStamp,Data Type'' @
     concat (map (\<lambda>i. if bit local i then '','' @ lookuptable ! i else []) [0..<5])"

definition saveBodyCSV :: "client_world \<Rightarrow> cass_payload \<Rightarrow> string \<Rightarrow> string \<Rightarrow> string list call" where
  "saveBodyCSV w payload stepsize compression_method =
     call_bind (stoi_call compression_method) (\<lambda>local.
     call_bind (csv_devices (show_float w) (time_step w stepsize) (p_timestampstart payload) (p_outputsets payload))
       (\<lambda>ls. Val (csv_header local # ls)))"

type_synonym json = "string \<times> u64 \<times> string \<times> string \<rightharpoonup> f32"

definition json_row :: "string \<Rightarrow> sample_set list \<Rightarrow> nat \<Rightarrow> u64 \<Rightarrow> json \<Rightarrow> json" where
  "json_row deviceID sets j t message_json =
     foldl (\<lambda>js s. if j < length (ss_values s)
                   then js((deviceID, t, ss_name s, ss_compression s) \<mapsto> ss_values s ! j) else js) message_json sets"

primrec json_rows :: "string \<Rightarrow> sample_set list \<Rightarrow> u64 \<Rightarrow> nat \<Rightarrow> u64 \<Rightarrow> json \<Rightarrow> json" where
  "json_rows deviceID sets step 0 t js = js"
| "json_rows deviceID sets step (Suc j) t js =
     json_rows deviceID sets step j (t + step) (json_row deviceID sets j t js)"

primrec json_devices :: "u64 call \<Rightarrow> u64 \<Rightarrow> output_set list \<Rightarrow> json \<Rightarrow> json call" where
  "json_devices step t [] js = Val js"
| "json_devices step t (d # ds) js =
     (case os_sets d of
        [] \<Rightarrow> Crash
      | s # _ \<Rightarrow>
          if ss_values s = [] then json_devices step t ds js
          else call_bind step (\<lambda>st.
            json_devices step t ds (json_rows (os_device d) (os_sets d) st (length (ss_values s)) t js)))"

definition saveBodyJson :: "client_world \<Rightarrow> cass_payload \<Rightarrow> string \<Rightarrow> json call" where
  "saveBodyJson w payload stepsize =
     json_devices (time_step w stepsize) (p_timestampstart payload) (p_outputsets payload) Map.empty"

subsection \<open>Options\<close>

datatype 'a client = Exit int | Go 'a | Abort | Fault

primrec client_bind :: "'a client \<Rightarrow> ('a \<Rightarrow> 'b client) \<Rightarrow> 'b client" where
  "client_bind (Exit n) f = Exit n"
| "client_bind (Go x) f = f x"
| "client_bind Abort f = Abort"
| "client_bind Fault f = Fault"

text \<open>An exception that nothing catches ends the program.\<close>

definition of_call :: "'a call \<Rightarrow> 'a client" where
  "of_call c = (case c of Val x \<Rightarrow> Go x | Invalid \<Rightarrow> Abort | Other \<Rightarrow> Abort | Crash \<Rightarrow> Fault | Endless \<Rightarrow> Fault)"

record client_args =
  timestampstart :: string
  timestampend :: string
  deviceids :: string
  requested :: string
  compression_method :: string
  stepsize :: string
  calc_delta_t :: string
  filename :: string
  file_format :: string
  host :: string
  host_port :: int
  quiet_flag :: bool

definition default_args :: "(string \<Rightarrow> string) \<Rightarrow> client_args" where
  "default_args resolve = \<lparr>timestampstart = [], timestampend = [], deviceids = [], requested = [],
     compression_method = [], stepsize = [], calc_delta_t = ''0'', filename = ''example'', file_format = ''csv'',
     host = resolve ''youserver.com'', host_port = 9000, quiet_flag = False\<rparr>"

definition set_option :: "(string \<Rightarrow> string) \<Rightarrow> string \<Rightarrow> string \<Rightarrow> client_args \<Rightarrow> client_args client" where
  "set_option resolve opt v a =
     (if opt = ''--timestart'' then Go (a\<lparr>timestampstart := v\<rparr>)
      else if opt = ''--quiet'' then client_bind (of_call (atoi v)) (\<lambda>i. Go (a\<lparr>quiet_flag := (i \<noteq> 0)\<rparr>))
      else if opt = ''--timeend'' then Go (a\<lparr>timestampend := v\<rparr>)
      else if opt = ''--host'' then Go (a\<lparr>host := resolve v\<rparr>)
      else if opt = ''--port'' then client_bind (of_call (atoi v)) (\<lambda>i. Go (a\<lparr>host_port := i\<rparr>))
      else if opt = ''--deviceNum'' then Go a
      else if opt = ''--deviceIds'' then Go (a\<lparr>deviceids := v\<rparr>)
      else if opt = ''--datacode'' then Go (a\<lparr>requested := v\<rparr>)
      else if opt = ''--stepsize'' then Go (a\<lparr>stepsize := v\<rparr>)
      else if opt = ''--delta_t'' then Go (a\<lparr>calc_delta_t := v\<rparr>)
      else if opt = ''--compress'' then Go (a\<lparr>compression_method := v\<rparr>)
      else if opt = ''--filename'' then Go (a\<lparr>filename := v\<rparr>)
      else if opt = ''--format'' then Go (a\<lparr>file_format := v\<rparr>)
      else Exit 2)"

fun parse_options :: "(string \<Rightarrow> string) \<Rightarrow> string list \<Rightarrow> client_args \<Rightarrow> client_args client" where
  "parse_options resolve [] a = Go a"
| "parse_options resolve [opt] a = (if opt = ''--help'' then Exit 1 else Exit 2)"
| "parse_options resolve (opt # v # rest) a =
     (if opt = ''--help'' then Exit 1
      else client_bind (set_option resolve opt v a) (parse_options resolve rest))"

definition parse_args :: "(string \<Rightarrow> string) \<Rightarrow> string list \<Rightarrow> client_args client" where
  "parse_args resolve argv =
     (if length argv < 3 \<and> \<not> (length argv = 2 \<and> argv ! 1 = ''--help'') then Exit (- 1)
      else parse_options resolve (tl argv) (default_args resolve))"

subsection \<open>The checks before the first request\<close>

record client_job =
  jb_args :: client_args
  nodeviceids :: string
  nosamplesets :: string
  jb_delta_t :: int
  global_start :: int
  global_end :: int

text \<open>The loop over the twelve codes; its test for a boolean is true of every number.\<close>

primrec flag_sum :: "nat \<Rightarrow> string list \<Rightarrow> int \<Rightarrow> int \<Rightarrow> int call" where
  "flag_sum 0 x i loopsum = Val loopsum"
| "flag_sum (Suc n) x i loopsum =
     call_bind (at_int x i) (\<lambda>s. call_bind (atoi s) (\<lambda>looptmp.
     call_bind (int_call (loopsum + looptmp)) (\<lambda>loopsum'. flag_sum n x (i + 1) loopsum')))"

definition check_compression :: "client_args \<Rightarrow> unit client" where
  "check_compression a =
     (case stoi_call (compression_method a) of
        Val local \<Rightarrow> if bit local 5 \<and> stepsize a \<noteq> ''1'' then Exit 5 else Go ()
      | _ \<Rightarrow> Exit 6)"

definition check_options :: "client_args \<Rightarrow> client_job client" where
  "check_options a0 =
     (let a = (if stepsize a0 = ''1'' \<and> compression_method a0 = [] then a0\<lparr>compression_method := ''16''\<rparr> else a0) in
      client_bind (check_compression a) (\<lambda>_.
      let ndev = to_string (int (length (split_str (deviceids a) (CHR '';'')))) in
      client_bind (case flag_sum 12 (split_str (requested a) (CHR '';'')) 0 0 of
                     Val n \<Rightarrow> Go (to_string n) | Crash \<Rightarrow> Fault | _ \<Rightarrow> Exit 4) (\<lambda>nsets.
      client_bind (of_call (delta_t_chucksize ndev nsets (compression_method a) (stepsize a))) (\<lambda>seconds.
      let delta_t = seconds * 1000 in
      if delta_t < 0 then Exit 65
      else client_bind (of_call (stoi_call (calc_delta_t a))) (\<lambda>c.
      if c \<noteq> 0 then Exit 0
      else client_bind (of_call (stol_call (timestampstart a))) (\<lambda>gs.
      client_bind (of_call (stol_call (timestampend a))) (\<lambda>ge.
        Go \<lparr>jb_args = a, nodeviceids = ndev, nosamplesets = nsets, jb_delta_t = delta_t,
            global_start = gs, global_end = ge\<rparr>)))))))"

subsection \<open>The loop over windows\<close>

definition loop_end :: "client_job \<Rightarrow> int \<Rightarrow> int client" where
  "loop_end jb start = client_bind (of_call (long_call (start + jb_delta_t jb))) (\<lambda>e.
     Go (if e > global_end jb then global_end jb else e))"

definition request_text :: "client_job \<Rightarrow> int \<Rightarrow> int \<Rightarrow> string" where
  "request_text jb s e = nodeviceids jb @ '';'' @ deviceids (jb_args jb) @ '';'' @ nosamplesets jb @ '';'' @
     to_string s @ '';'' @ to_string e @ '';'' @ requested (jb_args jb) @ '';'' @
     compression_method (jb_args jb) @ '';'' @ stepsize (jb_args jb)"

datatype saved = Csv string "string list" | Json string json | Console json

definition save :: "client_world \<Rightarrow> client_job \<Rightarrow> nat \<Rightarrow> cass_payload \<Rightarrow> saved client" where
  "save w jb loopvar payload =
     (let a = jb_args jb; name = filename a @ ''_'' @ to_string (int loopvar) in
      if file_format a = ''console'' then client_bind (of_call (saveBodyJson w payload (stepsize a))) (\<lambda>js. Go (Console js))
      else if file_format a = ''csv''
      then client_bind (of_call (saveBodyCSV w payload (stepsize a) (compression_method a))) (\<lambda>ls. Go (Csv (name @ ''.csv'') ls))
      else if file_format a = ''json''
      then client_bind (of_call (saveBodyJson w payload (stepsize a))) (\<lambda>js. Go (Json (name @ ''.json'') js))
      else Exit (- 3))"

text \<open>The codes the server sends; a fifth one would be read as a message.\<close>

definition exit_code :: "string \<Rightarrow> 'a client" where
  "exit_code c = (if c = ''-1'' then Exit 101 else if c = ''-2'' then Exit 102 else if c = ''-3'' then Exit 103
     else if c = ''-4'' then Exit 104 else Fault)"

text \<open>One round: the request, what is saved, and the next start, or \<open>None\<close> at the end.\<close>

definition client_round ::
  "client_world \<Rightarrow> client_job \<Rightarrow> nat \<Rightarrow> int \<Rightarrow> (saved \<times> int option) client" where
  "client_round w jb loopvar start =
     client_bind (loop_end jb start) (\<lambda>e.
     case cw_reply w loopvar (request_text jb start e) of
       Code c \<Rightarrow> exit_code c
     | Message payload \<Rightarrow>
         client_bind (save w jb loopvar payload) (\<lambda>f.
         let start' = sint (p_timestampend payload) in
         client_bind (of_call (stoi_call (stepsize (jb_args jb)))) (\<lambda>st.
         client_bind (of_call (call_bind (int_call (st + 1)) (\<lambda>st1. int_call (st1 * 1000)))) (\<lambda>ms.
         client_bind (of_call (long_call (start' + ms sdiv 120))) (\<lambda>t.
           Go (f, if t > global_end jb then None else Some start'))))))"

text \<open>At most \<open>n\<close> rounds: the windows asked for, the files, and the end or the next start.\<close>

datatype client_state = Finished "unit client" | Continues int

fun client_loop ::
  "nat \<Rightarrow> client_world \<Rightarrow> client_job \<Rightarrow> nat \<Rightarrow> int \<Rightarrow> int list \<times> saved list \<times> client_state" where
  "client_loop 0 w jb loopvar start = ([], [], Continues start)"
| "client_loop (Suc n) w jb loopvar start =
     (case client_round w jb loopvar start of
        Exit c \<Rightarrow> ([start], [], Finished (Exit c))
      | Abort \<Rightarrow> ([start], [], Finished Abort)
      | Fault \<Rightarrow> ([start], [], Finished Fault)
      | Go (f, None) \<Rightarrow> ([start], [f], Finished (Go ()))
      | Go (f, Some start') \<Rightarrow>
          (let (ss, fs, r) = client_loop n w jb (Suc loopvar) start' in (start # ss, f # fs, r)))"

definition client_main :: "nat \<Rightarrow> client_world \<Rightarrow> string list \<Rightarrow> (int list \<times> saved list \<times> client_state) client" where
  "client_main n w argv =
     client_bind (parse_args (resolve_host w) argv) (\<lambda>a. client_bind (check_options a) (\<lambda>jb.
       Go (client_loop n w jb 0 (global_start jb))))"

subsection \<open>The request as the server reads it\<close>

lemma client_bind_Go: "client_bind m f = Go y \<Longrightarrow> (\<And>x. m = Go x \<Longrightarrow> f x = Go y \<Longrightarrow> P) \<Longrightarrow> P"
  by (cases m) auto

fun join :: "char \<Rightarrow> string list \<Rightarrow> string" where
  "join c [] = []"
| "join c [p] = p"
| "join c (p # q # r) = p @ c # join c (q # r)"

lemma split_join:
  "ps \<noteq> [] \<Longrightarrow> \<forall>p\<in>set ps. c \<notin> set p \<Longrightarrow> split_at c (join c ps) = ps"
  by (induction c ps rule: join.induct) (simp_all add: split_at_plain split_at_append)

lemma split_str_join:
  "ps \<noteq> [] \<Longrightarrow> \<forall>p\<in>set ps. c \<notin> set p \<Longrightarrow> last ps \<noteq> [] \<Longrightarrow> split_str (join c ps) c = ps"
  by (simp add: split_str_def split_join)

lemma join_append: "xs \<noteq> [] \<Longrightarrow> ys \<noteq> [] \<Longrightarrow> join c (xs @ ys) = join c xs @ c # join c ys"
  by (induction c xs rule: join.induct) (auto simp: neq_Nil_conv)

lemma to_string_nat: "to_string (int n) = dec n"
  by (simp add: to_string_def)

lemma plain_number: "CHR '';'' \<notin> set (dec n)" "dec n \<noteq> []"
proof -
  show "dec n \<noteq> []" using dec_spec by blast
  have "\<not> is_digit (CHR '';'')" by (simp add: is_digit_def)
  then show "CHR '';'' \<notin> set (dec n)" using dec_spec [of n] by (auto simp: list_all_iff)
qed

lemma plain_to_string: "CHR '';'' \<notin> set (to_string i)"
  by (simp add: to_string_def plain_number)

lemma stoi_dec: "n < 2147483648 \<Longrightarrow> stoi_call (dec n) = Val (int n)"
proof -
  assume n: "n < 2147483648"
  note d = dec_spec [of n]
  obtain c r where s: "dec n = c # r" using d by (cases "dec n") auto
  then have c: "is_digit c" using d by simp
  then have "\<not> is_space c" "c \<noteq> CHR ''-''" "c \<noteq> CHR ''+''" by (auto simp: is_digit_def is_space_def)
  moreover have "stoi (dec n) = Some (int n)" using stoi_digits [of "dec n"] d n by simp
  ultimately show ?thesis using s c by (simp add: stoi_call_def)
qed

lemma atoi_dec: "n < 2147483648 \<Longrightarrow> atoi (dec n) = Val (int n)"
proof -
  assume n: "n < 2147483648"
  note d = dec_spec [of n]
  obtain c r where s: "dec n = c # r" using d by (cases "dec n") auto
  then have c: "is_digit c" using d by simp
  then have "\<not> is_space c" "c \<noteq> CHR ''-''" "c \<noteq> CHR ''+''" by (auto simp: is_digit_def is_space_def)
  moreover have tw: "takeWhile is_digit r = r" using d s by (simp add: list_all_iff)
  ultimately have "parse_int (dec n) = Some (int n)" using s d c by (simp add: parse_int_def tw)
  then show ?thesis using n by (simp add: atoi_def int_call_def int_ok_def)
qed

definition flag_text :: "bool \<Rightarrow> string" where
  "flag_text b = (if b then ''1'' else ''0'')"

lemma flag_text_dec: "flag_text b = dec (if b then 1 else 0)"
  by (simp add: flag_text_def dec.simps digit_def char_of_def bit_Suc_0_iff)

lemma at_int_drop: "i < length xs \<Longrightarrow> at_int xs (int i) = Val (hd (drop i xs))"
  by (simp add: hd_drop_conv_nth)

lemma take_strs_ok: "i + n \<le> length xs \<Longrightarrow> take_strs n xs (int i) = Val (take n (drop i xs))"
proof (induction n arbitrary: i)
  case (Suc n)
  have "take_strs n xs (int i + 1) = Val (take n (drop (Suc i) xs))"
    using Suc.IH [of "Suc i"] Suc.prems by (simp add: add.commute)
  then show ?case using Suc.prems by (simp add: Cons_nth_drop_Suc [symmetric])
qed simp

lemma take_flags_ok:
  "i + length fs \<le> length xs \<Longrightarrow> take (length fs) (drop i xs) = map flag_text fs \<Longrightarrow>
   take_flags (length fs) xs (int i) = Val fs"
proof (induction fs arbitrary: i)
  case (Cons f fs)
  have d: "drop i xs = xs ! i # drop (Suc i) xs" using Cons.prems(1) by (simp add: Cons_nth_drop_Suc)
  then have x: "xs ! i = flag_text f" "take (length fs) (drop (Suc i) xs) = map flag_text fs" using Cons.prems(2) by simp_all
  have "take_flags (length fs) xs (int i + 1) = Val fs"
    using Cons.IH [of "Suc i"] Cons.prems(1) x(2) by (simp add: add.commute)
  moreover have "stoi_call (flag_text f) = Val (if f then 1 else 0)" unfolding flag_text_dec by (subst stoi_dec) simp_all
  ultimately show ?case using Cons.prems(1) x(1) by simp
qed simp

lemma flag_sum_ok:
  "i + length fs \<le> length xs \<Longrightarrow> take (length fs) (drop i xs) = map flag_text fs \<Longrightarrow> n + length fs < 2147483648 \<Longrightarrow>
   flag_sum (length fs) xs (int i) (int n) = Val (int (n + length (filter (\<lambda>b. b) fs)))"
proof (induction fs arbitrary: i n)
  case (Cons f fs)
  have d: "drop i xs = xs ! i # drop (Suc i) xs" using Cons.prems(1) by (simp add: Cons_nth_drop_Suc)
  then have x: "xs ! i = flag_text f" "take (length fs) (drop (Suc i) xs) = map flag_text fs" using Cons.prems(2) by simp_all
  have a: "atoi (flag_text f) = Val (int (if f then 1 else 0))" unfolding flag_text_dec by (rule atoi_dec) simp
  have "flag_sum (length fs) xs (int (Suc i)) (int (n + (if f then 1 else 0))) =
      Val (int (n + (if f then 1 else 0) + length (filter (\<lambda>b. b) fs)))"
    using Cons.prems(1,3) x(2) by (intro Cons.IH) auto
  then show ?case
    using Cons.prems(1,3) x(1) a by (cases f) (simp_all add: int_call_def int_ok_def add.commute)
qed simp

lemma request_fields:
  assumes "devs \<noteq> []" and "length fs = 12"
    and "xs = [dec (length devs)] @ devs @ [dec k, s, e] @ map flag_text fs @ [dec c, dec t]"
    and "length devs < 2147483648" and "k < 2147483648" and "c < 2147483648" and "t < 2147483648"
    and "split_str text (CHR '';'') = xs"
  shows "parse_request text = Val \<lparr>rq_devices = devs, rq_nosamplesets = int k, rq_start = s, rq_end = e,
    rq_requested = fs, rq_compression = int c, rq_stepsize = int t\<rparr>"
proof -
  let ?n = "length devs"
  have len: "length xs = ?n + 18" using assms(2,3) by simp
  have at: "at_int xs (int i) = Val (xs ! i)" if "i < ?n + 18" for i using that len by simp
  have x: "xs ! 0 = dec ?n" "take ?n (drop 1 xs) = devs" "xs ! (?n + 1) = dec k" "xs ! (?n + 2) = s" "xs ! (?n + 3) = e"
    "xs ! (?n + 16) = dec c" "xs ! (?n + 17) = dec t"
    using assms(2) unfolding assms(3) by (simp_all add: nth_append)
  have p: "length ([dec ?n] @ devs @ [dec k, s, e]) = ?n + 4" by simp
  have "xs = ([dec ?n] @ devs @ [dec k, s, e]) @ map flag_text fs @ [dec c, dec t]" unfolding assms(3) by simp
  then have "drop (?n + 4) xs = map flag_text fs @ [dec c, dec t]" by (metis append_eq_conv_conj p)
  then have fl: "take 12 (drop (?n + 4) xs) = map flag_text fs" using assms(2) by simp
  have strs: "take_strs (nat (int ?n)) xs 1 = Val devs" using take_strs_ok [of 1 ?n xs] len x(2) by simp
  have flags: "take_flags 12 xs (int ?n + 1 + 3) = Val fs"
    using take_flags_ok [of "?n + 4" fs xs] len fl assms(2) by (simp add: ac_simps)
  have a: "at_int xs 0 = Val (dec ?n)" "at_int xs (int ?n + 1) = Val (dec k)" "at_int xs (int ?n + 1 + 1) = Val s"
    "at_int xs (int ?n + 1 + 2) = Val e" "at_int xs (int ?n + 1 + 15) = Val (dec c)" "at_int xs (int ?n + 1 + 16) = Val (dec t)"
    using at [of 0] at [of "?n + 1"] at [of "?n + 2"] at [of "?n + 3"] at [of "?n + 16"] at [of "?n + 17"] x
    by (simp_all add: ac_simps)
  have n: "\<not> int ?n < 0" by simp
  show ?thesis
    by (simp only: parse_request_def Let_def assms(8) a call_bind.simps strs flags stoi_dec [OF assms(4)]
        stoi_dec [OF assms(5)] stoi_dec [OF assms(6)] stoi_dec [OF assms(7)] n if_False)
qed

lemma request_parsed:
  assumes "check_options a = Go jb" and "devs \<noteq> []" and "\<forall>d\<in>set devs. CHR '';'' \<notin> set d \<and> d \<noteq> []"
    and "length devs < 2147483648" and "deviceids a = join (CHR '';'') devs"
    and "length fs = 12" and "requested a = join (CHR '';'') (map flag_text fs)"
    and "compression_method a = dec c" and "c < 2147483648" and "stepsize a = dec t" and "t < 2147483648"
  shows "parse_request (request_text jb s e) = Val \<lparr>rq_devices = devs,
    rq_nosamplesets = int (length (filter (\<lambda>b. b) fs)), rq_start = to_string s, rq_end = to_string e,
    rq_requested = fs, rq_compression = int c, rq_stepsize = int t\<rparr>"
proof -
  let ?k = "length (filter (\<lambda>b. b) fs)" and ?c = "CHR '';''"
  let ?xs = "[dec (length devs)] @ devs @ [dec ?k, to_string s, to_string e] @ map flag_text fs @ [dec c, dec t]"
  have fs: "map flag_text fs \<noteq> []" using assms(6) by auto
  have pl: "\<forall>p\<in>set (map flag_text fs). ?c \<notin> set p" by (auto simp: flag_text_def)
  have d: "split_str (deviceids a) ?c = devs"
    unfolding assms(5) using assms(2,3) by (intro split_str_join) auto
  have r: "split_str (requested a) ?c = map flag_text fs"
    unfolding assms(7) using fs pl by (intro split_str_join) (auto simp: last_map flag_text_def)
  have sum: "flag_sum 12 (map flag_text fs) 0 0 = Val (int ?k)"
    using flag_sum_ok [of 0 fs "map flag_text fs" 0] assms(6) by simp
  have "compression_method a \<noteq> []" using assms(8) plain_number by simp
  with assms(1) d r sum have jb: "jb_args jb = a" "nodeviceids jb = dec (length devs)" "nosamplesets jb = dec ?k"
    by (auto simp: check_options_def Let_def to_string_nat elim!: client_bind_Go split: if_splits)
  have req: "request_text jb s e = join ?c ?xs"
    using fs assms(2) by (simp add: request_text_def jb assms(5,7,8,10) join_append del: append_Cons append.simps)
  have k: "?k < 2147483648" using length_filter_le [of "\<lambda>b. b" fs] assms(6) by simp
  have "split_str (join ?c ?xs) ?c = ?xs"
    using assms(3) pl by (intro split_str_join) (auto simp: plain_number plain_to_string)
  then show ?thesis
    unfolding req by (rule request_fields [OF assms(2,6) refl assms(4) k assms(9,11)])
qed

text \<open>
  C26: The server reads the request that the client has written: for any devices, flags, methods
  and step, and for every window of the loop, the request that passes the client's checks is
  parsed to exactly these devices, flags, methods and step, the number of flags that are set, and
  the window's two times.
\<close>

theorem request_reaches_the_server:
  assumes "check_options a = Go jb" and "devs \<noteq> []" and "\<forall>d\<in>set devs. CHR '';'' \<notin> set d \<and> d \<noteq> []"
    and "length devs < 2147483648" and "deviceids a = join (CHR '';'') devs"
    and "length fs = 12" and "requested a = join (CHR '';'') (map flag_text fs)"
    and "compression_method a = dec c" and "c < 2147483648" and "stepsize a = dec t" and "t < 2147483648"
  shows "parse_request (request_text jb s e) = Val \<lparr>rq_devices = devs,
    rq_nosamplesets = int (length (filter (\<lambda>b. b) fs)), rq_start = to_string s, rq_end = to_string e,
    rq_requested = fs, rq_compression = int c, rq_stepsize = int t\<rparr>"
  by (rule request_parsed [OF assms])

subsection \<open>The rows of a CSV file\<close>

lemma csv_rows_single:
  "n \<le> length (ss_values x) \<Longrightarrow> csv_rows show d [x] step n t =
     map (\<lambda>i. d @ '','' @ dec (unat (t + of_nat i * step)) @ '','' @ ss_name x @ '','' @ show (ss_values x ! (n - 1 - i)) @ '','')
       [0..<n]"
proof (induction n arbitrary: t)
  case (Suc n)
  have "[0..<Suc n] = 0 # map Suc [0..<n]" by (simp add: map_Suc_upt upt_conv_Cons)
  then show ?case
    using Suc by (simp add: data_keys_def comp_def algebra_simps del: upt_Suc)
qed simp

text \<open>
  A CSV file lists the samples of a set from the last to the first, while the time stamps
  ascend from the start of the window: line \<open>i\<close> has the time of the sample \<open>i\<close> and the value of
  the \<open>i\<close>-th sample from the end.
\<close>

theorem csv_lists_the_samples_backwards:
  assumes "p_outputsets p = [\<lparr>os_device = d, os_sets = [x]\<rparr>]" and "time_step w st = Val step"
    and "stoi_call cm = Val c"
  shows "saveBodyCSV w p st cm = Val (csv_header c #
    map (\<lambda>i. d @ '','' @ dec (unat (p_timestampstart p + of_nat i * step)) @ '','' @ ss_name x @ '','' @
             show_float w (ss_values x ! (length (ss_values x) - 1 - i)) @ '','') [0..<length (ss_values x)])"
  using assms csv_rows_single [of "length (ss_values x)" x] by (simp add: saveBodyCSV_def)

subsection \<open>The windows\<close>

text \<open>Times and delays far from the limits of a \<open>long\<close>.\<close>

definition moderate :: "client_job \<Rightarrow> nat \<Rightarrow> bool" where
  "moderate jb t \<longleftrightarrow> stepsize (jb_args jb) = dec t \<and> t < 2000000 \<and> 0 \<le> jb_delta_t jb \<and> jb_delta_t jb < 2 ^ 61 \<and>
     - (2 ^ 61) \<le> global_start jb \<and> global_end jb < 2 ^ 61"

definition margin :: "nat \<Rightarrow> int" where
  "margin t = int ((t + 1) * 1000 div 120)"

lemma client_round_message:
  assumes "moderate jb t" and "global_start jb \<le> s" and "s \<le> global_end jb"
    and "\<And>e. cw_reply w k (request_text jb s e) = Message p" and "save w jb k p = Go f"
    and "- (2 ^ 62) \<le> sint (p_timestampend p)" and "sint (p_timestampend p) < 2 ^ 62"
  shows "client_round w jb k s = Go (f, if sint (p_timestampend p) + margin t > global_end jb then None
                                       else Some (sint (p_timestampend p)))"
proof -
  have m: "0 \<le> jb_delta_t jb" "jb_delta_t jb < 2 ^ 61" "- (2 ^ 61) \<le> global_start jb" "global_end jb < 2 ^ 61"
    "t < 2000000" "stepsize (jb_args jb) = dec t"
    using assms(1) by (simp_all add: moderate_def)
  have "long_call (s + jb_delta_t jb) = Val (s + jb_delta_t jb)"
    using m(1-4) assms(2,3) by (simp add: long_call_def)
  then obtain e where e: "loop_end jb s = Go e" by (simp add: loop_end_def of_call_def)
  have st: "stoi_call (stepsize (jb_args jb)) = Val (int t)" using m(5,6) stoi_dec [of t] by simp
  have ms: "call_bind (int_call (int t + 1)) (\<lambda>st1. int_call (st1 * 1000)) = Val (int ((t + 1) * 1000))"
    using m(5) by (simp add: int_call_def int_ok_def)
  have "int n sdiv 120 = int (n div 120)" for n
    by (cases "n = 0") (simp_all add: signed_divide_int_def zdiv_int)
  then have q: "int ((t + 1) * 1000) sdiv 120 = margin t" unfolding margin_def .
  have "(t + 1) * 1000 div 120 \<le> (t + 1) * 1000" by (rule div_le_dividend)
  then have "margin t < 2 ^ 61" "0 \<le> margin t" unfolding margin_def using m(5) by simp_all
  then have lg: "long_call (sint (p_timestampend p) + margin t) = Val (sint (p_timestampend p) + margin t)"
    using assms(6,7) by (simp add: long_call_def)
  show ?thesis
    by (simp only: client_round_def e client_bind.simps assms(4) reply.case assms(5) Let_def st of_call_def call.case
        ms q lg)
qed

lemma windows_ascend:
  assumes "moderate jb t" and "global_start jb \<le> s" and "s \<le> global_end jb"
    and "\<And>k s. global_start jb \<le> s \<Longrightarrow> s \<le> global_end jb \<Longrightarrow> \<exists>p f. (\<forall>e. cw_reply w k (request_text jb s e) = Message p) \<and>
      save w jb k p = Go f \<and> s < sint (p_timestampend p) \<and> sint (p_timestampend p) < 2 ^ 62"
    and "nat (global_end jb - s) < n"
  shows "\<exists>ss fs. client_loop n w jb k s = (s # ss, fs, Finished (Go ())) \<and> length fs = Suc (length ss) \<and>
    sorted_wrt (<) (s # ss) \<and> (\<forall>x\<in>set ss. x \<le> global_end jb)"
  using assms(2,3,5)
proof (induction n arbitrary: s k)
  case (Suc n)
  from assms(4) [OF Suc.prems(1,2), of k] obtain p f where p: "\<And>e. cw_reply w k (request_text jb s e) = Message p"
    "save w jb k p = Go f" "s < sint (p_timestampend p)" "sint (p_timestampend p) < 2 ^ 62" by blast
  let ?s = "sint (p_timestampend p)"
  have "- (2 ^ 61) \<le> global_start jb" using assms(1) by (simp add: moderate_def)
  then have "- (2 ^ 62) \<le> ?s" using Suc.prems(1) p(3) by simp
  note r = client_round_message [OF assms(1) Suc.prems(1,2) p(1,2) this p(4)]
  show ?case
  proof (cases "?s + margin t > global_end jb")
    case True
    then show ?thesis using r by simp
  next
    case False
    then have s: "global_start jb \<le> ?s" "?s \<le> global_end jb" "nat (global_end jb - ?s) < n"
      using p(3) Suc.prems by (simp_all add: margin_def)
    from Suc.IH [OF this, of "Suc k"] obtain ss fs where
      "client_loop n w jb (Suc k) ?s = (?s # ss, fs, Finished (Go ()))" "length fs = Suc (length ss)"
      "sorted_wrt (<) (?s # ss)" "\<forall>x\<in>set ss. x \<le> global_end jb" by blast
    then show ?thesis using r False p(3) s(2) by (intro exI [of _ "?s # ss"] exI [of _ "f # fs"]) auto
  qed
qed simp

text \<open>
  C28: The client comes to an end if the server makes progress: when every answer reports an end
  after the start of its window, the loop saves one file for each window, the windows start
  later and later within the time asked for, and it finishes after at most one round per
  millisecond.
\<close>

theorem the_client_finishes:
  assumes "moderate jb t" and "global_start jb \<le> global_end jb"
    and "\<And>k s. global_start jb \<le> s \<Longrightarrow> s \<le> global_end jb \<Longrightarrow> \<exists>p f. (\<forall>e. cw_reply w k (request_text jb s e) = Message p) \<and>
      save w jb k p = Go f \<and> s < sint (p_timestampend p) \<and> sint (p_timestampend p) < 2 ^ 62"
  shows "\<exists>ss fs. client_loop (nat (global_end jb - global_start jb) + 1) w jb 0 (global_start jb) =
      (global_start jb # ss, fs, Finished (Go ())) \<and> length fs = Suc (length ss) \<and>
    sorted_wrt (<) (global_start jb # ss) \<and> (\<forall>x\<in>set ss. x \<le> global_end jb)"
  by (rule windows_ascend [OF assms(1) order_refl assms(2,3)]) simp_all

text \<open>
  Without progress the client repeats itself for ever: when an answer reports the start of
  its window as the end - as it does when its last method yields no value - then the
  next request is the same one, and so are all that follow.
\<close>

theorem no_progress_repeats_for_ever:
  assumes "moderate jb t" and "global_start jb \<le> s" and "s + margin t \<le> global_end jb"
    and "\<And>k e. cw_reply w k (request_text jb s e) = Message p" and "sint (p_timestampend p) = s"
    and "\<And>k. \<exists>f. save w jb k p = Go f"
  shows "\<exists>fs. client_loop n w jb k s = (replicate n s, fs, Continues s)"
proof (induction n arbitrary: k)
  case (Suc n)
  obtain f where f: "save w jb k p = Go f" using assms(6) by blast
  have m: "0 \<le> margin t" by (simp add: margin_def)
  then have s: "s \<le> global_end jb" using assms(3) by simp
  have "- (2 ^ 61) \<le> global_start jb" "global_end jb < 2 ^ 61" using assms(1) by (simp_all add: moderate_def)
  then have "- (2 ^ 62) \<le> s" "s < 2 ^ 62" using assms(2) s by simp_all
  then have "client_round w jb k s = Go (f, Some s)"
    using client_round_message [OF assms(1,2) s assms(4) f] assms(3,5) by simp
  then show ?case using Suc [of "Suc k"] by auto
qed simp

subsection \<open>Concrete runs\<close>

definition example_args :: client_args where
  "example_args = \<lparr>timestampstart = ''0'', timestampend = ''100'', deviceids = ''P3001065;P3001199'',
     requested = ''1;0;0;1;0;0;0;0;0;0;0;0'', compression_method = ''16'', stepsize = ''1'', calc_delta_t = ''0'',
     filename = ''example'', file_format = ''csv'', host = ''127.0.0.1'', host_port = 9000, quiet_flag = False\<rparr>"

definition example_job :: client_job where
  "example_job = \<lparr>jb_args = example_args, nodeviceids = ''2'', nosamplesets = ''2'', jb_delta_t = 17476000,
     global_start = 0, global_end = 100\<rparr>"

lemma example_checked: "check_options example_args = Go example_job"
  by code_simp

lemma example_dec: "dec 1 = ''1''" "dec 16 = ''16''"
  by (simp_all add: dec.simps digit_def char_of_def bit_Suc_0_iff)

theorem request_reaches_the_server_witness:
  "parse_request (request_text example_job 0 50) = Val \<lparr>rq_devices = [''P3001065'', ''P3001199''], rq_nosamplesets = 2,
     rq_start = ''0'', rq_end = ''50'',
     rq_requested = [True, False, False, True, False, False, False, False, False, False, False, False],
     rq_compression = 16, rq_stepsize = 1\<rparr>"
proof -
  let ?fs = "[True, False, False, True, False, False, False, False, False, False, False, False]"
  have "parse_request (request_text example_job 0 50) = Val \<lparr>rq_devices = [''P3001065'', ''P3001199''],
     rq_nosamplesets = int (length (filter (\<lambda>b. b) ?fs)), rq_start = to_string 0, rq_end = to_string 50,
     rq_requested = ?fs, rq_compression = int 16, rq_stepsize = int 1\<rparr>"
    by (rule request_reaches_the_server [OF example_checked])
      (simp_all only: example_dec, simp_all add: example_args_def flag_text_def)
  moreover have "to_string 0 = ''0''" "to_string 50 = ''50''"
    by (simp_all add: to_string_def dec.simps digit_def char_of_def bit_Suc_0_iff)
  ultimately show ?thesis by simp
qed

definition client_example :: "u64 \<Rightarrow> client_world" where
  "client_example te = \<lparr>resolve_host = (\<lambda>h. h), cw_reply = (\<lambda>_ _. Message (empty_payload\<lparr>p_timestampend := te\<rparr>)),
     cw_machine = zero_fp, show_float = (\<lambda>_. ''0.000000''), strtof = (\<lambda>_. 0)\<rparr>"

definition two_samples :: cass_payload where
  "two_samples = empty_payload\<lparr>p_timestampstart := 1000, p_outputsets := [\<lparr>os_device = ''P3001065'',
     os_sets = [\<lparr>ss_name = ''L1mag'', ss_compression = ''Raw'', ss_values = [1, 2]\<rparr>]\<rparr>]\<rparr>"

theorem csv_lists_the_samples_backwards_witness:
  "saveBodyCSV ((client_example 0)\<lparr>show_float := (\<lambda>v. dec (unat v))\<rparr>) two_samples ''1'' ''16'' =
     Val [''Device ID,TimeStamp,Data Type,Raw'', ''P3001065,1000,L1mag,2,'', ''P3001065,1000,L1mag,1,'']"
proof -
  let ?w = "(client_example 0)\<lparr>show_float := (\<lambda>v. dec (unat v))\<rparr>"
  let ?x = "\<lparr>ss_name = ''L1mag'', ss_compression = ''Raw'', ss_values = [1, 2]\<rparr>"
  have t: "time_step ?w ''1'' = Val 0" by (simp add: time_step_def client_example_def zero_fp_def)
  have c: "stoi_call ''16'' = Val 16" by code_simp
  have "saveBodyCSV ?w two_samples ''1'' ''16'' = Val (csv_header 16 #
    map (\<lambda>i. ''P3001065'' @ '','' @ dec (unat (p_timestampstart two_samples + of_nat i * 0)) @ '','' @ ss_name ?x @ '','' @
             show_float ?w (ss_values ?x ! (length (ss_values ?x) - 1 - i)) @ '','') [0..<length (ss_values ?x)])"
    by (rule csv_lists_the_samples_backwards [OF _ t c]) (simp add: two_samples_def)
  moreover have "csv_header 16 = ''Device ID,TimeStamp,Data Type,Raw''" by code_simp
  ultimately show ?thesis
    by (simp add: two_samples_def upt_conv_Cons dec.simps digit_def char_of_def bit_Suc_0_iff)
qed

lemma example_moderate: "moderate example_job 1"
  using example_dec by (simp add: moderate_def example_job_def example_args_def)

lemma example_save: "\<exists>f. save (client_example te) example_job k (empty_payload\<lparr>p_timestampend := te\<rparr>) = Go f"
proof -
  have "stoi_call ''16'' = Val 16" by code_simp
  then show ?thesis
    by (simp add: save_def example_job_def example_args_def saveBodyCSV_def empty_payload_def of_call_def Let_def)
qed

theorem the_client_finishes_witness:
  "\<exists>ss fs. client_loop 101 (client_example 200) example_job 0 0 = (0 # ss, fs, Finished (Go ()))"
proof -
  have g: "global_start example_job = 0" "global_end example_job = 100" by (simp_all add: example_job_def)
  have "\<exists>ss fs. client_loop (nat (global_end example_job - global_start example_job) + 1) (client_example 200) example_job 0
      (global_start example_job) = (global_start example_job # ss, fs, Finished (Go ())) \<and> length fs = Suc (length ss) \<and>
    sorted_wrt (<) (global_start example_job # ss) \<and> (\<forall>x\<in>set ss. x \<le> global_end example_job)"
  proof (rule the_client_finishes [OF example_moderate])
    show "\<exists>p f. (\<forall>e. cw_reply (client_example 200) k (request_text example_job s e) = Message p) \<and>
      save (client_example 200) example_job k p = Go f \<and> s < sint (p_timestampend p) \<and> sint (p_timestampend p) < 2 ^ 62"
      if "s \<le> global_end example_job" for k s
      using example_save [of 200 k] that g
      by (intro exI [of _ "empty_payload\<lparr>p_timestampend := 200\<rparr>"]) (simp add: client_example_def)
  qed (simp add: g)
  then show ?thesis unfolding g by auto
qed

theorem no_progress_repeats_for_ever_witness:
  "\<exists>fs. client_loop 1000000 (client_example 0) example_job 0 0 = (replicate 1000000 0, fs, Continues 0)"
  by (rule no_progress_repeats_for_ever [OF example_moderate, where p = "empty_payload\<lparr>p_timestampend := 0\<rparr>"])
    (use example_save in \<open>simp_all add: example_job_def margin_def client_example_def\<close>)

end
