(* ===== verification/Cass_Wire.thy ===== *)
theory Cass_Wire
  imports Cass_Client
begin

text \<open>
  Between the sample server and its client: the request goes over a TCP connection as a C string, the
  answer as a length and a protobuf message, or as a short code. What is modelled are the packets
  that the server builds at the end of \<open>SocketHandler\<close>, and the client's way of reading them: a look
  at the first four bytes, the comparison with the codes, \<open>readHdr\<close> and \<open>readBody\<close>.
\<close>

subsection \<open>Protobuf and the network\<close>

text \<open>What the library of protobuf does: messages to bytes and back, and numbers to bytes and back.\<close>

record protobuf =
  serialized :: "cass_payload \<Rightarrow> bytes"
  parsed :: "bytes \<Rightarrow> cass_payload option"
  put_varint :: "u32 \<Rightarrow> bytes"
  get_varint :: "bytes \<Rightarrow> (u32 \<times> bytes) option"

text \<open>How much of the request, and of the answer, is there when it is looked at; and what the
  programs find in memory that they have not written.\<close>

record wire =
  wi_protobuf :: protobuf
  arrived :: nat
  peeked :: nat
  send_fails :: bool
  server_heap :: "nat \<Rightarrow> u8"
  client_heap :: "nat \<Rightarrow> u8"
  client_stack :: bytes
  behind_code :: "u8 \<times> u8 \<times> u8"

text \<open>An array of \<open>n\<close> bytes after \<open>bs\<close> was written to its start.\<close>

definition filled :: "(nat \<Rightarrow> u8) \<Rightarrow> bytes \<Rightarrow> nat \<Rightarrow> bytes" where
  "filled heap bs n = take n bs @ map heap [length bs..<n]"

subsection \<open>What the server sends\<close>

text \<open>The packet is four bytes longer than the message, however long its length is written; a stream
  over a full array drops what does not fit. A packet may not be longer than an \<open>int\<close> tells.\<close>

definition packet :: "wire \<Rightarrow> cass_payload \<Rightarrow> bytes call" where
  "packet w payload =
     (let body = serialized (wi_protobuf w) payload in
      call_bind (int_call (int (length body))) (\<lambda>size.
      call_bind (int_call (size + 4)) (\<lambda>siz.
        Val (filled (server_heap w) (put_varint (wi_protobuf w) (of_int size) @ body) (nat siz)))))"

text \<open>The array of a code is replaced by the string itself, and four bytes more than it has are sent:
  its final zero and three that lie behind it.\<close>

definition code_packet :: "wire \<Rightarrow> string \<Rightarrow> bytes" where
  "code_packet w wha = (case behind_code w of (x, y, z) \<Rightarrow> map of_char wha @ [0, x, y, z])"

text \<open>What the connection carries in the end, and whether it is closed then: it stays open after an
  answer that was sent, since only the socket's number is freed.\<close>

definition sent_by :: "wire \<Rightarrow> handler_end \<Rightarrow> bytes \<times> bool" where
  "sent_by w h = (case h of
     Replied (Code wha) \<Rightarrow> (if send_fails w then [] else code_packet w wha, True)
   | Replied (Message payload) \<Rightarrow>
       (case packet w payload of Val pkt \<Rightarrow> if send_fails w then ([], True) else (pkt, False) | _ \<Rightarrow> ([], True))
   | NoReply \<Rightarrow> ([], False)
   | Crashed \<Rightarrow> ([], True)
   | Hangs \<Rightarrow> ([], False))"

subsection \<open>What the client reads\<close>

text \<open>\<open>recv\<close> with \<open>MSG_WAITALL\<close> into a new array: it waits for all bytes or the end of the connection.\<close>

definition recv_all :: "(nat \<Rightarrow> u8) \<Rightarrow> nat \<Rightarrow> bytes \<times> bool \<Rightarrow> bytes option" where
  "recv_all heap n conn = (if n \<le> length (fst conn) \<or> snd conn then Some (filled heap (fst conn) n) else None)"

definition readHdr :: "protobuf \<Rightarrow> bytes \<Rightarrow> u32 option" where
  "readHdr P buf = map_option fst (get_varint P (take 4 buf))"

text \<open>\<open>None\<close> is a client that waits for ever. When it is not quiet it prints the first device.\<close>

definition readBody :: "wire \<Rightarrow> bool \<Rightarrow> bytes \<times> bool \<Rightarrow> u32 \<Rightarrow> cass_payload client option" where
  "readBody w silent conn siz = map_option (\<lambda>buf.
     case get_varint (wi_protobuf w) buf of
       None \<Rightarrow> Fault
     | Some (siz', rest) \<Rightarrow>
         (case parsed (wi_protobuf w) (take (unat siz') rest) of
            None \<Rightarrow> Fault
          | Some payload \<Rightarrow> if \<not> silent \<and> p_outputsets payload = [] then Fault else Go payload))
     (recv_all (client_heap w) (unat (siz + 4)) conn)"

text \<open>\<open>strcmp\<close> with a short string.\<close>

definition c_equal :: "bytes \<Rightarrow> string \<Rightarrow> bool" where
  "c_equal buf s \<longleftrightarrow> take (length s + 1) buf = map of_char s @ [0]"

definition receive :: "wire \<Rightarrow> bool \<Rightarrow> bytes \<times> bool \<Rightarrow> reply client option" where
  "receive w silent conn =
     (if fst conn = [] \<and> \<not> snd conn then None
      else let buf = take (min 4 (max 1 (peeked w))) (fst conn) @
               drop (length (take (min 4 (max 1 (peeked w))) (fst conn))) (client_stack w) in
        if c_equal buf ''-1'' then Some (Go (Code ''-1''))
        else if c_equal buf ''-2'' then Some (Go (Code ''-2''))
        else if c_equal buf ''-3'' then Some (Go (Code ''-3''))
        else if c_equal buf ''-4'' then Some (Go (Code ''-4''))
        else (case readHdr (wi_protobuf w) buf of
            None \<Rightarrow> Some Fault
          | Some siz \<Rightarrow> map_option (\<lambda>r. client_bind r (\<lambda>payload. Go (Message payload))) (readBody w silent conn siz)))"

text \<open>The request is sent with its final zero; the server looks once at what has arrived of it.\<close>

definition exchange :: "cass_env \<Rightarrow> wire \<Rightarrow> bool \<Rightarrow> string \<Rightarrow> int \<Rightarrow> reply client option \<times> int" where
  "exchange e w silent datatotransmit numsamples =
     (let (h, n) = SocketHandler e (take (min 1024 (arrived w)) (datatotransmit @ [char_of (0 :: nat)])) numsamples
      in (receive w silent (sent_by w h), n))"

subsection \<open>The documented encoding of numbers\<close>

text \<open>Seven bits a byte, the low ones first; all bytes but the last have their highest bit set.\<close>

fun base128 :: "nat \<Rightarrow> bytes" where
  "base128 n = (if n < 128 then [of_nat n] else of_nat (128 + n mod 128) # base128 (n div 128))"

declare base128.simps [simp del]

text \<open>Reading stops with the first byte below 128; without one among all bytes, or within five, it fails.\<close>

definition documented :: "protobuf \<Rightarrow> bool" where
  "documented P \<longleftrightarrow> (\<forall>n rest. put_varint P n = base128 (unat n) \<and> get_varint P (base128 (unat n) @ rest) = Some (n, rest)) \<and>
     (\<forall>bs. length bs < 5 \<and> list_all (\<lambda>b. 128 \<le> b) bs \<longrightarrow> get_varint P bs = None)"

text \<open>A message survives, and begins with the tag of its first field, the required \<open>timeStampStart\<close>.
  (That a message is not longer than a version of the library accepts, 64 MB in older ones, is part of this.)\<close>

definition survives :: "protobuf \<Rightarrow> cass_payload \<Rightarrow> bool" where
  "survives P p \<longleftrightarrow> parsed P (serialized P p) = Some p \<and> (\<exists>bs. serialized P p = 8 # bs)"

lemma unat_continued: "unat (of_nat (128 + n mod 128) :: u8) = 128 + n mod 128"
proof -
  obtain m where m: "n mod 128 = m" "m < 128" by simp
  then have "(128 + m) mod 256 = 128 + m" by (intro mod_less) simp
  then show ?thesis unfolding m(1) unat_of_nat take_bit_eq_mod by simp
qed

lemma continued_byte: "128 \<le> (of_nat (128 + n mod 128) :: u8)"
  unfolding word_le_nat_alt unat_continued by simp

lemma base128_length: "n < 128 ^ k \<Longrightarrow> 0 < k \<Longrightarrow> length (base128 n) \<le> k"
proof (induction n arbitrary: k rule: base128.induct)
  case (1 n)
  show ?case
  proof (cases "n < 128")
    case False
    obtain j where k: "k = Suc j" using 1(3) by (cases k) simp_all
    then have "0 < j" using 1(2) False by (cases j) simp_all
    note k = k this
    then have "n div 128 < 128 ^ j" using 1(2) by (simp add: less_mult_imp_div_less mult.commute)
    then show ?thesis using 1(1) [of j] False k by (simp add: base128.simps [of n])
  qed (use 1(3) in \<open>simp add: base128.simps [of n]\<close>)
qed

lemma base128_continued: "128 ^ k \<le> n \<Longrightarrow> k < length (base128 n) \<and> list_all (\<lambda>b. 128 \<le> b) (take k (base128 n))"
proof (induction k arbitrary: n)
  case 0
  show ?case by (simp add: base128.simps [of n])
next
  case (Suc k)
  then have "128 ^ k \<le> n div 128" by (simp add: less_eq_div_iff_mult_less_eq mult.commute)
  moreover have "(128 :: nat) ^ Suc k \<ge> 128" by simp
  then have "\<not> n < 128" using Suc.prems by linarith
  ultimately show ?case using Suc.IH [of "n div 128"] continued_byte [of n] by (simp add: base128.simps [of n])
qed

lemma base128_begins:
  "\<exists>b bs. base128 n = b # bs \<and> (bs = [] \<or> 128 \<le> b)"
  using continued_byte [of n] by (cases "n < 128") (simp_all add: base128.simps [of n])

subsection \<open>Packets\<close>

lemma filled_short: "length bs \<le> n \<Longrightarrow> filled heap bs n = bs @ map heap [length bs..<n]"
  by (simp add: filled_def)

lemma filled_full [simp]: "filled heap bs (length bs) = bs"
  by (simp add: filled_def)

lemma filled_length [simp]: "length (filled heap bs n) = n"
  by (simp add: filled_def)

lemma packet_message:
  assumes "documented (wi_protobuf w)" "length (serialized (wi_protobuf w) p) < 2147483644"
  shows "packet w p = Val (filled (server_heap w) (base128 (length (serialized (wi_protobuf w) p)) @ serialized (wi_protobuf w) p)
    (length (serialized (wi_protobuf w) p) + 4))"
proof -
  let ?n = "length (serialized (wi_protobuf w) p)"
  have "unat (of_nat ?n :: u32) = ?n" using assms(2) by (simp add: unat_of_nat take_bit_eq_mod)
  then have "put_varint (wi_protobuf w) (of_nat ?n) = base128 ?n" using assms(1) by (simp add: documented_def)
  moreover have "int_call (int ?n) = Val (int ?n)" "int_call (int ?n + 4) = Val (int ?n + 4)"
    using assms(2) by (simp_all add: int_call_def int_ok_def)
  moreover have "nat (int ?n + 4) = ?n + 4" by simp
  ultimately show ?thesis by (simp add: packet_def Let_def)
qed

lemma no_code:
  assumes "128 \<le> b \<or> c = 8" "s \<in> {''-1'', ''-2'', ''-3'', ''-4''}"
  shows "\<not> c_equal (b # c # bs) s"
  using assms by (auto simp: c_equal_def)

lemma receive_message:
  assumes "4 \<le> peeked w" "pkt = b # c # bs" "4 \<le> length pkt" "128 \<le> b \<or> c = 8"
  shows "receive w silent (pkt, closed) = (case readHdr (wi_protobuf w) pkt of
            None \<Rightarrow> Some Fault
          | Some siz \<Rightarrow> map_option (\<lambda>r. client_bind r (\<lambda>payload. Go (Message payload))) (readBody w silent (pkt, closed) siz))"
proof -
  let ?buf = "take 4 pkt @ drop 4 (client_stack w)"
  obtain d where d: "?buf = b # c # d" using assms(2) by (simp add: numeral_eq_Suc)
  have "\<not> c_equal ?buf s" if "s \<in> {''-1'', ''-2'', ''-3'', ''-4''}" for s
    unfolding d by (rule no_code [OF assms(4) that])
  moreover have "min 4 (max 1 (peeked w)) = 4" using assms(1) by simp
  moreover have "length (take 4 pkt) = 4" "pkt \<noteq> []" using assms(3) by auto
  moreover have "readHdr (wi_protobuf w) ?buf = readHdr (wi_protobuf w) pkt" using assms(3) by (simp add: readHdr_def)
  ultimately show ?thesis by (simp add: receive_def Let_def del: length_take)
qed

lemma message_received:
  assumes "documented (wi_protobuf w)" "survives (wi_protobuf w) p" "length (serialized (wi_protobuf w) p) < 2 ^ 28"
    and "4 \<le> peeked w" "\<not> send_fails w" "p_outputsets p \<noteq> []"
  shows "receive w silent (sent_by w (Replied (Message p))) = Some (Go (Message p))"
proof -
  let ?P = "wi_protobuf w" let ?body = "serialized ?P p" let ?n = "length ?body"
  let ?pkt = "filled (server_heap w) (base128 ?n @ ?body) (?n + 4)"
  have short: "length (base128 ?n) \<le> 4" using assms(3) by (intro base128_length) simp_all
  then have pkt: "?pkt = base128 ?n @ ?body @ map (server_heap w) [length (base128 ?n @ ?body)..<?n + 4]" (is "_ = _ @ _ @ ?rest")
    by (subst filled_short) simp_all
  have u: "unat (of_nat ?n :: u32) = ?n" using assms(3) by (simp add: unat_of_nat take_bit_eq_mod)
  have get: "get_varint ?P (base128 ?n @ rest) = Some (of_nat ?n, rest)" for rest
    using assms(1) u unfolding documented_def by metis
  obtain bs where body: "?body = 8 # bs" using assms(2) by (auto simp: survives_def)
  obtain b bs' where b: "base128 ?n = b # bs'" "bs' = [] \<or> 128 \<le> b" using base128_begins by blast
  have "\<exists>c cs. ?pkt = b # c # cs \<and> (128 \<le> b \<or> c = 8)"
    unfolding pkt unfolding b(1) using b(2) body by (cases bs') simp_all
  then obtain c cs where begins: "?pkt = b # c # cs" "128 \<le> b \<or> c = 8" by blast
  have sent: "sent_by w (Replied (Message p)) = (?pkt, False)"
    using packet_message [OF assms(1), of p] assms(3,5) by (simp add: sent_by_def)
  have "readHdr ?P ?pkt = Some (of_nat ?n)" unfolding pkt readHdr_def using short by (simp add: get)
  moreover have "readBody w silent (?pkt, False) (of_nat ?n) = Some (Go p)"
  proof -
    have "unat (of_nat ?n + 4 :: u32) = ?n + 4"
      using assms(3) by (simp add: unat_word_ariths u)
    moreover have "filled (client_heap w) ?pkt (?n + 4) = ?pkt" using filled_full [of "client_heap w" ?pkt] by simp
    ultimately have "recv_all (client_heap w) (unat (of_nat ?n + 4 :: u32)) (?pkt, False) = Some ?pkt" by (simp add: recv_all_def)
    moreover have "get_varint ?P ?pkt = Some (of_nat ?n, ?body @ ?rest)" unfolding pkt by (rule get)
    ultimately show ?thesis using assms(2,6) u by (simp add: readBody_def survives_def)
  qed
  ultimately show ?thesis unfolding sent by (subst receive_message [OF assms(4) begins(1) _ begins(2)]) simp_all
qed

lemma c_equal_code: "c_equal (of_char d # of_char c # 0 # bs) [d, c'] \<longleftrightarrow> (of_char c :: u8) = of_char c'"
  by (simp add: c_equal_def)

lemma code_received:
  assumes "s \<in> {''-1'', ''-2'', ''-3'', ''-4''}" "3 \<le> peeked w" "\<not> send_fails w"
  shows "receive w silent (sent_by w (Replied (Code s))) = Some (Go (Code s))"
proof -
  obtain x y z where b: "behind_code w = (x, y, z)" by (cases "behind_code w")
  obtain c where s: "s = [CHR ''-'', c]" and c: "c \<in> {CHR ''1'', CHR ''2'', CHR ''3'', CHR ''4''}" using assms(1) by auto
  let ?pkt = "[of_char (CHR ''-''), of_char c, 0, x, y, z :: u8]" and ?k = "min 4 (max 1 (peeked w))"
  have "take k ?pkt @ drop (length (take k ?pkt)) (client_stack w) = of_char (CHR ''-'') # of_char c # 0 #
      drop 3 (take k ?pkt @ drop (length (take k ?pkt)) (client_stack w))" if "k = 3 \<or> k = 4" for k
    using that by (elim disjE) (simp_all add: numeral_eq_Suc)
  moreover have "?k = 3 \<or> ?k = 4" using assms(2) by linarith
  ultimately obtain bs where buf: "take ?k ?pkt @ drop (length (take ?k ?pkt)) (client_stack w) = of_char (CHR ''-'') # of_char c # 0 # bs"
    by blast
  have sent: "sent_by w (Replied (Code s)) = (?pkt, True)" using assms(3) by (simp add: sent_by_def code_packet_def b s)
  show ?thesis
    unfolding sent receive_def Let_def fst_conv buf unfolding c_equal_code s using c by (elim insertE) simp_all
qed

lemma large_message:
  assumes "documented (wi_protobuf w)" "2 ^ 28 \<le> length (serialized (wi_protobuf w) p)"
    and "length (serialized (wi_protobuf w) p) < 2147483644" "4 \<le> peeked w" "\<not> send_fails w"
  shows "receive w silent (sent_by w (Replied (Message p))) = Some Fault"
proof -
  let ?P = "wi_protobuf w" let ?body = "serialized ?P p" let ?n = "length ?body"
  let ?pkt = "filled (server_heap w) (base128 ?n @ ?body) (?n + 4)"
  have long: "4 < length (base128 ?n)" "list_all (\<lambda>b. 128 \<le> b) (take 4 (base128 ?n))"
    using base128_continued [of 4 ?n] assms(2) by simp_all
  have four: "take 4 ?pkt = take 4 (base128 ?n)" using long(1) by (simp add: filled_def min_def)
  obtain b c d e where bs: "take 4 (base128 ?n) = [b, c, d, e]"
    using long(1) by (auto simp: numeral_eq_Suc less_eq_Suc_le Suc_le_length_iff)
  have begins: "?pkt = b # c # drop 2 ?pkt"
    using four bs by (cases ?pkt; cases "tl ?pkt") (simp_all add: numeral_eq_Suc)
  have "readHdr ?P ?pkt = None"
    using assms(1) long(2) unfolding readHdr_def four by (simp add: documented_def bs)
  moreover have "128 \<le> b \<or> c = 8" using long(2) bs by simp
  moreover have "sent_by w (Replied (Message p)) = (?pkt, False)"
    using packet_message [OF assms(1,3)] assms(5) by (simp add: sent_by_def)
  ultimately show ?thesis by (simp add: receive_message [OF assms(4) begins])
qed

subsection \<open>An exchange\<close>

text \<open>The codes that the handler sends are those that the client knows, and a message has a device.\<close>

definition proper :: "reply \<Rightarrow> bool" where
  "proper r \<longleftrightarrow> (case r of Code s \<Rightarrow> s \<in> {''-1'', ''-2'', ''-3'', ''-4''} | Message p \<Rightarrow> p_outputsets p \<noteq> [])"

definition answering :: "cass_payload \<Rightarrow> bool \<Rightarrow> bool" where
  "answering p failed \<longleftrightarrow> (p_outputsets p = [] \<longrightarrow> failed \<and> p_numsamples p = None)"

lemma act_bind_Val: "act_bind m f n = (Val y, n') \<longleftrightarrow> (\<exists>x n1. m n = (Val x, n1) \<and> f x n1 = (Val y, n'))"
  by (auto simp: act_bind_def split: prod.splits call.splits)

lemma plain_Val: "plain c n = (Val x, n') \<longleftrightarrow> c = Val x \<and> n' = n"
  by (auto simp: plain_def)

lemma answer_device_answering:
  assumes "answer_device e r w d (p, t, failed) n = (Val (p', t', failed'), n')"
  shows "p_outputsets p' \<noteq> [] \<or> failed' \<and> p_outputsets p' = p_outputsets p \<and> p_numsamples p' = p_numsamples p"
  using assms
  by (auto simp: answer_device_def act_bind_Val plain_Val call_bind_Val split: option.splits prod.splits)

lemma answer_devices_answering:
  assumes "answer_devices e r w ds (p, t, failed) n = (Val (p', t', failed'), n')"
    and "p_outputsets p = [] \<Longrightarrow> p_numsamples p = None \<and> (failed \<or> ds \<noteq> [])"
  shows "answering p' failed'"
  using assms
proof (induction ds arbitrary: p t failed n)
  case Nil
  then show ?case by (auto simp: plain_Val answering_def)
next
  case (Cons d ds)
  then obtain p1 t1 failed1 n1 where 1: "answer_device e r w d (p, t, failed) n = (Val (p1, t1, failed1), n1)"
    and 2: "answer_devices e r w ds (p1, t1, failed1) n1 = (Val (p', t', failed'), n')"
    by (auto simp: act_bind_Val)
  from answer_device_answering [OF 1] Cons.prems(2) show ?case by (intro Cons.IH [OF 2]) auto
qed

lemma handler_proper:
  assumes "fst (SocketHandler e received n) = Replied r"
  shows "proper r"
proof (cases r)
  case (Code s)
  then show ?thesis
    using assms by (auto simp: SocketHandler_def proper_def answer_def act_bind_Val plain_Val split: if_splits prod.splits call.splits)
next
  case (Message p)
  with assms obtain n' where "answer e (c_str received) n = (Val (Message p), n')"
    by (auto simp: SocketHandler_def split: if_splits prod.splits call.splits)
  then obtain rq w t failed n1 where "request_window (machine e) rq = Val w"
    and a: "answer_devices e rq w (rq_devices rq) (empty_payload, None, False) n1 = (Val (p, t, failed), n')"
    and f: "\<not> (failed \<and> p_numsamples p = None)"
    by (auto simp: answer_def act_bind_Val plain_Val split: if_splits)
  then have "rq_devices rq \<noteq> []" by (auto simp: request_window_def call_bind_Val Let_def)
  then have "answering p failed" using answer_devices_answering [OF a] by (simp add: empty_payload_def)
  then show ?thesis using f Message by (auto simp: answering_def proper_def)
qed

text \<open>A network that delivers: the whole request is there when the server looks, and the first four
  bytes of the answer when the client does.\<close>

definition delivers :: "wire \<Rightarrow> string \<Rightarrow> bool" where
  "delivers w datatotransmit \<longleftrightarrow> length datatotransmit < arrived w \<and> length datatotransmit < 1024 \<and> 4 \<le> peeked w \<and> \<not> send_fails w"

definition fits :: "protobuf \<Rightarrow> reply \<Rightarrow> bool" where
  "fits P r \<longleftrightarrow> (case r of Code s \<Rightarrow> True | Message p \<Rightarrow> survives P p \<and> length (serialized P p) < 2 ^ 28)"

lemma reply_received:
  assumes "documented (wi_protobuf w)" "delivers w text" "fits (wi_protobuf w) r" "proper r"
  shows "receive w silent (sent_by w (Replied r)) = Some (Go r)"
proof (cases r)
  case (Code s)
  then show ?thesis using code_received [of s w] assms(2,4) by (simp add: delivers_def proper_def)
next
  case (Message p)
  then show ?thesis using message_received [of w p] assms by (simp add: delivers_def proper_def fits_def)
qed

lemma exchange_delivered:
  assumes "documented (wi_protobuf w)" "delivers w text"
    and "SocketHandler e (text @ [char_of (0 :: nat)]) n = (Replied r, n')" "fits (wi_protobuf w) r"
  shows "exchange e w silent text n = (Some (Go r), n')"
proof -
  have "length text < min 1024 (arrived w)" using assms(2) by (simp add: delivers_def)
  then have "take (min 1024 (arrived w)) (text @ [char_of (0 :: nat)]) = text @ [char_of (0 :: nat)]"
    by (intro take_all) simp
  moreover have "proper r" using handler_proper [of e "text @ [char_of (0 :: nat)]" n r] assms(3) by simp
  ultimately show ?thesis
    using reply_received [OF assms(1,2,4)] assms(3) by (simp add: exchange_def del: take_append)
qed

text \<open>C27: Over a network that delivers, the client receives what the server replied: the message for
  message, up to 256 MB, and each code for each code - whatever lies in the memory that the two
  programs send and compare with it.\<close>

theorem answers_cross_the_wire:
  assumes "documented (wi_protobuf w)" "delivers w text"
    and "SocketHandler e (text @ [char_of (0 :: nat)]) n = (Replied r, n')" "fits (wi_protobuf w) r"
  shows "exchange e w silent text n = (Some (Go r), n')"
  by (rule exchange_delivered [OF assms])

text \<open>From the archive to the client: if Cassandra holds, for the device and the window of a request
  of the client, messages that were stored with \<open>serialize\<close>, then the client receives one set of values
  for every channel and method that it asked for, computed from the samples of all rows in order,
  from the first one asked for on, with their number and times.\<close>

theorem archived_samples_reach_the_client:
  assumes request: "check_options a = Go jb" "deviceids a = d" "d \<noteq> []" "CHR '';'' \<notin> set d" "length fs = 12" "True \<in> set fs"
      "requested a = join (CHR '';'') (map flag_text fs)" "compression_method a = dec c" "c < 2147483648"
      "stepsize a = dec s" "0 < s" "s < 2147483648" "char_of (0 :: nat) \<notin> set (request_text jb t t')"
    and asked: "r = \<lparr>rq_devices = [d], rq_nosamplesets = int (length (filter (\<lambda>b. b) fs)), rq_start = to_string t,
      rq_end = to_string t', rq_requested = fs, rq_compression = int c, rq_stepsize = int s\<rparr>"
      "request_window (machine e) r = Val win" "methods (rq_compression r) [1, 2, 3, 4, 5] \<noteq> []"
    and stored: "session_connects e" "run_query e (query_text d win (to_string t')) = Some (map (\<lambda>(t, x). (t, ser x)) recs)"
      "\<forall>(t, x)\<in>set recs. storable ser (parse_upmu_data e) x" "w_skip win = int k" "ss = drop k (all_samples recs)"
      "k \<le> length (all_samples recs)" "s \<le> length ss" "length ss < 2147483648"
      "shifted_time (machine e) (min_stamp None (map fst recs)) (int k) = Val t1" "0 \<le> t1" "t1 < 2 ^ 62"
      "m = last_count r s (length ss)" "1000 * m * s < 2147483648"
    and network: "documented (wi_protobuf w)" "delivers w (request_text jb t t')"
      "p = answered e r d s ss empty_payload t1 (t1 + int (1000 * m * s div 120)) (int m)" "fits (wi_protobuf w) (Message p)"
  shows "exchange e w silent (request_text jb t t') n = (Some (Go (Message p)), int m)"
proof -
  let ?text = "request_text jb t t'"
  have parsed_text: "parse_request ?text = Val r"
    unfolding asked(1) using request by (intro request_parsed [of a jb "[d]" fs c s, simplified]) simp_all
  have "answer_device e r win d (empty_payload, None, False) n = (Val (p, Some t1, False), int m)"
    using answer_device_result [of e d win r ser recs k ss s None t1 empty_payload False n] end_time_small [of t1 m s]
      stored request(5,6,11) asked(1,3) network(3) by simp
  then have "answer e ?text n = (Val (Message p), int m)"
    unfolding answer_def using asked(1,2) network(3) by (simp add: act_bind_def plain_def parsed_text answered_def)
  moreover have "c_str (?text @ [char_of (0 :: nat)]) = ?text"
    unfolding c_str_def using request(13) by (subst takeWhile_append2) auto
  ultimately have "SocketHandler e (?text @ [char_of (0 :: nat)]) n = (Replied (Message p), int m)"
    using stored(1) by (simp add: SocketHandler_def)
  then show ?thesis by (rule exchange_delivered [OF network(1,2) _ network(4)])
qed

text \<open>An answer of 256 MB or more is lost: its length takes five bytes, of which the client looks at four.\<close>

theorem large_answers_are_lost:
  assumes "documented (wi_protobuf w)" "delivers w text" "SocketHandler e (text @ [char_of (0 :: nat)]) n = (Replied (Message p), n')"
    and "2 ^ 28 \<le> length (serialized (wi_protobuf w) p)" "length (serialized (wi_protobuf w) p) < 2147483644"
  shows "exchange e w silent text n = (Some Fault, n')"
proof -
  have "length text < min 1024 (arrived w)" using assms(2) by (simp add: delivers_def)
  then have "take (min 1024 (arrived w)) (text @ [char_of (0 :: nat)]) = text @ [char_of (0 :: nat)]"
    by (intro take_all) simp
  then show ?thesis
    using large_message [OF assms(1,4,5)] assms(2,3) by (simp add: exchange_def delivers_def del: take_append)
qed

subsection \<open>Concrete runs\<close>

text \<open>A reader of numbers after the documentation.\<close>

primrec unbase128 :: "nat \<Rightarrow> bytes \<Rightarrow> (nat \<times> bytes) option" where
  "unbase128 0 bs = None"
| "unbase128 (Suc k) bs = (case bs of [] \<Rightarrow> None
     | b # r \<Rightarrow> if b < 128 then Some (unat b, r) else map_option (\<lambda>(v, r'). (unat b - 128 + 128 * v, r')) (unbase128 k r))"

lemma unbase128_base128: "n < 128 ^ k \<Longrightarrow> 0 < k \<Longrightarrow> unbase128 k (base128 n @ rest) = Some (n, rest)"
proof (induction n arbitrary: k rule: base128.induct)
  case (1 n)
  obtain j where k: "k = Suc j" using 1(3) by (cases k) simp_all
  show ?case
  proof (cases "n < 128")
    case True
    then have "unat (of_nat n :: u8) = n" by (simp add: unat_of_nat take_bit_eq_mod)
    moreover have "(of_nat n :: u8) < 128" using True calculation by (simp add: word_less_nat_alt)
    ultimately show ?thesis using True by (simp add: base128.simps [of n] k)
  next
    case False
    then have "0 < j" using 1(2) k by (cases j) simp_all
    moreover have "n div 128 < 128 ^ j" using 1(2) k by (simp add: less_mult_imp_div_less mult.commute)
    ultimately have "unbase128 j (base128 (n div 128) @ rest) = Some (n div 128, rest)" using 1(1) False by blast
    moreover have "\<not> (of_nat (128 + n mod 128) :: u8) < 128" using continued_byte [of n] by simp
    ultimately show ?thesis using False by (simp add: base128.simps [of n] k unat_continued del: of_nat_add)
  qed
qed

lemma unbase128_continued: "list_all (\<lambda>b. 128 \<le> b) bs \<Longrightarrow> length bs < k \<Longrightarrow> unbase128 k bs = None"
proof (induction bs arbitrary: k)
  case (Cons b bs)
  then show ?case by (cases k) (auto simp: not_less)
qed (simp add: gr0_conv_Suc, auto)

definition example_protobuf :: "cass_payload \<Rightarrow> bytes \<Rightarrow> protobuf" where
  "example_protobuf p bs = \<lparr>serialized = (\<lambda>_. 8 # bs), parsed = (\<lambda>_. Some p), put_varint = (\<lambda>n. base128 (unat n)),
     get_varint = (\<lambda>bs. map_option (\<lambda>(v, r). (of_nat v, r)) (unbase128 5 bs))\<rparr>"

lemma example_documented: "documented (example_protobuf p bs)"
proof -
  have "unat n < 2 ^ LENGTH(32)" for n :: u32 by (rule unsigned_less)
  then have "unat n < 128 ^ 5" for n :: u32 by (rule less_le_trans) simp
  then have "unbase128 5 (base128 (unat n) @ rest) = Some (unat n, rest)" for n :: u32 and rest
    by (rule unbase128_base128) simp
  then show ?thesis by (auto simp: documented_def example_protobuf_def unbase128_continued)
qed

definition example_wire :: "protobuf \<Rightarrow> wire" where
  "example_wire P = \<lparr>wi_protobuf = P, arrived = 1023, peeked = 4, send_fails = False, server_heap = (\<lambda>_. 0), client_heap = (\<lambda>_. 0),
     client_stack = replicate 1024 255, behind_code = (1, 2, 3)\<rparr>"

definition wire_args :: client_args where
  "wire_args = example_args\<lparr>deviceids := ''P3001065'', requested := ''1;0;0;0;0;0;0;0;0;0;0;0'', compression_method := ''17'', stepsize := ''2''\<rparr>"

definition wire_job :: client_job where
  "wire_job = \<lparr>jb_args = wire_args, nodeviceids = ''1'', nosamplesets = ''1'', jb_delta_t = 69905000,
     global_start = 0, global_end = 100\<rparr>"

lemma wire_job_checked: "check_options wire_args = Go wire_job"
  by code_simp

definition wire_payload :: cass_payload where
  "wire_payload = answered (example_cass (example_data [5, 3, 7, 9])) (example_request 17 2) ''P3001065'' 2
     (map example_sample [5, 3, 7, 9]) empty_payload 1000 (1000 + int (1000 * 4 * 2 div 120)) (int 4)"

theorem archived_samples_reach_the_client_witness:
  "exchange (example_cass (example_data [5, 3, 7, 9])) (example_wire (example_protobuf wire_payload (replicate 200 1))) True
     (request_text wire_job 1999 5000) 0 = (Some (Go (Message wire_payload)), 4)"
proof -
  let ?e = "example_cass (example_data [5, 3, 7, 9])" and ?r = "example_request 17 2"
  let ?ss = "map example_sample [5, 3, 7, 9]" and ?w = "example_wire (example_protobuf wire_payload (replicate 200 1))"
  let ?fs = "[True, False, False, False, False, False, False, False, False, False, False, False]"
  have m: "methods 17 [1, 2, 3, 4, 5] = [1, 5]" by (simp add: methods_def bit_iff_odd)
  have c: "last_count ?r 2 (length ?ss) = 4" using m by (simp add: last_count_def example_request_def value_count_def)
  have t: "dec 17 = ''17''" "dec 2 = ''2''" "dec 1000 = ''1000''" "to_string 0 = ''0''" "to_string 1999 = ''1999''" "to_string 5000 = ''5000''"
    by (simp_all add: to_string_def dec.simps digit_def char_of_def bit_Suc_0_iff)
  have req: "request_text wire_job 1999 5000 = ''1;P3001065;1;1999;5000;1;0;0;0;0;0;0;0;0;0;0;0;17;2''"
    by (simp add: request_text_def wire_job_def wire_args_def t)
  have win: "request_window zero_fp ?r = Val example_window"
    by (simp add: request_window_def example_request_def read_u64_def digits_value_def is_digit_def is_space_def int_of_u64_def
        zero_fp_def int_call_def int_ok_def day_list_def t example_window_def Let_def)
  have r: "?r = \<lparr>rq_devices = [''P3001065''], rq_nosamplesets = int (length (filter (\<lambda>b. b) ?fs)), rq_start = to_string 1999,
      rq_end = to_string 5000, rq_requested = ?fs, rq_compression = int 17, rq_stepsize = int 2\<rparr>"
    by (simp add: example_request_def t)
  have "exchange ?e ?w True (request_text wire_job 1999 5000) 0 = (Some (Go (Message wire_payload)), int 4)"
  proof (rule archived_samples_reach_the_client [OF wire_job_checked _ _ _ _ _ _ _ _ _ _ _ _ r, where win = example_window and k = 0 and
      recs = "[(1000, example_data [5, 3, 7, 9])]" and ser = "\<lambda>_. [7]" and ss = ?ss and ?t1.0 = 1000])
    show "documented (wi_protobuf ?w)" using example_documented by (simp add: example_wire_def)
    show "fits (wi_protobuf ?w) (Message wire_payload)"
      by (simp add: fits_def survives_def example_wire_def example_protobuf_def)
    show "delivers ?w (request_text wire_job 1999 5000)" by (simp add: delivers_def req example_wire_def)
    show "char_of (0 :: nat) \<notin> set (request_text wire_job 1999 5000)" unfolding req by (simp add: char_of_def)
    show "wire_payload = answered ?e ?r ''P3001065'' 2 ?ss empty_payload 1000 (1000 + int (1000 * 4 * 2 div 120)) (int 4)"
      by (simp add: wire_payload_def wire_args_def)
    show "4 = last_count ?r 2 (length ?ss)" by (simp only: c)
    show "request_window (machine ?e) ?r = Val example_window" using win by (simp add: example_cass_def)
    show "shifted_time (machine ?e) (min_stamp None (map fst [(1000, example_data [5, 3, 7, 9])])) (int 0) = Val 1000"
      using example_time by (simp add: example_cass_def)
  qed (use m in \<open>simp_all add: wire_args_def flag_text_def t example_cass_def storable_def example_data_def example_window_def
        all_samples_def example_request_def\<close>)
  then show ?thesis by simp
qed

theorem answers_cross_the_wire_witness:
  "exchange ((example_cass (example_data []))\<lparr>session_connects := False\<rparr>) (example_wire (example_protobuf empty_payload [])) True
     (request_text wire_job 1999 5000) 7 = (Some (Go (Code ''-3'')), 7)"
proof (rule answers_cross_the_wire)
  have t: "to_string 1999 = ''1999''" "to_string 5000 = ''5000''"
    by (simp_all add: to_string_def dec.simps digit_def char_of_def bit_Suc_0_iff)
  show "delivers (example_wire (example_protobuf empty_payload [])) (request_text wire_job 1999 5000)"
    by (simp add: delivers_def example_wire_def request_text_def wire_job_def wire_args_def example_args_def t)
  show "documented (wi_protobuf (example_wire (example_protobuf empty_payload [])))" using example_documented by (simp add: example_wire_def)
qed (simp_all add: SocketHandler_def fits_def)

end
