(* ===== verification/Cass_Threads.thy ===== *)
theory Cass_Threads
  imports Cass_Server
begin

text \<open>
  The sample server with its connections at work: \<open>makemysocket\<close> starts a thread per connection, and
  the threads run \<open>SocketHandler\<close> at the same time, on one global variable \<open>numsamples\<close>, without a
  lock. \<open>Cass_Server\<close> takes a handler as one step; here it is a program that writes and reads that
  variable one access at a time, and the accesses of the threads interleave in any order. Run
  alone, the program does what the handler of \<open>Cass_Server\<close> does.
\<close>

subsection \<open>Programs on a shared variable\<close>

datatype 'a prog = Done "'a call" | Write int "'a prog" | Read "int \<Rightarrow> 'a prog"

primrec prog_bind :: "'a prog \<Rightarrow> ('a \<Rightarrow> 'b prog) \<Rightarrow> 'b prog" where
  "prog_bind (Done c) f =
     (case c of Val x \<Rightarrow> f x | Invalid \<Rightarrow> Done Invalid | Other \<Rightarrow> Done Other | Crash \<Rightarrow> Done Crash | Endless \<Rightarrow> Done Endless)"
| "prog_bind (Write v p) f = Write v (prog_bind p f)"
| "prog_bind (Read k) f = Read (\<lambda>v. prog_bind (k v) f)"

text \<open>A program that runs alone.\<close>

primrec run_alone :: "'a prog \<Rightarrow> 'a act" where
  "run_alone (Done c) = plain c"
| "run_alone (Write v p) = (\<lambda>numsamples. run_alone p v)"
| "run_alone (Read k) = (\<lambda>numsamples. run_alone (k numsamples) numsamples)"

text \<open>All that a program may end with, whatever the other threads write.\<close>

primrec results :: "'a prog \<Rightarrow> 'a call set" where
  "results (Done c) = {c}"
| "results (Write v p) = results p"
| "results (Read k) = (\<Union>v. results (k v))"

lemma run_alone_bind: "run_alone (prog_bind p f) = act_bind (run_alone p) (\<lambda>x. run_alone (f x))"
proof (rule ext)
  show "run_alone (prog_bind p f) n = act_bind (run_alone p) (\<lambda>x. run_alone (f x)) n" for n
    by (induction p arbitrary: n) (auto simp: act_bind_def plain_def split: call.splits)
qed

lemma run_alone_result: "fst (run_alone p n) \<in> results p"
  by (induction p arbitrary: n) (fastforce simp: plain_def)+

lemma results_bind: "results (prog_bind p f) = (\<Union>c\<in>results p. case c of Val x \<Rightarrow> results (f x)
    | Invalid \<Rightarrow> {Invalid} | Other \<Rightarrow> {Other} | Crash \<Rightarrow> {Crash} | Endless \<Rightarrow> {Endless})"
  by (induction p) (auto split: call.splits)

subsection \<open>The handler, access by access\<close>

definition compress_prog :: "fp_ops \<Rightarrow> nat \<Rightarrow> f32 list \<Rightarrow> u32 \<Rightarrow> f32 list prog" where
  "compress_prog m k input stepsize = (case compressor m k input stepsize of
     Val out \<Rightarrow> if 1 \<le> k \<and> k \<le> 5 then Write (int (length out)) (Done (Val out)) else Done (Val out)
   | c \<Rightarrow> Done c)"

primrec channel_sets_prog :: "fp_ops \<Rightarrow> nat \<Rightarrow> u32 \<Rightarrow> (bool \<times> string \<times> f32 list) list \<Rightarrow> sample_set list prog" where
  "channel_sets_prog m k stepsize [] = Done (Val [])"
| "channel_sets_prog m k stepsize (c # cs) = (case c of (requested, name, values) \<Rightarrow>
     if requested
     then prog_bind (compress_prog m k values stepsize) (\<lambda>out.
          prog_bind (channel_sets_prog m k stepsize cs) (\<lambda>rest.
            Done (Val (\<lparr>ss_name = name, ss_compression = lookuptable ! (k - 1), ss_values = out\<rparr> # rest))))
     else channel_sets_prog m k stepsize cs)"

primrec compression_sets_prog ::
  "fp_ops \<Rightarrow> int \<Rightarrow> u32 \<Rightarrow> (bool \<times> string \<times> f32 list) list \<Rightarrow> nat list \<Rightarrow> sample_set list prog" where
  "compression_sets_prog m compression_method stepsize cs [] = Done (Val [])"
| "compression_sets_prog m compression_method stepsize cs (compress # ks) =
     (if bit compression_method (compress - 1)
      then prog_bind (channel_sets_prog m compress stepsize cs) (\<lambda>sets.
           prog_bind (compression_sets_prog m compression_method stepsize cs ks) (\<lambda>rest. Done (Val (sets @ rest))))
      else compression_sets_prog m compression_method stepsize cs ks)"

text \<open>The variable is read twice at the end: for the end of the window, and for the number of samples.\<close>

definition finish_device :: "cass_request \<Rightarrow> string \<Rightarrow> cass_payload \<Rightarrow> bool \<Rightarrow> int \<Rightarrow> sample_set list \<Rightarrow> answer_state prog" where
  "finish_device r device payload failed t' sets =
     Read (\<lambda>numsamples. prog_bind (Done (end_time t' numsamples (rq_stepsize r))) (\<lambda>te.
     Read (\<lambda>numsamples'. Done (Val
       (payload\<lparr>p_numdevices := int (length (rq_devices r)), p_timestampstart := of_int t',
          p_outputsets := p_outputsets payload @ [\<lparr>os_device = device, os_sets = sets\<rparr>],
          p_timestampend := of_int te, p_numsamples := Some numsamples'\<rparr>, Some t', failed)))))"

definition answer_device_prog ::
  "cass_env \<Rightarrow> cass_request \<Rightarrow> window \<Rightarrow> string \<Rightarrow> answer_state \<Rightarrow> answer_state prog" where
  "answer_device_prog e r w device st = (case st of (payload, timestampcass, failed) \<Rightarrow>
     (case run_query e (query_text device w (rq_end r)) of
        None \<Rightarrow> Done (Val (payload, timestampcass, True))
      | Some result \<Rightarrow>
          prog_bind (Done (read_rows (parse_upmu_data e) result timestampcass)) (\<lambda>(t, ss).
          prog_bind (Done (device_columns (rq_requested r) (w_skip w) ss)) (\<lambda>cs.
          prog_bind (Done (shifted_time (machine e) t (w_skip w))) (\<lambda>t'.
          prog_bind (compression_sets_prog (machine e) (rq_compression r) (of_int (rq_stepsize r)) cs [1, 2, 3, 4, 5])
            (finish_device r device payload failed t'))))))"

primrec answer_devices_prog ::
  "cass_env \<Rightarrow> cass_request \<Rightarrow> window \<Rightarrow> string list \<Rightarrow> answer_state \<Rightarrow> answer_state prog" where
  "answer_devices_prog e r w [] st = Done (Val st)"
| "answer_devices_prog e r w (d # ds) st = prog_bind (answer_device_prog e r w d st) (answer_devices_prog e r w ds)"

definition answer_prog :: "cass_env \<Rightarrow> string \<Rightarrow> reply prog" where
  "answer_prog e strbuffer =
     prog_bind (Done (parse_request strbuffer)) (\<lambda>r.
     prog_bind (Done (request_window (machine e) r)) (\<lambda>w.
     prog_bind (answer_devices_prog e r w (rq_devices r) (empty_payload, None, False)) (\<lambda>(payload, t, failed).
       Done (Val (if failed \<and> p_numsamples payload = None then Code ''-4'' else Message payload)))))"

subsection \<open>Connections\<close>

text \<open>A connection is still running, or it has ended; what it has received is kept beside it.\<close>

datatype connection = Running "reply prog" | Ended handler_end

definition handler_result :: "reply call \<Rightarrow> handler_end" where
  "handler_result c = (case c of Val r \<Rightarrow> Replied r | Invalid \<Rightarrow> Replied (Code ''-1'') | Other \<Rightarrow> Replied (Code ''-2'')
     | Crash \<Rightarrow> Crashed | Endless \<Rightarrow> Hangs)"

definition start_connection :: "cass_env \<Rightarrow> string \<Rightarrow> connection" where
  "start_connection e received =
     (if received = [] then Ended NoReply
      else if \<not> session_connects e then Ended (Replied (Code ''-3''))
      else if 1024 \<le> length received \<and> char_of (0 :: nat) \<notin> set received then Ended Crashed
      else Running (answer_prog e (c_str received)))"

record server =
  sv_numsamples :: int
  sv_connections :: "(string \<times> connection) list"

text \<open>A crash of one thread is the end of the process. A connection whose thread cannot be created is
  never answered.\<close>

inductive server_step :: "cass_env \<Rightarrow> server \<Rightarrow> server \<Rightarrow> bool" for e where
  accepts: "Ended Crashed \<notin> snd ` set (sv_connections s) \<Longrightarrow>
    server_step e s (s\<lparr>sv_connections := sv_connections s @ [(received, start_connection e received)]\<rparr>)"
| no_thread: "Ended Crashed \<notin> snd ` set (sv_connections s) \<Longrightarrow>
    server_step e s (s\<lparr>sv_connections := sv_connections s @ [(received, Ended NoReply)]\<rparr>)"
| writes: "Ended Crashed \<notin> snd ` set (sv_connections s) \<Longrightarrow> i < length (sv_connections s) \<Longrightarrow>
    sv_connections s ! i = (received, Running (Write v p)) \<Longrightarrow>
    server_step e s (s\<lparr>sv_numsamples := v, sv_connections := (sv_connections s)[i := (received, Running p)]\<rparr>)"
| reads: "Ended Crashed \<notin> snd ` set (sv_connections s) \<Longrightarrow> i < length (sv_connections s) \<Longrightarrow>
    sv_connections s ! i = (received, Running (Read k)) \<Longrightarrow>
    server_step e s (s\<lparr>sv_connections := (sv_connections s)[i := (received, Running (k (sv_numsamples s)))]\<rparr>)"
| ends: "Ended Crashed \<notin> snd ` set (sv_connections s) \<Longrightarrow> i < length (sv_connections s) \<Longrightarrow>
    sv_connections s ! i = (received, Running (Done c)) \<Longrightarrow>
    server_step e s (s\<lparr>sv_connections := (sv_connections s)[i := (received, Ended (handler_result c))]\<rparr>)"

subsection \<open>A connection that runs alone\<close>

lemma plain_bind: "act_bind (plain c) f = (case c of Val x \<Rightarrow> f x | Invalid \<Rightarrow> plain Invalid | Other \<Rightarrow> plain Other
    | Crash \<Rightarrow> plain Crash | Endless \<Rightarrow> plain Endless)"
  by (auto simp: act_bind_def plain_def fun_eq_iff split: call.splits)

lemma compress_prog_alone: "run_alone (compress_prog m k input stepsize) = compress_act m k input stepsize"
  by (auto simp: compress_prog_def compress_act_def plain_def fun_eq_iff split: call.splits)

lemma channel_sets_prog_alone: "run_alone (channel_sets_prog m k stepsize cs) = channel_sets m k stepsize cs"
  by (induction cs) (simp_all add: run_alone_bind compress_prog_alone split: prod.split)

lemma compression_sets_prog_alone:
  "run_alone (compression_sets_prog m cm stepsize cs ks) = compression_sets m cm stepsize cs ks"
  by (induction ks) (simp_all add: run_alone_bind channel_sets_prog_alone)

lemma finish_device_alone:
  "run_alone (finish_device r d payload failed t' sets) = (\<lambda>numsamples. plain (call_bind (end_time t' numsamples (rq_stepsize r)) (\<lambda>te.
     Val (payload\<lparr>p_numdevices := int (length (rq_devices r)), p_timestampstart := of_int t',
            p_outputsets := p_outputsets payload @ [\<lparr>os_device = d, os_sets = sets\<rparr>],
            p_timestampend := of_int te, p_numsamples := Some numsamples\<rparr>, Some t', failed))) numsamples)"
  by (auto simp: finish_device_def plain_def fun_eq_iff split: call.splits)

lemma answer_device_prog_alone: "run_alone (answer_device_prog e r w d st) = answer_device e r w d st"
  by (cases st) (simp add: answer_device_prog_def answer_device_def run_alone_bind compression_sets_prog_alone
      finish_device_alone split_beta' split: option.split del: prog_bind.simps compression_sets_prog.simps compression_sets.simps)

lemma answer_devices_prog_alone: "run_alone (answer_devices_prog e r w ds st) = answer_devices e r w ds st"
  by (induction ds arbitrary: st) (simp_all add: run_alone_bind answer_device_prog_alone)

lemma answer_prog_alone: "run_alone (answer_prog e strbuffer) = answer e strbuffer"
  by (simp add: answer_prog_def answer_def run_alone_bind answer_devices_prog_alone split_beta' del: prog_bind.simps)

lemma handler_alone:
  "SocketHandler e received n = (case start_connection e received of
     Running p \<Rightarrow> (let (c, n') = run_alone p n in (handler_result c, n')) | Ended h \<Rightarrow> (h, n))"
  by (auto simp: SocketHandler_def start_connection_def answer_prog_alone handler_result_def split: prod.split call.split)

subsection \<open>What the results of a program have in common\<close>

definition agree :: "('a \<Rightarrow> 'a \<Rightarrow> bool) \<Rightarrow> 'a call \<Rightarrow> 'a call \<Rightarrow> bool" where
  "agree R c c' \<longleftrightarrow> c = Crash \<or> c' = Crash \<or> (case c of Val x \<Rightarrow> (\<exists>y. c' = Val y \<and> R x y) | _ \<Rightarrow> c' = c)"

definition agrees :: "('a \<Rightarrow> 'a \<Rightarrow> bool) \<Rightarrow> 'a prog \<Rightarrow> 'a prog \<Rightarrow> bool" where
  "agrees R p q \<longleftrightarrow> (\<forall>c\<in>results p. \<forall>c'\<in>results q. agree R c c')"

lemma agrees_Done: "(\<And>x. c = Val x \<Longrightarrow> R x x) \<Longrightarrow> agrees R (Done c) (Done c)"
  by (cases c) (auto simp: agrees_def agree_def)

lemma agrees_bind:
  assumes "agrees R p q" "\<And>x y. R x y \<Longrightarrow> agrees S (f x) (g y)"
  shows "agrees S (prog_bind p f) (prog_bind q g)"
  unfolding agrees_def results_bind
proof (intro ballI, elim UN_E)
  fix c c' a b
  assume a: "a \<in> results p" "c \<in> (case a of Val x \<Rightarrow> results (f x) | Invalid \<Rightarrow> {Invalid} | Other \<Rightarrow> {Other} | Crash \<Rightarrow> {Crash} | Endless \<Rightarrow> {Endless})"
    and b: "b \<in> results q" "c' \<in> (case b of Val x \<Rightarrow> results (g x) | Invalid \<Rightarrow> {Invalid} | Other \<Rightarrow> {Other} | Crash \<Rightarrow> {Crash} | Endless \<Rightarrow> {Endless})"
  have "agree R a b" using assms(1) a(1) b(1) by (auto simp: agrees_def)
  then show "agree S c c'"
    using a(2) b(2) assms(2) by (cases a; cases b) (auto simp: agree_def agrees_def)
qed

lemma agrees_bind_same:
  "agrees (=) p p \<Longrightarrow> (\<And>x. agrees S (f x) (f x)) \<Longrightarrow> agrees S (prog_bind p f) (prog_bind p f)"
  by (erule agrees_bind) simp

lemma agrees_call: "(\<And>x. agrees S (f x) (f x)) \<Longrightarrow> agrees S (prog_bind (Done c) f) (prog_bind (Done c) f)"
  by (rule agrees_bind_same [OF agrees_Done]) simp_all

lemma compress_prog_agrees: "agrees (=) (compress_prog m k input stepsize) (compress_prog m k input stepsize)"
  by (auto simp: agrees_def agree_def compress_prog_def split: call.splits)

lemma channel_sets_prog_agrees: "agrees (=) (channel_sets_prog m k stepsize cs) (channel_sets_prog m k stepsize cs)"
proof (induction cs)
  case (Cons c cs)
  then show ?case by (cases c) (auto intro!: agrees_bind [OF compress_prog_agrees] agrees_bind [OF Cons] agrees_Done)
qed (simp add: agrees_Done)

lemma compression_sets_prog_agrees:
  "agrees (=) (compression_sets_prog m cm stepsize cs ks) (compression_sets_prog m cm stepsize cs ks)"
proof (induction ks)
  case (Cons k ks)
  then show ?case by (auto intro!: agrees_bind [OF channel_sets_prog_agrees] agrees_bind [OF Cons] agrees_Done)
qed (simp add: agrees_Done)

text \<open>Payloads that differ at most in the number of samples and the end of the window.\<close>

definition same_payload :: "cass_payload \<Rightarrow> cass_payload \<Rightarrow> bool" where
  "same_payload p q \<longleftrightarrow> p_outputsets q = p_outputsets p \<and> p_timestampstart q = p_timestampstart p \<and>
     p_numdevices q = p_numdevices p \<and> (p_numsamples q = None \<longleftrightarrow> p_numsamples p = None)"

definition same_state :: "answer_state \<Rightarrow> answer_state \<Rightarrow> bool" where
  "same_state st st' \<longleftrightarrow> same_payload (fst st) (fst st') \<and> snd st' = snd st"

definition same_samples :: "reply \<Rightarrow> reply \<Rightarrow> bool" where
  "same_samples r r' \<longleftrightarrow> (case r of Code c \<Rightarrow> r' = Code c | Message p \<Rightarrow> (\<exists>q. r' = Message q \<and> same_payload p q))"

lemma finish_device_agrees:
  "same_payload p q \<Longrightarrow> agrees same_state (finish_device r d p failed t sets) (finish_device r d q failed t sets)"
  by (auto simp: agrees_def agree_def finish_device_def same_state_def same_payload_def end_time_def call_bind_def int_call_def long_call_def
      split: call.splits option.splits if_splits)

lemma answer_device_prog_agrees:
  assumes "same_state st st'"
  shows "agrees same_state (answer_device_prog e r w d st) (answer_device_prog e r w d st')"
proof -
  obtain p t f q where st: "st = (p, t, f)" "st' = (q, t, f)" and pq: "same_payload p q"
    using assms by (cases st; cases st') (auto simp: same_state_def)
  show ?thesis
  proof (cases "run_query e (query_text d w (rq_end r))")
    case None
    then show ?thesis using pq by (simp add: answer_device_prog_def st agrees_def agree_def same_state_def)
  next
    case (Some result)
    have eq: "agrees (=) (Done c) (Done c)" for c :: "'b call" by (rule agrees_Done) simp
    show ?thesis
      unfolding answer_device_prog_def st prod.case Some option.case
      by (intro agrees_bind [OF eq] agrees_bind [OF compression_sets_prog_agrees])
        (auto simp del: prog_bind.simps compression_sets_prog.simps intro!: agrees_bind [OF eq]
          agrees_bind [OF compression_sets_prog_agrees] finish_device_agrees [OF pq] split: prod.splits)
  qed
qed

lemma answer_devices_prog_agrees:
  "same_state st st' \<Longrightarrow> agrees same_state (answer_devices_prog e r w ds st) (answer_devices_prog e r w ds st')"
proof (induction ds arbitrary: st st')
  case Nil
  then show ?case by (simp add: agrees_def agree_def)
next
  case (Cons d ds)
  then show ?case by (auto intro!: agrees_bind [OF answer_device_prog_agrees])
qed

lemma answer_prog_agrees: "agrees same_samples (answer_prog e strbuffer) (answer_prog e strbuffer)"
proof -
  have init: "same_state (empty_payload, None, False) (empty_payload, None, False)"
    by (simp add: same_state_def same_payload_def)
  have fin: "agrees same_samples (case st of (payload, t, failed) \<Rightarrow>
       Done (Val (if failed \<and> p_numsamples payload = None then Code ''-4'' else Message payload)))
      (case st' of (payload, t, failed) \<Rightarrow>
       Done (Val (if failed \<and> p_numsamples payload = None then Code ''-4'' else Message payload)))"
    if "same_state st st'" for st st'
    using that by (cases st; cases st') (auto simp: agrees_def agree_def same_samples_def same_state_def same_payload_def)
  show ?thesis
    unfolding answer_prog_def
    by (rule agrees_call)+ (rule agrees_bind [OF answer_devices_prog_agrees [OF init]], erule fin)
qed

subsection \<open>Any interleaving\<close>

definition connection_ok :: "cass_env \<Rightarrow> string \<times> connection \<Rightarrow> bool" where
  "connection_ok e rc = (case rc of (received, c) \<Rightarrow> (case c of
     Running p \<Rightarrow> (\<exists>q. start_connection e received = Running q \<and> results p \<subseteq> results q)
   | Ended h \<Rightarrow> h = NoReply \<or> start_connection e received = Ended h \<or>
       (\<exists>q x. start_connection e received = Running q \<and> x \<in> results q \<and> h = handler_result x)))"

lemma connection_ok_simps [simp]:
  "connection_ok e (received, Running p) \<longleftrightarrow> (\<exists>q. start_connection e received = Running q \<and> results p \<subseteq> results q)"
  "connection_ok e (received, Ended h) \<longleftrightarrow> h = NoReply \<or> start_connection e received = Ended h \<or>
       (\<exists>q x. start_connection e received = Running q \<and> x \<in> results q \<and> h = handler_result x)"
  by (simp_all add: connection_ok_def)

lemma list_all_update: "list_all P xs \<Longrightarrow> P x \<Longrightarrow> list_all P (xs[i := x])"
  by (auto simp: list_all_iff dest!: set_update_subset_insert [THEN subsetD])

lemma start_connection_ok: "connection_ok e (received, start_connection e received)"
  by (cases "start_connection e received") simp_all

lemma server_step_keeps:
  assumes "server_step e s s'" "list_all (connection_ok e) (sv_connections s)"
  shows "list_all (connection_ok e) (sv_connections s')"
proof -
  have nth: "connection_ok e (sv_connections s ! i)" if "i < length (sv_connections s)" for i
    using assms(2) that by (simp add: list_all_length)
  show ?thesis
    using assms(1)
  proof (cases rule: server_step.cases)
    case (accepts received)
    then show ?thesis using assms(2) start_connection_ok by simp
  next
    case (no_thread received)
    then show ?thesis using assms(2) by simp
  next
    case (writes i received v p)
    then show ?thesis using nth [of i] assms(2) by (auto intro!: list_all_update)
  next
    case (reads i received k)
    then show ?thesis using nth [of i] assms(2) by (fastforce intro!: list_all_update)
  next
    case (ends i received c)
    then show ?thesis using nth [of i] assms(2) by (auto intro!: list_all_update)
  qed
qed

text \<open>C23: However the connections of the server interleave on the global number of samples, each client
  gets the samples of its own request: a connection that ends with a reply ends with the reply of a
  handler that runs alone, up to the number of samples and the end of the window, which may be those of
  another connection.\<close>

theorem connections_do_not_mix_samples:
  assumes "(server_step e)\<^sup>*\<^sup>* \<lparr>sv_numsamples = 0, sv_connections = []\<rparr> s"
    and "i < length (sv_connections s)" "sv_connections s ! i = (received, Ended (Replied r))"
    and "SocketHandler e received n = (Replied r', n')"
  shows "same_samples r' r"
proof -
  have "list_all (connection_ok e) (sv_connections s)"
    using assms(1) by (induction rule: rtranclp_induct) (auto intro: server_step_keeps)
  then have "connection_ok e (sv_connections s ! i)" using assms(2) by (simp add: list_all_length)
  then have "connection_ok e (received, Ended (Replied r))" unfolding assms(3) .
  then consider "start_connection e received = Ended (Replied r)"
    | q x where "start_connection e received = Running q" "x \<in> results q" "Replied r = handler_result x" by auto
  then show ?thesis
  proof cases
    case 1
    then show ?thesis using assms(4) by (cases r) (auto simp: handler_alone same_samples_def same_payload_def)
  next
    case 2
    then have q: "q = answer_prog e (c_str received)" by (auto simp: start_connection_def split: if_splits)
    obtain c where c: "c \<in> results q" "handler_result c = Replied r'"
      using assms(4) 2(1) run_alone_result [of q n] by (auto simp: handler_alone split: prod.splits)
    have "agree same_samples c x" using answer_prog_agrees c(1) 2(2) unfolding agrees_def q by blast
    then show ?thesis
      using c(2) 2(3) by (auto simp: agree_def handler_result_def same_samples_def split: call.splits)
  qed
qed

subsection \<open>A race\<close>

definition race_text :: "string \<Rightarrow> string" where
  "race_text method = ''1;P3001065;1;1999;5000;1;0;0;0;0;0;0;0;0;0;0;0;'' @ method"

abbreviation "race_env \<equiv> example_cass (example_data [5, 3, 7, 9])"

lemma race_requests: "parse_request (race_text ''16;1'') = Val (example_request 16 1)"
  "parse_request (race_text ''1;2'') = Val (example_request 1 2)"
  by code_simp+

lemma race_window: "request_window zero_fp (example_request c t) = Val example_window"
proof -
  have "dec 1000 = ''1000''" "to_string 0 = ''0''"
    by (simp_all add: to_string_def dec.simps digit_def char_of_def bit_Suc_0_iff)
  then show ?thesis
    by (simp add: request_window_def example_request_def read_u64_def digits_value_def is_digit_def is_space_def int_of_u64_def
        zero_fp_def int_call_def int_ok_def day_list_def example_window_def Let_def)
qed

lemma race_columns: "read_rows (\<lambda>_. example_data [5, 3, 7, 9]) [(1000, [7])] t = Val (Some (case t of None \<Rightarrow> 1000 | Some u \<Rightarrow> min u 1000), map example_sample [5, 3, 7, 9])"
  by (simp add: example_data_def Let_def)

lemma race_sets:
  "\<exists>sets. compression_sets_prog zero_fp 16 1 (columns (rq_requested (example_request c t)) (map example_sample [5, 3, 7, 9])) [1, 2, 3, 4, 5] = Write 4 (Done (Val sets))"
  "\<exists>sets. compression_sets_prog zero_fp 1 2 (columns (rq_requested (example_request c t)) (map example_sample [5, 3, 7, 9])) [1, 2, 3, 4, 5] = Write 2 (Done (Val sets))"
proof -
  have "compressor zero_fp 1 [5, 3, 7, 9] 2 = Val [3, 7]"
    by code_simp
  then show "\<exists>sets. compression_sets_prog zero_fp 1 2 (columns (rq_requested (example_request c t)) (map example_sample [5, 3, 7, 9])) [1, 2, 3, 4, 5] = Write 2 (Done (Val sets))"
    by (simp add: columns_def channels_def example_request_def compress_prog_def bit_iff_odd example_sample_def)
  show "\<exists>sets. compression_sets_prog zero_fp 16 1 (columns (rq_requested (example_request c t)) (map example_sample [5, 3, 7, 9])) [1, 2, 3, 4, 5] = Write 4 (Done (Val sets))"
    by (simp add: columns_def channels_def example_request_def compress_prog_def bit_iff_odd example_sample_def compressor_def compressor_raw_def)
qed

lemma race_device:
  assumes "compression_sets_prog zero_fp c (of_int t) (columns (rq_requested (example_request c t)) (map example_sample [5, 3, 7, 9])) [1, 2, 3, 4, 5] = Write v (Done (Val sets))"
    and "parse_request (race_text m) = Val (example_request c t)"
  shows "answer_prog race_env (race_text m) = Write v (prog_bind (prog_bind
     (finish_device (example_request c t) ''P3001065'' empty_payload False 1000 sets) (\<lambda>st. Done (Val st)))
     (\<lambda>(payload, t, failed). Done (Val (if failed \<and> p_numsamples payload = None then Code ''-4'' else Message payload))))"
proof -
  have cols: "device_columns (rq_requested (example_request c t)) 0 (map example_sample [5, 3, 7, 9]) =
      Val (columns (rq_requested (example_request c t)) (map example_sample [5, 3, 7, 9]))"
    by (simp add: device_columns_def columns_def)
  have time: "shifted_time zero_fp (Some 1000) 0 = Val 1000" using example_time by (simp add: min_stamp_def)
  have r: "rq_devices (example_request c t) = [''P3001065'']" "rq_compression (example_request c t) = c" "rq_stepsize (example_request c t) = t"
    by (simp_all add: example_request_def)
  have e: "machine race_env = zero_fp" "run_query race_env q = Some [(1000, [7])]" "parse_upmu_data race_env = (\<lambda>_. example_data [5, 3, 7, 9])"
    "w_skip example_window = 0" for q
    by (simp_all add: example_cass_def example_window_def)
  have dev: "answer_device_prog race_env (example_request c t) example_window ''P3001065'' (empty_payload, None, False) =
      Write v (finish_device (example_request c t) ''P3001065'' empty_payload False 1000 sets)"
    unfolding answer_device_prog_def prod.case e option.case race_columns r prog_bind.simps(1) call.case cols time assms(1)
    by simp
  show ?thesis
    unfolding answer_prog_def assms(2) e(1) race_window prog_bind.simps(1) call.case r(1) answer_devices_prog.simps dev prog_bind.simps(2) ..
qed

abbreviation race_end :: "cass_request \<Rightarrow> sample_set list \<Rightarrow> reply prog" where
  "race_end r sets \<equiv> prog_bind (prog_bind (finish_device r ''P3001065'' empty_payload False 1000 sets) (\<lambda>st. Done (Val st)))
     (\<lambda>(payload, t, failed). Done (Val (if failed \<and> p_numsamples payload = None then Code ''-4'' else Message payload)))"

definition race_payload :: "sample_set list \<Rightarrow> nat \<Rightarrow> cass_payload" where
  "race_payload sets n = \<lparr>p_timestampstart = 1000, p_timestampend = 1000 + of_nat (1000 * n div 120), p_numsamples = Some (int n), p_numdevices = 1,
     p_outputsets = [\<lparr>os_device = ''P3001065'', os_sets = sets\<rparr>]\<rparr>"

lemma race_end_reads: "n < 2000 \<Longrightarrow> \<exists>k k'. race_end (example_request 16 1) sets = Read k \<and> k (int n) = Read k' \<and> k' (int n) = Done (Val (Message (race_payload sets n)))"
  using end_time_small [of 1000 n 1]
  by (simp add: finish_device_def example_request_def race_payload_def empty_payload_def)

lemma race_starts:
  "\<exists>sets. start_connection race_env (race_text ''16;1'') = Running (Write 4 (race_end (example_request 16 1) sets))"
  "\<exists>p. start_connection race_env (race_text ''1;2'') = Running (Write 2 p)"
proof -
  have c: "c_str (race_text m) = race_text m" if "char_of (0 :: nat) \<notin> set m" for m
    using that by (auto simp: c_str_def race_text_def char_of_def takeWhile_eq_all_conv)
  have m: "char_of (0 :: nat) \<notin> set ''16;1''" "char_of (0 :: nat) \<notin> set ''1;2''" by (simp_all add: char_of_def)
  have l: "race_text m \<noteq> []" "length (race_text m) < 100 + length m" for m by (simp_all add: race_text_def)
  have e: "session_connects race_env" by (simp add: example_cass_def)
  obtain sets where "compression_sets_prog zero_fp 16 1 (columns (rq_requested (example_request 16 1)) (map example_sample [5, 3, 7, 9])) [1, 2, 3, 4, 5] = Write 4 (Done (Val sets))"
    using race_sets(1) [of 16 1] by blast
  with race_device [of 16 1 4 sets "''16;1''"] race_requests(1) show "\<exists>sets. start_connection race_env (race_text ''16;1'') = Running (Write 4 (race_end (example_request 16 1) sets))"
    using e l [of "''16;1''"] by (auto simp: start_connection_def c [OF m(1)])
  obtain sets' where "compression_sets_prog zero_fp 1 2 (columns (rq_requested (example_request 1 2)) (map example_sample [5, 3, 7, 9])) [1, 2, 3, 4, 5] = Write 2 (Done (Val sets'))"
    using race_sets(2) [of 1 2] by blast
  with race_device [of 1 2 2 sets' "''1;2''"] race_requests(2) show "\<exists>p. start_connection race_env (race_text ''1;2'') = Running (Write 2 p)"
    using e l [of "''1;2''"] by (auto simp: start_connection_def c [OF m(2)])
qed

text \<open>Two connections, of which the first gets the number of samples of the second: it has four samples
  and is told of two, with an end of the window to match.\<close>

theorem number_of_samples_of_another:
  "\<exists>s sets. (server_step race_env)\<^sup>*\<^sup>* \<lparr>sv_numsamples = 0, sv_connections = []\<rparr> s \<and> 0 < length (sv_connections s) \<and>
     sv_connections s ! 0 = (race_text ''16;1'', Ended (Replied (Message (race_payload sets 2)))) \<and>
     SocketHandler race_env (race_text ''16;1'') 0 = (Replied (Message (race_payload sets 4)), 4)"
proof -
  let ?a = "race_text ''16;1''" and ?b = "race_text ''1;2''"
  obtain sets where a: "start_connection race_env ?a = Running (Write 4 (race_end (example_request 16 1) sets))" using race_starts(1) by blast
  obtain q where b: "start_connection race_env ?b = Running (Write 2 q)" using race_starts(2) by blast
  obtain k k' where k: "race_end (example_request 16 1) sets = Read k" "k 2 = Read k'" "k' 2 = Done (Val (Message (race_payload sets 2)))"
    using race_end_reads [of 2 sets] by auto
  obtain l l' where l: "race_end (example_request 16 1) sets = Read l" "l 4 = Read l'" "l' 4 = Done (Val (Message (race_payload sets 4)))"
    using race_end_reads [of 4 sets] by auto
  let ?st = "\<lambda>n c d. \<lparr>sv_numsamples = n, sv_connections = [(?a, c), (?b, d)]\<rparr>"
  have 1: "server_step race_env \<lparr>sv_numsamples = 0, sv_connections = []\<rparr> \<lparr>sv_numsamples = 0, sv_connections = [(?a, Running (Write 4 (Read k)))]\<rparr>"
    using accepts [where s = "\<lparr>sv_numsamples = 0, sv_connections = []\<rparr>" and received = ?a and e = race_env] by (simp add: a k(1))
  have 2: "server_step race_env \<lparr>sv_numsamples = 0, sv_connections = [(?a, Running (Write 4 (Read k)))]\<rparr> (?st 0 (Running (Write 4 (Read k))) (Running (Write 2 q)))"
    using accepts [where s = "\<lparr>sv_numsamples = 0, sv_connections = [(?a, Running (Write 4 (Read k)))]\<rparr>" and received = ?b and e = race_env] by (simp add: b)
  have 3: "server_step race_env (?st 0 (Running (Write 4 (Read k))) (Running (Write 2 q))) (?st 4 (Running (Read k)) (Running (Write 2 q)))"
    using writes [where s = "?st 0 (Running (Write 4 (Read k))) (Running (Write 2 q))" and i = 0 and e = race_env] by simp
  have 4: "server_step race_env (?st 4 (Running (Read k)) (Running (Write 2 q))) (?st 2 (Running (Read k)) (Running q))"
    using writes [where s = "?st 4 (Running (Read k)) (Running (Write 2 q))" and i = 1 and e = race_env] by simp
  have 5: "server_step race_env (?st 2 (Running (Read k)) (Running q)) (?st 2 (Running (Read k')) (Running q))"
    using reads [where s = "?st 2 (Running (Read k)) (Running q)" and i = 0 and e = race_env] by (simp add: k(2))
  have 6: "server_step race_env (?st 2 (Running (Read k')) (Running q)) (?st 2 (Running (Done (Val (Message (race_payload sets 2))))) (Running q))"
    using reads [where s = "?st 2 (Running (Read k')) (Running q)" and i = 0 and e = race_env] by (simp add: k(3))
  have 7: "server_step race_env (?st 2 (Running (Done (Val (Message (race_payload sets 2))))) (Running q))
      (?st 2 (Ended (Replied (Message (race_payload sets 2)))) (Running q))"
    using ends [where s = "?st 2 (Running (Done (Val (Message (race_payload sets 2))))) (Running q)" and i = 0 and e = race_env]
    by (simp add: handler_result_def)
  have "(server_step race_env)\<^sup>*\<^sup>* \<lparr>sv_numsamples = 0, sv_connections = []\<rparr> (?st 2 (Ended (Replied (Message (race_payload sets 2)))) (Running q))"
    using 1 2 3 4 5 6 7 by (meson converse_rtranclp_into_rtranclp r_into_rtranclp)
  moreover have "SocketHandler race_env ?a 0 = (Replied (Message (race_payload sets 4)), 4)"
    using l k(1) by (simp add: handler_alone a plain_def handler_result_def)
  ultimately show ?thesis
    by (intro exI [of _ "?st 2 (Ended (Replied (Message (race_payload sets 2)))) (Running q)"] exI [of _ sets]) simp
qed

theorem connections_do_not_mix_samples_witness:
  "\<exists>s sets. (server_step race_env)\<^sup>*\<^sup>* \<lparr>sv_numsamples = 0, sv_connections = []\<rparr> s \<and>
     sv_connections s ! 0 = (race_text ''16;1'', Ended (Replied (Message (race_payload sets 2)))) \<and>
     same_samples (Message (race_payload sets 4)) (Message (race_payload sets 2))"
proof -
  obtain s sets where s: "(server_step race_env)\<^sup>*\<^sup>* \<lparr>sv_numsamples = 0, sv_connections = []\<rparr> s" "0 < length (sv_connections s)"
    "sv_connections s ! 0 = (race_text ''16;1'', Ended (Replied (Message (race_payload sets 2))))"
    "SocketHandler race_env (race_text ''16;1'') 0 = (Replied (Message (race_payload sets 4)), 4)"
    using number_of_samples_of_another by blast
  from connections_do_not_mix_samples [OF s] s(1,3) show ?thesis by blast
qed

end
