(* ===== verification/Gateway.thy ===== *)
theory Gateway
  imports Ftp_Access Service_Stats
begin

text \<open>
  The gateway process: \<open>uPMUgateway/main.cpp\<close> with the classes it starts up, the database
  connection, the two operations loggers and the list of service instances. What the
  database, Cassandra, libcurl and the plugin loader answer is a record; a statement outside a
  \<open>try\<close> block is taken to succeed.
\<close>

subsection \<open>Configuration and state\<close>

record cass_config =
  cc_keyspace :: string
  cc_data_table :: string
  cc_metadata_table :: string
  cc_configuration_table :: string
  cc_annotations_table :: string
  cc_operations_table :: string
  cc_ip_address :: string
  cc_port :: int
  cc_archiving_enabled :: bool

record ftp_config =
  fc_probe_cmd :: string
  fc_username :: string
  fc_passwd :: string
  fc_ip_address :: string
  fc_port :: int
  fc_comm_enabled :: bool

record service_row =
  sr_name :: string
  sr_implementation :: string
  sr_exec_mode :: string
  sr_debug_lib_path :: string
  sr_lib_path :: string
  sr_accepts_data :: bool
  sr_queue_depth :: int
  sr_mask :: int

record service_instance =
  si_name :: string
  si_implementation :: string
  si_lib_path :: string
  si_accepts_data :: bool
  si_mask :: int
  si_queue_depth :: int

datatype op_value = OpString string | OpFloat u32 | OpInt int

record op_record =
  op_state :: string
  op_device :: string
  op_session :: int
  op_component :: string
  op_key :: string
  op_type :: string
  op_val :: op_value

type_synonym kv_message = "string \<times> u32 \<times> string \<times> (string \<times> string) list"

record op_message =
  om_session :: int
  om_component :: string
  om_timestamp :: u64
  om_day :: u64
  om_device :: string
  om_domain :: u32
  om_msg_type :: u32
  om_data :: kv_message

record gateway =
  db_locked :: bool
  pg_logger :: bool
  cass_logger :: bool
  cass_config_read :: "cass_config option"
  cass_archiving_enabled :: bool
  cass_connected :: bool
  cass_prepared :: "string list"
  ftp_config_read :: "ftp_config option"
  ftp_access_string :: string
  ftp_probe_cmd :: string
  ftp_connection_valid :: bool
  serial_number :: string
  session_id :: u32
  service_map :: "(string \<times> service_instance) list"
  started :: "string list"
  operations :: "op_record list"
  op_messages :: "op_message list"

record gateway_world =
  gw_db_open :: bool
  gw_prepare_ok :: bool
  gw_cass_throws :: bool
  gw_cass_row :: "cass_config option"
  gw_cass_connects :: "string \<Rightarrow> string \<Rightarrow> bool"
  gw_cass_prepares :: "string \<Rightarrow> bool"
  gw_cass_inserts :: bool
  gw_ftp_rows :: "ftp_config list"
  gw_curl_init :: bool
  gw_probe :: "string \<Rightarrow> curl_code"
  gw_http_init :: bool
  gw_http_page :: "string \<Rightarrow> string option"
  gw_insert_ok :: "string \<Rightarrow> bool"
  gw_malloc :: bool
  gw_time :: u32
  gw_service_rows :: "service_row option list"
  gw_loads :: "string \<Rightarrow> string \<Rightarrow> bool"

subsection \<open>The database connection and the operations loggers\<close>

definition db_acquire :: "gateway \<Rightarrow> (gateway, unit) outcome" where
  "db_acquire g = (if db_locked g then Blocks else Returns (g\<lparr>db_locked := True\<rparr>) ())"

definition db_release :: "gateway \<Rightarrow> gateway" where
  "db_release g = g\<lparr>db_locked := False\<rparr>"

definition db_try_acquire :: "gateway \<Rightarrow> gateway \<times> bool" where
  "db_try_acquire g = (if db_locked g then (g, False) else (g\<lparr>db_locked := True\<rparr>, True))"

text \<open>The constructor of the logger; an exception leaves the pointer null.\<close>

definition new_pg_logger :: "gateway_world \<Rightarrow> gateway \<Rightarrow> (gateway, unit) outcome" where
  "new_pg_logger w g = obind (db_acquire g) (\<lambda>g1 _. Returns ((db_release g1)\<lparr>pg_logger := gw_prepare_ok w\<rparr>) ())"

text \<open>After an exception the function ends without a value; no caller looks at it.\<close>

definition add_operation ::
  "gateway_world \<Rightarrow> string \<Rightarrow> string \<Rightarrow> int \<Rightarrow> string \<Rightarrow> string \<Rightarrow> op_value \<Rightarrow> gateway \<Rightarrow> (gateway, unit) outcome" where
  "add_operation w state device sessionID component key v g =
     obind (db_acquire g) (\<lambda>g1 _.
       Returns (db_release
         (if gw_insert_ok w key
          then g1\<lparr>operations := operations g1 @ [\<lparr>op_state = state, op_device = device, op_session = sessionID,
                    op_component = component, op_key = key, op_type = ''string'', op_val = v\<rparr>]\<rparr>
          else g1)) ())"

definition createStringOperationsRecord where
  "createStringOperationsRecord w state device sessionID component key v =
     add_operation w state device sessionID component key (OpString v)"

definition createFloatOperationsRecord where
  "createFloatOperationsRecord w state device sessionID component key v =
     add_operation w state device sessionID component key (OpFloat v)"

definition createIntOperationsRecord where
  "createIntOperationsRecord w state device sessionID component key v =
     add_operation w state device sessionID component key (OpInt v)"

text \<open>The parameter is called milliseconds, the callers pass seconds.\<close>

definition cassandraArchive ::
  "gateway_world \<Rightarrow> u64 \<Rightarrow> int \<Rightarrow> string \<Rightarrow> string \<Rightarrow> u32 \<Rightarrow> u32 \<Rightarrow> kv_message \<Rightarrow> gateway \<Rightarrow> gateway \<times> int" where
  "cassandraArchive w timestampMsec sessionID component device domainType msgType data g =
     (if gw_cass_inserts w
      then (g\<lparr>op_messages := op_messages g @ [\<lparr>om_session = sessionID, om_component = component,
                om_timestamp = timestampMsec, om_day = timestampMsec div 86400, om_device = device,
                om_domain = domainType, om_msg_type = msgType, om_data = data\<rparr>]\<rparr>, 0)
      else (g, - 1))"

subsection \<open>Cassandra\<close>

definition auth_response :: "string \<Rightarrow> string \<Rightarrow> string" where
  "auth_response username password = [char_of (0 :: nat)] @ username @ [char_of (0 :: nat)] @ password"

definition insert_text :: "string \<Rightarrow> string" where
  "insert_text table = ''INSERT INTO '' @ table @ '' (ID, TIMESTAMP_MSEC, DAY, DEVICE, '' @
     ''DOMAIN_TYPE, MSG_TYPE, DATA)  VALUES '' @ ''(now(), ?, ?, ?, ?, ?, ?)''"

definition insert_operations_text :: "string \<Rightarrow> string" where
  "insert_operations_text table = ''INSERT INTO '' @ table @ '' (ID, TIMESTAMP_MSEC, DAY, DEVICE, '' @
     ''COMPONENT, SESSION_ID, '' @ ''DOMAIN_TYPE, MSG_TYPE, DATA)  VALUES '' @ ''(now(), ?, ?, ?, ?, ?, ?, ?, ?)''"

fun prepare_all :: "gateway_world \<Rightarrow> string list \<Rightarrow> gateway \<Rightarrow> gateway \<times> int" where
  "prepare_all w [] g = (g, 0)"
| "prepare_all w (s # ss) g =
     (if gw_cass_prepares w s then prepare_all w ss (g\<lparr>cass_prepared := cass_prepared g @ [s]\<rparr>) else (g, - 1))"

definition cassandraConnect :: "gateway_world \<Rightarrow> cass_config \<Rightarrow> gateway \<Rightarrow> gateway \<times> int" where
  "cassandraConnect w c g =
     (if gw_cass_connects w (cc_ip_address c) (cc_keyspace c)
      then prepare_all w [insert_text (cc_data_table c), insert_text (cc_metadata_table c),
             insert_text (cc_configuration_table c), insert_text (cc_annotations_table c),
             insert_operations_text (cc_operations_table c)] g
      else (g, - 1))"

text \<open>Neither a missing row nor an exception releases the database.\<close>

definition cassandraInit :: "gateway_world \<Rightarrow> gateway \<Rightarrow> (gateway, int) outcome" where
  "cassandraInit w g =
     obind (db_acquire g) (\<lambda>g1 _.
       if gw_cass_throws w then Returns (g1\<lparr>cass_connected := False\<rparr>) (- 1)
       else (case gw_cass_row w of
          None \<Rightarrow> Returns g1 (- 1)
        | Some c \<Rightarrow>
            (let g2 = db_release (g1\<lparr>cass_config_read := Some c, cass_archiving_enabled := cc_archiving_enabled c\<rparr>);
                 g3 = (if cc_archiving_enabled c
                       then (let (g', sts) = cassandraConnect w c g2 in g'\<lparr>cass_connected := (0 \<le> sts)\<rparr>)
                       else g2\<lparr>cass_connected := False\<rparr>)
             in Returns g3 (if cass_connected g3 then 0 else - 1))))"

subsection \<open>The serial number\<close>

definition find_from :: "string \<Rightarrow> string \<Rightarrow> u64 \<Rightarrow> u64" where
  "find_from pat s pos =
     (if unat pos \<le> length s
      then (case find_sub pat (drop (unat pos) s) of None \<Rightarrow> - 1 | Some n \<Rightarrow> pos + of_nat n) else - 1)"

definition substr :: "string \<Rightarrow> u64 \<Rightarrow> u64 \<Rightarrow> string run" where
  "substr s pos count = (if unat pos \<le> length s then Ok (take (unat count) (drop (unat pos) s)) else Exc)"

definition parse_serial :: "string \<Rightarrow> string run" where
  "parse_serial page =
     (let start0 = find_from ''PQube 3 Serial Number:'' page 0;
          startPos = find_from ''<TD>'' page (start0 + 1);
          endPos = find_from ''</TD>'' page (startPos + 1)
      in substr page (startPos + 4) (endPos - startPos - 4))"

text \<open>The page is the C string that the receive buffer holds; where the body is empty, the code
  reads the uninitialised buffer, and the string is what this gives.\<close>

definition getUPMUSerialNumber :: "gateway_world \<Rightarrow> string \<Rightarrow> string run" where
  "getUPMUSerialNumber w ip =
     (if \<not> gw_http_init w then Ok []
      else (case gw_http_page w (''http://'' @ ip @ ''/html_status.cgi/'') of
              None \<Rightarrow> Ok [] | Some page \<Rightarrow> parse_serial page))"

subsection \<open>Sessions\<close>

definition serviceName_gateway :: string where "serviceName_gateway = ''uPMUgateway''"

definition getLatestSessionID :: "string \<Rightarrow> gateway \<Rightarrow> (gateway, u32) outcome" where
  "getLatestSessionID serialNum g =
     obind (db_acquire g) (\<lambda>g1 _.
       let ids = map op_session (filter (\<lambda>r. op_device r = serialNum \<and> op_component r = serviceName_gateway) (operations g1))
       in Returns (db_release g1) (if ids = [] then 1 else of_int (Max (set ids)) + 1))"

text \<open>Keys and values of the version entries are swapped.\<close>

definition createServiceStartupKeyValueList_gateway :: "u32 \<Rightarrow> kv_message" where
  "createServiceStartupKeyValueList_gateway now = (''Service_Startup_Info'', now, ''ServiceStatus'',
     [(''Service_Startup_Action'', ''Loading and starting plugins''),
      (''0.9'', ''Data_Discovery_Major_Version''), (''33'', ''Data_Discovery_Minor_Version'')])"

subsection \<open>Services\<close>

text \<open>The map of services is ordered by name; an existing entry is kept.\<close>

definition insert_service :: "string \<Rightarrow> service_instance \<Rightarrow> (string \<times> service_instance) list \<Rightarrow>
    (string \<times> service_instance) list" where
  "insert_service k si m = (if k \<in> fst ` set m then m else insort_key fst (k, si) m)"

definition load_service :: "gateway_world \<Rightarrow> service_row option \<Rightarrow> gateway \<Rightarrow> gateway" where
  "load_service w row g = (case row of
     None \<Rightarrow> g
   | Some r \<Rightarrow>
       (let path = (if sr_exec_mode r = ''debug'' then sr_debug_lib_path r else sr_lib_path r);
            si = \<lparr>si_name = sr_name r, si_implementation = sr_implementation r, si_lib_path = path,
                  si_accepts_data = sr_accepts_data r, si_mask = sr_mask r, si_queue_depth = sr_queue_depth r\<rparr>
        in if gw_loads w path (sr_implementation r)
           then g\<lparr>service_map := insert_service (si_name si) si (service_map g)\<rparr> else g))"

definition load_services :: "gateway_world \<Rightarrow> gateway \<Rightarrow> (gateway, unit) outcome" where
  "load_services w g =
     obind (db_acquire g) (\<lambda>g1 _. Returns (db_release (foldl (\<lambda>s r. load_service w r s) g1 (gw_service_rows w))) ())"

definition start_services :: "gateway \<Rightarrow> gateway" where
  "start_services g =
     g\<lparr>started := started g @ filter (\<lambda>n. n \<noteq> ''serviceDataDiscovery'') (map fst (service_map g)) @
         (if ''serviceDataDiscovery'' \<in> set (map fst (service_map g)) then [''serviceDataDiscovery''] else [])\<rparr>"

subsection \<open>The program\<close>

definition access_string :: "ftp_config \<Rightarrow> string" where
  "access_string c = ''ftp://'' @ fc_ip_address c @ '':'' @
     (if fc_port c < 0 then ''-'' @ dec (nat (- fc_port c)) else dec (nat (fc_port c)))"

definition read_ftp_config :: "gateway_world \<Rightarrow> gateway \<Rightarrow> (gateway, bool) outcome" where
  "read_ftp_config w g =
     obind (db_acquire (g\<lparr>ftp_connection_valid := False\<rparr>)) (\<lambda>g1 _. case gw_ftp_rows w of
       [c] \<Rightarrow> Returns (db_release (g1\<lparr>ftp_config_read := Some c, ftp_access_string := access_string c,
                                      ftp_probe_cmd := access_string c @ fc_probe_cmd c\<rparr>)) True
     | _ \<Rightarrow> Returns g1 False)"

text \<open>An attempt to reach the instrument.\<close>

definition probe_attempt :: "gateway_world \<Rightarrow> gateway \<Rightarrow> (gateway, unit) outcome" where
  "probe_attempt w g =
     (if gw_curl_init w
      then obind (if gw_probe w (ftp_probe_cmd g) = CURLE_OK
                  then obind (of_run g (getUPMUSerialNumber w (case ftp_config_read g of None \<Rightarrow> [] | Some c \<Rightarrow> fc_ip_address c)))
                         (\<lambda>g1 s. Returns (g1\<lparr>serial_number := s\<rparr>) ())
                  else Returns g ()) (\<lambda>g1 _. Returns (g1\<lparr>ftp_connection_valid := (serial_number g1 \<noteq> [])\<rparr>) ())
      else Returns g ())"

text \<open>One round of the connection loop of the C37.118 gateway, and at most \<open>n\<close> of them.\<close>

definition probe_once :: "gateway_world \<Rightarrow> gateway \<Rightarrow> (gateway, unit) outcome" where
  "probe_once w g = obind (probe_attempt w g)
     (\<lambda>g2 _. Returns (if ftp_connection_valid g2 then g2 else g2\<lparr>ftp_connection_valid := True\<rparr>) ())"

primrec probe_loop :: "nat \<Rightarrow> gateway_world \<Rightarrow> gateway \<Rightarrow> (gateway, bool) outcome" where
  "probe_loop 0 w g = Returns g False"
| "probe_loop (Suc n) w g =
     (if ftp_connection_valid g then Returns g True else obind (probe_once w g) (\<lambda>g1 _. probe_loop n w g1))"

text \<open>The loop of the FTP gateway: an attempt every 30 seconds, each in the world of its time.\<close>

primrec wait_loop :: "gateway_world list \<Rightarrow> gateway \<Rightarrow> (gateway, bool) outcome" where
  "wait_loop [] g = Returns g (ftp_connection_valid g)"
| "wait_loop (w # ws) g =
     (if ftp_connection_valid g then Returns g True
      else obind (probe_attempt w g)
        (\<lambda>g1 _. wait_loop ws (if ftp_connection_valid g1 then g1 else g1\<lparr>ftp_connection_valid := False\<rparr>)))"

definition log_startup :: "gateway_world \<Rightarrow> gateway \<Rightarrow> (gateway, unit) outcome" where
  "log_startup w g =
     (let rec = \<lambda>key v g. createStringOperationsRecord w ''running'' (serial_number g) (sint (session_id g))
                  serviceName_gateway key v g in
      if \<not> pg_logger g then Undefined
      else obind (rec ''Service_Startup_Msg'' ''Loading and starting plugins'' g) (\<lambda>g1 _.
           obind (rec ''Data_Discovery_Major_Version'' ''0.9'' g1) (\<lambda>g2 _.
           obind (rec ''Data_Discovery_Minor_Version'' ''33'' g2) (\<lambda>g3 _.
             Returns (if cass_archiving_enabled g3 \<and> cass_connected g3 \<and> gw_malloc w
                      then fst (cassandraArchive w (ucast (gw_time w)) (sint (session_id g3)) serviceName_gateway
                             (serial_number g3) 1 1 (createServiceStartupKeyValueList_gateway (gw_time w)) g3)
                      else g3) ()))))"

text \<open>The result is the exit status, or \<open>None\<close> when the program has reached its final loop; a gateway
  whose loop has not ended is still waiting for its instrument.\<close>

definition gateway_program ::
  "(gateway \<Rightarrow> (gateway, bool) outcome) \<Rightarrow> gateway_world \<Rightarrow> gateway \<Rightarrow> (gateway, int option) outcome" where
  "gateway_program connect w g =
     (if \<not> gw_db_open w then Returns g (Some 1)
      else obind (new_pg_logger w g) (\<lambda>g1 _.
           obind (cassandraInit w g1) (\<lambda>g2 sts.
           obind (read_ftp_config w (if sts < 0 then g2 else g2\<lparr>cass_logger := True\<rparr>)) (\<lambda>g3 ok.
           if \<not> ok then Returns g3 (Some (- 1))
           else obind (connect g3) (\<lambda>g4 ended.
           if \<not> ended then Blocks
           else obind (getLatestSessionID (serial_number g4) g4) (\<lambda>g5 id.
           obind (log_startup w (g5\<lparr>session_id := id\<rparr>)) (\<lambda>g6 _.
           obind (load_services w g6) (\<lambda>g7 _. Returns (start_services g7) None))))))))"

definition gateway_main :: "gateway_world \<Rightarrow> gateway \<Rightarrow> (gateway, int option) outcome" where
  "gateway_main w = gateway_program (probe_loop 2 w) w"

definition gateway_main_ftp :: "gateway_world list \<Rightarrow> gateway_world \<Rightarrow> gateway \<Rightarrow> (gateway, int option) outcome" where
  "gateway_main_ftp ws w = gateway_program (wait_loop ws) w"

subsection \<open>What the steps leave alone\<close>

definition same_services :: "gateway \<Rightarrow> gateway \<Rightarrow> bool" where
  "same_services g g' \<longleftrightarrow> service_map g' = service_map g \<and> started g' = started g"

definition same_log :: "gateway \<Rightarrow> gateway \<Rightarrow> bool" where
  "same_log g g' \<longleftrightarrow> operations g' = operations g \<and> op_messages g' = op_messages g"

lemmas keep_defs = same_services_def same_log_def db_acquire_def db_release_def

lemma prepare_all_keeps:
  "prepare_all w ss g = (g', sts) \<Longrightarrow>
   same_services g g' \<and> same_log g g' \<and> db_locked g' = db_locked g \<and> pg_logger g' = pg_logger g \<and>
   serial_number g' = serial_number g"
proof (induction ss arbitrary: g)
  case (Cons s ss)
  show ?case
  proof (cases "gw_cass_prepares w s")
    case True
    then have "prepare_all w ss (g\<lparr>cass_prepared := cass_prepared g @ [s]\<rparr>) = (g', sts)" using Cons.prems by simp
    from Cons.IH [OF this] show ?thesis by (simp add: keep_defs)
  next
    case False
    then show ?thesis using Cons.prems by (simp add: keep_defs)
  qed
qed (simp add: keep_defs)

lemma new_pg_logger_keeps:
  "new_pg_logger w g = Returns g' u \<Longrightarrow> same_services g g' \<and> same_log g g' \<and> \<not> db_locked g' \<and> serial_number g' = serial_number g"
  by (auto simp: new_pg_logger_def keep_defs split: if_splits)

lemma cassandraInit_keeps:
  assumes "cassandraInit w g = Returns g' sts"
  shows "same_services g g' \<and> same_log g g' \<and> serial_number g' = serial_number g"
proof -
  have acq: "db_acquire g = Returns (g\<lparr>db_locked := True\<rparr>) ()"
    using assms by (auto simp: cassandraInit_def db_acquire_def split: if_splits)
  show ?thesis
  proof (cases "gw_cass_throws w \<or> gw_cass_row w = None")
    case True
    then show ?thesis using assms acq by (auto simp: cassandraInit_def keep_defs split: if_splits)
  next
    case False
    then obtain c where c: "gw_cass_row w = Some c" by auto
    let ?g2 = "db_release ((g\<lparr>db_locked := True\<rparr>)\<lparr>cass_config_read := Some c,
      cass_archiving_enabled := cc_archiving_enabled c\<rparr>)"
    obtain h s where h: "cassandraConnect w c ?g2 = (h, s)" by fastforce
    have "same_services ?g2 h \<and> same_log ?g2 h \<and> serial_number h = serial_number ?g2"
      using h prepare_all_keeps by (auto simp: cassandraConnect_def keep_defs split: if_splits)
    moreover have "g' = (if cc_archiving_enabled c then h\<lparr>cass_connected := (0 \<le> s)\<rparr> else ?g2\<lparr>cass_connected := False\<rparr>)"
      using assms False unfolding cassandraInit_def acq obind.simps Let_def c option.case h prod.case
      by (simp split: if_splits)
    ultimately show ?thesis by (simp add: keep_defs split: if_splits)
  qed
qed

lemma db_acquire_Returns: "db_acquire g = Returns g' u \<longleftrightarrow> \<not> db_locked g \<and> g' = g\<lparr>db_locked := True\<rparr>"
  by (auto simp: db_acquire_def)

lemma read_ftp_config_result:
  assumes "read_ftp_config w g = Returns g' ok"
  shows "same_services g g' \<and> same_log g g' \<and> serial_number g' = serial_number g \<and> \<not> ftp_connection_valid g' \<and>
    (ok \<longrightarrow> (\<exists>c. gw_ftp_rows w = [c] \<and> ftp_config_read g' = Some c \<and> ftp_probe_cmd g' = access_string c @ fc_probe_cmd c))"
proof -
  from assms obtain g1 where g1: "g1 = g\<lparr>ftp_connection_valid := False, db_locked := True\<rparr>"
    and r: "(case gw_ftp_rows w of
       [c] \<Rightarrow> Returns (db_release (g1\<lparr>ftp_config_read := Some c, ftp_access_string := access_string c,
                                        ftp_probe_cmd := access_string c @ fc_probe_cmd c\<rparr>)) True
     | _ \<Rightarrow> Returns g1 False) = Returns g' ok"
    unfolding read_ftp_config_def obind_Returns db_acquire_Returns by (elim exE conjE) (rule that)
  show ?thesis
  proof (cases "gw_ftp_rows w" rule: remdups_adj.cases)
    case (2 c)
    have "db_release (g1\<lparr>ftp_config_read := Some c, ftp_access_string := access_string c,
        ftp_probe_cmd := access_string c @ fc_probe_cmd c\<rparr>) = g'"
      using r unfolding 2 list.case outcome.inject by (elim conjE)
    then show ?thesis unfolding g1 using 2 by (auto simp: keep_defs)
  qed (use r in \<open>auto simp: g1 keep_defs\<close>)
qed

lemmas read_ftp_config_keeps = read_ftp_config_result [THEN conjunct1] read_ftp_config_result [THEN conjunct2, THEN conjunct1]

lemma probe_attempt_keeps:
  assumes "probe_attempt w g = Returns g' u"
  shows "same_services g g' \<and> same_log g g'"
proof (cases "gw_curl_init w")
  case True
  with assms obtain g1 y where c: "(if gw_probe w (ftp_probe_cmd g) = CURLE_OK
      then obind (of_run g (getUPMUSerialNumber w (case ftp_config_read g of None \<Rightarrow> [] | Some c \<Rightarrow> fc_ip_address c)))
             (\<lambda>g1 s. Returns (g1\<lparr>serial_number := s\<rparr>) ())
      else Returns g ()) = Returns g1 y"
    and d: "g1\<lparr>ftp_connection_valid := (serial_number g1 \<noteq> [])\<rparr> = g'"
    by (simp only: probe_attempt_def if_True obind_Returns outcome.inject) (elim exE conjE, rule that)
  from c have "g1 = g \<or> (\<exists>s. g1 = g\<lparr>serial_number := s\<rparr>)"
    by (cases "gw_probe w (ftp_probe_cmd g) = CURLE_OK") (auto simp: obind_Returns of_run_Returns)
  then have "same_services g g1 \<and> same_log g g1" by (elim disjE exE) (simp_all add: keep_defs)
  then show ?thesis unfolding d [symmetric] by (simp add: keep_defs)
qed (use assms in \<open>simp add: probe_attempt_def keep_defs\<close>)

lemma probe_once_keeps:
  assumes "probe_once w g = Returns g' u"
  shows "same_services g g' \<and> same_log g g' \<and> ftp_connection_valid g'"
proof -
  from assms obtain g2 x where a: "probe_attempt w g = Returns g2 x"
    and b: "(if ftp_connection_valid g2 then g2 else g2\<lparr>ftp_connection_valid := True\<rparr>) = g'"
    unfolding probe_once_def obind_Returns outcome.inject by (elim exE conjE) (rule that)
  from probe_attempt_keeps [OF a] show ?thesis unfolding b [symmetric] by (simp add: keep_defs)
qed

lemma probe_loop_keeps:
  "probe_loop n w g = Returns g' b \<Longrightarrow> same_services g g' \<and> same_log g g'"
proof (induction n arbitrary: g)
  case (Suc n)
  show ?case
  proof (cases "ftp_connection_valid g")
    case False
    with Suc.prems obtain g1 where 1: "probe_once w g = Returns g1 ()" and 2: "probe_loop n w g1 = Returns g' b"
      by (auto simp: obind_Returns)
    from probe_once_keeps [OF 1] Suc.IH [OF 2] show ?thesis by (simp add: same_services_def same_log_def)
  qed (use Suc.prems in \<open>simp add: keep_defs\<close>)
qed (simp add: keep_defs)

lemma wait_loop_keeps:
  "wait_loop ws g = Returns g' b \<Longrightarrow> same_services g g' \<and> same_log g g'"
proof (induction ws arbitrary: g)
  case (Cons w ws)
  show ?case
  proof (cases "ftp_connection_valid g")
    case False
    with Cons.prems obtain g1 where 1: "probe_attempt w g = Returns g1 ()"
      and 2: "wait_loop ws (if ftp_connection_valid g1 then g1 else g1\<lparr>ftp_connection_valid := False\<rparr>) = Returns g' b"
      by (auto simp: obind_Returns)
    from probe_attempt_keeps [OF 1] Cons.IH [OF 2] show ?thesis by (simp add: keep_defs split: if_splits)
  qed (use Cons.prems in \<open>simp add: keep_defs\<close>)
qed (simp add: keep_defs)

text \<open>The loop of the C37.118 gateway that waits for the uPMU never waits: its first round always ends it.\<close>

lemma probe_loop_ends: "probe_loop 2 w g = Returns g' b \<Longrightarrow> b"
proof -
  assume r: "probe_loop 2 w g = Returns g' b"
  show b
  proof (cases "ftp_connection_valid g")
    case False
    with r obtain g1 where 1: "probe_once w g = Returns g1 ()" and 2: "probe_loop 1 w g1 = Returns g' b"
      by (auto simp: numeral_2_eq_2 obind_Returns)
    then show ?thesis using probe_once_keeps [OF 1] by simp
  qed (use r in \<open>simp add: numeral_2_eq_2\<close>)
qed

lemma getLatestSessionID_Returns:
  assumes "getLatestSessionID s g = Returns g' i"
  shows "g' = g\<lparr>db_locked := False\<rparr>" and
    "i = (let ids = map op_session (filter (\<lambda>r. op_device r = s \<and> op_component r = serviceName_gateway) (operations g))
       in if ids = [] then 1 else of_int (Max (set ids)) + 1)"
  using assms by (auto simp: getLatestSessionID_def db_acquire_def db_release_def Let_def split: if_splits)

lemma getLatestSessionID_greater:
  assumes r: "getLatestSessionID s g = Returns g' i"
    and b: "\<forall>r\<in>set (operations g). 0 \<le> op_session r \<and> op_session r < 2147483647"
    and x: "x \<in> set (operations g)" "op_device x = s" "op_component x = serviceName_gateway"
  shows "op_session x < sint i"
proof -
  let ?ids = "map op_session (filter (\<lambda>r. op_device r = s \<and> op_component r = serviceName_gateway) (operations g))"
  have m: "op_session x \<in> set ?ids" using x by auto
  have ne: "?ids \<noteq> []" proof assume "?ids = []" with m show False by (simp only: list.set empty_iff) qed
  have "set ?ids \<noteq> {}" by (metis m empty_iff)
  then have "Max (set ?ids) \<in> set ?ids" by (rule Max_in [OF finite_set])
  then have up: "0 \<le> Max (set ?ids) \<and> Max (set ?ids) < 2147483647" using b by auto
  have ge: "op_session x \<le> Max (set ?ids)" using m by (intro Max_ge) auto
  have "i = of_int (Max (set ?ids) + 1)" using ne getLatestSessionID_Returns(2) [OF r] by (simp add: Let_def)
  then have "sint i = Max (set ?ids) + 1" using up by (simp add: sint_of_int_small del: of_int_add)
  then show ?thesis using ge by simp
qed

subsection \<open>What a start records\<close>

definition logs_session :: "string \<Rightarrow> int \<Rightarrow> op_record list \<Rightarrow> bool" where
  "logs_session s i rs \<longleftrightarrow> (\<forall>r\<in>set rs. op_device r = s \<and> op_component r = serviceName_gateway \<and> op_session r = i)"

definition same_start :: "gateway \<Rightarrow> gateway \<Rightarrow> bool" where
  "same_start g g' \<longleftrightarrow> serial_number g' = serial_number g \<and> session_id g' = session_id g \<and>
     service_map g' = service_map g \<and> started g' = started g"

lemma add_operation_logs:
  assumes "add_operation w st d i serviceName_gateway k v g = Returns g' u"
  shows "\<exists>rs. operations g' = operations g @ rs \<and> logs_session d i rs \<and> same_start g g' \<and>
    map op_key rs = filter (gw_insert_ok w) [k]"
proof -
  from assms have "\<not> gw_insert_ok w k \<and> operations g' = operations g \<or> gw_insert_ok w k \<and> operations g' = operations g @
      [\<lparr>op_state = st, op_device = d, op_session = i, op_component = serviceName_gateway, op_key = k,
        op_type = ''string'', op_val = v\<rparr>]" and "same_start g g'"
    by (auto simp: add_operation_def obind_Returns db_acquire_Returns db_release_def same_start_def split: if_splits)
  then show ?thesis by (elim disjE) (auto simp: logs_session_def)
qed

lemma logs_append: "logs_session s i rs \<Longrightarrow> logs_session s i rs' \<Longrightarrow> logs_session s i (rs @ rs')"
  by (auto simp: logs_session_def)

lemma cassandraArchive_keeps:
  "same_start g (fst (cassandraArchive w t i c d dt mt msg g)) \<and> operations (fst (cassandraArchive w t i c d dt mt msg g)) = operations g"
  by (simp add: cassandraArchive_def same_start_def)

definition startup_keys :: "string list" where
  "startup_keys = [''Service_Startup_Msg'', ''Data_Discovery_Major_Version'', ''Data_Discovery_Minor_Version'']"

lemma log_startup_logs:
  assumes "log_startup w g = Returns g' u"
  shows "\<exists>rs. operations g' = operations g @ rs \<and> logs_session (serial_number g) (sint (session_id g)) rs \<and> same_start g g'
    \<and> map op_key rs = filter (gw_insert_ok w) startup_keys"
proof -
  have pg: "pg_logger g" using assms by (simp add: log_startup_def Let_def split: if_splits)
  obtain g1 g2 g3 u1 u2 u3 where
    1: "add_operation w ''running'' (serial_number g) (sint (session_id g)) serviceName_gateway
          ''Service_Startup_Msg'' (OpString ''Loading and starting plugins'') g = Returns g1 u1"
    and 2: "add_operation w ''running'' (serial_number g1) (sint (session_id g1)) serviceName_gateway
          ''Data_Discovery_Major_Version'' (OpString ''0.9'') g1 = Returns g2 u2"
    and 3: "add_operation w ''running'' (serial_number g2) (sint (session_id g2)) serviceName_gateway
          ''Data_Discovery_Minor_Version'' (OpString ''33'') g2 = Returns g3 u3"
    and 4: "(if cass_archiving_enabled g3 \<and> cass_connected g3 \<and> gw_malloc w
                      then fst (cassandraArchive w (ucast (gw_time w)) (sint (session_id g3)) serviceName_gateway
                             (serial_number g3) 1 1 (createServiceStartupKeyValueList_gateway (gw_time w)) g3)
                      else g3) = g'"
    using assms pg unfolding log_startup_def Let_def createStringOperationsRecord_def
    by (simp only: not_True_eq_False if_False obind_Returns outcome.inject) (elim exE conjE, rule that)
  have 5: "same_start g3 g' \<and> operations g' = operations g3"
    using cassandraArchive_keeps unfolding 4 [symmetric] by (simp add: same_start_def split: if_splits)
  note logs = add_operation_logs [OF 1] add_operation_logs [OF 2] add_operation_logs [OF 3]
  from logs(1) obtain r1 where r1: "operations g1 = operations g @ r1"
    "logs_session (serial_number g) (sint (session_id g)) r1" "same_start g g1"
    "map op_key r1 = filter (gw_insert_ok w) [''Service_Startup_Msg'']" by (elim exE conjE) (rule that)
  from logs(2) obtain r2 where r2: "operations g2 = operations g1 @ r2"
    "logs_session (serial_number g1) (sint (session_id g1)) r2" "same_start g1 g2"
    "map op_key r2 = filter (gw_insert_ok w) [''Data_Discovery_Major_Version'']" by (elim exE conjE) (rule that)
  from logs(3) obtain r3 where r3: "operations g3 = operations g2 @ r3"
    "logs_session (serial_number g2) (sint (session_id g2)) r3" "same_start g2 g3"
    "map op_key r3 = filter (gw_insert_ok w) [''Data_Discovery_Minor_Version'']" by (elim exE conjE) (rule that)
  have "operations g' = operations g @ (r1 @ r2 @ r3)" using 5 r1(1) r2(1) r3(1) by simp
  moreover have "logs_session (serial_number g) (sint (session_id g)) (r1 @ r2 @ r3)"
    using r1 r2 r3 by (intro logs_append) (simp_all add: same_start_def)
  moreover have "same_start g g'" using 5 r1(3) r2(3) r3(3) by (simp add: same_start_def)
  moreover have "map op_key (r1 @ r2 @ r3) = filter (gw_insert_ok w) startup_keys"
    using r1(4) r2(4) r3(4) by (simp add: startup_keys_def)
  ultimately show ?thesis by (intro exI conjI)
qed

subsection \<open>The services that start\<close>

definition loads :: "gateway_world \<Rightarrow> service_row option \<Rightarrow> bool" where
  "loads w row = (case row of None \<Rightarrow> False
     | Some r \<Rightarrow> gw_loads w (if sr_exec_mode r = ''debug'' then sr_debug_lib_path r else sr_lib_path r) (sr_implementation r))"

definition loadable :: "gateway_world \<Rightarrow> string set" where
  "loadable w = {sr_name r | r. Some r \<in> set (gw_service_rows w) \<and> loads w (Some r)}"

definition sorted_names :: "(string \<times> service_instance) list \<Rightarrow> bool" where
  "sorted_names m \<longleftrightarrow> sorted (map fst m) \<and> distinct (map fst m)"

lemma insert_service_names:
  assumes "sorted_names m"
  shows "sorted_names (insert_service k si m)" and "fst ` set (insert_service k si m) = insert k (fst ` set m)"
proof -
  show "sorted_names (insert_service k si m)"
  proof (cases "k \<in> fst ` set m")
    case False
    then show ?thesis using assms
      by (simp add: insert_service_def sorted_names_def sorted_insort_key distinct_insort_key)
  qed (use assms in \<open>simp add: insert_service_def\<close>)
qed (auto simp: insert_service_def set_insort_key)

lemma load_service_only: "\<exists>m. load_service w row g = g\<lparr>service_map := m\<rparr>"
  by (rule exI [of _ "service_map (load_service w row g)"]) (simp add: load_service_def Let_def split: option.split)

lemma load_service_names:
  assumes "sorted_names (service_map g)"
  shows "sorted_names (service_map (load_service w row g))" and
    "fst ` set (service_map (load_service w row g)) =
       fst ` set (service_map g) \<union> {sr_name r | r. row = Some r \<and> loads w (Some r)}"
  using assms by (auto simp: load_service_def loads_def Let_def insert_service_names split: option.split)

lemma load_all_only: "\<exists>m. foldl (\<lambda>s r. load_service w r s) g rows = g\<lparr>service_map := m\<rparr>"
proof (induction rows arbitrary: g)
  case Nil
  then show ?case by (intro exI [of _ "service_map g"]) simp
next
  case (Cons row rows)
  obtain m' where 1: "load_service w row g = g\<lparr>service_map := m'\<rparr>"
    using load_service_only ..
  from Cons.IH obtain m where "foldl (\<lambda>s r. load_service w r s) (load_service w row g) rows =
    (load_service w row g)\<lparr>service_map := m\<rparr>" by blast
  then show ?case using 1 by (intro exI [of _ m]) simp
qed

lemma load_all_names:
  assumes "sorted_names (service_map g)"
  shows "sorted_names (service_map (foldl (\<lambda>s r. load_service w r s) g rows)) \<and>
    fst ` set (service_map (foldl (\<lambda>s r. load_service w r s) g rows)) =
      fst ` set (service_map g) \<union> {sr_name r | r. Some r \<in> set rows \<and> loads w (Some r)}"
  using assms
proof (induction rows arbitrary: g)
  case (Cons row rows)
  note step = load_service_names [OF Cons.prems, of w row]
  from Cons.IH [OF step(1)] show ?case by (auto simp: step(2))
qed simp

lemma load_services_only:
  assumes "load_services w g = Returns g' u"
  shows "\<exists>m. g' = g\<lparr>service_map := m, db_locked := False\<rparr>"
proof -
  obtain m where "foldl (\<lambda>s r. load_service w r s) (g\<lparr>db_locked := True\<rparr>) (gw_service_rows w) =
    g\<lparr>db_locked := True, service_map := m\<rparr>" using load_all_only [of w "g\<lparr>db_locked := True\<rparr>"] by auto
  then show ?thesis using assms by (auto simp: load_services_def obind_Returns db_acquire_Returns db_release_def)
qed

lemma load_services_names:
  assumes "load_services w g = Returns g' u" "service_map g = []"
  shows "sorted_names (service_map g') \<and> fst ` set (service_map g') = loadable w"
proof -
  let ?g = "g\<lparr>db_locked := True\<rparr>"
  have g': "g' = db_release (foldl (\<lambda>s r. load_service w r s) ?g (gw_service_rows w))"
    using assms(1) by (auto simp: load_services_def obind_Returns db_acquire_Returns)
  have "sorted_names (service_map ?g)" by (simp add: assms(2) sorted_names_def)
  from load_all_names [OF this, of w "gw_service_rows w"] show ?thesis
    by (simp add: g' db_release_def loadable_def assms(2))
qed

text \<open>Both gateways are the same program around a loop that reaches the instrument and leaves
  services and tables alone.\<close>

locale gateway_variant =
  fixes connect :: "gateway \<Rightarrow> (gateway, bool) outcome"
  assumes connect_keeps: "connect g = Returns g' b \<Longrightarrow> same_services g g' \<and> same_log g g'"
begin

lemma program_Returns:
  assumes "gateway_program connect w g = Returns g' None"
  obtains g1 g2 sts g3 g4 g5 i g6 g7 u1 u2 u3 where
    "new_pg_logger w g = Returns g1 u1" "cassandraInit w g1 = Returns g2 sts"
    "read_ftp_config w (if sts < 0 then g2 else g2\<lparr>cass_logger := True\<rparr>) = Returns g3 True"
    "connect g3 = Returns g4 True" "getLatestSessionID (serial_number g4) g4 = Returns g5 i"
    "log_startup w (g5\<lparr>session_id := i\<rparr>) = Returns g6 u2"
    "load_services w g6 = Returns g7 u3" "start_services g7 = g'"
proof -
  have open_db: "gw_db_open w" using assms by (auto simp: gateway_program_def split: if_splits)
  from assms obtain g1 u1 g2 sts g3 ok where
    1: "new_pg_logger w g = Returns g1 u1" and 2: "cassandraInit w g1 = Returns g2 sts"
    and 3: "read_ftp_config w (if sts < 0 then g2 else g2\<lparr>cass_logger := True\<rparr>) = Returns g3 ok"
    and r: "(if \<not> ok then Returns g3 (Some (- 1 :: int))
           else obind (connect g3) (\<lambda>g4 ended.
           if \<not> ended then Blocks
           else obind (getLatestSessionID (serial_number g4) g4) (\<lambda>g5 id.
           obind (log_startup w (g5\<lparr>session_id := id\<rparr>)) (\<lambda>g6 _.
           obind (load_services w g6) (\<lambda>g7 _. Returns (start_services g7) (None :: int option)))))) = Returns g' None"
    by (simp only: gateway_program_def open_db not_True_eq_False if_False obind_Returns) (elim exE conjE, rule that)
  have ok: "ok" using r by (cases ok) simp_all
  from r obtain g4 b where 4: "connect g3 = Returns g4 b"
    and r': "(if \<not> b then Blocks
           else obind (getLatestSessionID (serial_number g4) g4) (\<lambda>g5 id.
           obind (log_startup w (g5\<lparr>session_id := id\<rparr>)) (\<lambda>g6 _.
           obind (load_services w g6) (\<lambda>g7 _. Returns (start_services g7) (None :: int option))))) = Returns g' None"
    by (simp only: ok not_True_eq_False if_False obind_Returns) (elim exE conjE, rule that)
  have b: "b" using r' by (cases b) simp_all
  from r' obtain g5 i g6 u2 g7 u3 where "getLatestSessionID (serial_number g4) g4 = Returns g5 i"
    "log_startup w (g5\<lparr>session_id := i\<rparr>) = Returns g6 u2" "load_services w g6 = Returns g7 u3"
    "start_services g7 = g'"
    by (simp only: b not_True_eq_False if_False obind_Returns outcome.inject) (elim exE conjE, rule that)
  with 1 2 3 4 ok b show thesis by (intro that) simp_all
qed

lemma starts_last:
  assumes "gateway_program connect w g = Returns g' None" "service_map g = []" "started g = []"
  shows "\<exists>ns. started g' = ns @ (if ''serviceDataDiscovery'' \<in> loadable w then [''serviceDataDiscovery''] else [])
     \<and> sorted ns \<and> distinct ns \<and> set ns = loadable w - {''serviceDataDiscovery''}"
proof -
  from assms(1) obtain g1 g2 sts g3 g4 g5 i g6 g7 u1 u2 u3 where
    s: "new_pg_logger w g = Returns g1 u1" "cassandraInit w g1 = Returns g2 sts"
    "read_ftp_config w (if sts < 0 then g2 else g2\<lparr>cass_logger := True\<rparr>) = Returns g3 True"
    "connect g3 = Returns g4 True" "getLatestSessionID (serial_number g4) g4 = Returns g5 i"
    "log_startup w (g5\<lparr>session_id := i\<rparr>) = Returns g6 u2"
    and load: "load_services w g6 = Returns g7 u3" and g': "start_services g7 = g'"
    by (rule program_Returns)
  have "same_services g g6"
    using new_pg_logger_keeps [OF s(1)] cassandraInit_keeps [OF s(2)] read_ftp_config_keeps [OF s(3)]
      connect_keeps [OF s(4)] getLatestSessionID_Returns(1) [OF s(5)] log_startup_logs [OF s(6)]
    by (auto simp: same_services_def same_start_def split: if_splits)
  then have e: "service_map g6 = []" "started g6 = []" using assms(2,3) by (simp_all add: same_services_def)
  let ?names = "map fst (service_map g7)"
  have n: "sorted ?names" "distinct ?names" "set ?names = loadable w"
    using load_services_names [OF load e(1)] by (simp_all add: sorted_names_def)
  have "started g7 = []" using load_services_only [OF load] e(2) by auto
  then have "started g' = filter (\<lambda>n. n \<noteq> ''serviceDataDiscovery'') ?names @
      (if ''serviceDataDiscovery'' \<in> set ?names then [''serviceDataDiscovery''] else [])"
    unfolding g' [symmetric] start_services_def by simp
  then show ?thesis using n by (intro exI [of _ "filter (\<lambda>n. n \<noteq> ''serviceDataDiscovery'') ?names"])
      (auto simp: sorted_filter [of id, simplified])
qed

lemma started_as:
  assumes "gateway_program connect w g = Returns g' None"
  shows "\<exists>h g3 g4 g5 rs. read_ftp_config w h = Returns g3 True \<and> connect g3 = Returns g4 True \<and>
     getLatestSessionID (serial_number g4) g4 = Returns g5 (session_id g') \<and>
     serial_number h = serial_number g \<and> serial_number g' = serial_number g4 \<and> operations g4 = operations g \<and>
     operations g' = operations g @ rs \<and> logs_session (serial_number g') (sint (session_id g')) rs \<and>
     map op_key rs = filter (gw_insert_ok w) startup_keys"
proof -
  from assms obtain g1 g2 sts g3 g4 g5 i g6 g7 u1 u2 u3 where
    s: "new_pg_logger w g = Returns g1 u1" "cassandraInit w g1 = Returns g2 sts"
    "read_ftp_config w (if sts < 0 then g2 else g2\<lparr>cass_logger := True\<rparr>) = Returns g3 True"
    "connect g3 = Returns g4 True" and id: "getLatestSessionID (serial_number g4) g4 = Returns g5 i"
    and log: "log_startup w (g5\<lparr>session_id := i\<rparr>) = Returns g6 u2"
    and load: "load_services w g6 = Returns g7 u3" and g': "start_services g7 = g'"
    by (rule program_Returns)
  let ?h = "if sts < 0 then g2 else g2\<lparr>cass_logger := True\<rparr>"
  have h: "serial_number ?h = serial_number g"
    using new_pg_logger_keeps [OF s(1)] cassandraInit_keeps [OF s(2)] by simp
  have o4: "operations g4 = operations g"
    using new_pg_logger_keeps [OF s(1)] cassandraInit_keeps [OF s(2)] read_ftp_config_keeps [OF s(3)]
      connect_keeps [OF s(4)] by (simp add: same_log_def split: if_splits)
  have g5: "g5 = g4\<lparr>db_locked := False\<rparr>" using getLatestSessionID_Returns(1) [OF id] .
  have k: "same_start (g5\<lparr>session_id := i\<rparr>) g6" using log_startup_logs [OF log] by blast
  have "operations g' = operations g6 \<and> serial_number g' = serial_number g6 \<and> session_id g' = session_id g6"
    using load_services_only [OF load] g' by (auto simp: start_services_def)
  then have g'': "operations g' = operations g6" "serial_number g' = serial_number g4" "session_id g' = i"
    using k by (simp_all add: same_start_def g5)
  obtain rs where "operations g6 = operations g @ rs" "logs_session (serial_number g4) (sint i) rs"
      "map op_key rs = filter (gw_insert_ok w) startup_keys"
    using log_startup_logs [OF log] by (simp add: g5 o4) blast
  then show ?thesis
    using s(3,4) id h o4 g'' by (intro exI [of _ ?h] exI [of _ g3] exI [of _ g4] exI [of _ g5] exI [of _ rs]) simp
qed

lemma session_above:
  assumes "gateway_program connect w g = Returns g' None"
    and "\<forall>r\<in>set (operations g). 0 \<le> op_session r \<and> op_session r < 2147483647"
  shows "\<exists>rs. operations g' = operations g @ rs \<and> logs_session (serial_number g') (sint (session_id g')) rs \<and>
     map op_key rs = filter (gw_insert_ok w) startup_keys \<and>
     (\<forall>r\<in>set (operations g). op_device r = serial_number g' \<and> op_component r = serviceName_gateway \<longrightarrow>
        op_session r < sint (session_id g'))"
proof -
  from started_as [OF assms(1)] obtain g4 g5 rs where id: "getLatestSessionID (serial_number g4) g4 = Returns g5 (session_id g')"
    and "serial_number g' = serial_number g4" "operations g4 = operations g" "operations g' = operations g @ rs"
    "logs_session (serial_number g') (sint (session_id g')) rs" "map op_key rs = filter (gw_insert_ok w) startup_keys"
    by blast
  then show ?thesis using getLatestSessionID_greater [OF id] assms(2) by (intro exI [of _ rs]) simp
qed

end

interpretation c37_gateway: gateway_variant "probe_loop 2 w" for w
  by unfold_locales (rule probe_loop_keeps)

interpretation ftp_gateway: gateway_variant "wait_loop ws" for ws
  by unfold_locales (rule wait_loop_keeps)

subsection \<open>The status page\<close>

lemma find_sub_skip: "c \<notin> set u \<Longrightarrow> find_sub (c # p) (u @ r) = map_option (\<lambda>n. length u + n) (find_sub (c # p) r)"
proof (induction u)
  case (Cons x u)
  then show ?case by (cases "find_sub (c # p) r") (auto simp: find_sub.simps [of _ "x # _"])
qed (cases "find_sub (c # p) r", simp_all)

lemma find_from_at:
  assumes "find_sub pat s = Some n" "length (a @ s) < 2 ^ 64"
  shows "find_from pat (a @ s) (of_nat (length a)) = of_nat (length a + n)"
proof -
  have "unat (of_nat (length a) :: u64) = length a" using assms(2) by (simp add: unat_of_nat take_bit_nat_eq_self)
  then show ?thesis using assms(1) by (simp add: find_from_def)
qed

text \<open>The first place of a text, and a page that shows a serial number: the label is on it, and \<open>sn\<close> is
  the content of the next table cell behind its first occurrence.\<close>

definition first_at :: "string \<Rightarrow> string \<Rightarrow> nat \<Rightarrow> bool" where
  "first_at pat s n \<longleftrightarrow> take (length pat) (drop n s) = pat \<and> (\<forall>k<n. take (length pat) (drop k s) \<noteq> pat)"

definition shows_serial :: "string \<Rightarrow> string \<Rightarrow> bool" where
  "shows_serial page sn \<longleftrightarrow> (\<exists>before mid after.
     page = before @ ''PQube 3 Serial Number:'' @ mid @ ''<TD>'' @ sn @ ''</TD>'' @ after \<and>
     first_at ''PQube 3 Serial Number:'' page (length before) \<and>
     first_at ''<TD>'' (mid @ ''<TD>'' @ sn @ ''</TD>'' @ after) (length mid) \<and> CHR ''<'' \<notin> set sn)"

lemma first_at_find: "first_at pat s n \<Longrightarrow> pat \<noteq> [] \<Longrightarrow> find_sub pat s = Some n"
proof (induction s arbitrary: n)
  case Nil
  then show ?case by (simp add: first_at_def)
next
  case (Cons x s)
  show ?case
  proof (cases n)
    case 0
    then show ?thesis using Cons.prems by (simp add: first_at_def find_sub.simps)
  next
    case (Suc m)
    then have "take (length pat) (x # s) \<noteq> pat" using Cons.prems(1) by (auto simp: first_at_def)
    moreover have "first_at pat s m" using Cons.prems(1) Suc by (auto simp: first_at_def)
    ultimately show ?thesis using Cons.IH [of m] Cons.prems(2) Suc by (simp add: find_sub.simps [of pat "x # s"])
  qed
qed

text \<open>What the code cuts from the page once it has found a cell.\<close>

lemma cell_text:
  assumes page: "page = u @ ''<TD>'' @ sn @ ''</TD>'' @ after" and plain: "CHR ''<'' \<notin> set sn" and len: "length page < 2 ^ 64"
    and start: "find_from ''<TD>'' page (find_from ''PQube 3 Serial Number:'' page 0 + 1) = of_nat (length u)"
  shows "parse_serial page = Ok sn"
proof -
  let ?s = "length u"
  have "find_sub ''</TD>'' ((''TD>'' @ sn) @ ''</TD>'' @ after) = Some (length (''TD>'' @ sn))"
    using find_sub_first [of "CHR ''<''" "''TD>'' @ sn" "''/TD>''" after] plain by simp
  then have "find_from ''</TD>'' ((u @ ''<'') @ (''TD>'' @ sn) @ ''</TD>'' @ after) (of_nat (length (u @ ''<''))) =
      of_nat (length (u @ ''<'') + length (''TD>'' @ sn))"
    by (rule find_from_at) (use len in \<open>simp add: page\<close>)
  then have 3: "find_from ''</TD>'' page (of_nat ?s + 1) = of_nat (?s + length sn + 4)"
    by (simp add: page add.commute)
  have small: "?s + length sn + 4 < 2 ^ 64" using len by (simp add: page)
  have "parse_serial page = substr page (of_nat (?s + 4)) (of_nat (length sn))"
    unfolding parse_serial_def Let_def start 3 by (simp add: add.assoc)
  also have "\<dots> = Ok (take (length sn) (drop (?s + 4) page))"
  proof -
    have "unat (of_nat (?s + 4) :: u64) = ?s + 4" "unat (of_nat (length sn) :: u64) = length sn"
      using small by (simp_all add: unat_of_nat take_bit_nat_eq_self del: of_nat_add)
    then show ?thesis by (simp add: substr_def page del: of_nat_add)
  qed
  also have "take (length sn) (drop (?s + 4) page) = sn" by (simp add: page)
  finally show ?thesis .
qed

text \<open>From a page that shows a serial number, the code reads this number.\<close>

lemma serial_read:
  assumes "shows_serial page sn" and len: "length page < 2 ^ 64"
  shows "parse_serial page = Ok sn"
proof -
  obtain before mid after where page: "page = before @ ''PQube 3 Serial Number:'' @ mid @ ''<TD>'' @ sn @ ''</TD>'' @ after"
    and first: "find_sub ''PQube 3 Serial Number:'' page = Some (length before)"
    and tag: "find_sub ''<TD>'' (mid @ ''<TD>'' @ sn @ ''</TD>'' @ after) = Some (length mid)" and plain: "CHR ''<'' \<notin> set sn"
    using assms(1) unfolding shows_serial_def by (elim exE conjE) (rule that, assumption, simp_all add: first_at_find)
  let ?a = "before @ ''P''" and ?b = "''Qube 3 Serial Number:'' @ mid"
  have 1: "find_from ''PQube 3 Serial Number:'' page 0 = of_nat (length before)"
    by (simp add: find_from_def first)
  have "find_sub ''<TD>'' (''Qube 3 Serial Number:'' @ mid @ ''<TD>'' @ sn @ ''</TD>'' @ after) = Some (length ?b)"
    by (subst find_sub_skip) (simp_all only: tag, simp_all)
  then have "find_from ''<TD>'' (?a @ ''Qube 3 Serial Number:'' @ mid @ ''<TD>'' @ sn @ ''</TD>'' @ after) (of_nat (length ?a))
      = of_nat (length ?a + length ?b)"
    by (rule find_from_at) (use len in \<open>simp add: page\<close>)
  then have 2: "find_from ''<TD>'' page (find_from ''PQube 3 Serial Number:'' page 0 + 1) = of_nat (length (?a @ ?b))"
    unfolding 1 by (simp add: page add.commute)
  show ?thesis by (rule cell_text [OF _ plain len 2]) (simp add: page)
qed

text \<open>On a page without the label, the code takes the first cell of the page for the serial number.\<close>

theorem page_without_label_gives_its_first_cell:
  assumes "find_sub ''PQube 3 Serial Number:'' page = None" and page: "page = u @ ''<TD>'' @ sn @ ''</TD>'' @ after"
    and "first_at ''<TD>'' page (length u)" and "CHR ''<'' \<notin> set sn" and "length page < 2 ^ 64"
  shows "parse_serial page = Ok sn"
proof -
  have "find_sub ''<TD>'' page = Some (length u)" by (rule first_at_find [OF assms(3)]) simp
  then have "find_from ''<TD>'' page (find_from ''PQube 3 Serial Number:'' page 0 + 1) = of_nat (length u)"
    by (simp add: find_from_def assms(1))
  then show ?thesis by (rule cell_text [OF page assms(4,5)])
qed

theorem page_without_label_gives_its_first_cell_witness: "parse_serial ''<TR><TD>Uptime</TD></TR>'' = Ok ''Uptime''"
  by (rule page_without_label_gives_its_first_cell [where u = "''<TR>''" and after = "''</TR>''"])
    (code_simp, simp, code_simp, simp_all)

subsection \<open>Waiting for the instrument\<close>

text \<open>An attempt of the FTP gateway in which the instrument answers the probe and sends its status page.\<close>

definition answers :: "gateway_world \<Rightarrow> ftp_config \<Rightarrow> string \<Rightarrow> bool" where
  "answers w c page \<longleftrightarrow> gw_curl_init w \<and> gw_probe w (access_string c @ fc_probe_cmd c) = CURLE_OK \<and>
     gw_http_init w \<and> gw_http_page w (''http://'' @ fc_ip_address c @ ''/html_status.cgi/'') = Some page"

text \<open>An attempt that the code takes for a success: it cuts a text from the page.\<close>

definition reaches :: "gateway_world \<Rightarrow> ftp_config \<Rightarrow> string \<Rightarrow> bool" where
  "reaches w c sn \<longleftrightarrow> sn \<noteq> [] \<and> (\<exists>page. answers w c page \<and> parse_serial page = Ok sn)"

lemma reaches_iff:
  "reaches w c sn \<longleftrightarrow> gw_curl_init w \<and> gw_probe w (access_string c @ fc_probe_cmd c) = CURLE_OK \<and>
     getUPMUSerialNumber w (fc_ip_address c) = Ok sn \<and> sn \<noteq> []"
  by (auto simp: reaches_def answers_def getUPMUSerialNumber_def split: option.splits if_splits)

text \<open>A gateway that has its configuration and has not reached the instrument yet.\<close>

definition unconnected :: "ftp_config \<Rightarrow> gateway \<Rightarrow> bool" where
  "unconnected c g \<longleftrightarrow> \<not> ftp_connection_valid g \<and> serial_number g = [] \<and> ftp_config_read g = Some c \<and>
     ftp_probe_cmd g = access_string c @ fc_probe_cmd c"

lemma probe_attempt_result:
  assumes "probe_attempt w g = Returns g' u" "unconnected c g"
  shows "if ftp_connection_valid g' then reaches w c (serial_number g') else unconnected c g' \<and> (\<forall>sn. \<not> reaches w c sn)"
proof (cases "gw_curl_init w \<and> gw_probe w (ftp_probe_cmd g) = CURLE_OK")
  case True
  then show ?thesis
    using assms by (auto simp: probe_attempt_def obind_Returns of_run_Returns unconnected_def reaches_iff)
next
  case False
  then have "g' = g \<or> g' = g\<lparr>ftp_connection_valid := (serial_number g \<noteq> [])\<rparr>"
    using assms(1) by (auto simp: probe_attempt_def split: if_splits)
  then show ?thesis using assms(2) False by (auto simp: unconnected_def reaches_iff)
qed

lemma wait_loop_result:
  assumes "wait_loop ws g = Returns g' True" "unconnected c g"
  shows "\<exists>us w vs. ws = us @ w # vs \<and> reaches w c (serial_number g') \<and> (\<forall>u\<in>set us. \<forall>sn. \<not> reaches u c sn)"
  using assms
proof (induction ws arbitrary: g)
  case Nil
  then show ?case by (auto simp: unconnected_def)
next
  case (Cons w ws)
  have v: "\<not> ftp_connection_valid g" using Cons.prems(2) by (simp add: unconnected_def)
  with Cons.prems(1) obtain g1 where 1: "probe_attempt w g = Returns g1 ()"
    and 2: "wait_loop ws (if ftp_connection_valid g1 then g1 else g1\<lparr>ftp_connection_valid := False\<rparr>) = Returns g' True"
    by (auto simp: obind_Returns)
  note r = probe_attempt_result [OF 1 Cons.prems(2)]
  show ?case
  proof (cases "ftp_connection_valid g1")
    case True
    then have "g' = g1" using 2 by (cases ws) simp_all
    then show ?thesis using True r by (intro exI [of _ "[]"] exI [of _ w] exI [of _ ws]) simp
  next
    case False
    then have same: "g1\<lparr>ftp_connection_valid := False\<rparr> = g1" by (cases g1) simp
    have "wait_loop ws (g1\<lparr>ftp_connection_valid := False\<rparr>) = Returns g' True" using 2 False by simp
    then have "wait_loop ws g1 = Returns g' True" unfolding same .
    from Cons.IH [OF this] False r obtain us v vs where "ws = us @ v # vs" "reaches v c (serial_number g')"
      "\<forall>u\<in>set us. \<forall>sn. \<not> reaches u c sn" by auto
    then show ?thesis using False r by (intro exI [of _ "w # us"] exI [of _ v] exI [of _ vs]) simp
  qed
qed

subsection \<open>Properties\<close>

text \<open>C40: When the row of the Cassandra configuration is missing or reading it throws, the start
  of the gateway never gets past the next access to the database: the function that reads it
  returns without releasing the mutex.\<close>

theorem cassandra_error_keeps_the_database_locked:
  assumes "gw_db_open w" "\<not> db_locked g" "gw_cass_throws w \<or> gw_cass_row w = None"
  shows "gateway_main w g = Blocks"
proof -
  have "\<exists>g2 sts. cassandraInit w h = Returns g2 sts \<and> db_locked g2" if "\<not> db_locked h" for h
    using that assms(3) by (cases "gw_cass_throws w") (auto simp: cassandraInit_def db_acquire_def)
  moreover have "read_ftp_config w h = Blocks" if "db_locked h" for h
    using that by (simp add: read_ftp_config_def db_acquire_def)
  moreover have "\<exists>h. new_pg_logger w g = Returns h () \<and> \<not> db_locked h"
    using assms(2) by (simp add: new_pg_logger_def db_acquire_def db_release_def)
  ultimately show ?thesis using assms(1) by (fastforce simp: gateway_main_def gateway_program_def)
qed

text \<open>C39: A gateway of either kind that reaches its final loop has started each active service whose library
  loads exactly once, in the order of the names, except that data discovery comes last.\<close>

theorem discovery_starts_last:
  assumes "gateway_main w g = Returns g' None \<or> gateway_main_ftp ws w g = Returns g' None" "service_map g = []" "started g = []"
  shows "\<exists>ns. started g' = ns @ (if ''serviceDataDiscovery'' \<in> loadable w then [''serviceDataDiscovery''] else [])
     \<and> sorted ns \<and> distinct ns \<and> set ns = loadable w - {''serviceDataDiscovery''}"
  using assms(1) unfolding gateway_main_def gateway_main_ftp_def
  by (elim disjE) (rule c37_gateway.starts_last [OF _ assms(2,3)] ftp_gateway.starts_last [OF _ assms(2,3)], assumption)+

text \<open>C37: The start message of a gateway of either kind is appended to the operations table under a session
  number that is larger than every earlier one of the same device, as long as these are below
  2147483647.\<close>

theorem sessions_increase:
  assumes "gateway_main w g = Returns g' None \<or> gateway_main_ftp ws w g = Returns g' None"
    and "\<forall>r\<in>set (operations g). 0 \<le> op_session r \<and> op_session r < 2147483647"
  shows "\<exists>rs. operations g' = operations g @ rs \<and> logs_session (serial_number g') (sint (session_id g')) rs \<and>
     map op_key rs = filter (gw_insert_ok w) startup_keys \<and>
     (\<forall>r\<in>set (operations g). op_device r = serial_number g' \<and> op_component r = serviceName_gateway \<longrightarrow>
        op_session r < sint (session_id g'))"
  using assms(1) unfolding gateway_main_def gateway_main_ftp_def
  by (elim disjE) (rule c37_gateway.session_above [OF _ assms(2)] ftp_gateway.session_above [OF _ assms(2)], assumption)+

text \<open>C38: A gateway of the FTP kind waits for its instrument: it gets to its final loop only after an
  attempt in which the instrument answered the probe and sent its status page. If this page shows a
  serial number, the gateway works and logs its session under this number. It does not pass
  over an attempt in which the instrument answered and its page showed a number. (Of a page that shows no
  number the gateway takes what its search cuts out: without the label, the first cell.)\<close>

theorem ftp_gateway_waits_for_its_instrument:
  assumes "gateway_main_ftp ws w g = Returns g' None" "serial_number g = []"
  shows "\<exists>c us v vs page. gw_ftp_rows w = [c] \<and> ws = us @ v # vs \<and> answers v c page \<and> serial_number g' \<noteq> [] \<and>
     (\<forall>sn. shows_serial page sn \<and> length page < 2 ^ 64 \<longrightarrow> serial_number g' = sn) \<and>
     (\<forall>u\<in>set us. \<forall>p sn. answers u c p \<and> shows_serial p sn \<and> length p < 2 ^ 64 \<longrightarrow> sn = []) \<and>
     (\<exists>rs. operations g' = operations g @ rs \<and> logs_session (serial_number g') (sint (session_id g')) rs)"
  using ftp_gateway.started_as [OF assms(1) [unfolded gateway_main_ftp_def]]
proof (elim exE conjE)
  fix g2 g3 g4 g5 rs
  assume g3: "read_ftp_config w g2 = Returns g3 True" and wait: "wait_loop ws g3 = Returns g4 True"
    and sn: "serial_number g2 = serial_number g" "serial_number g' = serial_number g4"
    and rs: "operations g' = operations g @ rs" "logs_session (serial_number g') (sint (session_id g')) rs"
  from read_ftp_config_result [OF g3] obtain c where c: "gw_ftp_rows w = [c]" and un: "unconnected c g3"
    using assms(2) sn(1) by (auto simp: unconnected_def)
  from wait_loop_result [OF wait un] obtain us v vs where v: "ws = us @ v # vs" "reaches v c (serial_number g')"
    and before: "\<forall>u\<in>set us. \<forall>sn. \<not> reaches u c sn" unfolding sn(2) by blast
  from v(2) obtain page where p: "answers v c page" "parse_serial page = Ok (serial_number g')" "serial_number g' \<noteq> []"
    by (auto simp: reaches_def)
  have "serial_number g' = sn" if "shows_serial page sn" "length page < 2 ^ 64" for sn
    using serial_read [OF that] p(2) by simp
  moreover have "sn = []" if "u \<in> set us" "answers u c q" "shows_serial q sn" "length q < 2 ^ 64" for u q sn
    using serial_read [OF that(3,4)] that(1,2) before by (auto simp: reaches_def)
  ultimately show ?thesis using c v(1) p(1,3) rs by blast
qed

subsection \<open>Witnesses\<close>

definition example_gateway :: gateway where
  "example_gateway = \<lparr>db_locked = False, pg_logger = False, cass_logger = False, cass_config_read = None,
     cass_archiving_enabled = False, cass_connected = False, cass_prepared = [], ftp_config_read = None,
     ftp_access_string = [], ftp_probe_cmd = [], ftp_connection_valid = False, serial_number = [], session_id = 0,
     service_map = [], started = [],
     operations = [\<lparr>op_state = ''running'', op_device = ''P3'', op_session = 7, op_component = ''uPMUgateway'',
       op_key = ''Service_Startup_Msg'', op_type = ''string'', op_val = OpString ''x''\<rparr>],
     op_messages = []\<rparr>"

definition example_row :: "string \<Rightarrow> service_row" where
  "example_row n = \<lparr>sr_name = n, sr_implementation = n, sr_exec_mode = ''debug'', sr_debug_lib_path = ''lib'',
     sr_lib_path = [], sr_accepts_data = True, sr_queue_depth = 10, sr_mask = 255\<rparr>"

definition example_gateway_world :: "cass_config option \<Rightarrow> gateway_world" where
  "example_gateway_world cass = \<lparr>gw_db_open = True, gw_prepare_ok = True, gw_cass_throws = False, gw_cass_row = cass,
     gw_cass_connects = (\<lambda>_ _. True), gw_cass_prepares = (\<lambda>_. True), gw_cass_inserts = True,
     gw_ftp_rows = [\<lparr>fc_probe_cmd = ''/'', fc_username = ''u'', fc_passwd = ''p'', fc_ip_address = ''a'',
       fc_port = 21, fc_comm_enabled = True\<rparr>],
     gw_curl_init = True, gw_probe = (\<lambda>_. CURLE_OK), gw_http_init = True,
     gw_http_page = (\<lambda>_. Some ''<TD>PQube 3 Serial Number:</TD><TD>P3</TD>''), gw_insert_ok = (\<lambda>_. True),
     gw_malloc = True, gw_time = 1500000000,
     gw_service_rows = [Some (example_row ''serviceDataDiscovery''), None, Some (example_row ''gone''),
       Some (example_row ''serviceDataArchiver'')],
     gw_loads = (\<lambda>_ n. n \<noteq> ''gone'')\<rparr>"

definition example_cass :: cass_config where
  "example_cass = \<lparr>cc_keyspace = ''k'', cc_data_table = ''d'', cc_metadata_table = ''m'', cc_configuration_table = ''c'',
     cc_annotations_table = ''a'', cc_operations_table = ''o'', cc_ip_address = ''i'', cc_port = 9042,
     cc_archiving_enabled = True\<rparr>"

lemma example_start:
  "(case gateway_main (example_gateway_world (Some example_cass)) example_gateway of
      Returns g r \<Rightarrow> r = None \<and> started g = [''serviceDataArchiver'', ''serviceDataDiscovery''] \<and> session_id g = 8 \<and>
        serial_number g = ''P3'' \<and> length (op_messages g) = 1
    | _ \<Rightarrow> False)"
  by code_simp

lemma cassandra_error_keeps_the_database_locked_witness:
  "gateway_main (example_gateway_world None) example_gateway = Blocks"
  by (rule cassandra_error_keeps_the_database_locked) (simp_all add: example_gateway_world_def example_gateway_def)

lemma example_start_ends:
  "\<exists>g. gateway_main (example_gateway_world (Some example_cass)) example_gateway = Returns g None"
  using example_start by (auto split: outcome.splits)

lemma discovery_starts_last_witness:
  "\<exists>g ns. gateway_main (example_gateway_world (Some example_cass)) example_gateway = Returns g None \<and>
     started g = ns @ (if ''serviceDataDiscovery'' \<in> loadable (example_gateway_world (Some example_cass))
       then [''serviceDataDiscovery''] else []) \<and> sorted ns"
proof -
  obtain g where g: "gateway_main (example_gateway_world (Some example_cass)) example_gateway = Returns g None"
    using example_start_ends ..
  have "service_map example_gateway = []" "started example_gateway = []" by (simp_all add: example_gateway_def)
  from discovery_starts_last [OF disjI1 [OF g] this] g show ?thesis by blast
qed

lemma sessions_increase_witness:
  "\<exists>g. gateway_main (example_gateway_world (Some example_cass)) example_gateway = Returns g None \<and>
     (\<exists>rs. operations g = operations example_gateway @ rs \<and>
       map op_key rs = filter (gw_insert_ok (example_gateway_world (Some example_cass))) startup_keys)"
proof -
  obtain g where g: "gateway_main (example_gateway_world (Some example_cass)) example_gateway = Returns g None"
    using example_start_ends ..
  have "\<forall>r\<in>set (operations example_gateway). 0 \<le> op_session r \<and> op_session r < 2147483647"
    by (simp add: example_gateway_def)
  note s = sessions_increase [OF disjI1 [OF g] this]
  with s g show ?thesis by (simp only:) blast
qed

lemma example_page: "shows_serial ''<TD>PQube 3 Serial Number:</TD><TD>P3</TD>'' ''P3''"
  unfolding shows_serial_def
  by (rule exI [of _ "''<TD>''"], rule exI [of _ "''</TD>''"], rule exI [of _ "[]"], intro conjI)
    (simp, code_simp, code_simp, simp)

lemma ftp_gateway_waits_for_its_instrument_witness:
  "\<exists>g c v page. (let w = example_gateway_world (Some example_cass) in
     gateway_main_ftp [w\<lparr>gw_probe := (\<lambda>_. CURLE_OTHER)\<rparr>, w\<lparr>gw_http_page := (\<lambda>_. None)\<rparr>, w] w example_gateway = Returns g None \<and>
     answers v c page \<and> shows_serial page ''P3'' \<and> serial_number g = ''P3'')"
proof -
  let ?w = "example_gateway_world (Some example_cass)"
  let ?p = "''<TD>PQube 3 Serial Number:</TD><TD>P3</TD>''"
  let ?ws = "[?w\<lparr>gw_probe := (\<lambda>_. CURLE_OTHER)\<rparr>, ?w\<lparr>gw_http_page := (\<lambda>_. None)\<rparr>, ?w]"
  have "(case gateway_main_ftp ?ws ?w example_gateway of Returns g r \<Rightarrow> r = None | _ \<Rightarrow> False)"
    by code_simp
  then obtain g where g: "gateway_main_ftp ?ws ?w example_gateway = Returns g None"
    by (auto split: outcome.splits)
  have "serial_number example_gateway = []" by (simp add: example_gateway_def)
  from ftp_gateway_waits_for_its_instrument [OF g this] obtain c us v vs page where
    v: "?ws = us @ v # vs" "answers v c page" "shows_serial page ''P3'' \<Longrightarrow> length page < 2 ^ 64 \<Longrightarrow> serial_number g = ''P3''"
    by (elim exE conjE) (rule that, assumption, assumption, blast)
  from v(1) have "v \<in> set ?ws" by (metis in_set_conv_decomp)
  then have "gw_http_page v = (\<lambda>_. Some ?p) \<or> gw_http_page v = (\<lambda>_. None)"
    by (auto simp: example_gateway_world_def)
  with v(2) have page: "page = ?p" by (auto simp: answers_def)
  with v(3) example_page have "serial_number g = ''P3''" by simp
  with g v(2) page example_page show ?thesis by (auto simp: Let_def)
qed

end
