(* ===== verification/Voltage_Limit.thy ===== *)
theory Voltage_Limit
  imports Float_Ops Gm_Time
begin

text \<open>
  The voltage analysis of the RabbitMQ service: class \<open>upmuanalyticsASU\<close> in
  \<open>serviceDataArchiverRabbitMQ/serviceDataArchiverRabbitMQ.cpp\<close>. Second by second it looks for
  sags, interruptions and swells in the magnitude of each phase, carries an event that reaches
  the end of a window over to the next one, and reports an event when it has ended. The
  arrays over the phases are a list of records, one for each phase. The counters are
  \<open>double\<close>s that hold whole numbers; they are \<open>int\<close>s here. The copy of each report that goes to
  a log file is left out.
\<close>

subsection \<open>Data\<close>

datatype ev_class = Sag | Interruption | Swell

record phase_analysis =
  V_count :: "ev_class \<Rightarrow> int"
  V_tmp :: "ev_class \<Rightarrow> int"
  V_last_sample :: "ev_class \<Rightarrow> bool"
  V_ts :: "int list"
  V_te :: "int list"
  V_an :: "string list"
  V_report :: int
  V_last_rep :: bool
  V_last_val :: f64

record voltage_report =
  vr_phase :: nat
  vr_start :: int
  vr_end :: int
  vr_severity :: int
  vr_description :: string

definition fresh_phase :: phase_analysis where
  "fresh_phase = \<lparr>V_count = (\<lambda>_. 0), V_tmp = (\<lambda>_. 0), V_last_sample = (\<lambda>_. False), V_ts = [], V_te = [],
     V_an = [], V_report = 0, V_last_rep = False, V_last_val = 0\<rparr>"

definition makereport :: "nat \<Rightarrow> int \<Rightarrow> int \<Rightarrow> int \<Rightarrow> string \<Rightarrow> voltage_report" where
  "makereport ph starttime endtime severity description =
     \<lparr>vr_phase = ph, vr_start = starttime, vr_end = endtime, vr_severity = severity, vr_description = description\<rparr>"

definition window_size :: nat where "window_size = 120"
definition max_wdw_sag :: int where "max_wdw_sag = 3"
definition over_limit :: int where "over_limit = 7200"

definition d_01 :: f64 where "d_01 = 0x3FB999999999999A"
definition d_09 :: f64 where "d_09 = 0x3FECCCCCCCCCCCCD"
definition d_11 :: f64 where "d_11 = 0x3FF199999999999A"

primrec in_class :: "fp_ops \<Rightarrow> ev_class \<Rightarrow> f64 \<Rightarrow> bool" where
  "in_class m Sag x = (d_le m d_01 x \<and> d_le m x d_09)"
| "in_class m Interruption x = d_less m x d_01"
| "in_class m Swell x = d_le m d_11 x"

definition class_of :: "fp_ops \<Rightarrow> f64 \<Rightarrow> ev_class option" where
  "class_of m x = (if in_class m Sag x then Some Sag else if in_class m Interruption x then Some Interruption
     else if in_class m Swell x then Some Swell else None)"

primrec long_label :: "ev_class \<Rightarrow> string" where
  "long_label Sag = ''under voltage''"
| "long_label Interruption = ''sustained interruption''"
| "long_label Swell = ''over voltage''"

primrec short_label :: "ev_class \<Rightarrow> string" where
  "short_label Sag = ''voltage sag''"
| "short_label Interruption = ''interruption''"
| "short_label Swell = ''voltage swell''"

text \<open>Only sags have to reach a length before they get a label.\<close>

definition labelled :: "ev_class \<Rightarrow> int \<Rightarrow> bool" where
  "labelled e n \<longleftrightarrow> (e = Sag \<longrightarrow> max_wdw_sag < n)"

subsection \<open>Finding the events of a window\<close>

text \<open>\<open>(kk-2)*size+jj\<close> is computed in \<open>int\<close>.\<close>

definition window_time :: "int \<Rightarrow> nat \<Rightarrow> int option" where
  "window_time kk jj = do {
     k \<leftarrow> int_ok (kk - 2); w \<leftarrow> int_ok (k * int window_size); int_ok (w + int jj) }"

definition push_event :: "int \<Rightarrow> nat \<Rightarrow> int \<Rightarrow> string \<Rightarrow> phase_analysis \<Rightarrow> phase_analysis run" where
  "push_event kk jj n label p = run_bind (checked (window_time kk jj)) (\<lambda>t.
     Ok (p\<lparr>V_ts := V_ts p @ [t - n - 1], V_an := V_an p @ [label], V_te := V_te p @ [t],
           V_report := V_report p + 1\<rparr>))"

text \<open>\<open>pop_back\<close> of an empty vector is undefined.\<close>

definition pop_event :: "phase_analysis \<Rightarrow> phase_analysis run" where
  "pop_event p = (if V_ts p = [] \<or> V_an p = [] \<or> V_te p = [] then Ub
     else Ok (p\<lparr>V_ts := butlast (V_ts p), V_an := butlast (V_an p), V_te := butlast (V_te p)\<rparr>))"

function while_in :: "(f64 \<Rightarrow> bool) \<Rightarrow> f64 list \<Rightarrow> nat \<Rightarrow> int \<Rightarrow> nat \<times> int" where
  "while_in C xs jj n =
     (if jj < length xs \<and> C (xs ! jj)
      then if over_limit < n + 1 then (jj, n + 1) else while_in C xs (jj + 1) (n + 1)
      else (jj, n))"
  by auto
termination by (relation "measure (\<lambda>(C, xs, jj, n). length xs - jj)") auto

declare while_in.simps [simp del]

definition event_branch ::
  "fp_ops \<Rightarrow> int \<Rightarrow> ev_class \<Rightarrow> f64 list \<Rightarrow> nat \<Rightarrow> phase_analysis \<Rightarrow> (nat \<times> phase_analysis) run" where
  "event_branch m kk e xs jj p =
     (let (jj', n) = while_in (in_class m e) xs jj (V_count p e);
          p1 = p\<lparr>V_count := (V_count p)(e := n)\<rparr> in
      run_bind
        (if over_limit < n then push_event kk jj' n (long_label e) p1
         else if labelled e n
         then run_bind (if int jj' - n + V_tmp p1 e = 0 \<and> V_last_sample p1 e \<and> labelled e (V_tmp p1 e)
                        then pop_event p1 else Ok p1)
                (push_event kk jj' n (short_label e))
         else Ok p1)
        (\<lambda>p2. Ok (jj', if jj' = length xs \<and> 0 < n \<and> n \<le> over_limit
                       then p2\<lparr>V_last_sample := (\<lambda>c. c = e), V_tmp := (V_tmp p2)(e := n)\<rparr>
                       else p2\<lparr>V_count := (V_count p2)(e := 0)\<rparr>)))"

lemma while_in_ge: "jj \<le> fst (while_in C xs jj n)"
proof (induction C xs jj n rule: while_in.induct)
  case (1 C xs jj n)
  then show ?case by (subst while_in.simps) auto
qed

lemma event_branch_progress:
  assumes "jj < length xs" "in_class m e (xs ! jj)" "event_branch m kk e xs jj p = Ok (jj', p')"
  shows "jj < jj' \<or> jj' = jj \<and> over_limit \<le> V_count p e \<and> V_count p' e = 0"
proof (cases "over_limit < V_count p e + 1")
  case True
  then have w: "while_in (in_class m e) xs jj (V_count p e) = (jj, V_count p e + 1)"
    using assms(1,2) by (simp add: while_in.simps)
  from assms(3) True show ?thesis by (auto simp: event_branch_def w Let_def run_bind_Ok)
next
  case False
  then have "while_in (in_class m e) xs jj (V_count p e) = while_in (in_class m e) xs (jj + 1) (V_count p e + 1)"
    using assms(1,2) by (subst while_in.simps) simp
  then have "jj + 1 \<le> fst (while_in (in_class m e) xs jj (V_count p e))" using while_in_ge by simp
  with assms(3) show ?thesis by (auto simp: event_branch_def Let_def run_bind_Ok split: prod.splits)
qed

lemma class_of_in: "class_of m x = Some e \<Longrightarrow> in_class m e x"
  by (auto simp: class_of_def split: if_splits)

text \<open>The loop over the window. A branch that reaches the limit leaves the index where it is, but
  resets the counter.\<close>

function phase_loop :: "fp_ops \<Rightarrow> int \<Rightarrow> f64 list \<Rightarrow> nat \<Rightarrow> phase_analysis \<Rightarrow> phase_analysis run" where
  "phase_loop m kk xs jj p =
     (if length xs \<le> jj then Ok p
      else (case class_of m (xs ! jj) of
        None \<Rightarrow> phase_loop m kk xs (jj + 1) p
      | Some e \<Rightarrow> (case event_branch m kk e xs jj p of
          Ok (jj', p') \<Rightarrow> phase_loop m kk xs jj' p' | Exc \<Rightarrow> Exc | Ub \<Rightarrow> Ub)))"
  by auto
termination
proof (relation "measure (\<lambda>(m, kk, xs, jj, p). 2 * (length xs - jj) +
    (if jj < length xs \<and> (\<exists>e. class_of m (xs ! jj) = Some e \<and> over_limit \<le> V_count p e) then 1 else 0))", goal_cases)
  case (3 m kk xs jj p e r jj' p')
  then have "jj < jj' \<or> jj' = jj \<and> over_limit \<le> V_count p e \<and> V_count p' e = 0"
    by (intro event_branch_progress [of jj xs m e kk p]) (auto dest: class_of_in)
  with 3 show ?case by (auto simp: over_limit_def)
qed auto

declare phase_loop.simps [simp del]

definition start_phase :: "fp_ops \<Rightarrow> f64 \<Rightarrow> phase_analysis \<Rightarrow> phase_analysis" where
  "start_phase m x p = p\<lparr>V_count := (\<lambda>e. case e of
       Sag \<Rightarrow> if d_less m d_09 x \<or> d_less m x d_01 then 0 else V_count p Sag
     | Interruption \<Rightarrow> if d_le m d_01 x then 0 else V_count p Interruption
     | Swell \<Rightarrow> if d_less m x d_11 then 0 else V_count p Swell), V_report := 0\<rparr>"

definition analyse_phase :: "fp_ops \<Rightarrow> int \<Rightarrow> f64 list \<Rightarrow> phase_analysis \<Rightarrow> phase_analysis run" where
  "analyse_phase m kk xs p =
     run_bind (phase_loop m kk xs 0 (start_phase m (xs ! 0) p)) (\<lambda>p1.
       let x = xs ! (window_size - 1) in
       Ok (if d_less m d_09 x \<and> d_less m x d_11 then p1\<lparr>V_last_sample := (\<lambda>_. False)\<rparr> else p1))"

subsection \<open>Reporting what has ended\<close>

definition ongoing :: "phase_analysis \<Rightarrow> bool" where
  "ongoing p \<longleftrightarrow> V_last_sample p Sag \<and> max_wdw_sag < V_tmp p Sag \<or> V_last_sample p Interruption \<or> V_last_sample p Swell"

definition ended_before :: "fp_ops \<Rightarrow> f64 \<Rightarrow> phase_analysis \<Rightarrow> bool" where
  "ended_before m x p \<longleftrightarrow> V_last_rep p \<and> (let v = V_last_val p in
     d_less m v d_01 \<and> d_le m d_01 x \<or> d_le m d_01 v \<and> d_le m v d_09 \<and> d_less m x d_01 \<or>
     d_le m d_01 v \<and> d_le m v d_09 \<and> d_less m d_09 x \<or> d_le m d_11 v \<and> d_less m x d_11)"

text \<open>\<open>v.at(i)\<close> for \<open>n\<close> indices from \<open>i\<close> on; a negative index is a conversion out of range.\<close>

primrec at_each :: "'a list \<Rightarrow> int \<Rightarrow> nat \<Rightarrow> 'a list run" where
  "at_each xs i 0 = Ok []"
| "at_each xs i (Suc n) =
     (if i < 0 then Ub else if int (length xs) \<le> i then Exc
      else run_bind (at_each xs (i + 1) n) (\<lambda>ys. Ok (xs ! nat i # ys)))"

definition report_slice :: "fp_ops \<Rightarrow> f64 \<Rightarrow> phase_analysis \<Rightarrow> 'a list \<Rightarrow> 'a list run" where
  "report_slice m x p xs =
     (let r = V_report p; i = int (length xs) - r in
      if ongoing p then (if ended_before m x p then at_each xs (i - 1) (nat r) else at_each xs i (nat (r - 1)))
      else (if ended_before m x p then at_each xs (i - 1) (nat (r + 1)) else at_each xs i (nat r)))"

primrec run_all :: "'a run list \<Rightarrow> 'a list run" where
  "run_all [] = Ok []"
| "run_all (r # rs) = run_bind r (\<lambda>x. run_bind (run_all rs) (\<lambda>xs. Ok (x # xs)))"

definition printReports :: "fp_ops \<Rightarrow> f64 list list \<Rightarrow> phase_analysis list \<Rightarrow> voltage_report list run" where
  "printReports m input ps =
     run_bind (run_all (map2 (\<lambda>xs p. report_slice m (xs ! 0) p (V_ts p)) input ps)) (\<lambda>starts.
     run_bind (run_all (map2 (\<lambda>xs p. report_slice m (xs ! 0) p (V_te p)) input ps)) (\<lambda>ends.
     run_bind (run_all (map2 (\<lambda>xs p. report_slice m (xs ! 0) p (V_an p)) input ps)) (\<lambda>descriptions.
     Ok (concat (map2 (\<lambda>ph (ss, es, ds). map2 (\<lambda>s (e, d). makereport ph s e 10 d) ss (zip es ds))
           [0..<length starts] (zip starts (zip ends descriptions)))))))"

text \<open>One call. The windows of all phases are as long as that of the first; shorter ones are read
  beyond their end, as is a window of less than 120 samples.\<close>

definition VoltageLimitMain ::
  "fp_ops \<Rightarrow> int \<Rightarrow> f64 list list \<Rightarrow> phase_analysis list \<Rightarrow> (phase_analysis list \<times> voltage_report list) run" where
  "VoltageLimitMain m kk input ps =
     (let Len = length (input ! 0) in
      if Len = 0 \<or> list_ex (\<lambda>xs. length xs < Len \<or> length xs < window_size) input then Ub
      else run_bind (run_all (map2 (\<lambda>xs p. analyse_phase m kk (take Len xs) p) input ps)) (\<lambda>ps1.
           run_bind (if list_ex (\<lambda>p. 0 < V_report p \<or> V_last_rep p) ps1 then printReports m input ps1 else Ok [])
             (\<lambda>reports. Ok (map2 (\<lambda>xs p. p\<lparr>V_last_rep := ongoing p, V_last_val := xs ! (Len - 1)\<rparr>) input ps1,
                            reports))))"

text \<open>The calls of successive seconds: \<open>kk\<close> is counted up before each of them.\<close>

primrec voltage_seconds ::
  "fp_ops \<Rightarrow> int \<Rightarrow> f64 list list list \<Rightarrow> phase_analysis list \<Rightarrow> (phase_analysis list \<times> voltage_report list) run" where
  "voltage_seconds m kk [] ps = Ok (ps, [])"
| "voltage_seconds m kk (w # ws) ps =
     run_bind (VoltageLimitMain m (kk + 1) w ps) (\<lambda>(ps1, rs).
     run_bind (voltage_seconds m (kk + 1) ws ps1) (\<lambda>(ps2, rs'). Ok (ps2, rs @ rs')))"

subsection \<open>The events of a stream\<close>

text \<open>The reference: maximal runs of equal elements with the index they start at and the index
  behind them; the runs of a class that are long enough are its events.\<close>

function spans :: "'a list \<Rightarrow> nat \<Rightarrow> ('a \<times> nat \<times> nat) list" where
  "spans [] i = []"
| "spans (x # xs) i = (let n = length (takeWhile (\<lambda>y. y = x) xs)
     in (x, i, i + n + 1) # spans (drop n xs) (i + n + 1))"
  by pat_completeness auto
termination by (relation "measure (\<lambda>(xs, i). length xs)") auto

definition event_of :: "ev_class option \<times> nat \<times> nat \<Rightarrow> (string \<times> int \<times> int) list" where
  "event_of r = (case r of (None, _, _) \<Rightarrow> []
     | (Some e, s, t) \<Rightarrow> if labelled e (int t - int s) then [(short_label e, int s - 1, int t)] else [])"

definition stream_events :: "ev_class option list \<Rightarrow> (string \<times> int \<times> int) list" where
  "stream_events cs = concat (map event_of (spans cs 0))"

text \<open>The length of the run at the end, and whether it is an event that may go on.\<close>

definition tail_run :: "'a list \<Rightarrow> nat" where
  "tail_run cs = (if cs = [] then 0 else length (takeWhile (\<lambda>y. y = last cs) (rev cs)))"

definition open_event :: "ev_class option list \<Rightarrow> bool" where
  "open_event cs \<longleftrightarrow> cs \<noteq> [] \<and> (case last cs of None \<Rightarrow> False | Some e \<Rightarrow> labelled e (int (tail_run cs)))"

definition ended_events :: "ev_class option list \<Rightarrow> (string \<times> int \<times> int) list" where
  "ended_events cs = (if open_event cs then butlast (stream_events cs) else stream_events cs)"

text \<open>No event is longer than a minute.\<close>

definition short_runs :: "ev_class option list \<Rightarrow> bool" where
  "short_runs cs \<longleftrightarrow> (\<forall>ys n e zs. cs = ys @ replicate n (Some e) @ zs \<longrightarrow> int n \<le> over_limit)"

subsection \<open>Runs\<close>

lemma spans_same: "xs \<noteq> [] \<Longrightarrow> \<forall>y\<in>set xs. y = c \<Longrightarrow> spans xs i = [(c, i, i + length xs)]"
proof (cases xs)
  case (Cons x ys)
  assume "\<forall>y\<in>set xs. y = c"
  with Cons have "takeWhile (\<lambda>y. y = c) ys = ys" by (intro takeWhile_eq_all_conv [THEN iffD2]) auto
  then have "length (takeWhile (\<lambda>y. y = c) ys) = length ys" by (rule arg_cong)
  with Cons \<open>\<forall>y\<in>set xs. y = c\<close> show ?thesis by (simp add: Let_def)
qed simp

lemma spans_append: "xs = [] \<or> ys = [] \<or> last xs \<noteq> hd ys \<Longrightarrow> spans (xs @ ys) i = spans xs i @ spans ys (i + length xs)"
proof (induction xs i rule: spans.induct)
  case (2 x xs i)
  let ?n = "length (takeWhile (\<lambda>y. y = x) xs)"
  show ?case
  proof (cases "drop ?n xs = []")
    case True
    then have tw: "takeWhile (\<lambda>y. y = x) xs = xs" by (subst takeWhile_eq_take) simp
    then have len: "length (takeWhile (\<lambda>y. y = x) xs) = length xs" by (rule arg_cong)
    from tw have all: "\<forall>y\<in>set xs. y = x" by (simp add: takeWhile_eq_all_conv)
    have n: "length (takeWhile (\<lambda>y. y = x) (xs @ ys)) = length xs"
    proof (cases ys)
      case (Cons y zs)
      have "last (x # xs) = x" using all by (cases xs rule: rev_cases) auto
      with 2(2) Cons have "y \<noteq> x" by auto
      with Cons all show ?thesis by (simp add: takeWhile_append2)
    qed (use len in simp)
    show ?thesis using len n by (simp add: Let_def)
  next
    case False
    have "\<exists>z\<in>set xs. z \<noteq> x"
    proof (rule ccontr)
      assume "\<not> (\<exists>z\<in>set xs. z \<noteq> x)"
      then have "takeWhile (\<lambda>y. y = x) xs = xs" by (intro takeWhile_eq_all_conv [THEN iffD2]) blast
      then have "length (takeWhile (\<lambda>y. y = x) xs) = length xs" by (rule arg_cong)
      with False show False by simp
    qed
    then obtain z where z: "z \<in> set xs" "z \<noteq> x" by blast
    then have tw: "takeWhile (\<lambda>y. y = x) (xs @ ys) = takeWhile (\<lambda>y. y = x) xs" by (rule takeWhile_append1)
    have n: "?n \<le> length xs" by (rule length_takeWhile_le)
    have "drop ?n xs = [] \<or> ys = [] \<or> last (drop ?n xs) \<noteq> hd ys"
      using 2(2) False by (cases "xs = []") auto
    from 2(1) [OF refl this] n show ?thesis by (simp add: tw Let_def add.assoc)
  qed
qed simp

definition ends_run :: "'a list \<Rightarrow> 'a \<Rightarrow> bool" where
  "ends_run ys c \<longleftrightarrow> ys = [] \<or> last ys \<noteq> c"

definition run_event :: "ev_class \<Rightarrow> nat \<Rightarrow> nat \<Rightarrow> (string \<times> int \<times> int) list" where
  "run_event e t n = (if 0 < n \<and> labelled e (int n) then [(short_label e, int t - int n - 1, int t)] else [])"

lemma stream_events_run:
  assumes "ends_run ys (Some e)"
  shows "stream_events (ys @ replicate n (Some e)) = stream_events ys @ run_event e (length ys + n) n"
proof (cases n)
  case (Suc k)
  have "spans (ys @ replicate n (Some e)) 0 = spans ys 0 @ [(Some e, length ys, length ys + n)]"
    using assms Suc by (subst spans_append) (auto simp: ends_run_def spans_same)
  then show ?thesis using Suc by (simp add: stream_events_def event_of_def run_event_def)
qed (simp add: run_event_def)

lemma stream_events_None:
  assumes "ends_run ys None"
  shows "stream_events (ys @ replicate n None) = stream_events ys"
proof (cases n)
  case (Suc k)
  have "spans (ys @ replicate n None) 0 = spans ys 0 @ [(None, length ys, length ys + n)]"
    using assms Suc by (subst spans_append) (auto simp: ends_run_def spans_same)
  then show ?thesis by (simp add: stream_events_def event_of_def)
qed simp

lemma tail_run_split:
  assumes "cs \<noteq> []"
  obtains ys where "cs = ys @ replicate (tail_run cs) (last cs)" "ends_run ys (last cs)" "0 < tail_run cs"
proof -
  let ?P = "\<lambda>y. y = last cs"
  let ?t = "takeWhile ?P (rev cs)" and ?d = "dropWhile ?P (rev cs)"
  have t: "rev ?t = replicate (tail_run cs) (last cs)"
    using assms by (auto simp: tail_run_def intro!: replicate_eqI dest: set_takeWhileD)
  have "cs = rev ?d @ rev ?t" by (metis rev_append rev_rev_ident takeWhile_dropWhile_id)
  then have 1: "cs = rev ?d @ replicate (tail_run cs) (last cs)" unfolding t .
  have 2: "ends_run (rev ?d) (last cs)"
  proof (cases "?d = []")
    case False
    then have "\<not> ?P (hd ?d)" by (rule hd_dropWhile)
    then show ?thesis using False by (simp add: ends_run_def last_rev)
  qed (simp add: ends_run_def)
  have rc: "rev cs = last cs # rev (butlast cs)" using assms by (simp add: rev_eq_Cons_iff)
  have "?t = last cs # takeWhile ?P (rev (butlast cs))" unfolding rc by simp
  then have "0 < tail_run cs" using assms by (simp add: tail_run_def)
  with 1 2 show thesis by (rule that)
qed

lemma tail_run_replicate: "ends_run ys c \<Longrightarrow> 0 < n \<Longrightarrow> tail_run (ys @ replicate n c) = n"
proof -
  assume a: "ends_run ys c" "0 < n"
  have "takeWhile (\<lambda>y. y = c) (rev ys) = []"
    using a(1) by (cases ys rule: rev_cases) (auto simp: ends_run_def)
  then have "takeWhile (\<lambda>y. y = c) (replicate n c @ rev ys) = replicate n c" by (subst takeWhile_append2) auto
  then show ?thesis using a(2) by (simp add: tail_run_def)
qed

lemma stream_events_None1: "stream_events (cs @ [None]) = stream_events cs"
proof (cases "cs = [] \<or> last cs \<noteq> None")
  case True
  then show ?thesis using stream_events_None [of cs 1] by (simp add: ends_run_def)
next
  case False
  then obtain ys where ys: "cs = ys @ replicate (tail_run cs) None" "ends_run ys None" by (auto elim: tail_run_split)
  then have "cs @ [None] = ys @ replicate (Suc (tail_run cs)) None" by (metis append_assoc replicate_append_same replicate_Suc)
  then show ?thesis using stream_events_None [OF ys(2)] ys(1) by metis
qed

subsection \<open>One window\<close>

lemma while_in_run:
  "(\<And>i. i < k \<Longrightarrow> C (xs ! (jj + i))) \<Longrightarrow> (jj + k < length xs \<Longrightarrow> \<not> C (xs ! (jj + k))) \<Longrightarrow>
   jj + k \<le> length xs \<Longrightarrow> n + int k \<le> over_limit \<Longrightarrow> while_in C xs jj n = (jj + k, n + int k)"
proof (induction k arbitrary: jj n)
  case 0
  then show ?case by (subst while_in.simps) auto
next
  case (Suc k)
  have "C (xs ! jj)" using Suc.prems(1) [of 0] by simp
  moreover have "while_in C xs (jj + 1) (n + 1) = (jj + 1 + k, n + 1 + int k)"
    using Suc.prems(1) [of "Suc _"] Suc.prems(2-4) by (intro Suc.IH) auto
  ultimately show ?case using Suc.prems(3,4) by (subst while_in.simps) auto
qed

definition comparable :: "fp_ops \<Rightarrow> f64 \<Rightarrow> bool" where
  "comparable m x \<longleftrightarrow> (d_le m d_01 x \<longleftrightarrow> \<not> d_less m x d_01) \<and> (d_less m d_09 x \<longleftrightarrow> \<not> d_le m x d_09) \<and>
     (d_le m d_11 x \<longleftrightarrow> \<not> d_less m x d_11) \<and> (d_less m x d_01 \<longrightarrow> d_le m x d_09) \<and> (d_le m x d_09 \<longrightarrow> d_less m x d_11)"

lemma in_class_iff: "comparable m x \<Longrightarrow> in_class m e x \<longleftrightarrow> class_of m x = Some e"
  by (cases e) (auto simp: comparable_def class_of_def)

lemma ex_class: "(\<exists>e. P e) \<longleftrightarrow> P Sag \<or> P Interruption \<or> P Swell"
  by (metis ev_class.exhaust)

lemma labelled_mono: "labelled e a \<Longrightarrow> a \<le> b \<Longrightarrow> labelled e b"
  by (auto simp: labelled_def)

definition logged :: "(string \<times> int \<times> int) list \<Rightarrow> phase_analysis \<Rightarrow> bool" where
  "logged E p \<longleftrightarrow> V_an p = map fst E \<and> V_ts p = map (fst \<circ> snd) E \<and> V_te p = map (snd \<circ> snd) E"

text \<open>The run of class \<open>e\<close> that reaches the end of the stream.\<close>

definition carried :: "ev_class option list \<Rightarrow> ev_class \<Rightarrow> nat" where
  "carried cs e = (if cs \<noteq> [] \<and> last cs = Some e then tail_run cs else 0)"

lemma carried_split:
  obtains ys where "cs = ys @ replicate (carried cs e) (Some e)" "ends_run ys (Some e)"
proof (cases "cs \<noteq> [] \<and> last cs = Some e")
  case True
  then obtain ys where "cs = ys @ replicate (tail_run cs) (last cs)" "ends_run ys (last cs)" by (blast elim: tail_run_split)
  with True show thesis by (intro that) (auto simp: carried_def)
qed (rule that [of cs], auto simp: carried_def ends_run_def)

lemma carried_replicate: "ends_run ys (Some e) \<Longrightarrow> carried (ys @ replicate n (Some e)) e = n"
  using tail_run_replicate [of ys "Some e" n] by (cases n) (auto simp: carried_def ends_run_def)

lemma carried_other: "0 < carried cs e \<Longrightarrow> c \<noteq> e \<Longrightarrow> carried cs c = 0"
  by (auto simp: carried_def split: if_splits)

lemma open_event_carried: "open_event cs \<longleftrightarrow> (\<exists>e. 0 < carried cs e \<and> labelled e (int (carried cs e)))"
  using tail_run_split [of cs] by (auto simp: open_event_def carried_def split: option.splits if_splits)

lemma event_branch_run:
  assumes cmp: "\<forall>x\<in>set xs. comparable m x"
    and run: "\<And>i. i < k \<Longrightarrow> class_of m (xs ! (jj + i)) = Some e"
    and stop: "jj + k < length xs \<Longrightarrow> class_of m (xs ! (jj + k)) \<noteq> Some e"
    and k: "0 < k" "jj + k \<le> length xs"
    and c: "V_count p e = int c" "int (c + k) \<le> over_limit"
    and time: "window_time kk (jj + k) = Some (int t)"
    and E: "logged (E @ run_event e u c) p"
    and mrg: "0 < c \<Longrightarrow> jj = 0 \<and> V_last_sample p e \<and> V_tmp p e = int c"
    and no: "c = 0 \<Longrightarrow> 0 < jj \<or> \<not> V_last_sample p e" "0 \<le> V_tmp p e"
  shows "\<exists>p'. event_branch m kk e xs jj p = Ok (jj + k, p') \<and> logged (E @ run_event e t (c + k)) p' \<and>
    V_report p' = V_report p + (if labelled e (int (c + k)) then 1 else 0) \<and>
    V_last_rep p' = V_last_rep p \<and> V_last_val p' = V_last_val p \<and>
    (if jj + k = length xs
     then V_last_sample p' = (\<lambda>d. d = e) \<and> V_tmp p' = (V_tmp p)(e := int (c + k)) \<and> V_count p' = (V_count p)(e := int (c + k))
     else V_last_sample p' = V_last_sample p \<and> V_tmp p' = V_tmp p \<and> V_count p' = (V_count p)(e := 0))"
proof -
  have w: "while_in (in_class m e) xs jj (V_count p e) = (jj + k, int c + int k)"
    unfolding c(1)
  proof (rule while_in_run)
    show "in_class m e (xs ! (jj + i))" if "i < k" for i
      using run [OF that] cmp that k(2) by (auto simp: in_class_iff nth_mem)
    show "\<not> in_class m e (xs ! (jj + k))" if "jj + k < length xs"
      using stop [OF that] cmp that by (auto simp: in_class_iff nth_mem)
  qed (use k c(2) in auto)
  let ?p1 = "p\<lparr>V_count := (V_count p)(e := int c + int k)\<rparr>"
  let ?mrg = "int (jj + k) - (int c + int k) + V_tmp ?p1 e = 0 \<and> V_last_sample ?p1 e \<and> labelled e (V_tmp ?p1 e)"
  have mrg_iff: "?mrg \<longleftrightarrow> 0 < c \<and> labelled e (int c)"
    using mrg no by (cases "c = 0") auto
  show ?thesis
  proof (cases "labelled e (int c + int k)")
    case True
    have pop: "(if ?mrg then pop_event ?p1 else Ok ?p1) = Ok (?p1\<lparr>V_an := map fst E, V_ts := map (fst \<circ> snd) E, V_te := map (snd \<circ> snd) E\<rparr>)"
    proof (cases "0 < c \<and> labelled e (int c)")
      case True
      then have yes: ?mrg using mrg_iff by blast
      show ?thesis unfolding if_P [OF yes] using E True by (simp add: pop_event_def logged_def run_event_def)
    next
      case False
      then have no: "\<not> ?mrg" using mrg_iff by blast
      have "E @ run_event e u c = E" using False by (simp add: run_event_def)
      then show ?thesis unfolding if_not_P [OF no] using E by (simp add: logged_def)
    qed
    show ?thesis
      using c(2) time True k(1) unfolding event_branch_def w Let_def prod.case pop
      by (simp add: push_event_def logged_def run_event_def) 
  next
    case False
    then have "\<not> labelled e (int c)" using labelled_mono [of e "int c" "int c + int k"] by auto
    then show ?thesis
      using c(2) time False k(1) E unfolding event_branch_def w Let_def prod.case
      by (simp add: push_event_def logged_def run_event_def)
  qed
qed

text \<open>The invariant of the loop at index \<open>jj\<close> of a window with classes \<open>ws\<close> after a stream \<open>cs\<close>.\<close>

definition kept_events :: "ev_class option list \<Rightarrow> ev_class option list \<Rightarrow> (string \<times> int \<times> int) list" where
  "kept_events cs ws = (if open_event cs \<and> last cs = hd ws then butlast (stream_events cs) else stream_events cs)"

definition last_known :: "ev_class option list \<Rightarrow> phase_analysis \<Rightarrow> bool" where
  "last_known cs p \<longleftrightarrow> (\<forall>e. 0 < carried cs e \<longrightarrow> V_last_sample p = (\<lambda>d. d = e) \<and> V_tmp p e = int (carried cs e))"

definition loop_inv :: "ev_class option list \<Rightarrow> ev_class option list \<Rightarrow> nat \<Rightarrow> phase_analysis \<Rightarrow> bool" where
  "loop_inv cs ws jj p \<longleftrightarrow> jj \<le> length ws \<and>
     logged (stream_events (cs @ take jj ws)) p \<and> (\<forall>e. 0 \<le> V_tmp p e) \<and>
     (\<forall>e. V_count p e = (if jj < length ws \<and> ws ! jj \<noteq> Some e then 0 else int (carried (cs @ take jj ws) e))) \<and>
     (jj = 0 \<longrightarrow> last_known cs p \<and> V_report p = 0 \<and> (\<forall>e. V_last_sample p e \<longrightarrow> 0 < carried cs e)) \<and>
     (0 < jj \<longrightarrow> (jj < length ws \<longrightarrow> ws ! jj = None \<or> last (cs @ take jj ws) \<noteq> ws ! jj) \<and>
        (open_event (cs @ take jj ws) \<longrightarrow> 0 < V_report p) \<and>
        (\<exists>new. stream_events (cs @ take jj ws) = kept_events cs ws @ new \<and> V_report p = int (length new))) \<and>
     (jj = length ws \<longrightarrow> 0 < jj \<longrightarrow> last_known (cs @ ws) p)"

lemma loop_inv_None:
  assumes inv: "loop_inv cs ws jj p" and jj: "jj < length ws" "ws ! jj = None"
  shows "loop_inv cs ws (jj + 1) p"
proof -
  have t: "cs @ take (jj + 1) ws = (cs @ take jj ws) @ [None]" using jj by (simp add: take_Suc_conv_app_nth)
  have c0: "carried (cs @ take (jj + 1) ws) e = 0" for e unfolding t by (simp add: carried_def)
  have o0: "\<not> open_event (cs @ take (jj + 1) ws)" unfolding t by (simp add: open_event_def)
  have ev: "stream_events (cs @ take (jj + 1) ws) = stream_events (cs @ take jj ws)"
    unfolding t by (rule stream_events_None1)
  have cnt: "V_count p e = 0" for e using inv jj by (simp add: loop_inv_def)
  have new: "\<exists>new. stream_events (cs @ take (jj + 1) ws) = kept_events cs ws @ new \<and> V_report p = int (length new)"
  proof (cases "jj = 0")
    case True
    then have "hd ws = None" using jj by (cases ws) auto
    then have k: "kept_events cs ws = stream_events cs" by (auto simp: kept_events_def open_event_def)
    have "stream_events (cs @ take (jj + 1) ws) = stream_events cs" unfolding ev using True by simp
    moreover have "V_report p = 0" using inv True by (simp add: loop_inv_def)
    ultimately show ?thesis unfolding k by simp
  next
    case False
    then show ?thesis unfolding ev using inv by (simp add: loop_inv_def)
  qed
  have lk: "last_known (cs @ ws) p" if "jj + 1 = length ws"
    using c0 that by (simp add: last_known_def)
  have last: "last (cs @ take (jj + 1) ws) = None" unfolding t by simp
  show ?thesis
    unfolding loop_inv_def
  proof (intro conjI allI impI)
    show "logged (stream_events (cs @ take (jj + 1) ws)) p" unfolding ev using inv by (simp add: loop_inv_def)
    show "0 \<le> V_tmp p e" for e using inv by (simp add: loop_inv_def)
    show "V_count p e = (if jj + 1 < length ws \<and> ws ! (jj + 1) \<noteq> Some e then 0 else int (carried (cs @ take (jj + 1) ws) e))" for e
      unfolding c0 cnt by simp
    show "ws ! (jj + 1) = None \<or> last (cs @ take (jj + 1) ws) \<noteq> ws ! (jj + 1)"
      unfolding last by auto
  qed (use jj(1) lk new o0 in auto)
qed

lemma run_length:
  assumes "jj < length ws" "ws ! jj = c"
  obtains k where "0 < k" "jj + k \<le> length ws" "take k (drop jj ws) = replicate k c"
    "\<And>i. i < k \<Longrightarrow> ws ! (jj + i) = c" "jj + k < length ws \<Longrightarrow> ws ! (jj + k) \<noteq> c"
proof -
  let ?d = "drop jj ws" and ?P = "\<lambda>x. x = c"
  let ?k = "length (takeWhile ?P ?d)"
  have tw: "takeWhile ?P ?d = take ?k ?d" by (rule takeWhile_eq_take)
  have "?d = c # drop (Suc jj) ws" using assms by (metis Cons_nth_drop_Suc)
  then have "takeWhile ?P ?d = c # takeWhile ?P (drop (Suc jj) ws)" by simp
  then have k0: "0 < ?k" by (metis length_greater_0_conv list.distinct(1))
  have kl: "jj + ?k \<le> length ws" using length_takeWhile_le [of ?P ?d] assms(1) by simp
  have in_run: "ws ! (jj + i) = c" if "i < ?k" for i
    using nth_mem [OF that] set_takeWhileD [of "takeWhile ?P ?d ! i" ?P ?d] takeWhile_nth [OF that] kl that by simp
  have stop: "ws ! (jj + ?k) \<noteq> c" if "jj + ?k < length ws"
    using nth_length_takeWhile [of ?P ?d] that kl by simp
  have "take ?k ?d = replicate ?k c"
    using in_run kl by (intro nth_equalityI) auto
  with k0 kl in_run stop show thesis by (intro that) auto
qed

lemma loop_inv_branch:
  assumes inv: "loop_inv cs ws jj p" and jj: "jj < length ws" "ws ! jj = Some e"
    and ws: "ws = map (class_of m) xs" and cmp: "\<forall>x\<in>set xs. comparable m x"
    and short: "short_runs (cs @ ws)"
    and time: "\<And>j. j \<le> length xs \<Longrightarrow> window_time kk j = Some (int (length cs + j))"
  shows "\<exists>jj' p'. event_branch m kk e xs jj p = Ok (jj', p') \<and> jj < jj' \<and> loop_inv cs ws jj' p' \<and>
    V_last_rep p' = V_last_rep p \<and> V_last_val p' = V_last_val p"
proof -
  obtain k where k: "0 < k" "jj + k \<le> length ws" "take k (drop jj ws) = replicate k (Some e)"
    "\<And>i. i < k \<Longrightarrow> ws ! (jj + i) = Some e" "jj + k < length ws \<Longrightarrow> ws ! (jj + k) \<noteq> Some e"
    using run_length [OF jj] by blast
  let ?cs = "cs @ take jj ws" and ?cs' = "cs @ take (jj + k) ws"
  let ?c = "carried ?cs e"
  obtain ys where ys: "?cs = ys @ replicate ?c (Some e)" "ends_run ys (Some e)" by (rule carried_split)
  have "?cs' = ?cs @ take k (drop jj ws)" by (simp add: take_add)
  also have "\<dots> = ys @ replicate (?c + k) (Some e)"
    unfolding k(3) by (subst ys(1)) (simp add: replicate_add)
  finally have cs': "?cs' = ys @ replicate (?c + k) (Some e)" .
  have "cs @ ws = ?cs' @ drop (jj + k) ws" by simp
  then have "cs @ ws = ys @ replicate (?c + k) (Some e) @ drop (jj + k) ws" unfolding cs' by simp
  then have le: "int (?c + k) \<le> over_limit" using short unfolding short_runs_def by blast
  have ev: "stream_events ?cs = stream_events ys @ run_event e (length ys + ?c) ?c"
    by (subst ys(1)) (rule stream_events_run [OF ys(2)])
  have ev': "stream_events ?cs' = stream_events ys @ run_event e (length ys + (?c + k)) (?c + k)"
    unfolding cs' by (rule stream_events_run [OF ys(2)])
  have len: "length ys + (?c + k) = length cs + (jj + k)"
    using arg_cong [OF cs', of length] k(2) by simp
  have c0: "0 < jj \<Longrightarrow> ?c = 0"
    using inv jj by (auto simp: loop_inv_def carried_def)
  have carried': "carried ?cs' d = (if d = e then ?c + k else 0)" for d
    using carried_replicate [OF ys(2), of "?c + k"] k(1) carried_other [of ?cs' e d] by (simp add: cs')
  have cnt: "V_count p d = (if d = e then int ?c else 0)" for d using inv jj by (simp add: loop_inv_def)
  have at0: "last_known cs p" "V_report p = 0" "V_last_sample p d \<Longrightarrow> 0 < carried cs d" if "jj = 0" for d
    using inv that by (simp_all add: loop_inv_def)
  have tmp: "0 \<le> V_tmp p d" for d using inv by (simp add: loop_inv_def)
  let ?t = "length cs + (jj + k)"
  have lw: "length xs = length ws" by (simp add: ws)
  have ev'': "stream_events ?cs' = stream_events ys @ run_event e ?t (?c + k)" unfolding ev' len ..
  have "\<exists>p'. event_branch m kk e xs jj p = Ok (jj + k, p') \<and> logged (stream_events ys @ run_event e ?t (?c + k)) p' \<and>
    V_report p' = V_report p + (if labelled e (int (?c + k)) then 1 else 0) \<and>
    V_last_rep p' = V_last_rep p \<and> V_last_val p' = V_last_val p \<and>
    (if jj + k = length ws
     then V_last_sample p' = (\<lambda>d. d = e) \<and> V_tmp p' = (V_tmp p)(e := int (?c + k)) \<and> V_count p' = (V_count p)(e := int (?c + k))
     else V_last_sample p' = V_last_sample p \<and> V_tmp p' = V_tmp p \<and> V_count p' = (V_count p)(e := 0))"
  unfolding lw [symmetric]
  proof (rule event_branch_run [OF cmp])
    show "class_of m (xs ! (jj + i)) = Some e" if "i < k" for i using k(2,4) that ws by auto
    show "class_of m (xs ! (jj + k)) \<noteq> Some e" if "jj + k < length xs" using k(5) that ws by auto
    show "window_time kk (jj + k) = Some (int ?t)" using time k(2) ws by simp
    show "logged (stream_events ys @ run_event e (length ys + ?c) ?c) p"
      using inv unfolding ev [symmetric] by (simp add: loop_inv_def)
    show "jj = 0 \<and> V_last_sample p e \<and> V_tmp p e = int ?c" if "0 < ?c"
      using c0 that at0(1) by (cases "jj = 0") (auto simp: last_known_def)
    show "0 < jj \<or> \<not> V_last_sample p e" if "?c = 0" using that at0(3) [of e] by (cases "jj = 0") auto
  qed (use k(1,2) ws cnt le tmp in auto)
  then obtain p' where eb: "event_branch m kk e xs jj p = Ok (jj + k, p')"
    and lg: "logged (stream_events ?cs') p'"
    and rep: "V_report p' = V_report p + (if labelled e (int (?c + k)) then 1 else 0)"
    and same: "V_last_rep p' = V_last_rep p" "V_last_val p' = V_last_val p"
    and fin: "if jj + k = length ws
     then V_last_sample p' = (\<lambda>d. d = e) \<and> V_tmp p' = (V_tmp p)(e := int (?c + k)) \<and> V_count p' = (V_count p)(e := int (?c + k))
     else V_last_sample p' = V_last_sample p \<and> V_tmp p' = V_tmp p \<and> V_count p' = (V_count p)(e := 0)"
    unfolding ev'' [symmetric] by (elim exE conjE) (rule that)
  have rep0: "0 \<le> V_report p" using inv by (cases "jj = 0") (auto simp: loop_inv_def)
  have new: "\<exists>new. stream_events ?cs' = kept_events cs ws @ new \<and> V_report p' = int (length new)"
  proof (cases "jj = 0")
    case True
    have hd: "hd ws = Some e" using jj True by (cases ws) auto
    have cs: "?cs = cs" using True by simp
    have "kept_events cs ws = stream_events ys"
    proof (cases "0 < carried cs e \<and> labelled e (int (carried cs e))")
      case True
      then have "open_event cs \<and> last cs = hd ws" using hd by (auto simp: open_event_carried carried_def split: if_splits)
      moreover have "stream_events cs = stream_events ys @ run_event e (length ys + carried cs e) (carried cs e)"
        using ev cs by simp
      ultimately show ?thesis using True by (simp add: kept_events_def run_event_def)
    next
      case False
      then have "\<not> (open_event cs \<and> last cs = hd ws)" using hd by (auto simp: open_event_carried carried_def split: if_splits)
      moreover have "stream_events cs = stream_events ys" using ev cs False by (simp add: run_event_def)
      ultimately show ?thesis by (auto simp: kept_events_def)
    qed
    then show ?thesis using rep at0(2) [OF True] k(1) unfolding ev'' by (simp add: run_event_def)
  next
    case False
    with inv obtain new where "stream_events ?cs = kept_events cs ws @ new" "V_report p = int (length new)"
      by (auto simp: loop_inv_def)
    then show ?thesis using rep c0 False k(1) ev unfolding ev'' by (auto simp: run_event_def)
  qed
  have op: "0 < V_report p'" if "open_event ?cs'"
    using that rep rep0 by (auto simp: open_event_carried carried' split: if_splits)
  have last: "last ?cs' = Some e" unfolding cs' using k(1) by simp
  have "loop_inv cs ws (jj + k) p'"
    unfolding loop_inv_def
  proof (intro conjI allI impI)
    show "0 \<le> V_tmp p' d" for d using fin tmp by (auto split: if_splits)
    show "V_count p' d = (if jj + k < length ws \<and> ws ! (jj + k) \<noteq> Some d then 0 else int (carried ?cs' d))" for d
      using fin cnt k(2,5) by (auto simp: carried' split: if_splits)
    show "ws ! (jj + k) = None \<or> last ?cs' \<noteq> ws ! (jj + k)" if "jj + k < length ws"
      using k(5) [OF that] by (auto simp: last)
    show "last_known (cs @ ws) p'" if "jj + k = length ws"
    proof -
      have "cs @ ws = ?cs'" using that by simp
      then show ?thesis using fin carried' that unfolding last_known_def by (auto split: if_splits)
    qed
  qed (use k lg new op in auto)
  with eb same k(1) show ?thesis by (intro exI [of _ "jj + k"] exI [of _ p']) simp
qed

lemma phase_loop_inv:
  assumes ws: "ws = map (class_of m) xs" and cmp: "\<forall>x\<in>set xs. comparable m x"
    and short: "short_runs (cs @ ws)"
    and time: "\<And>j. j \<le> length xs \<Longrightarrow> window_time kk j = Some (int (length cs + j))"
  shows "loop_inv cs ws jj p \<Longrightarrow> \<exists>p'. phase_loop m kk xs jj p = Ok p' \<and> loop_inv cs ws (length ws) p' \<and>
    V_last_rep p' = V_last_rep p \<and> V_last_val p' = V_last_val p"
proof (induction "length ws - jj" arbitrary: jj p rule: less_induct)
  case less
  have lw: "length xs = length ws" by (simp add: ws)
  show ?case
  proof (cases "jj < length ws")
    case False
    then have "jj = length ws" using less.prems by (simp add: loop_inv_def)
    then show ?thesis using less.prems lw by (subst phase_loop.simps) simp
  next
    case True
    show ?thesis
    proof (cases "ws ! jj")
      case None
      have "length ws - (jj + 1) < length ws - jj" using True by simp
      from less.hyps [OF this loop_inv_None [OF less.prems True None]]
      obtain p' where p': "phase_loop m kk xs (jj + 1) p = Ok p'" "loop_inv cs ws (length ws) p'"
        "V_last_rep p' = V_last_rep p" "V_last_val p' = V_last_val p" by blast
      have "class_of m (xs ! jj) = None" using None True ws by simp
      then have "phase_loop m kk xs jj p = Ok p'" using True lw p'(1) by (subst phase_loop.simps) simp
      with p' show ?thesis by blast
    next
      case (Some e)
      obtain jj' p1 where b: "event_branch m kk e xs jj p = Ok (jj', p1)" "jj < jj'" "loop_inv cs ws jj' p1"
        "V_last_rep p1 = V_last_rep p" "V_last_val p1 = V_last_val p"
        using loop_inv_branch [OF less.prems True Some ws cmp short time] by blast
      have "length ws - jj' < length ws - jj" using b(2) True by simp
      from less.hyps [OF this b(3)]
      obtain p' where p': "phase_loop m kk xs jj' p1 = Ok p'" "loop_inv cs ws (length ws) p'"
        "V_last_rep p' = V_last_rep p1" "V_last_val p' = V_last_val p1" by blast
      have "class_of m (xs ! jj) = Some e" using Some True ws by simp
      then have "phase_loop m kk xs jj p = Ok p'" using True lw p'(1) b(1) by (subst phase_loop.simps) simp
      with p' b(4,5) show ?thesis by auto
    qed
  qed
qed

text \<open>The state of a phase between two windows.\<close>

definition phase_inv :: "fp_ops \<Rightarrow> ev_class option list \<Rightarrow> phase_analysis \<Rightarrow> bool" where
  "phase_inv m cs p \<longleftrightarrow> logged (stream_events cs) p \<and> (\<forall>e. 0 \<le> V_tmp p e) \<and>
     (\<forall>e. V_count p e = int (carried cs e)) \<and> last_known cs p \<and> (\<forall>e. V_last_sample p e \<longrightarrow> 0 < carried cs e) \<and>
     (V_last_rep p \<longleftrightarrow> open_event cs) \<and>
     (cs \<noteq> [] \<longrightarrow> comparable m (V_last_val p) \<and> last cs = class_of m (V_last_val p))"

lemma class_cases:
  assumes "comparable m x"
  shows "d_le m d_01 x \<and> d_le m x d_09 \<longleftrightarrow> class_of m x = Some Sag" "d_less m x d_01 \<longleftrightarrow> class_of m x = Some Interruption"
    "d_le m d_11 x \<longleftrightarrow> class_of m x = Some Swell" "d_less m d_09 x \<and> d_less m x d_11 \<longleftrightarrow> class_of m x = None"
    "d_le m d_01 x \<longleftrightarrow> class_of m x \<noteq> Some Interruption" "d_less m x d_11 \<longleftrightarrow> class_of m x \<noteq> Some Swell"
    "d_less m d_09 x \<longleftrightarrow> class_of m x \<noteq> Some Sag \<and> class_of m x \<noteq> Some Interruption"
  using assms by (auto simp: comparable_def class_of_def)

lemma start_phase_inv:
  assumes "phase_inv m cs p" "ws = map (class_of m) xs" "xs \<noteq> []" "\<forall>x\<in>set xs. comparable m x"
  shows "loop_inv cs ws 0 (start_phase m (xs ! 0) p)"
proof -
  have c: "comparable m (xs ! 0)" using assms(3,4) by simp
  have w: "ws ! 0 = class_of m (xs ! 0)" "ws \<noteq> []" using assms(2,3) by simp_all
  have count: "V_count (start_phase m (xs ! 0) p) e = (if ws ! 0 \<noteq> Some e then 0 else int (carried cs e))" for e
    using assms(1) class_cases [OF c] by (cases e) (auto simp: start_phase_def phase_inv_def w)
  show ?thesis unfolding loop_inv_def using assms(1) count w(2)
    by (auto simp: phase_inv_def start_phase_def last_known_def logged_def)
qed

text \<open>What the analysis of one window leaves for the report.\<close>

definition window_done ::
  "fp_ops \<Rightarrow> ev_class option list \<Rightarrow> ev_class option list \<Rightarrow> f64 \<Rightarrow> phase_analysis \<Rightarrow> phase_analysis \<Rightarrow> bool" where
  "window_done m cs ws x p p' \<longleftrightarrow> phase_inv m (cs @ ws) (p'\<lparr>V_last_rep := ongoing p', V_last_val := x\<rparr>) \<and>
    (ongoing p' \<longleftrightarrow> open_event (cs @ ws)) \<and> V_last_rep p' = V_last_rep p \<and> V_last_val p' = V_last_val p \<and>
    (open_event (cs @ ws) \<longrightarrow> 0 < V_report p') \<and>
    (\<exists>new. stream_events (cs @ ws) = kept_events cs ws @ new \<and> V_report p' = int (length new))"

lemma analyse_phase_inv:
  assumes inv: "phase_inv m cs p" and xs: "length xs = 120" "\<forall>x\<in>set xs. comparable m x"
    and ws: "ws = map (class_of m) xs" and short: "short_runs (cs @ ws)"
    and time: "\<And>j. j \<le> length xs \<Longrightarrow> window_time kk j = Some (int (length cs + j))"
  shows "\<exists>p'. analyse_phase m kk xs p = Ok p' \<and> window_done m cs ws (xs ! 119) p p'"
proof -
  have "xs \<noteq> []" using xs(1) by auto
  from phase_loop_inv [OF ws xs(2) short time start_phase_inv [OF inv ws this xs(2)]]
  obtain q where q: "phase_loop m kk xs 0 (start_phase m (xs ! 0) p) = Ok q" "loop_inv cs ws (length ws) q"
    "V_last_rep q = V_last_rep p" "V_last_val q = V_last_val p" by (auto simp: start_phase_def)
  let ?x = "xs ! 119"
  have c: "comparable m ?x" using xs by simp
  have lw: "length ws = 120" "ws \<noteq> []" using ws xs(1) by auto
  have "last xs = ?x" using xs(1) \<open>xs \<noteq> []\<close> by (simp add: last_conv_nth)
  then have last: "last (cs @ ws) = class_of m ?x" using ws \<open>xs \<noteq> []\<close> by (simp add: last_map)
  let ?q = "if d_less m d_09 ?x \<and> d_less m ?x d_11 then q\<lparr>V_last_sample := (\<lambda>_. False)\<rparr> else q"
  have a: "analyse_phase m kk xs p = Ok ?q" by (simp add: analyse_phase_def q(1) window_size_def Let_def)
  have lk: "last_known (cs @ ws) q" using q(2) lw by (simp add: loop_inv_def)
  have none: "d_less m d_09 ?x \<and> d_less m ?x d_11 \<longleftrightarrow> last (cs @ ws) = None"
    using class_cases(4) [OF c] last by simp
  have tmp: "V_tmp ?q = V_tmp q" and count: "V_count ?q = V_count q" by simp_all
  have smp: "V_last_sample ?q e \<longleftrightarrow> 0 < carried (cs @ ws) e" for e
  proof (cases "last (cs @ ws)")
    case None
    then have "carried (cs @ ws) e = 0" by (simp add: carried_def)
    moreover have "V_last_sample ?q e = False" using none None by simp
    ultimately show ?thesis by simp
  next
    case (Some c)
    then have pos: "0 < carried (cs @ ws) c" using tail_run_split [of "cs @ ws"] lw(2) by (auto simp: carried_def)
    then have "V_last_sample q = (\<lambda>d. d = c)" using lk by (simp add: last_known_def)
    then show ?thesis using none Some pos carried_other [OF pos, of e] by (cases "e = c") simp_all
  qed
  have tmp_run: "V_tmp q e = int (carried (cs @ ws) e)" if "0 < carried (cs @ ws) e" for e
    using lk that by (simp add: last_known_def)
  have on: "ongoing ?q \<longleftrightarrow> open_event (cs @ ws)"
    unfolding ongoing_def open_event_carried smp tmp using tmp_run
    by (auto simp: labelled_def ex_class)
  have lk': "last_known (cs @ ws) ?q"
    using lk smp tmp_run carried_other unfolding last_known_def tmp by fastforce
  have "phase_inv m (cs @ ws) (?q\<lparr>V_last_rep := ongoing ?q, V_last_val := ?x\<rparr>)"
    unfolding phase_inv_def using q(2) lw lk' smp on c last
    by (simp add: loop_inv_def logged_def last_known_def)
  moreover have "V_report ?q = V_report q" "V_last_rep ?q = V_last_rep q" "V_last_val ?q = V_last_val q" by simp_all
  ultimately show ?thesis using a on q lw by (intro exI [of _ ?q]) (simp add: loop_inv_def window_done_def)
qed

subsection \<open>What a window reports\<close>

definition new_reports :: "ev_class option list \<Rightarrow> ev_class option list \<Rightarrow> (string \<times> int \<times> int) list" where
  "new_reports cs ws = drop (length (ended_events cs)) (ended_events (cs @ ws))"

lemma at_each_take: "0 \<le> i \<Longrightarrow> i + int n \<le> int (length xs) \<Longrightarrow> at_each xs i n = Ok (take n (drop (nat i) xs))"
proof (induction n arbitrary: i)
  case (Suc n)
  have "drop (nat i) xs = xs ! nat i # drop (nat (i + 1)) xs"
    using Suc.prems by (subst Cons_nth_drop_Suc [symmetric]) (auto simp: nat_add_distrib)
  moreover have "at_each xs (i + 1) n = Ok (take n (drop (nat (i + 1)) xs))" using Suc.prems by (intro Suc.IH) auto
  ultimately show ?case using Suc.prems by simp
qed simp

lemma open_event_nonempty: "open_event cs \<Longrightarrow> stream_events cs \<noteq> []"
proof -
  assume "open_event cs"
  then obtain e where e: "0 < carried cs e" "labelled e (int (carried cs e))" by (auto simp: open_event_carried)
  obtain ys where ys: "cs = ys @ replicate (carried cs e) (Some e)" "ends_run ys (Some e)" by (rule carried_split)
  have "stream_events cs = stream_events ys @ run_event e (length ys + carried cs e) (carried cs e)"
    by (subst ys(1)) (rule stream_events_run [OF ys(2)])
  then show ?thesis using e by (simp add: run_event_def)
qed

lemma window_reports:
  assumes E: "stream_events (cs @ ws) = kept_events cs ws @ new" and r: "V_report p = int (length new)"
    and op: "ongoing p \<longleftrightarrow> open_event (cs @ ws)" and pos: "open_event (cs @ ws) \<Longrightarrow> 0 < V_report p"
    and before: "ended_before m x p \<longleftrightarrow> open_event cs \<and> last cs \<noteq> hd ws"
  shows "ended_events (cs @ ws) = ended_events cs @ new_reports cs ws"
    and "report_slice m x p (map f (stream_events (cs @ ws))) = Ok (map f (new_reports cs ws))"
proof -
  let ?E = "stream_events (cs @ ws)" and ?old = "stream_events cs"
  define R where "R = (if ended_before m x p then [last ?old] else []) @ (if open_event (cs @ ws) then butlast new else new)"
  have new: "new \<noteq> []" if "open_event (cs @ ws)" using pos [OF that] r by auto
  have E0: "?old = butlast ?old @ [last ?old]" if "open_event cs" using open_event_nonempty [OF that] by simp
  have kept: "kept_events cs ws = ended_events cs @ (if ended_before m x p then [last ?old] else [])"
    using E0 before by (auto simp: kept_events_def ended_events_def)
  have all: "ended_events (cs @ ws) = ended_events cs @ R"
    using new unfolding ended_events_def [of "cs @ ws"] E kept R_def by (auto simp: butlast_append)
  then have R: "new_reports cs ws = R" by (simp add: new_reports_def)
  with all show "ended_events (cs @ ws) = ended_events cs @ new_reports cs ws" by simp
  have len: "length ?E = length (ended_events cs) + (if ended_before m x p then 1 else 0) + length new"
    unfolding E kept by simp
  have tk: "take (length R) (drop (length (ended_events cs)) ?E) = R"
    using new unfolding E kept R_def by (auto simp: take_append butlast_conv_take)
  have "report_slice m x p (map f ?E) = at_each (map f ?E) (int (length (ended_events cs))) (length R)"
  proof -
    have "nat (int (length new) + 1) = Suc (length new)" "nat (int (length new) - 1) = length new - 1" by simp_all
    then show ?thesis using new len by (auto simp: report_slice_def Let_def r op R_def simp del: at_each.simps)
  qed
  also have "\<dots> = Ok (take (length R) (drop (length (ended_events cs)) (map f ?E)))"
    using len new by (subst at_each_take) (auto simp: R_def)
  also have "take (length R) (drop (length (ended_events cs)) (map f ?E)) = map f R"
    unfolding drop_map take_map tk ..
  finally show "report_slice m x p (map f ?E) = Ok (map f (new_reports cs ws))" unfolding R .
qed

lemma ended_before_iff:
  assumes "V_last_rep p \<longleftrightarrow> open_event cs" "comparable m x" "class_of m x = hd ws"
    and "cs \<noteq> [] \<longrightarrow> comparable m (V_last_val p) \<and> last cs = class_of m (V_last_val p)"
  shows "ended_before m x p \<longleftrightarrow> open_event cs \<and> last cs \<noteq> hd ws"
proof (cases "open_event cs")
  case True
  then have v: "comparable m (V_last_val p)" "last cs = class_of m (V_last_val p)" "last cs \<noteq> None"
    using assms(4) by (auto simp: open_event_def split: option.splits)
  note v' = class_cases [OF v(1)] and x' = class_cases [OF assms(2)]
  obtain e where "class_of m (V_last_val p) = Some e" using v(2,3) by auto
  then show ?thesis unfolding ended_before_def Let_def
    using True assms(1,3) v' x' v(2) by (cases e) auto
qed (use assms(1) in \<open>simp add: ended_before_def\<close>)

subsection \<open>All phases, all seconds\<close>

definition report_events :: "nat \<Rightarrow> voltage_report list \<Rightarrow> (string \<times> int \<times> int) list" where
  "report_events i rs = map (\<lambda>r. (vr_description r, vr_start r, vr_end r)) (filter (\<lambda>r. vr_phase r = i) rs)"

lemma report_events_append: "report_events i (rs @ rs') = report_events i rs @ report_events i rs'"
  by (simp add: report_events_def)

lemma run_all_Ok: "length rs = length xs \<Longrightarrow> (\<And>i. i < length xs \<Longrightarrow> rs ! i = Ok (xs ! i)) \<Longrightarrow> run_all rs = Ok xs"
proof (induction xs arbitrary: rs)
  case (Cons x xs)
  then obtain r rs' where rs: "rs = r # rs'" by (cases rs) auto
  have "run_all rs' = Ok xs" using Cons.prems(1) Cons.prems(2) [of "Suc _"] by (intro Cons.IH) (auto simp: rs)
  then show ?case using Cons.prems(2) [of 0] by (simp add: rs)
qed simp

lemma zip_columns:
  "zip (map f xs) (zip (map g xs) (map h xs)) = map (\<lambda>x. (f x, g x, h x)) xs"
  by (induction xs) simp_all

lemma map2_columns: "map2 (\<lambda>s (e, d). F s e d) (map f xs) (zip (map g xs) (map h xs)) = map (\<lambda>x. F (f x) (g x) (h x)) xs"
  by (induction xs) simp_all

lemma report_events_rows:
  "report_events i (concat (map2 (\<lambda>ph E. map (\<lambda>(d, s, e). makereport ph s e 10 d) E) [a..<a + length N] N)) =
   (if a \<le> i \<and> i < a + length N then N ! (i - a) else [])"
proof (induction N arbitrary: a)
  case (Cons E N)
  have "report_events i (map (\<lambda>(d, s, e). makereport a s e 10 d) E) = (if i = a then E else [])"
    by (induction E) (auto simp: report_events_def makereport_def)
  moreover have "[a..<a + length (E # N)] = a # [Suc a..<Suc a + length N]" by (simp add: upt_conv_Cons del: upt_Suc)
  ultimately show ?case using Cons [of "Suc a"]
    by (auto simp: report_events_append nth_Cons' simp del: upt_Suc)
qed (auto simp: report_events_def)

lemma VoltageLimitMain_inv:
  assumes n: "length ps = n" "length w = n" "length css = n" "0 < n"
    and inv: "\<And>i. i < n \<Longrightarrow> phase_inv m (css ! i) (ps ! i)"
    and w: "\<And>i. i < n \<Longrightarrow> length (w ! i) = 120 \<and> (\<forall>x\<in>set (w ! i). comparable m x)"
    and short: "\<And>i. i < n \<Longrightarrow> short_runs (css ! i @ map (class_of m) (w ! i))"
    and len: "\<And>i. i < n \<Longrightarrow> length (css ! i) = L"
    and time: "\<And>j. j \<le> 120 \<Longrightarrow> window_time kk j = Some (int (L + j))"
  shows "\<exists>ps' rs. VoltageLimitMain m kk w ps = Ok (ps', rs) \<and> length ps' = n \<and>
    (\<forall>i<n. phase_inv m (css ! i @ map (class_of m) (w ! i)) (ps' ! i) \<and>
       ended_events (css ! i @ map (class_of m) (w ! i)) = ended_events (css ! i) @ report_events i rs)"
proof -
  let ?ws = "\<lambda>i. map (class_of m) (w ! i)"
  have "\<exists>p'. analyse_phase m kk (w ! i) (ps ! i) = Ok p' \<and> window_done m (css ! i) (?ws i) (w ! i ! 119) (ps ! i) p'"
    if "i < n" for i
    using inv [OF that] w [OF that] short [OF that] time len [OF that] by (intro analyse_phase_inv) auto
  then obtain q where q: "\<And>i. i < n \<Longrightarrow> analyse_phase m kk (w ! i) (ps ! i) = Ok (q i)"
    and q_done: "\<And>i. i < n \<Longrightarrow> window_done m (css ! i) (?ws i) (w ! i ! 119) (ps ! i) (q i)"
    by metis
  let ?qs = "map q [0..<n]"
  let ?N = "map (\<lambda>i. new_reports (css ! i) (?ws i)) [0..<n]"
  have w0: "length (w ! 0) = 120" using w n(4) by blast
  have lens: "\<not> list_ex (\<lambda>xs. length xs < 120) w" using w n(2) by (simp add: list_ex_length)
  have ana: "run_all (map2 (\<lambda>xs p. analyse_phase m kk (take 120 xs) p) w ps) = Ok ?qs"
    using n q w by (intro run_all_Ok) auto
  have before: "ended_before m (w ! i ! 0) (q i) \<longleftrightarrow> open_event (css ! i) \<and> last (css ! i) \<noteq> hd (?ws i)" if "i < n" for i
  proof (rule ended_before_iff)
    have "w ! i \<noteq> []" using w [OF that] by auto
    then show "comparable m (w ! i ! 0)" "class_of m (w ! i ! 0) = hd (?ws i)" using w [OF that] by (auto simp: hd_map hd_conv_nth)
  qed (use inv [OF that] q_done [OF that] in \<open>auto simp: phase_inv_def window_done_def\<close>)
  have rep: "ended_events (css ! i @ ?ws i) = ended_events (css ! i) @ new_reports (css ! i) (?ws i)" if "i < n" for i
    using q_done [OF that] window_reports(1) before [OF that] unfolding window_done_def by blast
  have slice: "report_slice m (w ! i ! 0) (q i) (map f (stream_events (css ! i @ ?ws i))) = Ok (map f (new_reports (css ! i) (?ws i)))"
    if "i < n" for i and f :: "string \<times> int \<times> int \<Rightarrow> 'b"
    using q_done [OF that] window_reports(2) before [OF that] unfolding window_done_def by blast
  have log: "logged (stream_events (css ! i @ ?ws i)) (q i)" if "i < n" for i
    using q_done [OF that] by (simp add: window_done_def phase_inv_def logged_def)
  let ?rows = "concat (map2 (\<lambda>ph E. map (\<lambda>(d, s, e). makereport ph s e 10 d) E) [0..<n] ?N)"
  have print: "printReports m w ?qs = Ok ?rows"
  proof -
    have 1: "run_all (map2 (\<lambda>xs p. report_slice m (xs ! 0) p (V_ts p)) w ?qs) = Ok (map (map (fst \<circ> snd)) ?N)"
      using n slice log by (intro run_all_Ok) (auto simp: logged_def)
    have 2: "run_all (map2 (\<lambda>xs p. report_slice m (xs ! 0) p (V_te p)) w ?qs) = Ok (map (map (snd \<circ> snd)) ?N)"
      using n slice log by (intro run_all_Ok) (auto simp: logged_def)
    have 3: "run_all (map2 (\<lambda>xs p. report_slice m (xs ! 0) p (V_an p)) w ?qs) = Ok (map (map fst) ?N)"
      using n slice log by (intro run_all_Ok) (auto simp: logged_def)
    have "map2 (\<lambda>ph (ss, es, ds). map2 (\<lambda>s (e, d). makereport ph s e 10 d) ss (zip es ds))
        [0..<length (map (map (fst \<circ> snd)) ?N)] (zip (map (map (fst \<circ> snd)) ?N) (zip (map (map (snd \<circ> snd)) ?N) (map (map fst) ?N)))
      = map2 (\<lambda>ph E. map (\<lambda>(d, s, e). makereport ph s e 10 d) E) [0..<n] ?N"
      by (intro nth_equalityI) (simp_all add: map2_columns zip_columns split_beta)
    then show ?thesis unfolding printReports_def 1 2 3 run_bind.simps by simp
  qed
  have quiet: "new_reports (css ! i) (?ws i) = []"
    if "i < n" "\<not> 0 < V_report (q i)" "\<not> V_last_rep (q i)" for i
  proof -
    have "\<not> open_event (css ! i)" "\<not> open_event (css ! i @ ?ws i)" "stream_events (css ! i @ ?ws i) = stream_events (css ! i)"
      using that(2,3) inv [OF that(1)] q_done [OF that(1)] by (auto simp: window_done_def phase_inv_def kept_events_def)
    then show ?thesis by (simp add: new_reports_def ended_events_def)
  qed
  let ?ps = "map2 (\<lambda>xs p. p\<lparr>V_last_rep := ongoing p, V_last_val := xs ! 119\<rparr>) w ?qs"
  obtain rs where main: "VoltageLimitMain m kk w ps = Ok (?ps, rs)"
    and rs: "\<And>i. i < n \<Longrightarrow> report_events i rs = new_reports (css ! i) (?ws i)"
  proof (cases "list_ex (\<lambda>p. 0 < V_report p \<or> V_last_rep p) ?qs")
    case True
    have "VoltageLimitMain m kk w ps = Ok (?ps, ?rows)"
      using w0 lens by (simp add: VoltageLimitMain_def window_size_def ana print True)
    moreover have "report_events i ?rows = new_reports (css ! i) (?ws i)" if "i < n" for i
      using report_events_rows [of i 0 ?N] that by simp
    ultimately show thesis by (rule that)
  next
    case False
    have "VoltageLimitMain m kk w ps = Ok (?ps, [])"
      using w0 lens by (simp add: VoltageLimitMain_def window_size_def ana False)
    moreover have "report_events i [] = new_reports (css ! i) (?ws i)" if "i < n" for i
      using quiet [OF that] False that by (auto simp: report_events_def list_ex_iff)
    ultimately show thesis by (rule that)
  qed
  have "phase_inv m (css ! i @ ?ws i) (?ps ! i)" if "i < n" for i
  proof -
    have "?ps ! i = (q i)\<lparr>V_last_rep := ongoing (q i), V_last_val := w ! i ! 119\<rparr>" using that n by simp
    then show ?thesis using q_done [OF that] unfolding window_done_def by metis
  qed
  with main rs rep n show ?thesis by (intro exI [of _ ?ps] exI [of _ rs]) auto
qed

lemma short_runs_prefix: "short_runs (cs @ cs') \<Longrightarrow> short_runs cs"
proof -
  assume s: "short_runs (cs @ cs')"
  have "int n \<le> over_limit" if "cs = ys @ replicate n (Some e) @ zs" for ys n e zs
    using s that unfolding short_runs_def by (metis append_assoc)
  then show ?thesis unfolding short_runs_def by blast
qed

definition good_window :: "fp_ops \<Rightarrow> nat \<Rightarrow> f64 list list \<Rightarrow> bool" where
  "good_window m n w \<longleftrightarrow> length w = n \<and> (\<forall>i<n. length (w ! i) = 120 \<and> (\<forall>x\<in>set (w ! i). comparable m x))"

definition stream_of :: "fp_ops \<Rightarrow> nat \<Rightarrow> f64 list list list \<Rightarrow> ev_class option list" where
  "stream_of m i ws = map (class_of m) (concat (map (\<lambda>w. w ! i) ws))"

lemma window_time_ok:
  "int (s + 1) * 120 \<le> 2147483647 \<Longrightarrow> j \<le> 120 \<Longrightarrow> window_time (int s + 2) j = Some (int (120 * s + j))"
  by (simp add: window_time_def int_ok_def window_size_def)

lemma voltage_seconds_inv:
  assumes "0 < n" "length ps = n" "length css = n" "\<forall>w\<in>set ws. good_window m n w"
    and "\<And>i. i < n \<Longrightarrow> phase_inv m (css ! i) (ps ! i) \<and> length (css ! i) = 120 * s"
    and "\<And>i. i < n \<Longrightarrow> short_runs (css ! i @ stream_of m i ws)"
    and "int (s + length ws) * 120 \<le> 2147483647"
  shows "\<exists>ps' rs. voltage_seconds m (int s + 1) ws ps = Ok (ps', rs) \<and>
    (\<forall>i<n. ended_events (css ! i @ stream_of m i ws) = ended_events (css ! i) @ report_events i rs)"
  using assms(2-)
proof (induction ws arbitrary: ps css s)
  case Nil
  then show ?case by (simp add: stream_of_def report_events_def)
next
  case (Cons w ws)
  let ?ws = "\<lambda>i. map (class_of m) (w ! i)"
  have st: "stream_of m i (w # ws) = ?ws i @ stream_of m i ws" for i by (simp add: stream_of_def)
  have good: "good_window m n w" using Cons.prems(3) by simp
  have "\<exists>ps1 rs. VoltageLimitMain m (int s + 2) w ps = Ok (ps1, rs) \<and> length ps1 = n \<and>
    (\<forall>i<n. phase_inv m (css ! i @ ?ws i) (ps1 ! i) \<and>
       ended_events (css ! i @ ?ws i) = ended_events (css ! i) @ report_events i rs)"
  proof (rule VoltageLimitMain_inv [where L = "120 * s"])
    show "short_runs (css ! i @ ?ws i)" if "i < n" for i
      using Cons.prems(5) [OF that] unfolding st append_assoc [symmetric] by (rule short_runs_prefix)
    show "window_time (int s + 2) j = Some (int (120 * s + j))" if "j \<le> 120" for j
      using Cons.prems(6) that by (intro window_time_ok) auto
  qed (use assms(1) Cons.prems(1,2,4) good in \<open>auto simp: good_window_def\<close>)
  then obtain ps1 rs where main: "VoltageLimitMain m (int s + 2) w ps = Ok (ps1, rs)" "length ps1 = n"
    and inv: "\<And>i. i < n \<Longrightarrow> phase_inv m (css ! i @ ?ws i) (ps1 ! i)"
    and ended: "\<And>i. i < n \<Longrightarrow> ended_events (css ! i @ ?ws i) = ended_events (css ! i) @ report_events i rs"
    by blast
  let ?css = "map (\<lambda>i. css ! i @ ?ws i) [0..<n]"
  have "\<exists>ps' rs'. voltage_seconds m (int (Suc s) + 1) ws ps1 = Ok (ps', rs') \<and>
    (\<forall>i<n. ended_events (?css ! i @ stream_of m i ws) = ended_events (?css ! i) @ report_events i rs')"
  proof (rule Cons.IH [OF main(2)])
    show "phase_inv m (?css ! i) (ps1 ! i) \<and> length (?css ! i) = 120 * Suc s" if "i < n" for i
      using inv [OF that] Cons.prems(4) [OF that] good that by (simp add: good_window_def)
    show "short_runs (?css ! i @ stream_of m i ws)" if "i < n" for i
      using Cons.prems(5) [OF that] that by (simp add: st)
  qed (use Cons.prems in auto)
  then obtain ps' rs' where rest: "voltage_seconds m (int s + 2) ws ps1 = Ok (ps', rs')"
    and ended': "\<And>i. i < n \<Longrightarrow> ended_events (css ! i @ ?ws i @ stream_of m i ws) =
      ended_events (css ! i @ ?ws i) @ report_events i rs'" by (auto simp: add.commute)
  have "voltage_seconds m (int s + 1) (w # ws) ps = Ok (ps', rs @ rs')" using main(1) rest by (simp add: add.commute)
  then show ?case using ended ended' by (auto simp: st report_events_append)
qed

lemma fresh_phase_inv: "phase_inv m [] fresh_phase"
  by (simp add: phase_inv_def fresh_phase_def logged_def stream_events_def carried_def last_known_def open_event_def)

lemma ended_events_Nil: "ended_events [] = []"
  by (simp add: ended_events_def open_event_def stream_events_def)

subsection \<open>Properties\<close>

text \<open>C11: The analysis reports each event exactly once. Over any number of seconds up to the
  overflow of the time, as long as no event is longer than a minute, the reports of a phase are
  the events of its whole stream of samples, in order, without the one that may still go on: the
  maximal runs of interrupted or swollen samples, and of at least four sagging ones, each with
  the index before its first sample and the index behind its last. No event is lost, split or
  repeated at the boundary of two windows, and nothing is undefined.\<close>

theorem voltage_events_are_reported_once:
  assumes "\<forall>w\<in>set ws. good_window m 3 w"
    and "\<forall>i<3. short_runs (stream_of m i ws)"
    and "length ws \<le> 17895697"
  shows "\<exists>ps rs. voltage_seconds m 1 ws (replicate 3 fresh_phase) = Ok (ps, rs) \<and>
    (\<forall>i<3. report_events i rs = ended_events (stream_of m i ws))"
proof -
  have "\<exists>ps rs. voltage_seconds m 1 ws (replicate 3 fresh_phase) = Ok (ps, rs) \<and>
    (\<forall>i<3. ended_events (stream_of m i ws) = report_events i rs)"
    using voltage_seconds_inv [of 3 "replicate 3 fresh_phase" "replicate 3 []" ws m 0] assms
    by (simp add: fresh_phase_inv ended_events_Nil)
  then show ?thesis by (metis (no_types))
qed

definition example_window :: "f64 list \<Rightarrow> f64 list list" where
  "example_window xs = [xs, xs, xs]"

definition d_1 :: f64 where "d_1 = 0x3FF0000000000000"

definition example_windows :: "f64 list list list" where
  "example_windows = [example_window (replicate 119 d_1 @ [0]), example_window (0 # replicate 119 d_1)]"

lemma example_stream:
  "i < 3 \<Longrightarrow> stream_of zero_fp i example_windows = replicate 119 None @ replicate 2 (Some Interruption) @ replicate 119 None"
proof -
  assume "i < 3"
  then have "i = 0 \<or> i = 1 \<or> i = 2" by linarith
  moreover have "class_of zero_fp d_1 = None" "class_of zero_fp 0 = Some Interruption"
    by (simp_all add: class_of_def zero_fp_def d_1_def d_01_def d_09_def d_11_def)
  ultimately show ?thesis
    by (auto simp: stream_of_def example_windows_def example_window_def numeral_2_eq_2)
qed

lemma voltage_events_are_reported_once_witness:
  "\<exists>ps rs. voltage_seconds zero_fp 1 example_windows (replicate 3 fresh_phase) = Ok (ps, rs) \<and>
     report_events 0 rs = [(''interruption'', 118, 121)]"
proof -
  let ?cs = "replicate 119 None @ replicate 2 (Some Interruption) @ replicate 119 None"
  have "comparable zero_fp d_1" "comparable zero_fp 0"
    by (simp_all add: comparable_def zero_fp_def d_1_def d_01_def d_09_def d_11_def)
  then have "\<forall>w\<in>set example_windows. good_window zero_fp 3 w"
    by (auto simp: example_windows_def example_window_def good_window_def less_Suc_eq numeral_3_eq_3 nth_Cons')
  moreover have "short_runs ?cs"
    unfolding short_runs_def over_limit_def
  proof (intro allI impI)
    fix ys n e zs
    assume "?cs = ys @ replicate n (Some e) @ zs"
    then have "length ?cs = length ys + n + length zs" by simp
    then show "int n \<le> 7200" by simp
  qed
  then have "\<forall>i<3. short_runs (stream_of zero_fp i example_windows)" using example_stream by simp
  moreover have "ended_events ?cs = [(''interruption'', 118, 121)]" by code_simp
  ultimately show ?thesis
    using voltage_events_are_reported_once [of example_windows zero_fp] example_stream [of 0]
    by (auto simp: example_windows_def)
qed

end
