(* ===== verification/Rabbit_Archiver.thy ===== *)
theory Rabbit_Archiver
  imports Voltage_Limit Archiver Ftp_Access
begin

text \<open>
  The RabbitMQ service of the C37.118 gateway:
  \<open>serviceDataArchiverRabbitMQ/serviceDataArchiverRabbitMQ.cpp\<close>. Each second of samples becomes
  120 raw messages, a summary, an annotation with the unwrapped phases, an hourly mark, and a
  message for each event that the voltage analysis reports. What the message server and the
  database answer is a record; a message is published as a JSON value, whose text is the
  library's. The arrays of current and angle samples, which are filled and cleared but never
  read, are left out, and so is the local address, which is a parameter.
\<close>

subsection \<open>Data\<close>

datatype json = JString string | JInt int | JFloat f32 | JDouble f64 | JObject "(string \<times> json) list"

record rabbit_message =
  msg_exchange :: string
  msg_key :: string
  msg_body :: json

record rabbit_sample =
  rs_mag :: "f32 list"
  rs_ang :: "f32 list"

record channel_summary =
  cs_min :: f32
  cs_max :: f32
  cs_mean :: f64
  cs_amin :: f32
  cs_amax :: f32
  cs_amean :: f64

record unwrap_state =
  uw_new :: f32
  uw_base :: f32
  uw_old :: f32
  uw_very_old :: f32

record unwrap_stats =
  us_first :: f32
  us_min :: f32
  us_max :: f32
  us_avg :: f64

record rabbit =
  core :: archiver
  rb_db_locked :: bool
  rb_config :: "(string \<times> string) list"
  rb_enabled :: bool
  rb_connected :: bool
  rb_channel :: bool
  published :: "rabbit_message list"
  reconnect_counter :: int
  unwraps :: "unwrap_state list"
  old_hour :: u32
  volt_phases :: "phase_analysis list"
  volt_kk :: int
  volt_runs :: int

datatype publish_result = Published | Returned | PublishError

text \<open>The world of one pass, beyond that of the archivers; \<open>rw_behind\<close> is what lies on the stack
  behind the four arrays of unwrapped phases.\<close>

record rabbit_world =
  rw_publish :: "rabbit_message \<Rightarrow> publish_result"
  rw_localip :: string
  rw_location :: string
  rw_behind :: unwrap_stats

definition f_inf :: f32 where "f_inf = 0x7F800000"
definition f_minf :: f32 where "f_minf = 0xFF800000"
definition f_120 :: f32 where "f_120 = 0x42F00000"
definition f_360 :: f32 where "f_360 = 0x43B40000"
definition f_180 :: f32 where "f_180 = 0x43340000"
definition f_m180 :: f32 where "f_m180 = 0xC3340000"
definition f_6 :: f32 where "f_6 = 0x40C00000"
definition f_3 :: f32 where "f_3 = 0x40400000"
definition f_2 :: f32 where "f_2 = 0x40000000"
definition d_190_98593171 :: f64 where "d_190_98593171 = 0x4067DF8CC0A85142"
definition d_vnom :: f64 where "d_vnom = 0x40BC200000000000"

subsection \<open>Reading a second\<close>

definition rabbit_sample :: "fp_ops \<Rightarrow> u32 list \<Rightarrow> rabbit_sample" where
  "rabbit_sample m ws =
     (let L1ang = to_degrees m (ws ! 1) in
      \<lparr>rs_mag = [ws ! 0, ws ! 2, ws ! 4, ws ! 6, ws ! 8, ws ! 10],
       rs_ang = [0, relative_degrees m L1ang (ws ! 3), relative_degrees m L1ang (ws ! 5),
         relative_degrees m L1ang (ws ! 7), relative_degrees m L1ang (ws ! 9), relative_degrees m L1ang (ws ! 11)]\<rparr>)"

primrec rabbit_samples :: "fp_ops \<Rightarrow> bytes \<Rightarrow> nat \<Rightarrow> nat \<Rightarrow> rabbit_sample list option" where
  "rabbit_samples m mem p34 0 = Some []"
| "rabbit_samples m mem p34 (Suc n) = do {
     ws \<leftarrow> swapped_words mem p34 12;
     so \<leftarrow> rabbit_samples m mem (p34 + 15) n;
     Some (rabbit_sample m ws # so) }"

definition rabbit_second :: "fp_ops \<Rightarrow> bytes \<Rightarrow> (u32 \<times> rabbit_sample list) option" where
  "rabbit_second m mem = do {
     epoch \<leftarrow> swapped_words mem (8 + 40) 1;
     so \<leftarrow> rabbit_samples m mem (8 + 40 + 2 - 15 * 3) UPMU_SAMPLES_PER_SEC;
     Some (epoch ! 0, so) }"

subsection \<open>Summaries and unwrapped phases\<close>

definition f_min :: "fp_ops \<Rightarrow> f32 \<Rightarrow> f32 \<Rightarrow> f32" where "f_min m a b = (if f_less m b a then b else a)"
definition f_max :: "fp_ops \<Rightarrow> f32 \<Rightarrow> f32 \<Rightarrow> f32" where "f_max m a b = (if f_less m a b then b else a)"

text \<open>\<open>sum += x/UPMU_SAMPLES_PER_SEC\<close> into a \<open>double\<close>.\<close>

definition add_share :: "fp_ops \<Rightarrow> f64 \<Rightarrow> f32 \<Rightarrow> f64" where
  "add_share m s x = d_add m s (f2d m (f_div m x f_120))"

definition wrap_360 :: "fp_ops \<Rightarrow> f32 \<Rightarrow> f32" where
  "wrap_360 m x = (let temp = fmod_360 m x in if f_less m temp 0 then f_add m temp f_360 else temp)"

definition summary_start :: "channel_summary list" where
  "summary_start = replicate 6 \<lparr>cs_min = f_inf, cs_max = 0, cs_mean = 0, cs_amin = f_inf, cs_amax = 0, cs_amean = 0\<rparr>"

text \<open>The mean of the second current is taken of the third.\<close>

definition mean_source :: "nat \<Rightarrow> nat" where "mean_source k = (if k = 4 then 5 else k)"

definition summary_step :: "fp_ops \<Rightarrow> rabbit_sample \<Rightarrow> channel_summary list \<Rightarrow> channel_summary list" where
  "summary_step m s cs = map (\<lambda>k.
     (let c = cs ! k; x = rs_mag s ! k; temp = wrap_360 m (rs_ang s ! k) in
      \<lparr>cs_min = f_min m (cs_min c) x, cs_max = f_max m (cs_max c) x,
       cs_mean = add_share m (cs_mean c) (rs_mag s ! mean_source k),
       cs_amin = f_min m (cs_amin c) temp, cs_amax = f_max m (cs_amax c) temp,
       cs_amean = add_share m (cs_amean c) temp\<rparr>)) [0..<6]"

definition unwrap_start :: "unwrap_stats list" where
  "unwrap_start = replicate 3 \<lparr>us_first = 0, us_min = f_inf, us_max = f_minf, us_avg = 0\<rparr> @
     replicate 3 \<lparr>us_first = 0, us_min = 0, us_max = 0, us_avg = 0\<rparr>"

definition unwrap_channel ::
  "fp_ops \<Rightarrow> nat \<Rightarrow> f32 \<Rightarrow> unwrap_state \<Rightarrow> unwrap_stats \<Rightarrow> unwrap_state \<times> unwrap_stats" where
  "unwrap_channel m indx ang u a =
     (let new0 = d2f m (d_add m (d_fmod m (f2d m ang) d_360) (f2d m (uw_base u)));
          diff = f_sub m new0 (uw_old u);
          (new, base) = (if f_less m f_180 diff then (f_sub m new0 f_360, f_sub m (uw_base u) f_360)
            else if f_less m diff f_m180 then (f_add m new0 f_360, f_add m (uw_base u) f_360)
            else (new0, uw_base u));
          derivative = d2f m (d_div m (f2d m (f_sub m (f_sub m (f_sub m (f_mul m f_6 new) (f_mul m f_3 (uw_old u)))
            (f_mul m f_2 (uw_very_old u))) (uw_very_old u))) d_190_98593171)
      in (\<lparr>uw_new = new, uw_base = base, uw_old = new, uw_very_old = uw_old u\<rparr>,
          \<lparr>us_first = (if indx = 0 then new else us_first a),
           us_min = (if f_less m derivative (us_min a) then derivative else us_min a),
           us_max = (if f_less m (us_max a) derivative then derivative else us_max a),
           us_avg = add_share m (us_avg a) derivative\<rparr>))"

definition unwrap_step ::
  "fp_ops \<Rightarrow> nat \<Rightarrow> rabbit_sample \<Rightarrow> unwrap_state list \<times> unwrap_stats list \<Rightarrow> unwrap_state list \<times> unwrap_stats list" where
  "unwrap_step m indx s = (\<lambda>(us, as).
     (let r = map (\<lambda>k. unwrap_channel m indx (rs_ang s ! k) (us ! k) (as ! k)) [0..<6]
      in (map fst r, map snd r)))"

subsection \<open>Messages\<close>

text \<open>\<open>strftime\<close> for the date and time, and the decimals of \<open>std::to_string\<close> of \<open>indx/120\<close>.\<close>

definition two_digits :: "int \<Rightarrow> string" where "two_digits n = setw 2 (CHR ''0'') (dec (nat n))"

definition iso_time :: "tm \<Rightarrow> string" where
  "iso_time t = setw 4 (CHR ''0'') (dec (nat (tm_year t + 1900))) @ ''-'' @ two_digits (tm_mon t + 1) @ ''-'' @
     two_digits (tm_mday t) @ ''T'' @ two_digits (tm_hour t) @ '':'' @ two_digits (tm_min t) @ '':'' @ two_digits (tm_sec t)"

definition sample_suffix :: "nat \<Rightarrow> string" where
  "sample_suffix indx = ''.'' @ setw 6 (CHR ''0'') (dec ((indx * 50000 + 3) div 6))"

text \<open>The fields that all messages share.\<close>

definition annotation_fields ::
  "surroundings \<Rightarrow> rabbit_world \<Rightarrow> string \<Rightarrow> string \<Rightarrow> string \<Rightarrow> string \<Rightarrow> string \<Rightarrow> string \<Rightarrow> int \<Rightarrow> int \<Rightarrow>
   json \<Rightarrow> json \<Rightarrow> (string \<times> json) list" where
  "annotation_fields e w time author ver name typ desc severity ph start stop =
     [(''@timestamp'', JString time), (''ANN_AUTHOR'', JString author), (''ANN_VER'', JString ver),
      (''ANN_GROUP'', JString ''Standard''), (''ANN_NAME'', JString name), (''ANN_TYPE'', JString typ),
      (''ANN_SUBCLASS'', JString ''1''), (''ANN_DESC'', JString desc),
      (''ANN_DATASOURCE_UUID'', JString (upmuSerialNumber e)), (''ANN_COMPUTATION_SITE'', JString (rw_localip w)),
      (''ANN_SENSOR_LOCATION'', JString (rw_location w)), (''ANN_Severity'', JInt severity), (''ANN_PHASE'', JInt ph),
      (''ANN_TIME_INTERVAL'', JObject [(''STARTTIME_UTC'', start), (''ENDTIME_UTC'', stop)])]"

definition annotation ::
  "surroundings \<Rightarrow> rabbit_world \<Rightarrow> string \<Rightarrow> string \<Rightarrow> string \<Rightarrow> string \<Rightarrow> string \<Rightarrow> string \<Rightarrow> int \<Rightarrow> int \<Rightarrow>
   json \<Rightarrow> json \<Rightarrow> string \<Rightarrow> (string \<times> json) list" where
  "annotation e w time author ver name typ desc severity ph start stop etype =
     annotation_fields e w time author ver name typ desc severity ph start stop @
     [(''elastic_index'', JString ''upmu''), (''elastic_type'', JString etype)]"

definition channel_names :: "string list" where
  "channel_names = [''L1'', ''L2'', ''L3'', ''C1'', ''C2'', ''C3'']"

definition raw_data :: "fp_ops \<Rightarrow> rabbit_sample \<Rightarrow> json \<Rightarrow> string \<times> json" where
  "raw_data m s lock = (''data'', JObject (concat (map (\<lambda>k.
     [(channel_names ! k @ ''Mag'', JFloat (rs_mag s ! k)),
      (channel_names ! k @ ''Ang'', JDouble (d_fmod m (f2d m (rs_ang s ! k)) d_360))]) [0..<6]) @
     [(''lockState'', lock)]))"

definition raw_message :: "surroundings \<Rightarrow> rabbit_world \<Rightarrow> tm \<Rightarrow> nat \<Rightarrow> rabbit_sample \<Rightarrow> rabbit_message" where
  "raw_message e w t indx s =
     (let rabbittime = iso_time t @ sample_suffix indx @ ''Z'' in
      \<lparr>msg_exchange = ''ha-annotations'',
       msg_key = ''raw.ann.upmu.'' @ upmuSerialNumber e @ ''.'' @ dec indx,
       msg_body = JObject ((''facility'', JString ''LBL'') #
         annotation e w rabbittime ''LBNL_RGentz'' ''0.1'' ''uPMU_raw'' ''BL'' ''Raw Samples'' 0 0
           (JString rabbittime) (JString rabbittime) ''raw'' @
         [raw_data (fp e) s (JString ''0'')])\<rparr>)"

definition interval_start :: "u64 \<Rightarrow> json" where "interval_start ms = JInt (uint (ms * 1000))"
definition interval_end :: "u64 \<Rightarrow> json" where "interval_end ms = JInt (uint ((ms + 1000) * 1000))"

text \<open>One object of a summary: a name, the three channels, the fields for magnitude and angle.\<close>

definition summary_object ::
  "string \<Rightarrow> string \<Rightarrow> nat list \<Rightarrow> (channel_summary \<Rightarrow> json) \<Rightarrow> (channel_summary \<Rightarrow> json) \<Rightarrow> channel_summary list \<Rightarrow> string \<times> json" where
  "summary_object name suffix ks mag ang cs =
     (name, JObject (map (\<lambda>k. (channel_names ! k @ ''mag'' @ suffix, mag (cs ! k))) ks @
                     map (\<lambda>k. (channel_names ! k @ ''ang'' @ suffix, ang (cs ! k))) ks))"

definition summary_message :: "surroundings \<Rightarrow> rabbit_world \<Rightarrow> tm \<Rightarrow> u64 \<Rightarrow> channel_summary list \<Rightarrow> rabbit_message" where
  "summary_message e w t ms cs =
     \<lparr>msg_exchange = ''ha-annotations'', msg_key = ''summary.ann.upmu.'' @ upmuSerialNumber e,
      msg_body = JObject (annotation e w (iso_time t @ ''Z'') ''LBNL_RGentz'' ''0.3'' ''uPMU_Summary'' ''BL''
          ''uPMU, min/max/mean'' 0 0 (interval_start ms) (interval_end ms) ''summary'' @
        [summary_object ''ANN_MIN_L'' ''min'' [0, 1, 2] (JFloat \<circ> cs_min) (JFloat \<circ> cs_amin) cs,
         summary_object ''ANN_MAX_L'' ''max'' [0, 1, 2] (JFloat \<circ> cs_max) (JFloat \<circ> cs_amax) cs,
         summary_object ''ANN_MEAN_L'' ''mean'' [0, 1, 2] (JDouble \<circ> cs_mean) (JDouble \<circ> cs_amean) cs,
         summary_object ''ANN_MIN_C'' ''min'' [3, 4, 5] (JFloat \<circ> cs_min) (JFloat \<circ> cs_amin) cs,
         summary_object ''ANN_MAX_C'' ''max'' [3, 4, 5] (JFloat \<circ> cs_max) (JFloat \<circ> cs_amax) cs,
         summary_object ''ANN_MEAN_C'' ''mean'' [3, 4, 5] (JDouble \<circ> cs_mean) (JDouble \<circ> cs_amean) cs])\<rparr>"

text \<open>Each channel is labelled with the name of the one before it, and the last is read behind the
  arrays.\<close>

definition unwrap_object :: "unwrap_stats \<Rightarrow> unwrap_stats list \<Rightarrow> nat \<Rightarrow> string \<times> json" where
  "unwrap_object behind as k =
     (let a = (as @ [behind]) ! (k + 1) in
      (''ANN_UNWRAP_'' @ channel_names ! k, JObject [(''unwrap'', JFloat (us_first a)),
        (''derivative_min'', JFloat (us_min a)), (''derivative_max'', JFloat (us_max a)),
        (''derivative_avg'', JDouble (us_avg a))]))"

definition unwrap_message :: "surroundings \<Rightarrow> rabbit_world \<Rightarrow> tm \<Rightarrow> u64 \<Rightarrow> unwrap_stats list \<Rightarrow> rabbit_message" where
  "unwrap_message e w t ms as =
     \<lparr>msg_exchange = ''ha-annotations'', msg_key = ''unwrap.ann.upmu.'' @ upmuSerialNumber e,
      msg_body = JObject (annotation e w (iso_time t @ ''Z'') ''LBNL_RGentz'' ''0.1'' ''uPMU_unwrapped_phase'' ''BL''
          ''uPMU, unwrapped_phase'' 0 0 (interval_start ms) (interval_end ms) ''unwrapped_phase'' @
        map (unwrap_object (rw_behind w) as) [0..<6])\<rparr>"

definition hourly_message :: "surroundings \<Rightarrow> rabbit_world \<Rightarrow> tm \<Rightarrow> u64 \<Rightarrow> rabbit_message" where
  "hourly_message e w t ms =
     \<lparr>msg_exchange = ''ha-annotations'', msg_key = ''hourly.ann.upmu.'' @ upmuSerialNumber e,
      msg_body = JObject (annotation e w (iso_time t @ ''Z'') ''LBNL_RGentz'' ''0.3'' ''uPMU_hourly'' ''BL''
          ''uPMU, hourly'' 0 0 (interval_start ms) (interval_end ms) ''hourly'' @
        [(''ANN_HOURLY'', JString (dec (nat (tm_hour t))))])\<rparr>"

text \<open>The times of a report are divided by \<open>float(UPMU_SAMPLES_PER_SEC/1000)\<close>, which is 0.\<close>

definition report_time :: "fp_ops \<Rightarrow> u64 \<Rightarrow> int \<Rightarrow> int \<Rightarrow> u64" where
  "report_time m ms runs x = (ms + f2u64 m (f_div m (s2f m (x - runs)) (s2f m (120 div 1000)))) * 1000"

definition voltage_message ::
  "surroundings \<Rightarrow> rabbit_world \<Rightarrow> tm \<Rightarrow> u64 \<Rightarrow> int \<Rightarrow> voltage_report \<Rightarrow> rabbit_message" where
  "voltage_message e w t ms runs r =
     \<lparr>msg_exchange = ''ha-annotations'', msg_key = ''voltage_limit.ann.upmu.'' @ upmuSerialNumber e,
      msg_body = JObject (annotation e w (iso_time t @ ''Z'') ''ASU_MJAMEI_LBNL_RGentz'' ''0.1'' ''VoltageLimit'' ''SP''
          (vr_description r) (vr_severity r) (int (vr_phase r))
          (JInt (uint (report_time (fp e) ms runs (vr_start r)))) (JInt (uint (report_time (fp e) ms runs (vr_end r))))
          ''voltage_limit'')\<rparr>"

definition heartbeat_message :: "surroundings \<Rightarrow> rabbit_world \<Rightarrow> tm \<Rightarrow> u64 \<Rightarrow> rabbit_message" where
  "heartbeat_message e w t ms =
     \<lparr>msg_exchange = ''ha-annotations'', msg_key = ''voltage_limit.ann.upmu.'' @ upmuSerialNumber e,
      msg_body = JObject (annotation e w (iso_time t @ ''Z'') ''ASU_MJAMEI_LBNL_RGentz'' ''0.1'' ''VoltageLimit'' ''SP''
          ''heartbeat'' 0 0 (interval_start ms) (interval_end ms) ''voltage_limit'')\<rparr>"

subsection \<open>Publishing\<close>

definition lift_core :: "(archiver \<Rightarrow> archiver run) \<Rightarrow> rabbit \<Rightarrow> rabbit run" where
  "lift_core f st = run_bind (f (core st)) (\<lambda>c. Ok (st\<lparr>core := c\<rparr>))"

text \<open>A call through the null pointer is undefined.\<close>

definition basic_publish :: "rabbit_world \<Rightarrow> rabbit_message \<Rightarrow> rabbit \<Rightarrow> (rabbit \<times> publish_result) run" where
  "basic_publish w msg st =
     (if \<not> rb_channel st then Ub
      else Ok (if rw_publish w msg = Published then st\<lparr>published := published st @ [msg]\<rparr> else st, rw_publish w msg))"

text \<open>Raw messages and unwrapped phases are sent without further ado.\<close>

definition publish_only :: "rabbit_world \<Rightarrow> rabbit_message \<Rightarrow> rabbit \<Rightarrow> rabbit run" where
  "publish_only w msg st = run_bind (basic_publish w msg st) (\<lambda>(st1, _). Ok st1)"

text \<open>The rest counts its failures, and asks for a new channel after every sixty; whether it gets
  one changes nothing here, since a failure leaves the old one. The return value that the
  function promises and does not give is not looked at.\<close>

definition rabbitmqDataArchive :: "rabbit_world \<Rightarrow> rabbit_message \<Rightarrow> rabbit \<Rightarrow> rabbit run" where
  "rabbitmqDataArchive w msg st =
     run_bind (basic_publish w msg st) (\<lambda>(st1, r).
       if r = PublishError
       then run_bind (lift_core (count_spec 3) st1) (\<lambda>st2.
              Ok (st2\<lparr>reconnect_counter := (if reconnect_counter st2 = 60 then 0 else reconnect_counter st2) + 1\<rparr>))
       else Ok st1)"

primrec publish_all :: "(rabbit_message \<Rightarrow> rabbit \<Rightarrow> rabbit run) \<Rightarrow> rabbit_message list \<Rightarrow> rabbit \<Rightarrow> rabbit run" where
  "publish_all f [] st = Ok st"
| "publish_all f (x # xs) st = run_bind (f x st) (publish_all f xs)"

subsection \<open>Processing a buffer\<close>

definition dataBufferOffer_rabbit :: "data_buffer \<Rightarrow> rabbit \<Rightarrow> (dataBufferOffer_t \<times> rabbit) run" where
  "dataBufferOffer_rabbit b st =
     run_bind (lift_core (count_cmn 1) st) (\<lambda>st1.
       if data_queue_full (dataQ (core st1))
       then run_bind (lift_core (count_cmn 3) st1) (\<lambda>st2. Ok (BUFFER_REFUSED, st2))
       else run_bind (lift_core (count_cmn 2) (st1\<lparr>core := (core st1)\<lparr>dataQ := dataQ (core st1) @ [b]\<rparr>\<rparr>))
              (\<lambda>st2. Ok (BUFFER_ACCEPTED, st2)))"

definition preProcessData_rabbit :: "surroundings \<Rightarrow> data_buffer \<Rightarrow> archiver \<Rightarrow> (archiver \<times> int) run" where
  "preProcessData_rabbit e b st =
     (if byteLen b \<noteq> of_nat (SECBLK_LEN_BYTES * 120 + 4)
      then run_bind (count_spec 0 st) (\<lambda>st1. Ok (st1\<lparr>bpr := (bpr st1)\<lparr>numRecords := - 1\<rparr>\<rparr>, - 1))
      else Ok (st\<lparr>bpr := \<lparr>numRecords = 1, nextRecord = 0, numInsertsInAccum = 0, accumInsertTime = 0\<rparr>\<rparr>, 1))"

record second_work =
  sw_summary :: "channel_summary list"
  sw_unwrap :: "unwrap_stats list"
  sw_v_mag :: "f64 list list"

definition second_start :: second_work where
  "second_start = \<lparr>sw_summary = summary_start, sw_unwrap = unwrap_start, sw_v_mag = [[], [], []]\<rparr>"

text \<open>The body of the loop over the samples; \<open>raw\<close> makes the raw message of a sample.\<close>

type_synonym raw_maker = "nat \<Rightarrow> rabbit_sample \<Rightarrow> rabbit_message"

definition sample_pass ::
  "fp_ops \<Rightarrow> rabbit_world \<Rightarrow> raw_maker \<Rightarrow> nat \<Rightarrow> rabbit_sample \<Rightarrow> second_work \<Rightarrow> rabbit \<Rightarrow> (second_work \<times> rabbit) run" where
  "sample_pass m w raw indx s wk st =
     (let (us, as) = unwrap_step m indx s (unwraps st, sw_unwrap wk) in
      run_bind (publish_only w (raw indx s) (st\<lparr>unwraps := us\<rparr>)) (\<lambda>st1.
        Ok (\<lparr>sw_summary = summary_step m s (sw_summary wk), sw_unwrap = as,
             sw_v_mag = map2 (\<lambda>v x. v @ [d_div m (f2d m x) d_vnom]) (sw_v_mag wk) (take 3 (rs_mag s))\<rparr>, st1)))"

primrec sample_passes ::
  "fp_ops \<Rightarrow> rabbit_world \<Rightarrow> raw_maker \<Rightarrow> nat \<Rightarrow> rabbit_sample list \<Rightarrow> second_work \<Rightarrow> rabbit \<Rightarrow> (second_work \<times> rabbit) run" where
  "sample_passes m w raw indx [] wk st = Ok (wk, st)"
| "sample_passes m w raw indx (s # ss) wk st =
     run_bind (sample_pass m w raw indx s wk st) (\<lambda>(wk1, st1). sample_passes m w raw (indx + 1) ss wk1 st1)"

text \<open>The hourly mark; the hour 0 counts as the start of the program.\<close>

definition hourly_pass :: "surroundings \<Rightarrow> rabbit_world \<Rightarrow> tm \<Rightarrow> u64 \<Rightarrow> rabbit \<Rightarrow> rabbit run" where
  "hourly_pass e w t ms st =
     (if of_int (tm_hour t) \<noteq> old_hour st
      then run_bind (if old_hour st = 0 then Ok st else rabbitmqDataArchive w (hourly_message e w t ms) st)
             (\<lambda>st1. Ok (st1\<lparr>old_hour := of_int (tm_hour t)\<rparr>))
      else Ok st)"

definition heartbeat_pass :: "surroundings \<Rightarrow> rabbit_world \<Rightarrow> tm \<Rightarrow> u64 \<Rightarrow> rabbit \<Rightarrow> rabbit run" where
  "heartbeat_pass e w t ms st =
     (if of_int (tm_hour t) \<noteq> old_hour st
      then if old_hour st = 0 then Ok st else rabbitmqDataArchive w (heartbeat_message e w t ms) st
      else Ok st)"

text \<open>The voltage analysis of a second, with its counters.\<close>

definition voltage_pass :: "surroundings \<Rightarrow> rabbit_world \<Rightarrow> tm \<Rightarrow> u64 \<Rightarrow> f64 list list \<Rightarrow> rabbit \<Rightarrow> rabbit run" where
  "voltage_pass e w t ms v st =
     run_bind (checked (int_ok (volt_kk st + 1))) (\<lambda>kk.
     run_bind (VoltageLimitMain (fp e) kk v (volt_phases st)) (\<lambda>(ps, rs).
     run_bind (publish_all (rabbitmqDataArchive w) (map (voltage_message e w t ms (volt_runs st)) rs)
                (st\<lparr>volt_kk := kk, volt_phases := ps\<rparr>)) (\<lambda>st1.
     run_bind (heartbeat_pass e w t ms st1) (\<lambda>st2.
     run_bind (checked (int_ok (volt_runs st2 + 120))) (\<lambda>runs. Ok (st2\<lparr>volt_runs := runs\<rparr>))))))"

text \<open>The end: the time is added up, and without Cassandra the record is not advanced.\<close>

definition finish_second :: "surroundings \<Rightarrow> rabbit \<Rightarrow> (rabbit \<times> bool) run" where
  "finish_second e st =
     (let c = core st; st1 = st\<lparr>core := c\<lparr>bpr := (bpr c)\<lparr>accumInsertTime :=
            f_add (fp e) (accumInsertTime (bpr c)) (insertTime e)\<rparr>\<rparr>\<rparr> in
      if \<not> cassArchivingEnabled e \<or> \<not> cassConnected e
      then run_bind (lift_core (count_spec 4) st1) (\<lambda>st2. Ok (st2, False))
      else Ok (st1\<lparr>core := next_record (core st1)\<rparr>, False))"

text \<open>A second, from the loop over its samples to the end; \<open>t\<close> and \<open>ms\<close> are its time.\<close>

definition process_samples ::
  "surroundings \<Rightarrow> rabbit_world \<Rightarrow> tm \<Rightarrow> u64 \<Rightarrow> raw_maker \<Rightarrow> rabbit_sample list \<Rightarrow> rabbit \<Rightarrow> (rabbit \<times> bool) run" where
  "process_samples e w t ms raw ss st =
     run_bind (sample_passes (fp e) w raw 0 ss second_start st) (\<lambda>(wk, st1).
     run_bind (rabbitmqDataArchive w (summary_message e w t ms (sw_summary wk)) st1) (\<lambda>st2.
     run_bind (publish_only w (unwrap_message e w t ms (sw_unwrap wk)) st2) (\<lambda>st3.
     run_bind (hourly_pass e w t ms st3) (\<lambda>st4.
     run_bind (voltage_pass e w t ms (sw_v_mag wk) st4) (finish_second e)))))"

definition process_second ::
  "surroundings \<Rightarrow> rabbit_world \<Rightarrow> u32 \<Rightarrow> rabbit_sample list \<Rightarrow> rabbit \<Rightarrow> (rabbit \<times> bool) run" where
  "process_second e w epoch ss st =
     (let t = gmtime (unat epoch); ms = (ucast epoch :: u64) * 1000
      in process_samples e w t ms (raw_message e w t) ss st)"

definition processData_rabbit :: "surroundings \<Rightarrow> rabbit_world \<Rightarrow> data_buffer \<Rightarrow> rabbit \<Rightarrow> (rabbit \<times> bool) run" where
  "processData_rabbit e w b st =
     (if nextRecord (bpr (core st)) \<ge> numRecords (bpr (core st)) then Ok (st, True)
      else run_bind (checked (rabbit_second (fp e) (dataBuffer b @ behind_heap e)))
             (\<lambda>(epoch, ss). process_second e w epoch ss st))"

subsection \<open>The thread\<close>

text \<open>As for the archivers, the variants of the service differ in how they take and process a buffer.\<close>

type_synonym rabbit_processor = "surroundings \<Rightarrow> rabbit_world \<Rightarrow> data_buffer \<Rightarrow> rabbit \<Rightarrow> (rabbit \<times> bool) run"

definition process_current_rabbit :: "rabbit_processor \<Rightarrow> surroundings \<Rightarrow> rabbit_world \<Rightarrow> rabbit \<Rightarrow> rabbit run" where
  "process_current_rabbit proc e w st = (case dataBuf (core st) of
     None \<Rightarrow> Ok st
   | Some b \<Rightarrow> run_bind (proc e w b st) (\<lambda>(st1, complete).
       if complete
       then lift_core (\<lambda>c. run_bind (insert_timer e c) (\<lambda>c1. Ok (c1\<lparr>dataBuf := None, processingBuffer := False\<rparr>))) st1
       else Ok st1))"

definition rabbit_pass_of ::
  "pre_processor \<Rightarrow> rabbit_processor \<Rightarrow> surroundings \<Rightarrow> rabbit_world \<Rightarrow> rabbit \<Rightarrow> rabbit run" where
  "rabbit_pass_of pre proc e w st =
     (let st0 = st\<lparr>core := (core st)\<lparr>cmdQueue := snd (Dequeue (cmdQueue (core st)))\<rparr>\<rparr> in
      run_bind (if processingBuffer (core st0) then process_current_rabbit proc e w st0
                else lift_core (take_next pre e) st0)
        (\<lambda>st1. Ok (if \<not> processingBuffer (core st1) \<and> dataQ (core st1) = []
                   then st1\<lparr>core := (core st1)\<lparr>sleeps := sleeps (core st1) + 1\<rparr>\<rparr> else st1)))"

definition rabbit_pass :: "surroundings \<Rightarrow> rabbit_world \<Rightarrow> rabbit \<Rightarrow> rabbit run" where
  "rabbit_pass = rabbit_pass_of preProcessData_rabbit processData_rabbit"

type_synonym rabbit_thread = "surroundings \<Rightarrow> rabbit_world \<Rightarrow> rabbit \<Rightarrow> rabbit run"

primrec run_rabbit :: "rabbit_thread \<Rightarrow> (surroundings \<times> rabbit_world) list \<Rightarrow> rabbit \<Rightarrow> rabbit run" where
  "run_rabbit pass [] st = Ok st"
| "run_rabbit pass (x # xs) st = run_bind (pass (fst x) (snd x) st) (run_rabbit pass xs)"

abbreviation rabbit_passes :: "(surroundings \<times> rabbit_world) list \<Rightarrow> rabbit \<Rightarrow> rabbit run" where
  "rabbit_passes \<equiv> run_rabbit rabbit_pass"

fun rabbit_loop ::
  "rabbit_thread \<Rightarrow> ((surroundings \<times> rabbit_world) \<times> bool) list \<Rightarrow> rabbit \<Rightarrow> (serviceState_t \<times> rabbit option) run" where
  "rabbit_loop pass [] st = Ok (RUNNING, Some st)"
| "rabbit_loop pass ((x, stop) # xs) st =
     (case pass (fst x) (snd x) st of
        Ub \<Rightarrow> Ub
      | Exc \<Rightarrow> Ok (ERROR_STOP, None)
      | Ok st' \<Rightarrow> if stop then Ok (NORMAL_STOP, Some st') else rabbit_loop pass xs st')"

lemmas rabbit_thread_defs = rabbit_pass_def rabbit_pass_of_def process_current_rabbit_def

subsection \<open>Starting the service\<close>

record rabbit_row =
  rr_strings :: "(string \<times> string) list"
  rr_archiving_enabled :: bool

record rabbit_start =
  ri_db_connected :: bool
  ri_db_throws :: bool
  ri_row :: "rabbit_row option"
  ri_channel :: bool
  ri_now :: u32
  ri_now2 :: u32

text \<open>The startup messages need the database again.\<close>

definition startup_log :: "rabbit_start \<Rightarrow> surroundings \<Rightarrow> service_stats \<Rightarrow> rabbit \<Rightarrow> (rabbit, bool) outcome" where
  "startup_log i e s st =
     (if rb_db_locked st then Blocks
      else (case (str_stat s 30, str_stat s 31, createServiceStartupKeyValueList (ri_now2 i) s) of
        (Some maj, Some mnr, Some kv) \<Rightarrow>
          (let c = (core st)\<lparr>operations_log := operations_log (core st) @
                     [(''Service_Startup_Msg'', ''Initialized, waiting for input buffers.''), maj, mnr]\<rparr>
           in Returns (st\<lparr>core := if cassArchivingEnabled e \<and> cassConnected e \<and> mallocSucceeds e
                               then c\<lparr>key_value_lists := key_value_lists c @ [kv]\<rparr> else c\<rparr>) True)
      | _ \<Rightarrow> Undefined))"

text \<open>Reading the configuration. A missing row ends the function with \<open>-1\<close>, which is true; neither
  it nor an exception releases the database.\<close>

definition read_rabbit_row :: "rabbit_start \<Rightarrow> surroundings \<Rightarrow> service_stats \<Rightarrow> rabbit \<Rightarrow> (rabbit, bool) outcome" where
  "read_rabbit_row i e s st =
     (if rb_db_locked st then Blocks
      else if ri_db_throws i then startup_log i e s (st\<lparr>rb_db_locked := True, rb_connected := False\<rparr>)
      else (case ri_row i of
        None \<Rightarrow> Returns (st\<lparr>rb_db_locked := True\<rparr>) True
      | Some r \<Rightarrow> startup_log i e s
          (st\<lparr>rb_config := rr_strings r, rb_enabled := rr_archiving_enabled r,
              rb_connected := rr_archiving_enabled r \<and> ri_channel i,
              rb_channel := rb_channel st \<or> rr_archiving_enabled r \<and> ri_channel i\<rparr>)))"

definition initService_rabbit :: "rabbit_start \<Rightarrow> surroundings \<Rightarrow> rabbit \<Rightarrow> (rabbit, bool) outcome" where
  "initService_rabbit i e st =
     (let up = (\<lambda>s. st\<lparr>core := (core st)\<lparr>stats := s\<rparr>\<rparr>) in
      case createServiceCommonStats (ri_now i) (stats (core st)) of
        Returns s1 _ \<Rightarrow> (case createServiceSpecificStats_rabbitmq s1 of
          Returns s2 _ \<Rightarrow> if \<not> ri_db_connected i then Returns (up s2) False else read_rabbit_row i e s2 (up s2)
        | Throws s \<Rightarrow> Throws (up s) | Blocks \<Rightarrow> Blocks | Undefined \<Rightarrow> Undefined)
      | Throws s \<Rightarrow> Throws (up s) | Blocks \<Rightarrow> Blocks | Undefined \<Rightarrow> Undefined)"

subsection \<open>What a second publishes\<close>

definition raw_messages :: "raw_maker \<Rightarrow> nat \<Rightarrow> rabbit_sample list \<Rightarrow> rabbit_message list" where
  "raw_messages raw i ss = map2 raw [i..<i + length ss] ss"

text \<open>The loop over the samples, without the messages.\<close>

definition work_of :: "fp_ops \<Rightarrow> rabbit_sample \<Rightarrow> second_work \<Rightarrow> unwrap_stats list \<Rightarrow> second_work" where
  "work_of m s wk as = \<lparr>sw_summary = summary_step m s (sw_summary wk), sw_unwrap = as,
     sw_v_mag = map2 (\<lambda>v x. v @ [d_div m (f2d m x) d_vnom]) (sw_v_mag wk) (take 3 (rs_mag s))\<rparr>"

primrec sample_work ::
  "fp_ops \<Rightarrow> nat \<Rightarrow> rabbit_sample list \<Rightarrow> second_work \<Rightarrow> unwrap_state list \<Rightarrow> second_work \<times> unwrap_state list" where
  "sample_work m indx [] wk us = (wk, us)"
| "sample_work m indx (s # ss) wk us =
     (let (us', as) = unwrap_step m indx s (us, sw_unwrap wk) in sample_work m (indx + 1) ss (work_of m s wk as) us')"

definition all_published :: "rabbit_world \<Rightarrow> bool" where
  "all_published w \<longleftrightarrow> (\<forall>msg. rw_publish w msg = Published)"

lemma publish_ok:
  assumes "rb_channel st" "all_published w"
  shows "publish_only w msg st = Ok (st\<lparr>published := published st @ [msg]\<rparr>)"
    and "rabbitmqDataArchive w msg st = Ok (st\<lparr>published := published st @ [msg]\<rparr>)"
  using assms by (simp_all add: publish_only_def rabbitmqDataArchive_def basic_publish_def all_published_def)

lemma publish_all_ok:
  assumes "all_published w"
  shows "rb_channel st \<Longrightarrow> publish_all (rabbitmqDataArchive w) msgs st = Ok (st\<lparr>published := published st @ msgs\<rparr>)"
  by (induction msgs arbitrary: st) (simp_all add: publish_ok [OF _ assms])

lemma sample_passes_ok:
  assumes "all_published w"
  shows "rb_channel st \<Longrightarrow> sample_passes m w raw i ss wk st =
    (let (wk', us) = sample_work m i ss wk (unwraps st)
     in Ok (wk', st\<lparr>unwraps := us, published := published st @ raw_messages raw i ss\<rparr>))"
proof (induction ss arbitrary: i wk st)
  case Nil
  then show ?case by (simp add: raw_messages_def)
next
  case (Cons s ss)
  obtain us as where u: "unwrap_step m i s (unwraps st, sw_unwrap wk) = (us, as)" by fastforce
  let ?st = "st\<lparr>unwraps := us, published := published st @ [raw i s]\<rparr>"
  have 1: "sample_pass m w raw i s wk st = Ok (work_of m s wk as, ?st)"
    using Cons.prems by (simp add: sample_pass_def u publish_ok [OF _ assms] work_of_def Let_def)
  have "raw_messages raw i (s # ss) = raw i s # raw_messages raw (i + 1) ss"
    by (simp add: raw_messages_def upt_conv_Cons del: upt_Suc)
  then show ?case using Cons.IH [of ?st "i + 1" "work_of m s wk as"] Cons.prems
    by (simp add: 1 u split: prod.splits)
qed

text \<open>The hourly mark of a second, if it has one.\<close>

definition hourly_messages :: "surroundings \<Rightarrow> rabbit_world \<Rightarrow> tm \<Rightarrow> u64 \<Rightarrow> u32 \<Rightarrow> rabbit_message list" where
  "hourly_messages e w t ms h = (if of_int (tm_hour t) \<noteq> h \<and> h \<noteq> 0 then [hourly_message e w t ms] else [])"

lemma hourly_pass_ok:
  assumes "all_published w" "rb_channel st"
  shows "hourly_pass e w t ms st =
    Ok (st\<lparr>published := published st @ hourly_messages e w t ms (old_hour st), old_hour := of_int (tm_hour t)\<rparr>)"
  using assms by (simp add: hourly_pass_def hourly_messages_def publish_ok)

lemma voltage_pass_ok:
  assumes "all_published w" "rb_channel st" "old_hour st = of_int (tm_hour t)"
    and "int_ok (volt_kk st + 1) = Some (volt_kk st + 1)" "int_ok (volt_runs st + 120) = Some (volt_runs st + 120)"
    and "VoltageLimitMain (fp e) (volt_kk st + 1) v (volt_phases st) = Ok (ps, rs)"
  shows "voltage_pass e w t ms v st = Ok (st\<lparr>volt_kk := volt_kk st + 1, volt_phases := ps,
    published := published st @ map (voltage_message e w t ms (volt_runs st)) rs, volt_runs := volt_runs st + 120\<rparr>)"
  using assms by (simp add: voltage_pass_def publish_all_ok heartbeat_pass_def)

lemma finish_second_keeps: "finish_second e st = Ok (st', c) \<Longrightarrow>
  published st' = published st \<and> volt_phases st' = volt_phases st \<and> volt_kk st' = volt_kk st \<and> volt_runs st' = volt_runs st \<and>
  old_hour st' = old_hour st \<and> rb_channel st' = rb_channel st \<and> \<not> c \<and> stats (core st') = stats (core st) \<and>
  dataBuf (core st') = dataBuf (core st) \<and> processingBuffer (core st') = processingBuffer (core st) \<and>
  dataQ (core st') = dataQ (core st) \<and> numRecords (bpr (core st')) = numRecords (bpr (core st)) \<and>
  numInsertsInAccum (bpr (core st')) = numInsertsInAccum (bpr (core st)) \<and>
  nextRecord (bpr (core st')) = nextRecord (bpr (core st)) + (if cassArchivingEnabled e \<and> cassConnected e then 1 else 0)"
  by (auto simp: finish_second_def lift_core_def run_bind_Ok Let_def next_record_def dest!: count_keeps split: if_splits)

subsection \<open>Whole seconds\<close>

definition rabbit_ready :: "rabbit \<Rightarrow> bool" where
  "rabbit_ready st \<longleftrightarrow> rb_channel st \<and> serviceSpecStatsValues (stats (core st)) = Some (map_of rabbitmq_values) \<and>
     int_ok (volt_kk st + 1) = Some (volt_kk st + 1) \<and> int_ok (volt_runs st + 120) = Some (volt_runs st + 120)"

lemma finish_second_ok: "serviceSpecStatsValues (stats (core st)) = Some (map_of rabbitmq_values) \<Longrightarrow>
  \<exists>st'. finish_second e st = Ok (st', False)"
  by (auto simp: finish_second_def lift_core_def count_spec_def count_stat_def rabbitmq_values_def Let_def)

lemma process_samples_ok:
  assumes "all_published w" "rabbit_ready st"
    and "sample_work (fp e) 0 ss second_start (unwraps st) = (wk, us)"
    and "VoltageLimitMain (fp e) (volt_kk st + 1) (sw_v_mag wk) (volt_phases st) = Ok (ps, rs)"
  shows "\<exists>st'. process_samples e w t ms raw ss st = Ok (st', False) \<and>
    published st' = published st @ raw_messages raw 0 ss @
      [summary_message e w t ms (sw_summary wk), unwrap_message e w t ms (sw_unwrap wk)] @
      hourly_messages e w t ms (old_hour st) @ map (voltage_message e w t ms (volt_runs st)) rs \<and>
    volt_phases st' = ps \<and> volt_kk st' = volt_kk st + 1 \<and> volt_runs st' = volt_runs st + 120 \<and>
    rb_channel st' \<and> stats (core st') = stats (core st) \<and>
    dataBuf (core st') = dataBuf (core st) \<and> processingBuffer (core st') = processingBuffer (core st) \<and>
    dataQ (core st') = dataQ (core st) \<and> numRecords (bpr (core st')) = numRecords (bpr (core st)) \<and>
    numInsertsInAccum (bpr (core st')) = numInsertsInAccum (bpr (core st)) \<and>
    nextRecord (bpr (core st')) = nextRecord (bpr (core st)) + (if cassArchivingEnabled e \<and> cassConnected e then 1 else 0)"
proof -
  let ?st1 = "st\<lparr>unwraps := us, published := published st @ raw_messages raw 0 ss\<rparr>"
  let ?st3 = "?st1\<lparr>published := published ?st1 @ [summary_message e w t ms (sw_summary wk), unwrap_message e w t ms (sw_unwrap wk)]\<rparr>"
  let ?st4 = "?st3\<lparr>published := published ?st3 @ hourly_messages e w t ms (old_hour st), old_hour := of_int (tm_hour t)\<rparr>"
  let ?st5 = "?st4\<lparr>volt_kk := volt_kk st + 1, volt_phases := ps,
    published := published ?st4 @ map (voltage_message e w t ms (volt_runs st)) rs, volt_runs := volt_runs st + 120\<rparr>"
  have 1: "sample_passes (fp e) w raw 0 ss second_start st = Ok (wk, ?st1)"
    using assms(1-3) by (simp add: sample_passes_ok rabbit_ready_def)
  have 2: "run_bind (rabbitmqDataArchive w (summary_message e w t ms (sw_summary wk)) ?st1)
      (\<lambda>st2. publish_only w (unwrap_message e w t ms (sw_unwrap wk)) st2) = Ok ?st3"
    using assms(1,2) by (simp add: publish_ok rabbit_ready_def)
  have 3: "hourly_pass e w t ms ?st3 = Ok ?st4"
    using assms(1,2) by (simp add: hourly_pass_ok rabbit_ready_def)
  have 4: "voltage_pass e w t ms (sw_v_mag wk) ?st4 = Ok ?st5"
    using assms(1,2,4) by (subst voltage_pass_ok) (simp_all add: rabbit_ready_def)
  obtain st' where 5: "finish_second e ?st5 = Ok (st', False)"
    using finish_second_ok [of ?st5] assms(2) by (auto simp: rabbit_ready_def)
  have "process_samples e w t ms raw ss st = Ok (st', False)"
    unfolding process_samples_def
    using 1 2 3 4 5 by (simp add: run_bind_Ok) blast
  then show ?thesis using finish_second_keeps [OF 5] assms(2) by (simp add: rabbit_ready_def)
qed

lemma process_second_samples:
  "process_second e w epoch ss st = process_samples e w (gmtime (unat epoch)) (ucast epoch * 1000)
     (raw_message e w (gmtime (unat epoch))) ss st"
  by (simp add: process_second_def Let_def)

text \<open>C22: When the server takes every message, a second of samples is published as the raw samples
  in order, the summary, the unwrapped phases, an hourly mark when the hour has changed since a
  second that was not in the first hour of a day, and the reports of the voltage analysis;
  nothing else, in particular never the heartbeat of the voltage analysis, because the hour has
  been updated before the test.\<close>

theorem second_is_published:
  assumes "all_published w" "rabbit_ready st"
    and "sample_work (fp e) 0 ss second_start (unwraps st) = (wk, us)"
    and "VoltageLimitMain (fp e) (volt_kk st + 1) (sw_v_mag wk) (volt_phases st) = Ok (ps, rs)"
    and "t = gmtime (unat epoch)" "ms = ucast epoch * 1000"
  shows "\<exists>st'. process_second e w epoch ss st = Ok (st', False) \<and>
    published st' = published st @ raw_messages (raw_message e w t) 0 ss @
      [summary_message e w t ms (sw_summary wk), unwrap_message e w t ms (sw_unwrap wk)] @
      hourly_messages e w t ms (old_hour st) @ map (voltage_message e w t ms (volt_runs st)) rs"
  using process_samples_ok [OF assms(1-4)] assms(5,6) unfolding process_second_samples by blast

subsection \<open>What the loop over the samples computes\<close>

definition per_unit :: "fp_ops \<Rightarrow> nat \<Rightarrow> rabbit_sample list \<Rightarrow> f64 list" where
  "per_unit m k ss = map (\<lambda>s. d_div m (f2d m (rs_mag s ! k)) d_vnom) ss"

definition six_channels :: "rabbit_sample \<Rightarrow> bool" where
  "six_channels s \<longleftrightarrow> length (rs_mag s) = 6 \<and> length (rs_ang s) = 6"

lemma sample_work_summary:
  "sample_work m i ss wk us = (wk', us') \<Longrightarrow> sw_summary wk' = foldl (\<lambda>cs s. summary_step m s cs) (sw_summary wk) ss"
proof (induction ss arbitrary: i wk us)
  case (Cons s ss)
  obtain us1 as where u: "unwrap_step m i s (us, sw_unwrap wk) = (us1, as)" by fastforce
  from Cons.prems have "sample_work m (i + 1) ss (work_of m s wk as) us1 = (wk', us')" by (simp add: u)
  from Cons.IH [OF this] show ?case by (simp add: work_of_def)
qed simp

lemma sample_work_v_mag:
  "sample_work m i ss wk us = (wk', us') \<Longrightarrow> \<forall>s\<in>set ss. six_channels s \<Longrightarrow> sw_v_mag wk = [a, b, c] \<Longrightarrow>
   sw_v_mag wk' = [a @ per_unit m 0 ss, b @ per_unit m 1 ss, c @ per_unit m 2 ss]"
proof (induction ss arbitrary: i wk us a b c)
  case (Cons s ss)
  obtain us1 as where u: "unwrap_step m i s (us, sw_unwrap wk) = (us1, as)" by fastforce
  from Cons.prems have w: "sample_work m (i + 1) ss (work_of m s wk as) us1 = (wk', us')" by (simp add: u)
  have "length (rs_mag s) = 6" using Cons.prems(2) by (simp add: six_channels_def)
  then have t: "take 3 (rs_mag s) = [rs_mag s ! 0, rs_mag s ! 1, rs_mag s ! 2]"
    by (intro nth_equalityI) (auto simp: less_Suc_eq numeral_3_eq_3 numeral_2_eq_2)
  let ?v = "\<lambda>k. d_div m (f2d m (rs_mag s ! k)) d_vnom"
  have "sw_v_mag (work_of m s wk as) = [a @ [?v 0], b @ [?v 1], c @ [?v 2]]"
    using Cons.prems(3) by (simp add: work_of_def t)
  from Cons.IH [OF w _ this] Cons.prems(2) show ?case by (simp add: per_unit_def)
qed (simp add: per_unit_def)

lemma summary_step_nth:
  "k < 6 \<Longrightarrow> summary_step m s cs ! k =
     \<lparr>cs_min = f_min m (cs_min (cs ! k)) (rs_mag s ! k), cs_max = f_max m (cs_max (cs ! k)) (rs_mag s ! k),
      cs_mean = add_share m (cs_mean (cs ! k)) (rs_mag s ! mean_source k),
      cs_amin = f_min m (cs_amin (cs ! k)) (wrap_360 m (rs_ang s ! k)),
      cs_amax = f_max m (cs_amax (cs ! k)) (wrap_360 m (rs_ang s ! k)),
      cs_amean = add_share m (cs_amean (cs ! k)) (wrap_360 m (rs_ang s ! k))\<rparr>"
  by (simp add: summary_step_def Let_def)

lemma summary_fold_nth:
  "k < 6 \<Longrightarrow> foldl (\<lambda>cs s. summary_step m s cs) cs ss ! k =
     \<lparr>cs_min = foldl (f_min m) (cs_min (cs ! k)) (map (\<lambda>s. rs_mag s ! k) ss),
      cs_max = foldl (f_max m) (cs_max (cs ! k)) (map (\<lambda>s. rs_mag s ! k) ss),
      cs_mean = foldl (add_share m) (cs_mean (cs ! k)) (map (\<lambda>s. rs_mag s ! mean_source k) ss),
      cs_amin = foldl (f_min m) (cs_amin (cs ! k)) (map (\<lambda>s. wrap_360 m (rs_ang s ! k)) ss),
      cs_amax = foldl (f_max m) (cs_amax (cs ! k)) (map (\<lambda>s. wrap_360 m (rs_ang s ! k)) ss),
      cs_amean = foldl (add_share m) (cs_amean (cs ! k)) (map (\<lambda>s. wrap_360 m (rs_ang s ! k)) ss)\<rparr>"
  by (induction ss arbitrary: cs) (simp_all add: summary_step_nth)

text \<open>The summary of a second has, for each channel, the minimum, maximum and mean over the
  samples of that channel, of the magnitude and of the angle between 0 and 360 degrees; only the
  mean magnitude of the second current is that of the third.\<close>

theorem summary_of_a_second:
  assumes "sample_work m 0 ss second_start us = (wk, us')" "k < 6"
  shows "sw_summary wk ! k =
     \<lparr>cs_min = foldl (f_min m) f_inf (map (\<lambda>s. rs_mag s ! k) ss),
      cs_max = foldl (f_max m) 0 (map (\<lambda>s. rs_mag s ! k) ss),
      cs_mean = foldl (add_share m) 0 (map (\<lambda>s. rs_mag s ! (if k = 4 then 5 else k)) ss),
      cs_amin = foldl (f_min m) f_inf (map (\<lambda>s. wrap_360 m (rs_ang s ! k)) ss),
      cs_amax = foldl (f_max m) 0 (map (\<lambda>s. wrap_360 m (rs_ang s ! k)) ss),
      cs_amean = foldl (add_share m) 0 (map (\<lambda>s. wrap_360 m (rs_ang s ! k)) ss)\<rparr>"
  using sample_work_summary [OF assms(1)] assms(2)
  by (simp add: second_start_def summary_start_def summary_fold_nth mean_source_def)

subsection \<open>The voltage analysis over many seconds\<close>

text \<open>The phase and the description of a published report of the analysis.\<close>

definition voltage_note :: "string \<Rightarrow> rabbit_message \<Rightarrow> (int \<times> string) list" where
  "voltage_note serial msg =
     (if msg_key msg = ''voltage_limit.ann.upmu.'' @ serial
      then (case msg_body msg of
          JObject kvs \<Rightarrow> (case (map_of kvs ''ANN_PHASE'', map_of kvs ''ANN_DESC'') of
            (Some (JInt ph), Some (JString d)) \<Rightarrow> [(ph, d)] | _ \<Rightarrow> [])
        | _ \<Rightarrow> []) else [])"

definition voltage_notes :: "string \<Rightarrow> rabbit_message list \<Rightarrow> (int \<times> string) list" where
  "voltage_notes serial msgs = concat (map (voltage_note serial) msgs)"

lemma voltage_notes_append: "voltage_notes serial (xs @ ys) = voltage_notes serial xs @ voltage_notes serial ys"
  by (simp add: voltage_notes_def)

lemma other_notes:
  "voltage_note serial (raw_message e w t i s) = []" "voltage_note (upmuSerialNumber e) (summary_message e w t ms cs) = []"
  "voltage_note (upmuSerialNumber e) (unwrap_message e w t ms as) = []"
  "voltage_note (upmuSerialNumber e) (hourly_message e w t ms) = []"
  "voltage_note (upmuSerialNumber e) (voltage_message e w t ms runs r) = [(int (vr_phase r), vr_description r)]"
  by (simp_all add: voltage_note_def raw_message_def summary_message_def unwrap_message_def hourly_message_def
      voltage_message_def annotation_def annotation_fields_def Let_def)

lemma voltage_notes_raw:
  "(\<And>i s. voltage_note serial (raw i s) = []) \<Longrightarrow> voltage_notes serial (raw_messages raw i ss) = []"
  by (auto simp: voltage_notes_def raw_messages_def)

lemma voltage_notes_reports:
  "voltage_notes (upmuSerialNumber e) (map (voltage_message e w t ms runs) rs) = map (\<lambda>r. (int (vr_phase r), vr_description r)) rs"
  by (induction rs) (simp_all add: voltage_notes_def other_notes)

primrec process_seconds ::
  "surroundings \<Rightarrow> rabbit_world \<Rightarrow> (u32 \<times> rabbit_sample list) list \<Rightarrow> rabbit \<Rightarrow> rabbit run" where
  "process_seconds e w [] st = Ok st"
| "process_seconds e w (x # xs) st =
     run_bind (process_second e w (fst x) (snd x) st) (\<lambda>(st1, _). process_seconds e w xs st1)"

definition voltage_window :: "fp_ops \<Rightarrow> rabbit_sample list \<Rightarrow> f64 list list" where
  "voltage_window m ss = [per_unit m 0 ss, per_unit m 1 ss, per_unit m 2 ss]"

lemma second_work_v_mag:
  "sample_work m 0 ss second_start us = (wk, us') \<Longrightarrow> \<forall>s\<in>set ss. six_channels s \<Longrightarrow> sw_v_mag wk = voltage_window m ss"
  using sample_work_v_mag [of m 0 ss second_start us wk us' "[]" "[]" "[]"]
  by (simp add: second_start_def voltage_window_def)

lemma process_seconds_notes:
  assumes "all_published w"
  shows "voltage_seconds (fp e) kk (map (\<lambda>x. voltage_window (fp e) (snd x)) xs) ps = Ok (ps', rs) \<Longrightarrow>
    \<forall>x\<in>set xs. \<forall>s\<in>set (snd x). six_channels s \<Longrightarrow>
    rb_channel st \<Longrightarrow> serviceSpecStatsValues (stats (core st)) = Some (map_of rabbitmq_values) \<Longrightarrow>
    volt_kk st = kk \<Longrightarrow> volt_phases st = ps \<Longrightarrow> volt_runs st = 120 * kk - 7320 \<Longrightarrow>
    1 \<le> kk \<Longrightarrow> (kk + int (length xs)) * 120 \<le> 2147483647 \<Longrightarrow>
    \<exists>st'. process_seconds e w xs st = Ok st' \<and> voltage_notes (upmuSerialNumber e) (published st') =
      voltage_notes (upmuSerialNumber e) (published st) @ map (\<lambda>r. (int (vr_phase r), vr_description r)) rs"
proof (induction xs arbitrary: kk ps rs st)
  case Nil
  then show ?case by simp
next
  case (Cons x xs)
  obtain epoch ss where x: "x = (epoch, ss)" by fastforce
  from Cons.prems(1) obtain ps1 rs1 rs2 where
    v: "VoltageLimitMain (fp e) (kk + 1) (voltage_window (fp e) ss) ps = Ok (ps1, rs1)"
    and rest: "voltage_seconds (fp e) (kk + 1) (map (\<lambda>x. voltage_window (fp e) (snd x)) xs) ps1 = Ok (ps', rs2)"
    and rs: "rs = rs1 @ rs2" by (auto simp: x run_bind_Ok)
  obtain wk us where wk: "sample_work (fp e) 0 ss second_start (unwraps st) = (wk, us)" by fastforce
  have mag: "sw_v_mag wk = voltage_window (fp e) ss"
    using second_work_v_mag [OF wk] Cons.prems(2) by (simp add: x)
  have ready: "rabbit_ready st"
    using Cons.prems(3-9) by (simp add: rabbit_ready_def int_ok_def)
  from process_samples_ok [OF assms ready wk, of ps1 rs1 "gmtime (unat epoch)" "ucast epoch * 1000" "raw_message e w (gmtime (unat epoch))"] v
  obtain st1 where st1: "process_second e w epoch ss st = Ok (st1, False)"
    "published st1 = published st @ raw_messages (raw_message e w (gmtime (unat epoch))) 0 ss @
      [summary_message e w (gmtime (unat epoch)) (ucast epoch * 1000) (sw_summary wk),
       unwrap_message e w (gmtime (unat epoch)) (ucast epoch * 1000) (sw_unwrap wk)] @
      hourly_messages e w (gmtime (unat epoch)) (ucast epoch * 1000) (old_hour st) @
      map (voltage_message e w (gmtime (unat epoch)) (ucast epoch * 1000) (volt_runs st)) rs1"
    "volt_phases st1 = ps1" "volt_kk st1 = kk + 1" "volt_runs st1 = volt_runs st + 120" "rb_channel st1"
    "stats (core st1) = stats (core st)" by (auto simp: mag Cons.prems(5,6) process_second_samples)
  have nts: "voltage_notes (upmuSerialNumber e) (published st1) =
      voltage_notes (upmuSerialNumber e) (published st) @ map (\<lambda>r. (int (vr_phase r), vr_description r)) rs1"
    unfolding st1(2) voltage_notes_append voltage_notes_raw [OF other_notes(1)] voltage_notes_reports
    by (simp add: voltage_notes_def other_notes hourly_messages_def)
  have "\<exists>st'. process_seconds e w xs st1 = Ok st' \<and> voltage_notes (upmuSerialNumber e) (published st') =
      voltage_notes (upmuSerialNumber e) (published st1) @ map (\<lambda>r. (int (vr_phase r), vr_description r)) rs2"
    using Cons.prems st1(3-7) by (intro Cons.IH [OF rest]) (auto simp: x algebra_simps)
  then show ?case using st1(1) nts by (auto simp: x rs)
qed

text \<open>The magnitudes of a phase over many seconds, in units of the nominal voltage.\<close>

definition phase_stream :: "fp_ops \<Rightarrow> nat \<Rightarrow> (u32 \<times> rabbit_sample list) list \<Rightarrow> f64 list" where
  "phase_stream m k xs = concat (map (\<lambda>x. per_unit m k (snd x)) xs)"

definition fresh_rabbit :: "rabbit \<Rightarrow> bool" where
  "fresh_rabbit st \<longleftrightarrow> rb_channel st \<and> serviceSpecStatsValues (stats (core st)) = Some (map_of rabbitmq_values) \<and>
     volt_kk st = 1 \<and> volt_runs st = - 7200 \<and> volt_phases st = replicate 3 fresh_phase \<and> published st = []"

text \<open>The analysis of well-formed seconds ends, and its reports of a phase are the events that have ended.\<close>

lemma windows_reported:
  assumes "\<forall>ss\<in>set xs. length ss = 120"
    and "\<forall>k<3. (\<forall>v\<in>set (concat (map (per_unit m k) xs)). comparable m v) \<and>
      short_runs (map (class_of m) (concat (map (per_unit m k) xs)))"
    and "length xs \<le> 17895696"
  shows "\<exists>ps rs. voltage_seconds m 1 (map (voltage_window m) xs) (replicate 3 fresh_phase) = Ok (ps, rs) \<and>
    (\<forall>k<3. map snd (filter (\<lambda>n. fst n = int k) (map (\<lambda>r. (int (vr_phase r), vr_description r)) rs)) =
       map fst (ended_events (map (class_of m) (concat (map (per_unit m k) xs)))))"
proof -
  let ?ws = "map (voltage_window m) xs"
  have nth: "voltage_window m ss ! k = per_unit m k ss" if "k < 3" for k ss
  proof -
    have "k = 0 \<or> k = 1 \<or> k = 2" using that by linarith
    then show ?thesis by (auto simp: voltage_window_def)
  qed
  have stream: "stream_of m k ?ws = map (class_of m) (concat (map (per_unit m k) xs))" if "k < 3" for k
    using nth [OF that] by (simp add: stream_of_def comp_def)
  have good: "\<forall>v\<in>set ?ws. good_window m 3 v"
  proof
    fix v assume "v \<in> set ?ws"
    then obtain ss where x: "ss \<in> set xs" "v = voltage_window m ss" by auto
    have "length (v ! k) = 120 \<and> (\<forall>y\<in>set (v ! k). comparable m y)" if "k < 3" for k
      using assms(1,2) x(1) that unfolding x(2) nth [OF that] by (auto simp: per_unit_def)
    then show "good_window m 3 v" by (simp add: good_window_def x(2) voltage_window_def)
  qed
  have "\<exists>ps rs. voltage_seconds m 1 ?ws (replicate 3 fresh_phase) = Ok (ps, rs) \<and>
    (\<forall>i<3. ended_events (stream_of m i ?ws) = report_events i rs)"
    using voltage_seconds_inv [of 3 "replicate 3 fresh_phase" "replicate 3 []" ?ws m 0] good assms(2,3) stream
    by (simp add: fresh_phase_inv ended_events_Nil)
  then obtain ps rs where v: "voltage_seconds m 1 ?ws (replicate 3 fresh_phase) = Ok (ps, rs)"
    and ev: "\<And>i. i < 3 \<Longrightarrow> report_events i rs = ended_events (stream_of m i ?ws)" by metis
  have "map snd (filter (\<lambda>n. fst n = int k) (map (\<lambda>r. (int (vr_phase r), vr_description r)) rs)) =
      map fst (report_events k rs)" for k
    by (induction rs) (simp_all add: report_events_def)
  with v ev stream show ?thesis by auto
qed

text \<open>C20: Over any number of seconds of a fresh service up to the overflow of its counters, when the
  server takes every message and no event is longer than a minute, every sag, interruption and
  swell of a phase that has ended is published exactly once, in order, with the description that
  fits it, wherever the seconds cut the stream of samples.\<close>

theorem voltage_events_are_published_once:
  assumes "all_published w" "fresh_rabbit st"
    and "\<forall>x\<in>set xs. length (snd x) = 120 \<and> (\<forall>s\<in>set (snd x). six_channels s)"
    and "\<forall>k<3. (\<forall>v\<in>set (phase_stream (fp e) k xs). comparable (fp e) v) \<and>
      short_runs (map (class_of (fp e)) (phase_stream (fp e) k xs))"
    and "length xs \<le> 17895696"
  shows "\<exists>st'. process_seconds e w xs st = Ok st' \<and>
    (\<forall>k<3. map snd (filter (\<lambda>n. fst n = int k) (voltage_notes (upmuSerialNumber e) (published st'))) =
       map fst (ended_events (map (class_of (fp e)) (phase_stream (fp e) k xs))))"
proof -
  have "\<forall>ss\<in>set (map snd xs). length ss = 120" using assms(3) by simp
  from windows_reported [OF this, of "fp e"] assms(4,5) obtain ps rs where
    v: "voltage_seconds (fp e) 1 (map (\<lambda>x. voltage_window (fp e) (snd x)) xs) (replicate 3 fresh_phase) = Ok (ps, rs)" and
    ev: "\<forall>k<3. map snd (filter (\<lambda>n. fst n = int k) (map (\<lambda>r. (int (vr_phase r), vr_description r)) rs)) =
      map fst (ended_events (map (class_of (fp e)) (phase_stream (fp e) k xs)))" by (auto simp: phase_stream_def comp_def)
  have pub: "published st = []" and rd: "rb_channel st \<and> serviceSpecStatsValues (stats (core st)) = Some (map_of rabbitmq_values) \<and>
      volt_kk st = 1 \<and> volt_runs st = - 7200 \<and> volt_phases st = replicate 3 fresh_phase"
    using assms(2) by (simp_all add: fresh_rabbit_def)
  obtain st' where st': "process_seconds e w xs st = Ok st'"
    "voltage_notes (upmuSerialNumber e) (published st') = map (\<lambda>r. (int (vr_phase r), vr_description r)) rs"
    using process_seconds_notes [OF assms(1) v, of st] assms(3,5) rd pub by (auto simp: voltage_notes_def)
  with ev show ?thesis by auto
qed

subsection \<open>Without the server, without Cassandra\<close>

lemma rabbit_samples_some:
  "(\<And>i. i < n \<Longrightarrow> 4 * (p + 15 * i + 12) \<le> length mem) \<Longrightarrow>
   \<exists>ss. rabbit_samples m mem p n = Some ss \<and> length ss = n"
proof (induction n arbitrary: p)
  case (Suc n)
  have "swapped_words mem p 12 \<noteq> None" using Suc.prems [of 0] by (simp add: swapped_words_spec)
  moreover have "\<exists>ss. rabbit_samples m mem (p + 15) n = Some ss \<and> length ss = n"
  proof (rule Suc.IH)
    show "4 * (p + 15 + 15 * i + 12) \<le> length mem" if "i < n" for i using Suc.prems [of "Suc i"] that by simp
  qed
  ultimately show ?case by auto
qed simp

lemma rabbit_second_some:
  assumes "7208 \<le> length mem"
  shows "\<exists>epoch ss. rabbit_second m mem = Some (epoch, ss) \<and> length ss = 120"
proof -
  have "swapped_words mem 48 1 = Some (map (\<lambda>j. wire32 mem (4 * (48 + j))) [0..<1])"
    using assms by (intro swapped_words_spec) simp
  moreover obtain ss where "rabbit_samples m mem 5 120 = Some ss" "length ss = 120"
    using rabbit_samples_some [of 120 5 mem m] assms by auto
  ultimately show ?thesis by (simp add: rabbit_second_def UPMU_SAMPLES_PER_SEC_def)
qed

lemma rabbit_samples_shape:
  "rabbit_samples m mem p n = Some ss \<Longrightarrow> length ss = n \<and> (\<forall>s\<in>set ss. six_channels s)"
  by (induction n arbitrary: p ss)
    (auto simp: six_channels_def rabbit_sample_def Let_def bind_eq_Some_conv)

lemma rabbit_second_samples: "rabbit_second m mem = Some (epoch, ss) \<Longrightarrow> length ss = 120 \<and> (\<forall>s\<in>set ss. six_channels s)"
  by (auto simp: rabbit_second_def bind_eq_Some_conv UPMU_SAMPLES_PER_SEC_def dest: rabbit_samples_shape)

lemma no_class_short: "set cs \<subseteq> {None} \<Longrightarrow> short_runs cs"
  by (auto simp: short_runs_def over_limit_def set_replicate_conv_if split: if_splits)

lemma few_samples_short:
  assumes "length cs \<le> 7200"
  shows "short_runs cs"
  unfolding short_runs_def over_limit_def
proof (intro allI impI)
  fix ys n e zs
  assume "cs = ys @ replicate n (Some e) @ zs"
  then have "length cs = length ys + n + length zs" by simp
  then show "int n \<le> 7200" using assms by simp
qed

lemma process_second_no_channel:
  assumes "\<not> rb_channel st" "ss \<noteq> []"
  shows "process_second e w epoch ss st = Ub"
proof -
  obtain s ss' where ss: "ss = s # ss'" using assms(2) by (cases ss) auto
  have "sample_pass m w raw 0 s wk st = Ub" for m raw wk
    using assms(1) by (simp add: sample_pass_def publish_only_def basic_publish_def Let_def split: prod.splits)
  then show ?thesis by (simp add: process_second_samples process_samples_def ss)
qed

lemma startup_log_channel: "startup_log i e s st = Returns st' r \<Longrightarrow>
  rb_channel st' = rb_channel st \<and> dataQ (core st') = dataQ (core st) \<and> cmdQueue (core st') = cmdQueue (core st) \<and>
  processingBuffer (core st') = processingBuffer (core st)"
  by (auto simp: startup_log_def Let_def split: if_splits option.splits)

lemma read_rabbit_row_channel:
  assumes "read_rabbit_row i e s st = Returns st' r"
    and "ri_row i = None \<or> (\<exists>row. ri_row i = Some row \<and> \<not> rr_archiving_enabled row) \<or> \<not> ri_channel i"
  shows "rb_channel st' = rb_channel st \<and> dataQ (core st') = dataQ (core st) \<and> cmdQueue (core st') = cmdQueue (core st) \<and>
    processingBuffer (core st') = processingBuffer (core st)"
  using assms unfolding read_rabbit_row_def
  by (auto split: if_splits option.splits dest!: startup_log_channel)

text \<open>When RabbitMQ is disabled in the database, has no row there, or cannot be reached at the
  start, the service starts all the same, and the first second that it takes from its queue is
  undefined: it is published through a channel that does not exist.\<close>

theorem no_channel_is_undefined:
  assumes "initService_rabbit i e st = Returns st' True" "\<not> rb_channel st"
    and "ri_row i = None \<or> (\<exists>row. ri_row i = Some row \<and> \<not> rr_archiving_enabled row) \<or> \<not> ri_channel i"
    and "\<not> processingBuffer (core st)" "dataQ (core st) = b # q" "wf_c37 b" "4 \<le> length (behind_heap e1)"
  shows "rabbit_passes [(e0, w0), (e1, w1)] st' = Ub"
proof -
  have st': "\<not> rb_channel st'" "\<not> processingBuffer (core st')" "dataQ (core st') = b # q"
    using assms(1-5) unfolding initService_rabbit_def Let_def
    by (auto split: outcome.splits if_splits dest!: read_rabbit_row_channel)
  let ?c = "(core st')\<lparr>cmdQueue := snd (Dequeue (cmdQueue (core st')))\<rparr>"
  have take: "take_next preProcessData_rabbit e0 ?c =
      Ok (?c\<lparr>dataQ := q, dataBuf := Some b, bpr := begun 1, processingBuffer := True\<rparr>)"
    using st'(3) assms(6)
    by (simp add: take_next_def data_queue_take_def preProcessData_rabbit_def wf_c37_def SECBLK_LEN_BYTES_def begun_def)
  then obtain st1 where st1: "rabbit_pass e0 w0 st' = Ok st1" "\<not> rb_channel st1" "processingBuffer (core st1)"
    "dataBuf (core st1) = Some b" "bpr (core st1) = begun 1"
    using st'(1,2) by (simp add: rabbit_thread_defs lift_core_def Let_def)
  obtain epoch ss where s: "rabbit_second (fp e1) (dataBuffer b @ behind_heap e1) = Some (epoch, ss)" "length ss = 120"
    using rabbit_second_some [of "dataBuffer b @ behind_heap e1" "fp e1"] assms(6,7) by (auto simp: wf_c37_def)
  have "ss \<noteq> []" using s(2) by auto
  then have "rabbit_pass e1 w1 st1 = Ub"
    using st1 s(1) by (simp add: rabbit_thread_defs processData_rabbit_def begun_def
        process_second_no_channel Let_def)
  then show ?thesis using st1(1) by simp
qed

text \<open>The service is on a record that it has not finished.\<close>

definition stuck_on :: "data_buffer \<Rightarrow> rabbit \<Rightarrow> bool" where
  "stuck_on b st \<longleftrightarrow> processingBuffer (core st) \<and> dataBuf (core st) = Some b \<and>
     nextRecord (bpr (core st)) < numRecords (bpr (core st))"

definition summaries :: "string \<Rightarrow> rabbit_message list \<Rightarrow> rabbit_message list" where
  "summaries serial = filter (\<lambda>msg. msg_key msg = ''summary.ann.upmu.'' @ serial)"

lemma summaries_append: "summaries serial (xs @ ys) = summaries serial xs @ summaries serial ys"
  by (simp add: summaries_def)

lemma summaries_of_second:
  "summaries (upmuSerialNumber e) (raw_messages (raw_message e w t) i ss) = []"
  "summaries (upmuSerialNumber e) [summary_message e w t ms cs, unwrap_message e w t ms us] = [summary_message e w t ms cs]"
  "summaries (upmuSerialNumber e) (hourly_messages e w t ms h) = []"
  "summaries (upmuSerialNumber e) (map (voltage_message e w t ms runs) rs) = []"
  by (auto simp: summaries_def raw_messages_def filter_empty_conv raw_message_def summary_message_def unwrap_message_def
      hourly_messages_def hourly_message_def voltage_message_def Let_def)

lemma repeated_seconds:
  assumes "all_published w" "\<not> (cassArchivingEnabled e \<and> cassConnected e)"
    and "rabbit_second (fp e) (dataBuffer b @ behind_heap e) = Some (epoch, ss)" "\<forall>s\<in>set ss. six_channels s"
  shows "voltage_seconds (fp e) kk (replicate n (voltage_window (fp e) ss)) ps = Ok (ps', rs) \<Longrightarrow>
    stuck_on b st \<Longrightarrow> rb_channel st \<Longrightarrow> serviceSpecStatsValues (stats (core st)) = Some (map_of rabbitmq_values) \<Longrightarrow>
    volt_kk st = kk \<Longrightarrow> volt_phases st = ps \<Longrightarrow> volt_runs st = 120 * kk - 7320 \<Longrightarrow>
    1 \<le> kk \<Longrightarrow> (kk + int n) * 120 \<le> 2147483647 \<Longrightarrow>
    \<exists>st'. rabbit_passes (replicate n (e, w)) st = Ok st' \<and> stuck_on b st' \<and> dataQ (core st') = dataQ (core st) \<and>
      summaries (upmuSerialNumber e) (published st') = summaries (upmuSerialNumber e) (published st) @
        replicate n (summary_message e w (gmtime (unat epoch)) (ucast epoch * 1000)
          (foldl (\<lambda>cs s. summary_step (fp e) s cs) summary_start ss))"
proof (induction n arbitrary: kk ps rs st)
  case 0
  then show ?case by simp
next
  case (Suc n)
  let ?st = "st\<lparr>core := (core st)\<lparr>cmdQueue := snd (Dequeue (cmdQueue (core st)))\<rparr>\<rparr>"
  let ?cs = "foldl (\<lambda>cs s. summary_step (fp e) s cs) summary_start ss"
  from Suc.prems(1) obtain ps1 rs1 rs2 where
    v: "VoltageLimitMain (fp e) (kk + 1) (voltage_window (fp e) ss) ps = Ok (ps1, rs1)"
    and rest: "voltage_seconds (fp e) (kk + 1) (replicate n (voltage_window (fp e) ss)) ps1 = Ok (ps', rs2)"
    by (auto simp: run_bind_Ok)
  obtain wk us where wk: "sample_work (fp e) 0 ss second_start (unwraps ?st) = (wk, us)" by fastforce
  have mag: "sw_v_mag wk = voltage_window (fp e) ss" using second_work_v_mag [OF wk] assms(4) .
  have sum: "sw_summary wk = ?cs" using sample_work_summary [OF wk] by (simp add: second_start_def)
  have ready: "rabbit_ready ?st" using Suc.prems(3-9) by (simp add: rabbit_ready_def int_ok_def)
  from process_samples_ok [OF assms(1) ready wk, of ps1 rs1 "gmtime (unat epoch)" "ucast epoch * 1000" "raw_message e w (gmtime (unat epoch))"] v
  obtain st1 where st1: "process_second e w epoch ss ?st = Ok (st1, False)"
    "published st1 = published st @ raw_messages (raw_message e w (gmtime (unat epoch))) 0 ss @
      [summary_message e w (gmtime (unat epoch)) (ucast epoch * 1000) (sw_summary wk),
       unwrap_message e w (gmtime (unat epoch)) (ucast epoch * 1000) (sw_unwrap wk)] @
      hourly_messages e w (gmtime (unat epoch)) (ucast epoch * 1000) (old_hour st) @
      map (voltage_message e w (gmtime (unat epoch)) (ucast epoch * 1000) (volt_runs st)) rs1"
    "volt_phases st1 = ps1" "volt_kk st1 = kk + 1" "volt_runs st1 = volt_runs st + 120" "rb_channel st1"
    "stats (core st1) = stats (core st)" "dataQ (core st1) = dataQ (core st)" "stuck_on b st1"
    using assms(2) Suc.prems(2) by (auto simp: mag Suc.prems(5,6) stuck_on_def process_second_samples)
  have one: "summaries (upmuSerialNumber e) (published st1) = summaries (upmuSerialNumber e) (published st) @
      [summary_message e w (gmtime (unat epoch)) (ucast epoch * 1000) ?cs]"
    unfolding st1(2) sum summaries_append summaries_of_second by simp
  have "rabbit_pass e w st = Ok st1"
    using Suc.prems(2) assms(3) st1(1,9)
    by (simp add: rabbit_thread_defs processData_rabbit_def stuck_on_def Let_def not_le [symmetric])
  moreover have "\<exists>st'. rabbit_passes (replicate n (e, w)) st1 = Ok st' \<and> stuck_on b st' \<and> dataQ (core st') = dataQ (core st1) \<and>
      summaries (upmuSerialNumber e) (published st') = summaries (upmuSerialNumber e) (published st1) @
        replicate n (summary_message e w (gmtime (unat epoch)) (ucast epoch * 1000) ?cs)"
    using Suc.prems st1(3-7,9) by (intro Suc.IH [OF rest]) (auto simp: algebra_simps)
  ultimately show ?case using one st1(8) by auto
qed

text \<open>The analysis of the same second again and again, when nothing happens in it.\<close>

lemma calm_seconds_ok:
  assumes "\<forall>k<3. \<forall>v\<in>set (per_unit m k ss). class_of m v = None \<and> comparable m v"
    and "length ss = 120" "n \<le> 17895696"
  shows "\<exists>ps rs. voltage_seconds m 1 (replicate n (voltage_window m ss)) (replicate 3 fresh_phase) = Ok (ps, rs)"
proof -
  have calm: "class_of m v = None \<and> comparable m v" if "k < 3" "v \<in> set (per_unit m k ss)" for k v
    using assms(1) that by blast
  have "set (map (class_of m) (concat (map (per_unit m k) (replicate n ss)))) \<subseteq> {None}" if "k < 3" for k
    using calm [OF that] by auto
  then have short: "short_runs (map (class_of m) (concat (map (per_unit m k) (replicate n ss))))" if "k < 3" for k
    using that no_class_short by blast
  moreover have "\<forall>k<3. \<forall>v\<in>set (concat (map (per_unit m k) (replicate n ss))). comparable m v" using calm by auto
  ultimately show ?thesis using windows_reported [of "replicate n ss" m] assms(2,3) by auto
qed

text \<open>Without Cassandra the service never gets beyond a second: in every pass the same second
  is published anew, the buffer is never released, and the queue behind it only grows.\<close>

theorem second_repeats_without_cassandra:
  assumes "all_published w" "\<not> (cassArchivingEnabled e \<and> cassConnected e)" "fresh_rabbit st" "stuck_on b st"
    and "rabbit_second (fp e) (dataBuffer b @ behind_heap e) = Some (epoch, ss)"
    and "\<forall>k<3. \<forall>v\<in>set (per_unit (fp e) k ss). class_of (fp e) v = None \<and> comparable (fp e) v"
    and "n \<le> 17895696"
  shows "\<exists>st'. rabbit_passes (replicate n (e, w)) st = Ok st' \<and> dataBuf (core st') = Some b \<and>
    processingBuffer (core st') \<and> dataQ (core st') = dataQ (core st) \<and>
    summaries (upmuSerialNumber e) (published st') =
      replicate n (summary_message e w (gmtime (unat epoch)) (ucast epoch * 1000)
        (foldl (\<lambda>cs s. summary_step (fp e) s cs) summary_start ss))"
proof -
  note ss = rabbit_second_samples [OF assms(5)]
  obtain ps rs where v: "voltage_seconds (fp e) 1 (replicate n (voltage_window (fp e) ss)) (replicate 3 fresh_phase) = Ok (ps, rs)"
    using calm_seconds_ok [OF assms(6) conjunct1 [OF ss], of n] assms(7) by force
  have "summaries (upmuSerialNumber e) (published st) = []" using assms(3) by (simp add: fresh_rabbit_def summaries_def)
  then show ?thesis
    using repeated_seconds [OF assms(1,2,5) _ v, of st] ss assms(3,4,7) by (auto simp: fresh_rabbit_def stuck_on_def)
qed

subsection \<open>Concrete runs\<close>

text \<open>A machine on which every magnitude but zero is the nominal voltage.\<close>

definition unit_fp :: fp_ops where
  "unit_fp = zero_fp\<lparr>d_div := (\<lambda>x _. if x = 0 then 0 else d_1)\<rparr>"

definition rabbit_surroundings :: surroundings where
  "rabbit_surroundings = calm_world\<lparr>fp := unit_fp\<rparr>"

definition calm_rabbit_world :: rabbit_world where
  "calm_rabbit_world = \<lparr>rw_publish = (\<lambda>_. Published), rw_localip = ''10.0.0.1'', rw_location = ''LBNL'',
     rw_behind = \<lparr>us_first = 0, us_min = 0, us_max = 0, us_avg = 0\<rparr>\<rparr>"

definition idle_rabbit :: "bool \<Rightarrow> data_buffer list \<Rightarrow> rabbit" where
  "idle_rabbit ch q = \<lparr>core = (idle_archiver q)\<lparr>stats := created_rabbitmq_stats\<rparr>, rb_db_locked = False, rb_config = [],
     rb_enabled = True, rb_connected = ch, rb_channel = ch, published = [], reconnect_counter = 0,
     unwraps = replicate 6 \<lparr>uw_new = 0, uw_base = 0, uw_old = 0, uw_very_old = 0\<rparr>, old_hour = 0,
     volt_phases = replicate 3 fresh_phase, volt_kk = 1, volt_runs = - 7200\<rparr>"

definition flat_sample :: "f32 \<Rightarrow> rabbit_sample" where
  "flat_sample x = \<lparr>rs_mag = replicate 6 x, rs_ang = replicate 6 0\<rparr>"

lemma all_published_calm: "all_published calm_rabbit_world"
  by (simp add: all_published_def calm_rabbit_world_def)

lemma idle_rabbit_fresh: "fresh_rabbit (idle_rabbit True q)"
  by (simp add: fresh_rabbit_def idle_rabbit_def created_rabbitmq_stats_def)

lemma idle_rabbit_ready: "rabbit_ready (idle_rabbit True q)"
  by (simp add: rabbit_ready_def idle_rabbit_def created_rabbitmq_stats_def int_ok_def)

lemma flat_six_channels: "six_channels (flat_sample x)"
  by (simp add: six_channels_def flat_sample_def)

lemma ucast_zero_iff: "(ucast (x :: u32) :: u64) = 0 \<longleftrightarrow> x = 0"
proof
  assume h: "(ucast x :: u64) = 0"
  have "x = ucast (ucast x :: u64)" by (simp add: ucast_up_ucast_id is_up_def target_size source_size)
  then show "x = 0" by (simp add: h)
qed simp

lemma unit_class:
  "class_of unit_fp (d_div unit_fp (f2d unit_fp x) y) = (if x = 0 then Some Interruption else None)"
  "comparable unit_fp (d_div unit_fp (f2d unit_fp x) y)"
  by (simp_all add: class_of_def comparable_def unit_fp_def zero_fp_def d_1_def d_01_def d_09_def d_11_def ucast_zero_iff)

lemma per_unit_flat: "k < 6 \<Longrightarrow> per_unit m k (map flat_sample xs) = map (\<lambda>x. d_div m (f2d m x) d_vnom) xs"
  by (simp add: per_unit_def flat_sample_def)

definition example_seconds :: "(u32 \<times> rabbit_sample list) list" where
  "example_seconds = [(1000, map flat_sample (replicate 119 1 @ [0])), (1001, map flat_sample (0 # replicate 119 1))]"

lemma example_seconds_stream:
  assumes "k < 6"
  shows "map (class_of unit_fp) (phase_stream unit_fp k example_seconds) =
    replicate 119 None @ replicate 2 (Some Interruption) @ replicate 119 None"
proof -
  have "map (class_of unit_fp) (per_unit unit_fp k (map flat_sample xs)) =
      map (\<lambda>x. if x = 0 then Some Interruption else None) xs" for xs
    using assms by (simp add: per_unit_flat unit_class)
  from this [of "replicate 119 1 @ [0]"] this [of "0 # replicate 119 1"] show ?thesis
    unfolding phase_stream_def example_seconds_def by (simp add: numeral_2_eq_2)
qed

theorem voltage_events_are_published_once_witness:
  "\<exists>st'. process_seconds rabbit_surroundings calm_rabbit_world example_seconds (idle_rabbit True []) = Ok st' \<and>
     map snd (filter (\<lambda>n. fst n = 0) (voltage_notes ''P3001065'' (published st'))) = [''interruption'']"
proof -
  let ?cs = "replicate 119 None @ replicate 2 (Some Interruption) @ replicate 119 None"
  have fp: "fp rabbit_surroundings = unit_fp" "upmuSerialNumber rabbit_surroundings = ''P3001065''"
    by (simp_all add: rabbit_surroundings_def calm_world_def)
  have 3: "\<forall>x\<in>set example_seconds. length (snd x) = 120 \<and> (\<forall>s\<in>set (snd x). six_channels s)"
    by (auto simp: example_seconds_def flat_six_channels)
  have len: "length example_seconds \<le> 17895696" by (simp add: example_seconds_def)
  have "short_runs ?cs" by (rule few_samples_short) simp
  moreover have "\<forall>v\<in>set (phase_stream (fp rabbit_surroundings) k example_seconds). comparable (fp rabbit_surroundings) v" for k
    by (auto simp: fp phase_stream_def per_unit_def unit_class)
  ultimately have 4: "\<forall>k<3. (\<forall>v\<in>set (phase_stream (fp rabbit_surroundings) k example_seconds). comparable (fp rabbit_surroundings) v) \<and>
      short_runs (map (class_of (fp rabbit_surroundings)) (phase_stream (fp rabbit_surroundings) k example_seconds))"
    by (simp add: fp example_seconds_stream)
  have "ended_events ?cs = [(''interruption'', 118, 121)]" by code_simp
  moreover obtain st' where run: "process_seconds rabbit_surroundings calm_rabbit_world example_seconds (idle_rabbit True []) = Ok st'"
    and found: "\<forall>k<3. map snd (filter (\<lambda>n. fst n = int k) (voltage_notes (upmuSerialNumber rabbit_surroundings) (published st'))) =
       map fst (ended_events (map (class_of (fp rabbit_surroundings)) (phase_stream (fp rabbit_surroundings) k example_seconds)))"
    using voltage_events_are_published_once [OF all_published_calm idle_rabbit_fresh 3 4 len, of "[]"] by blast
  ultimately show ?thesis
    using spec [OF found, of 0] by (simp add: fp example_seconds_stream del: process_seconds.simps)
qed

theorem summary_of_a_second_witness:
  "sw_summary (fst (sample_work zero_fp 0 [flat_sample 5, flat_sample 7] second_start (unwraps (idle_rabbit True [])))) ! 0 =
     \<lparr>cs_min = 5, cs_max = 7, cs_mean = 0, cs_amin = 0, cs_amax = 0, cs_amean = 0\<rparr>"
proof -
  obtain wk us where wk: "sample_work zero_fp 0 [flat_sample 5, flat_sample 7] second_start (unwraps (idle_rabbit True [])) = (wk, us)" by fastforce
  show ?thesis
    unfolding wk fst_conv
    by (subst summary_of_a_second [OF wk])
      (simp_all add: flat_sample_def f_min_def f_max_def add_share_def wrap_360_def fmod_360_def zero_fp_def f_inf_def)
qed

lemma nominal_second:
  assumes "\<forall>s\<in>set ss. \<forall>k<3. rs_mag s ! k \<noteq> 0"
  shows "\<forall>k<3. \<forall>v\<in>set (per_unit unit_fp k ss). class_of unit_fp v = None \<and> comparable unit_fp v"
  using assms by (auto simp: per_unit_def unit_class)

theorem second_is_published_witness:
  "\<exists>st'. process_second rabbit_surroundings calm_rabbit_world 1000 (replicate 120 (flat_sample 1)) (idle_rabbit True []) =
     Ok (st', False) \<and> 122 \<le> length (published st') \<and> length (summaries ''P3001065'' (published st')) = 1"
proof -
  let ?st = "idle_rabbit True []" and ?ss = "replicate 120 (flat_sample 1)" and ?w = "voltage_window unit_fp (replicate 120 (flat_sample 1))"
  have fp: "fp rabbit_surroundings = unit_fp" "upmuSerialNumber rabbit_surroundings = ''P3001065''"
    by (simp_all add: rabbit_surroundings_def calm_world_def)
  obtain wk us where wk: "sample_work unit_fp 0 ?ss second_start (unwraps ?st) = (wk, us)" by fastforce
  have mag: "sw_v_mag wk = ?w" using second_work_v_mag [OF wk] by (simp add: flat_six_channels)
  have "\<forall>k<3. \<forall>v\<in>set (per_unit unit_fp k ?ss). class_of unit_fp v = None \<and> comparable unit_fp v"
    by (rule nominal_second) (auto simp: flat_sample_def)
  then have "\<exists>ps rs. voltage_seconds unit_fp 1 (replicate 1 ?w) (replicate 3 fresh_phase) = Ok (ps, rs)"
    by (intro calm_seconds_ok) simp_all
  then obtain ps rs where "VoltageLimitMain unit_fp (volt_kk ?st + 1) (sw_v_mag wk) (volt_phases ?st) = Ok (ps, rs)"
    by (auto simp: mag idle_rabbit_def run_bind_Ok)
  from second_is_published [OF all_published_calm idle_rabbit_ready, where e = rabbit_surroundings, unfolded fp,
      OF wk this refl refl, of 1000]
  obtain st' t where run: "process_second rabbit_surroundings calm_rabbit_world 1000 ?ss ?st = Ok (st', False)"
    and pub: "published st' = published ?st @ raw_messages (raw_message rabbit_surroundings calm_rabbit_world t) 0 ?ss @
      [summary_message rabbit_surroundings calm_rabbit_world t (ucast (1000 :: u32) * 1000) (sw_summary wk),
       unwrap_message rabbit_surroundings calm_rabbit_world t (ucast (1000 :: u32) * 1000) (sw_unwrap wk)] @
      hourly_messages rabbit_surroundings calm_rabbit_world t (ucast (1000 :: u32) * 1000) (old_hour ?st) @
      map (voltage_message rabbit_surroundings calm_rabbit_world t (ucast (1000 :: u32) * 1000) (volt_runs ?st)) rs"
    by (elim exE conjE) (rule that)
  have none: "published ?st = []" "summaries serial [] = []" for serial by (simp_all add: idle_rabbit_def summaries_def)
  have "length (summaries ''P3001065'' (published st')) = 1"
    unfolding pub summaries_append none summaries_of_second [of rabbit_surroundings, unfolded fp] by simp
  moreover have "122 \<le> length (published st')" unfolding pub by (simp add: raw_messages_def)
  ultimately show ?thesis using run by blast
qed

lemma wf_example_second: "wf_c37 example_second"
proof -
  have "list_all (\<lambda>f. length f = 74) (replicate 120 (replicate 74 (2 :: u8)))" by (simp add: list_all_iff)
  then have "length (concat (map frame_record (replicate 120 (replicate 74 (2 :: u8))))) = 60 * 120"
    by (subst length_concat_blocks [OF length_frame_records]) simp_all
  then have "length (dataBuffer example_second) = 7204" by (simp add: example_second_def second_memory_def)
  then show ?thesis by (simp add: wf_c37_def) (simp add: example_second_def)
qed

theorem no_channel_is_undefined_witness:
  "\<exists>st'. initService_rabbit \<lparr>ri_db_connected = True, ri_db_throws = False, ri_row = None, ri_channel = True, ri_now = 1, ri_now2 = 2\<rparr>
       rabbit_surroundings (idle_rabbit False [example_second]) = Returns st' True \<and>
     rabbit_passes [(rabbit_surroundings, calm_rabbit_world), (rabbit_surroundings, calm_rabbit_world)] st' = Ub"
proof -
  let ?i = "\<lparr>ri_db_connected = True, ri_db_throws = False, ri_row = None, ri_channel = True, ri_now = 1, ri_now2 = 2\<rparr>"
  let ?st = "idle_rabbit False [example_second]"
  have "\<exists>st'. initService_rabbit ?i rabbit_surroundings ?st = Returns st' True"
    by (simp add: initService_rabbit_def idle_rabbit_def createServiceCommonStats_def createServiceSpecificStats_rabbitmq_def
        create_specific_def created_rabbitmq_stats_def stats_at_start_def set_cells_def read_rabbit_row_def Let_def)
  then obtain st' where init: "initService_rabbit ?i rabbit_surroundings ?st = Returns st' True" by blast
  have "rabbit_passes [(rabbit_surroundings, calm_rabbit_world), (rabbit_surroundings, calm_rabbit_world)] st' = Ub"
    by (rule no_channel_is_undefined [OF init _ _ _ _ wf_example_second])
      (simp_all add: idle_rabbit_def idle_archiver_def rabbit_surroundings_def calm_world_def)
  with init show ?thesis by blast
qed

text \<open>A second all of whose words are the same.\<close>

definition flat_second :: data_buffer where
  "flat_second = \<lparr>byteLen = 7204, dataBuffer = replicate 7204 2, use_count = 1\<rparr>"

definition away_world :: surroundings where
  "away_world = rabbit_surroundings\<lparr>cassConnected := False, behind_heap := replicate 4 2\<rparr>"

definition stuck_rabbit :: rabbit where
  "stuck_rabbit = (idle_rabbit True [])\<lparr>core := (core (idle_rabbit True []))
     \<lparr>processingBuffer := True, dataBuf := Some flat_second, bpr := begun 1\<rparr>\<rparr>"

lemma flat_samples:
  "4 * (p + 15 * n) \<le> length mem + 12 \<Longrightarrow> set mem \<subseteq> {2} \<Longrightarrow>
   rabbit_samples m mem p n = Some (replicate n (rabbit_sample m (replicate 12 33686018)))"
proof (induction n arbitrary: p)
  case (Suc n)
  have "mem ! i = 2" if "i < length mem" for i using Suc.prems(2) that by (auto simp: subset_iff)
  then have "wire32 mem (4 * (p + j)) = 33686018" if "j < 12" for j
    using Suc.prems(1) that by (simp add: wire32_def be32_def)
  then have "map (\<lambda>j. wire32 mem (4 * (p + j))) [0..<12] = replicate 12 33686018"
    by (intro nth_equalityI) (simp_all del: upt_rec_numeral)
  then have "swapped_words mem p 12 = Some (replicate 12 33686018)"
    using Suc.prems(1) by (simp add: swapped_words_spec del: upt_rec_numeral)
  then show ?case using Suc.IH [of "p + 15"] Suc.prems by simp
qed simp

definition flat_samples_of_second :: "rabbit_sample list" where
  "flat_samples_of_second = replicate 120 (rabbit_sample unit_fp (replicate 12 33686018))"

lemma away_world_fields: "fp away_world = unit_fp" "upmuSerialNumber away_world = ''P3001065''"
  "\<not> (cassArchivingEnabled away_world \<and> cassConnected away_world)"
  by (simp_all add: away_world_def rabbit_surroundings_def calm_world_def)

lemma flat_second_read:
  "\<exists>epoch. rabbit_second unit_fp (dataBuffer flat_second @ behind_heap away_world) = Some (epoch, flat_samples_of_second)"
proof -
  have "rabbit_samples unit_fp (replicate 7208 2) 5 120 = Some flat_samples_of_second"
    unfolding flat_samples_of_second_def by (rule flat_samples) auto
  moreover have "swapped_words (replicate 7208 2) 48 1 = Some (map (\<lambda>j. wire32 (replicate 7208 2) (4 * (48 + j))) [0..<1])"
    by (rule swapped_words_spec) simp
  ultimately show ?thesis
    by (simp add: rabbit_second_def UPMU_SAMPLES_PER_SEC_def flat_second_def away_world_def replicate_add [symmetric])
qed

lemma flat_second_calm:
  "\<forall>k<3. \<forall>v\<in>set (per_unit unit_fp k flat_samples_of_second). class_of unit_fp v = None \<and> comparable unit_fp v"
  by (intro nominal_second) (auto simp: flat_samples_of_second_def rabbit_sample_def Let_def less_Suc_eq numeral_3_eq_3)

lemma stuck_rabbit_fresh: "fresh_rabbit stuck_rabbit" "stuck_on flat_second stuck_rabbit"
  by (simp_all add: stuck_rabbit_def fresh_rabbit_def idle_rabbit_def created_rabbitmq_stats_def stuck_on_def begun_def)

theorem second_repeats_without_cassandra_witness:
  "\<exists>st'. rabbit_passes (replicate 1000 (away_world, calm_rabbit_world)) stuck_rabbit = Ok st' \<and>
     dataBuf (core st') = Some flat_second \<and> length (summaries ''P3001065'' (published st')) = 1000"
proof -
  obtain epoch where s: "rabbit_second unit_fp (dataBuffer flat_second @ behind_heap away_world) = Some (epoch, flat_samples_of_second)"
    using flat_second_read by blast
  show ?thesis
    using second_repeats_without_cassandra [OF all_published_calm away_world_fields(3) stuck_rabbit_fresh,
      unfolded away_world_fields(1,2), OF s flat_second_calm, of 1000] by auto
qed

end
