(* ===== verification/Rabbit_Messages.thy ===== *)
theory Rabbit_Messages
  imports Rabbit_Archiver "HOL-Library.Sublist"
begin

text \<open>
  The types of what the RabbitMQ service publishes: whatever the server and the database answer,
  each message is an annotation with the fields that its readers rely on, of the right types,
  under a routing key that names its kind and the instrument.
\<close>

subsection \<open>Well-typed messages\<close>

datatype json_type = StringT | IntT | NumberT | ObjectT

primrec json_type_of :: "json \<Rightarrow> json_type" where
  "json_type_of (JString s) = StringT"
| "json_type_of (JInt i) = IntT"
| "json_type_of (JFloat x) = NumberT"
| "json_type_of (JDouble x) = NumberT"
| "json_type_of (JObject kvs) = ObjectT"

definition annotation_type :: "(string \<times> json_type) list" where
  "annotation_type = [(''@timestamp'', StringT), (''ANN_AUTHOR'', StringT), (''ANN_VER'', StringT), (''ANN_GROUP'', StringT),
     (''ANN_NAME'', StringT), (''ANN_TYPE'', StringT), (''ANN_SUBCLASS'', StringT), (''ANN_DESC'', StringT),
     (''ANN_DATASOURCE_UUID'', StringT), (''ANN_COMPUTATION_SITE'', StringT), (''ANN_SENSOR_LOCATION'', StringT),
     (''ANN_Severity'', IntT), (''ANN_PHASE'', IntT), (''ANN_TIME_INTERVAL'', ObjectT),
     (''elastic_index'', StringT), (''elastic_type'', StringT)]"

text \<open>The kinds of messages: the beginning of the routing key and the type of the entry.\<close>

definition message_kinds :: "(string \<times> string) list" where
  "message_kinds = [(''raw'', ''raw''), (''summary'', ''summary''), (''unwrap'', ''unwrapped_phase''),
     (''hourly'', ''hourly''), (''voltage_limit'', ''voltage_limit'')]"

definition typed_object :: "string \<Rightarrow> (string \<times> json) list \<Rightarrow> bool" where
  "typed_object serial kvs \<longleftrightarrow> distinct (map fst kvs) \<and>
     list_all (\<lambda>(k, t). map_option json_type_of (map_of kvs k) = Some t) annotation_type \<and>
     map_of kvs ''ANN_DATASOURCE_UUID'' = Some (JString serial)"

definition well_typed :: "string \<Rightarrow> rabbit_message \<Rightarrow> bool" where
  "well_typed serial msg \<longleftrightarrow> msg_exchange msg = ''ha-annotations'' \<and>
     (case msg_body msg of
        JObject kvs \<Rightarrow> typed_object serial kvs \<and>
          list_ex (\<lambda>(k, t). prefix (k @ ''.ann.upmu.'' @ serial) (msg_key msg) \<and>
                            map_of kvs ''elastic_type'' = Some (JString t)) message_kinds
      | _ \<Rightarrow> False)"

lemma six_channel_indices: "[0..<6] = [0, 1, 2, 3, 4, 5]"
  by code_simp

lemmas message_defs = well_typed_def typed_object_def message_kinds_def annotation_type_def annotation_def annotation_fields_def
  raw_message_def raw_data_def
  summary_message_def summary_object_def hourly_message_def heartbeat_message_def voltage_message_def channel_names_def
  interval_start_def interval_end_def

lemma messages_typed:
  "well_typed (upmuSerialNumber e) (raw_message e w t i s)"
  "well_typed (upmuSerialNumber e) (summary_message e w t ms cs)"
  "well_typed (upmuSerialNumber e) (hourly_message e w t ms)"
  "well_typed (upmuSerialNumber e) (heartbeat_message e w t ms)"
  "well_typed (upmuSerialNumber e) (voltage_message e w t ms runs r)"
  by (simp_all add: message_defs Let_def)

lemma unwrap_message_typed: "well_typed (upmuSerialNumber e) (unwrap_message e w t ms as)"
  unfolding unwrap_message_def six_channel_indices list.map unwrap_object_def Let_def
  by (simp add: message_defs)

text \<open>A step that publishes only well-typed messages, behind those that are there.\<close>

definition publishes :: "string \<Rightarrow> rabbit \<Rightarrow> rabbit \<Rightarrow> bool" where
  "publishes serial st st' \<longleftrightarrow> (\<exists>ms. published st' = published st @ ms \<and> list_all (well_typed serial) ms)"

lemma publishes_refl [simp]: "published st' = published st \<Longrightarrow> publishes serial st st'"
  by (simp add: publishes_def)

lemma publishes_trans [trans]: "publishes serial a b \<Longrightarrow> publishes serial b c \<Longrightarrow> publishes serial a c"
  by (fastforce simp: publishes_def)

lemma lift_core_published: "lift_core f st = Ok st' \<Longrightarrow> published st' = published st"
  by (auto simp: lift_core_def run_bind_Ok)

lemma basic_publish_publishes:
  "well_typed serial msg \<Longrightarrow> basic_publish w msg st = Ok (st', r) \<Longrightarrow> publishes serial st st'"
  by (auto simp: basic_publish_def publishes_def split: if_splits)

lemma publish_only_publishes:
  "well_typed serial msg \<Longrightarrow> publish_only w msg st = Ok st' \<Longrightarrow> publishes serial st st'"
  by (auto simp: publish_only_def run_bind_Ok dest: basic_publish_publishes)

lemma rabbitmqDataArchive_publishes:
  assumes "well_typed serial msg" "rabbitmqDataArchive w msg st = Ok st'"
  shows "publishes serial st st'"
proof -
  from assms(2) obtain st1 r where 1: "basic_publish w msg st = Ok (st1, r)" and 2: "published st' = published st1"
    by (auto simp: rabbitmqDataArchive_def run_bind_Ok dest!: lift_core_published split: if_splits)
  from basic_publish_publishes [OF assms(1) 1] 2 show ?thesis by (simp add: publishes_def)
qed

lemma publish_all_publishes:
  "list_all (well_typed serial) ms \<Longrightarrow> publish_all (rabbitmqDataArchive w) ms st = Ok st' \<Longrightarrow> publishes serial st st'"
proof (induction ms arbitrary: st)
  case (Cons msg ms)
  then obtain st1 where "rabbitmqDataArchive w msg st = Ok st1" "publish_all (rabbitmqDataArchive w) ms st1 = Ok st'"
    by (auto simp: run_bind_Ok)
  with Cons show ?case by (auto dest: rabbitmqDataArchive_publishes intro: publishes_trans)
qed simp

lemma sample_passes_publishes:
  assumes "\<And>i s. well_typed serial (raw i s)"
  shows "sample_passes m w raw i ss wk st = Ok (wk', st') \<Longrightarrow> publishes serial st st'"
proof (induction ss arbitrary: i wk st)
  case (Cons s ss)
  then obtain wk1 st1 where 1: "sample_pass m w raw i s wk st = Ok (wk1, st1)"
    and 2: "sample_passes m w raw (i + 1) ss wk1 st1 = Ok (wk', st')" by (auto simp: run_bind_Ok)
  from 1 obtain us where "publish_only w (raw i s) (st\<lparr>unwraps := us\<rparr>) = Ok st1"
    by (auto simp: sample_pass_def run_bind_Ok Let_def split: prod.splits)
  from publish_only_publishes [OF assms this] have "publishes serial st st1"
    by (simp add: publishes_def)
  with Cons.IH [OF 2] show ?case by (blast intro: publishes_trans)
qed simp

lemma hourly_pass_publishes: "hourly_pass e w t ms st = Ok st' \<Longrightarrow> publishes (upmuSerialNumber e) st st'"
  using rabbitmqDataArchive_publishes [OF messages_typed(3)]
  by (fastforce simp: hourly_pass_def run_bind_Ok publishes_def split: if_splits)

lemma heartbeat_pass_publishes: "heartbeat_pass e w t ms st = Ok st' \<Longrightarrow> publishes (upmuSerialNumber e) st st'"
  using rabbitmqDataArchive_publishes [OF messages_typed(4)]
  by (auto simp: heartbeat_pass_def split: if_splits)

lemma voltage_pass_publishes:
  assumes "voltage_pass e w t ms v st = Ok st'"
  shows "publishes (upmuSerialNumber e) st st'"
proof -
  from assms obtain kk ps rs st1 st2 runs where
    1: "publish_all (rabbitmqDataArchive w) (map (voltage_message e w t ms (volt_runs st)) rs)
          (st\<lparr>volt_kk := kk, volt_phases := ps\<rparr>) = Ok st1"
    and 2: "heartbeat_pass e w t ms st1 = Ok st2" and 3: "st' = st2\<lparr>volt_runs := runs\<rparr>"
    by (auto simp: voltage_pass_def run_bind_Ok)
  have "list_all (well_typed (upmuSerialNumber e)) (map (voltage_message e w t ms (volt_runs st)) rs)"
    by (simp add: list_all_iff messages_typed)
  from publish_all_publishes [OF this 1] have "publishes (upmuSerialNumber e) st st1" by (simp add: publishes_def)
  also note heartbeat_pass_publishes [OF 2]
  finally show ?thesis by (simp add: 3 publishes_def)
qed

lemma process_samples_publishes:
  assumes "\<And>i s. well_typed (upmuSerialNumber e) (raw i s)" "process_samples e w t ms raw ss st = Ok (st', c)"
  shows "publishes (upmuSerialNumber e) st st'"
proof -
  from assms(2) obtain wk st1 st2 st3 st4 st5 where
    1: "sample_passes (fp e) w raw 0 ss second_start st = Ok (wk, st1)"
    and 2: "rabbitmqDataArchive w (summary_message e w t ms (sw_summary wk)) st1 = Ok st2"
    and 3: "publish_only w (unwrap_message e w t ms (sw_unwrap wk)) st2 = Ok st3"
    and 4: "hourly_pass e w t ms st3 = Ok st4" and 5: "voltage_pass e w t ms (sw_v_mag wk) st4 = Ok st5"
    and 6: "finish_second e st5 = Ok (st', c)"
    unfolding process_samples_def by (auto simp only: run_bind_Ok prod.case split_paired_Ex)
  note sample_passes_publishes [OF assms(1) 1]
  also note rabbitmqDataArchive_publishes [OF messages_typed(2) 2]
  also note publish_only_publishes [OF unwrap_message_typed 3]
  also note hourly_pass_publishes [OF 4]
  also note voltage_pass_publishes [OF 5]
  finally show ?thesis using finish_second_keeps [OF 6] by (simp add: publishes_def)
qed

lemma process_second_publishes:
  "process_second e w epoch ss st = Ok (st', c) \<Longrightarrow> publishes (upmuSerialNumber e) st st'"
  unfolding process_second_samples by (rule process_samples_publishes [OF messages_typed(1)])

definition publishing :: "rabbit_processor \<Rightarrow> bool" where
  "publishing proc \<longleftrightarrow> (\<forall>e w b st st' c. proc e w b st = Ok (st', c) \<longrightarrow> publishes (upmuSerialNumber e) st st')"

lemma processData_publishing: "publishing processData_rabbit"
  by (auto simp: publishing_def processData_rabbit_def run_bind_Ok split: if_splits dest: process_second_publishes)

lemma process_current_publishes:
  assumes "publishing proc" "process_current_rabbit proc e w st = Ok st'"
  shows "publishes (upmuSerialNumber e) st st'"
proof (cases "dataBuf (core st)")
  case None
  then show ?thesis using assms(2) by (simp add: process_current_rabbit_def)
next
  case (Some b)
  with assms(2) obtain st1 c where 1: "proc e w b st = Ok (st1, c)" and 2: "published st' = published st1"
    by (auto simp: process_current_rabbit_def run_bind_Ok dest!: lift_core_published split: if_splits)
  from 1 assms(1) have "publishes (upmuSerialNumber e) st st1" unfolding publishing_def by blast
  with 2 show ?thesis by (simp add: publishes_def)
qed

lemma rabbit_pass_publishes:
  assumes "publishing proc" "rabbit_pass_of pre proc e w st = Ok st'"
  shows "publishes (upmuSerialNumber e) st st'"
proof -
  let ?st = "st\<lparr>core := (core st)\<lparr>cmdQueue := snd (Dequeue (cmdQueue (core st)))\<rparr>\<rparr>"
  from assms(2) obtain st1 where 1: "(if processingBuffer (core ?st) then process_current_rabbit proc e w ?st
      else lift_core (take_next pre e) ?st) = Ok st1" and 2: "published st' = published st1"
    unfolding rabbit_pass_of_def Let_def run_bind_Ok by force
  from 1 have "publishes (upmuSerialNumber e) ?st st1"
    using process_current_publishes [OF assms(1)] lift_core_published by (metis publishes_refl)
  with 2 show ?thesis by (simp add: publishes_def)
qed

text \<open>C21: All messages of the service are well typed, over any number of passes and whatever the
  server, Cassandra and the database do: each goes to the exchange of the annotations under a key
  with its kind and the serial number, and its body is an object of distinct keys that has the
  fields of an annotation, each of its type, with the instrument as its source.\<close>

theorem messages_are_well_typed:
  assumes "rabbit_passes xs st = Ok st'" "\<forall>x\<in>set xs. upmuSerialNumber (fst x) = serial"
    and "\<forall>msg\<in>set (published st). well_typed serial msg"
  shows "\<forall>msg\<in>set (published st'). well_typed serial msg"
  using assms
proof (induction xs arbitrary: st)
  case (Cons x xs)
  then obtain st1 where 1: "rabbit_pass (fst x) (snd x) st = Ok st1" and 2: "rabbit_passes xs st1 = Ok st'"
    by (auto simp: run_bind_Ok)
  from rabbit_pass_publishes [OF processData_publishing 1 [unfolded rabbit_pass_def]] Cons.prems(2,3) have "\<forall>msg\<in>set (published st1). well_typed serial msg"
    by (auto simp: publishes_def list_all_iff)
  with Cons.IH [OF 2] Cons.prems(2) show ?case by simp
qed simp

theorem messages_are_well_typed_witness:
  "\<exists>st'. rabbit_passes (replicate 2 (away_world, calm_rabbit_world)) stuck_rabbit = Ok st' \<and> published st' \<noteq> [] \<and>
     (\<forall>msg\<in>set (published st'). well_typed ''P3001065'' msg)"
proof -
  obtain epoch where s: "rabbit_second unit_fp (dataBuffer flat_second @ behind_heap away_world) = Some (epoch, flat_samples_of_second)"
    using flat_second_read by blast
  note ss = rabbit_second_samples [OF s]
  obtain ps rs where v: "voltage_seconds unit_fp 1 (replicate 2 (voltage_window unit_fp flat_samples_of_second)) (replicate 3 fresh_phase) = Ok (ps, rs)"
    using calm_seconds_ok [OF flat_second_calm, of 2] ss by auto
  obtain st' where run: "rabbit_passes (replicate 2 (away_world, calm_rabbit_world)) stuck_rabbit = Ok st'"
    and "length (summaries ''P3001065'' (published st')) = 2 + length (summaries ''P3001065'' (published stuck_rabbit))"
    using repeated_seconds [OF all_published_calm away_world_fields(3), unfolded away_world_fields(1,2), OF s _ v stuck_rabbit_fresh(2)]
      ss stuck_rabbit_fresh(1) by (fastforce simp: fresh_rabbit_def)
  then have "published st' \<noteq> []" by (auto simp: summaries_def)
  moreover have "\<forall>msg\<in>set (published st'). well_typed ''P3001065'' msg"
    using messages_are_well_typed [OF run, of "''P3001065''"] stuck_rabbit_fresh(1) away_world_fields(2) by (simp add: fresh_rabbit_def)
  ultimately show ?thesis using run by blast
qed

end
