(* ===== verification/Rabbit_Ftp.thy ===== *)
theory Rabbit_Ftp
  imports Rabbit_Archiver
begin

text \<open>
  The RabbitMQ service of the FTP gateway: \<open>ftp/serviceDataArchiverRabbitMQ\<close>. It differs from
  that of the C37.118 gateway in the buffer, which is a whole file of seconds in the layout of the
  instrument, in the time, which is read from six fields, and in the raw messages. What the two
  services have in common is a locale, of which both are instances.
\<close>

subsection \<open>Reading a second of a file\<close>

definition preProcessData_rabbit_ftp :: pre_processor where
  "preProcessData_rabbit_ftp e b st =
     (if byteLen b mod UPMU_1SEC_BUF_LEN \<noteq> 0
      then run_bind (count_spec 0 st) (\<lambda>st1. Ok (st1\<lparr>bpr := (bpr st1)\<lparr>numRecords := - 1\<rparr>\<rparr>, - 1))
      else Ok (st\<lparr>bpr := \<lparr>numRecords = byteLen b div UPMU_1SEC_BUF_LEN, nextRecord = 0,
                          numInsertsInAccum = 0, accumInsertTime = 0\<rparr>\<rparr>, 1))"

definition rabbit_sample_ftp :: "bytes \<Rightarrow> nat \<Rightarrow> nat \<Rightarrow> rabbit_sample option" where
  "rabbit_sample_ftp mem base i = do {
     mags \<leftarrow> those (map (\<lambda>k. mag_at mem base k i) [0..<6]);
     angs \<leftarrow> those (map (\<lambda>k. angle_at mem base k i) [0..<6]);
     Some \<lparr>rs_mag = mags, rs_ang = angs\<rparr> }"

text \<open>\<open>strftime\<close> into twenty bytes: the characters of fields outside their ranges, and of a time
  that needs more room, are unspecified.\<close>

definition strftime_iso :: "tm \<Rightarrow> string option" where
  "strftime_iso t =
     (if tm_sec t \<in> {0..60} \<and> tm_min t \<in> {0..59} \<and> tm_hour t \<in> {0..23} \<and> tm_mday t \<in> {1..31} \<and>
         tm_mon t \<in> {0..11} \<and> tm_year t + 1900 \<in> {1000..9999}
      then Some (iso_time t) else None)"

definition rabbit_second_ftp :: "bytes \<Rightarrow> nat \<Rightarrow> (tm \<times> int \<times> u32 list \<times> rabbit_sample list) option" where
  "rabbit_second_ftp mem base = do {
     t \<leftarrow> ftp_section_time mem base;
     epochTime \<leftarrow> mkgmtime t;
     bufft2 \<leftarrow> strftime_iso t;
     locks \<leftarrow> those (map (\<lambda>i. word_at mem base (LOCKSTATE_AT + i)) [0..<UPMU_SAMPLES_PER_SEC]);
     so \<leftarrow> those (map (rabbit_sample_ftp mem base) [0..<UPMU_SAMPLES_PER_SEC]);
     Some (t, epochTime, locks, so) }"

text \<open>The raw message has no zone in its times and no index and type of its entry.\<close>

definition raw_message_ftp :: "surroundings \<Rightarrow> rabbit_world \<Rightarrow> tm \<Rightarrow> u32 list \<Rightarrow> raw_maker" where
  "raw_message_ftp e w t locks indx s =
     (let rabbittime = iso_time t @ sample_suffix indx in
      \<lparr>msg_exchange = ''ha-annotations'',
       msg_key = ''raw.ann.upmu.'' @ upmuSerialNumber e @ ''.'' @ dec indx,
       msg_body = JObject ((''facility'', JString ''LBL'') #
         annotation_fields e w rabbittime ''LBNL_RGentz'' ''0.1'' ''uPMU_raw'' ''BL'' ''Raw Samples'' 0 0
           (JString rabbittime) (JString rabbittime) @
         [raw_data (fp e) s (JInt (sint (locks ! indx)))])\<rparr>)"

definition processData_rabbit_ftp :: rabbit_processor where
  "processData_rabbit_ftp e w b st =
     (if nextRecord (bpr (core st)) \<ge> numRecords (bpr (core st)) then Ok (st, True)
      else run_bind (checked (rabbit_second_ftp (dataBuffer b @ behind_heap e)
                       (unat (nextRecord (bpr (core st)) * UPMU_1SEC_BUF_LEN))))
             (\<lambda>(t, epochTime, locks, ss).
               process_samples e w t (of_int epochTime * 1000) (raw_message_ftp e w t locks) ss st))"

definition rabbit_pass_ftp :: rabbit_thread where
  "rabbit_pass_ftp = rabbit_pass_of preProcessData_rabbit_ftp processData_rabbit_ftp"

subsection \<open>What a second contributes\<close>

type_synonym timed_second = "tm \<times> u64 \<times> raw_maker \<times> rabbit_sample list"

definition second_raws :: "timed_second \<Rightarrow> rabbit_message list" where
  "second_raws = (\<lambda>(t, ms, raw, ss). raw_messages raw 0 ss)"

definition second_summary :: "surroundings \<Rightarrow> rabbit_world \<Rightarrow> timed_second \<Rightarrow> rabbit_message" where
  "second_summary e w = (\<lambda>(t, ms, raw, ss).
     summary_message e w t ms (foldl (\<lambda>cs s. summary_step (fp e) s cs) summary_start ss))"

definition second_samples :: "timed_second \<Rightarrow> rabbit_sample list" where
  "second_samples = (\<lambda>(t, ms, raw, ss). ss)"

definition raw_part :: "rabbit_message list \<Rightarrow> rabbit_message list" where
  "raw_part = filter (\<lambda>msg. take 4 (msg_key msg) = ''raw.'')"

lemma raw_part_append: "raw_part (xs @ ys) = raw_part xs @ raw_part ys"
  by (simp add: raw_part_def)

definition raw_keys :: "raw_maker \<Rightarrow> bool" where
  "raw_keys raw \<longleftrightarrow> (\<forall>i s. take 4 (msg_key (raw i s)) = ''raw.'')"

lemma raw_keys_messages:
  assumes "raw_keys raw"
  shows "raw_part (raw_messages raw i ss) = raw_messages raw i ss"
    and "summaries serial (raw_messages raw i ss) = []" and "voltage_notes serial (raw_messages raw i ss) = []"
proof -
  have k: "take 4 (msg_key m) = ''raw.''" if "m \<in> set (raw_messages raw i ss)" for m
    using that assms by (auto simp: raw_messages_def raw_keys_def)
  show "raw_part (raw_messages raw i ss) = raw_messages raw i ss" using k by (simp add: raw_part_def)
  show "summaries serial (raw_messages raw i ss) = []" using k by (fastforce simp: summaries_def filter_empty_conv)
  have "voltage_note serial (raw i s) = []" for i s
    using assms by (auto simp: voltage_note_def raw_keys_def dest!: spec [of _ i] spec [of _ s])
  then show "voltage_notes serial (raw_messages raw i ss) = []" by (rule voltage_notes_raw)
qed

lemma other_parts:
  "raw_part [summary_message e w t ms cs, unwrap_message e w t ms us] = []"
  "raw_part (hourly_messages e w t ms h) = []" "raw_part (map (voltage_message e w t ms runs) rs) = []"
  by (auto simp: raw_part_def filter_empty_conv summary_message_def unwrap_message_def hourly_messages_def
      hourly_message_def voltage_message_def)

lemma second_notes:
  "voltage_notes (upmuSerialNumber e) [summary_message e w t ms cs, unwrap_message e w t ms us] = []"
  "voltage_notes (upmuSerialNumber e) (hourly_messages e w t ms h) = []"
  by (simp_all add: voltage_notes_def other_notes hourly_messages_def)

text \<open>The state of the service between two seconds, after \<open>kk - 1\<close> of them.\<close>

definition between_seconds :: "int \<Rightarrow> phase_analysis list \<Rightarrow> rabbit \<Rightarrow> bool" where
  "between_seconds kk ps st \<longleftrightarrow> rb_channel st \<and> serviceSpecStatsValues (stats (core st)) = Some (map_of rabbitmq_values) \<and>
     volt_kk st = kk \<and> volt_phases st = ps \<and> volt_runs st = 120 * kk - 7320"

text \<open>What is said of the messages between two states.\<close>

definition adds ::
  "string \<Rightarrow> rabbit_message list \<Rightarrow> rabbit_message list \<Rightarrow> voltage_report list \<Rightarrow> rabbit \<Rightarrow> rabbit \<Rightarrow> bool" where
  "adds serial rws sms rs st st' \<longleftrightarrow>
     raw_part (published st') = raw_part (published st) @ rws \<and>
     summaries serial (published st') = summaries serial (published st) @ sms \<and>
     voltage_notes serial (published st') = voltage_notes serial (published st) @ map (\<lambda>r. (int (vr_phase r), vr_description r)) rs"

lemma adds_nothing: "published st' = published st \<Longrightarrow> adds serial [] [] [] st st'"
  by (simp add: adds_def)

lemma adds_trans: "adds serial a b c st st1 \<Longrightarrow> adds serial a' b' c' st1 st2 \<Longrightarrow> adds serial (a @ a') (b @ b') (c @ c') st st2"
  by (simp add: adds_def)

lemma second_adds:
  assumes "all_published w" "cassArchivingEnabled e \<and> cassConnected e" "between_seconds kk ps st"
    and "1 \<le> kk" "(kk + 1) * 120 \<le> 2147483647"
    and "\<forall>s\<in>set ss. six_channels s" "raw_keys raw"
    and "VoltageLimitMain (fp e) (kk + 1) (voltage_window (fp e) ss) ps = Ok (ps', rs)"
  shows "\<exists>st'. process_samples e w t ms raw ss st = Ok (st', False) \<and> between_seconds (kk + 1) ps' st' \<and>
    adds (upmuSerialNumber e) (second_raws (t, ms, raw, ss)) [second_summary e w (t, ms, raw, ss)] rs st st' \<and>
    dataBuf (core st') = dataBuf (core st) \<and> processingBuffer (core st') = processingBuffer (core st) \<and>
    dataQ (core st') = dataQ (core st) \<and> numRecords (bpr (core st')) = numRecords (bpr (core st)) \<and>
    numInsertsInAccum (bpr (core st')) = numInsertsInAccum (bpr (core st)) \<and>
    nextRecord (bpr (core st')) = nextRecord (bpr (core st)) + 1"
proof -
  obtain wk us where wk: "sample_work (fp e) 0 ss second_start (unwraps st) = (wk, us)" by fastforce
  have v: "VoltageLimitMain (fp e) (volt_kk st + 1) (sw_v_mag wk) (volt_phases st) = Ok (ps', rs)"
    using assms(3,8) second_work_v_mag [OF wk assms(6)] by (simp add: between_seconds_def)
  have ready: "rabbit_ready st" using assms(3-5) by (simp add: rabbit_ready_def between_seconds_def int_ok_def)
  have sum: "sw_summary wk = foldl (\<lambda>cs s. summary_step (fp e) s cs) summary_start ss"
    using sample_work_summary [OF wk] by (simp add: second_start_def)
  from process_samples_ok [OF assms(1) ready wk v, of t ms raw] obtain st' where
    st': "process_samples e w t ms raw ss st = Ok (st', False)"
    "published st' = published st @ raw_messages raw 0 ss @
      [summary_message e w t ms (sw_summary wk), unwrap_message e w t ms (sw_unwrap wk)] @
      hourly_messages e w t ms (old_hour st) @ map (voltage_message e w t ms (volt_runs st)) rs" and
    keep: "volt_phases st' = ps'" "volt_kk st' = volt_kk st + 1" "volt_runs st' = volt_runs st + 120" "rb_channel st'"
    "stats (core st') = stats (core st)" "dataBuf (core st') = dataBuf (core st)"
    "processingBuffer (core st') = processingBuffer (core st)" "dataQ (core st') = dataQ (core st)"
    "numRecords (bpr (core st')) = numRecords (bpr (core st))"
    "numInsertsInAccum (bpr (core st')) = numInsertsInAccum (bpr (core st))"
    "nextRecord (bpr (core st')) = nextRecord (bpr (core st)) + 1" using assms(2) by auto
  have "adds (upmuSerialNumber e) (second_raws (t, ms, raw, ss)) [second_summary e w (t, ms, raw, ss)] rs st st'"
    unfolding adds_def st'(2) raw_part_append summaries_append voltage_notes_append raw_keys_messages [OF assms(7)]
      other_parts second_notes summaries_of_second voltage_notes_reports sum
    by (simp add: second_raws_def second_summary_def)
  then show ?thesis using st'(1) keep assms(3) by (auto simp: between_seconds_def)
qed

subsection \<open>The contract of a variant\<close>

text \<open>A variant takes a buffer of \<open>records b\<close> seconds and turns pass after pass into the
  processing of \<open>second e w b k\<close>.\<close>

locale rabbit_variant =
  fixes pre :: pre_processor and proc :: rabbit_processor
    and wf :: "data_buffer \<Rightarrow> bool" and records :: "data_buffer \<Rightarrow> nat"
    and good :: "surroundings \<Rightarrow> bool"
    and second :: "surroundings \<Rightarrow> rabbit_world \<Rightarrow> data_buffer \<Rightarrow> nat \<Rightarrow> timed_second"
  assumes records_bound: "wf b \<Longrightarrow> records b < 1000000"
    and pre_accepts: "wf b \<Longrightarrow> pre e b c = Ok (c\<lparr>bpr := begun (records b)\<rparr>, 1)"
    and proc_done: "nextRecord (bpr (core st)) \<ge> numRecords (bpr (core st)) \<Longrightarrow> proc e w b st = Ok (st, True)"
    and proc_step: "wf b \<Longrightarrow> good e \<Longrightarrow> numRecords (bpr (core st)) = of_nat (records b) \<Longrightarrow>
      nextRecord (bpr (core st)) = of_nat k \<Longrightarrow> k < records b \<Longrightarrow> second e w b k = (t, ms, raw, ss) \<Longrightarrow>
      proc e w b st = process_samples e w t ms raw ss st"
    and second_shape: "wf b \<Longrightarrow> good e \<Longrightarrow> k < records b \<Longrightarrow> second e w b k = (t, ms, raw, ss) \<Longrightarrow>
      length ss = 120 \<and> (\<forall>s\<in>set ss. six_channels s) \<and> raw_keys raw"
begin

definition seconds :: "surroundings \<Rightarrow> rabbit_world \<Rightarrow> data_buffer \<Rightarrow> nat \<Rightarrow> timed_second list" where
  "seconds e w b k = map (second e w b) [k..<records b]"

lemma seconds_step: "k < records b \<Longrightarrow> seconds e w b k = second e w b k # seconds e w b (Suc k)"
  by (simp add: seconds_def upt_conv_Cons)

lemma one_second:
  assumes "wf b" "good e" "all_published w" "cassArchivingEnabled e \<and> cassConnected e" "between_seconds kk ps st"
    and "1 \<le> kk" "(kk + 1) * 120 \<le> 2147483647" "k < records b"
    and "processingBuffer (core st)" "dataBuf (core st) = Some b"
    and "numRecords (bpr (core st)) = of_nat (records b)" "nextRecord (bpr (core st)) = of_nat k"
    and "VoltageLimitMain (fp e) (kk + 1) (voltage_window (fp e) (second_samples (second e w b k))) ps = Ok (ps', rs)"
  shows "\<exists>st'. rabbit_pass_of pre proc e w st = Ok st' \<and> between_seconds (kk + 1) ps' st' \<and>
    adds (upmuSerialNumber e) (second_raws (second e w b k)) [second_summary e w (second e w b k)] rs st st' \<and>
    dataBuf (core st') = Some b \<and> processingBuffer (core st') \<and> dataQ (core st') = dataQ (core st) \<and>
    numRecords (bpr (core st')) = of_nat (records b) \<and> nextRecord (bpr (core st')) = of_nat (Suc k) \<and>
    numInsertsInAccum (bpr (core st')) = numInsertsInAccum (bpr (core st))"
proof -
  obtain t ms raw ss where s: "second e w b k = (t, ms, raw, ss)" by (cases "second e w b k")
  let ?st = "st\<lparr>core := (core st)\<lparr>cmdQueue := snd (Dequeue (cmdQueue (core st)))\<rparr>\<rparr>"
  have b: "between_seconds kk ps ?st" using assms(5) by (simp add: between_seconds_def)
  have v: "VoltageLimitMain (fp e) (kk + 1) (voltage_window (fp e) ss) ps = Ok (ps', rs)"
    using assms(13) by (simp add: s second_samples_def)
  from second_shape [OF assms(1,2,8) s] have "\<forall>s\<in>set ss. six_channels s" "raw_keys raw" by blast+
  from second_adds [OF assms(3,4) b assms(6,7) this v, of t ms]
  obtain st1 where st1: "process_samples e w t ms raw ss ?st = Ok (st1, False)" "between_seconds (kk + 1) ps' st1"
    "adds (upmuSerialNumber e) (second_raws (t, ms, raw, ss)) [second_summary e w (t, ms, raw, ss)] rs ?st st1"
    "dataBuf (core st1) = dataBuf (core ?st)" "processingBuffer (core st1) = processingBuffer (core ?st)"
    "dataQ (core st1) = dataQ (core ?st)" "numRecords (bpr (core st1)) = numRecords (bpr (core ?st))"
    "numInsertsInAccum (bpr (core st1)) = numInsertsInAccum (bpr (core ?st))"
    "nextRecord (bpr (core st1)) = nextRecord (bpr (core ?st)) + 1"
    by (elim exE conjE) (rule that)
  have "proc e w b ?st = Ok (st1, False)"
    using st1(1) by (subst proc_step [OF assms(1,2) _ _ assms(8) s]) (simp_all add: assms(11,12))
  then have "rabbit_pass_of pre proc e w st = Ok st1"
    using assms(9,10) st1(5) by (simp add: rabbit_pass_of_def process_current_rabbit_def)
  then show ?thesis using st1 assms(9-12) by (auto simp: s adds_def add.commute)
qed

lemma all_seconds:
  assumes "wf b" "good e" "all_published w" "cassArchivingEnabled e \<and> cassConnected e"
  shows "voltage_seconds (fp e) kk (map (\<lambda>x. voltage_window (fp e) (second_samples x)) (seconds e w b k)) ps = Ok (ps', rs) \<Longrightarrow>
    between_seconds kk ps st \<Longrightarrow> 1 \<le> kk \<Longrightarrow> (kk + int n) * 120 \<le> 2147483647 \<Longrightarrow> k + n = records b \<Longrightarrow>
    processingBuffer (core st) \<Longrightarrow> dataBuf (core st) = Some b \<Longrightarrow>
    numRecords (bpr (core st)) = of_nat (records b) \<Longrightarrow> nextRecord (bpr (core st)) = of_nat k \<Longrightarrow>
    numInsertsInAccum (bpr (core st)) = 0 \<Longrightarrow>
    \<exists>st'. run_rabbit (rabbit_pass_of pre proc) (replicate n (e, w)) st = Ok st' \<and>
      adds (upmuSerialNumber e) (concat (map second_raws (seconds e w b k))) (map (second_summary e w) (seconds e w b k)) rs st st' \<and>
      dataBuf (core st') = Some b \<and> processingBuffer (core st') \<and> dataQ (core st') = dataQ (core st) \<and>
      nextRecord (bpr (core st')) = numRecords (bpr (core st')) \<and> numInsertsInAccum (bpr (core st')) = 0"
proof (induction n arbitrary: kk ps rs st k)
  case 0
  then show ?case by (simp add: seconds_def adds_nothing)
next
  case (Suc n)
  then have k: "k < records b" by simp
  note step = seconds_step [OF k, of e w]
  from Suc.prems(1) obtain ps1 rs1 rs2 where
    v: "VoltageLimitMain (fp e) (kk + 1) (voltage_window (fp e) (second_samples (second e w b k))) ps = Ok (ps1, rs1)"
    and rest: "voltage_seconds (fp e) (kk + 1) (map (\<lambda>x. voltage_window (fp e) (second_samples x)) (seconds e w b (Suc k))) ps1 = Ok (ps', rs2)"
    and rs: "rs = rs1 @ rs2" by (auto simp: step run_bind_Ok)
  have "(kk + 1) * 120 \<le> 2147483647" using Suc.prems(4) by simp
  with one_second [OF assms Suc.prems(2,3) _ k Suc.prems(6-9) v] obtain st1 where
    st1: "rabbit_pass_of pre proc e w st = Ok st1" "between_seconds (kk + 1) ps1 st1"
    "adds (upmuSerialNumber e) (second_raws (second e w b k)) [second_summary e w (second e w b k)] rs1 st st1"
    "dataBuf (core st1) = Some b" "processingBuffer (core st1)" "dataQ (core st1) = dataQ (core st)"
    "numRecords (bpr (core st1)) = of_nat (records b)" "nextRecord (bpr (core st1)) = of_nat (Suc k)"
    "numInsertsInAccum (bpr (core st1)) = numInsertsInAccum (bpr (core st))" by blast
  have b1: "1 \<le> kk + 1" "(kk + 1 + int n) * 120 \<le> 2147483647" "Suc k + n = records b" "numInsertsInAccum (bpr (core st1)) = 0"
    using Suc.prems(3-5,10) st1(9) by simp_all
  from Suc.IH [OF rest st1(2) b1(1-3) st1(5,4,7,8) b1(4)] obtain st' where
    "run_rabbit (rabbit_pass_of pre proc) (replicate n (e, w)) st1 = Ok st'"
    "adds (upmuSerialNumber e) (concat (map second_raws (seconds e w b (Suc k)))) (map (second_summary e w) (seconds e w b (Suc k))) rs2 st1 st'"
    "dataBuf (core st') = Some b" "processingBuffer (core st')" "dataQ (core st') = dataQ (core st1)"
    "nextRecord (bpr (core st')) = numRecords (bpr (core st'))" "numInsertsInAccum (bpr (core st')) = 0" by blast
  with adds_trans [OF st1(3) this(2)] st1(1,6) show ?case by (simp add: step rs)
qed

text \<open>From the queue to the release of the buffer.\<close>

lemma buffer_published:
  assumes "wf b" "good e" "all_published w" "cassArchivingEnabled e \<and> cassConnected e" "fresh_rabbit st"
    and "\<not> processingBuffer (core st)" "dataQ (core st) = b # q"
    and "\<forall>k<3. (\<forall>v\<in>set (concat (map (\<lambda>x. per_unit (fp e) k (second_samples x)) (seconds e w b 0))). comparable (fp e) v) \<and>
      short_runs (map (class_of (fp e)) (concat (map (\<lambda>x. per_unit (fp e) k (second_samples x)) (seconds e w b 0))))"
  shows "\<exists>st'. run_rabbit (rabbit_pass_of pre proc) (replicate (records b + 2) (e, w)) st = Ok st' \<and>
    dataBuf (core st') = None \<and> \<not> processingBuffer (core st') \<and> dataQ (core st') = q \<and>
    raw_part (published st') = concat (map second_raws (seconds e w b 0)) \<and>
    summaries (upmuSerialNumber e) (published st') = map (second_summary e w) (seconds e w b 0) \<and>
    (\<forall>k<3. map snd (filter (\<lambda>n. fst n = int k) (voltage_notes (upmuSerialNumber e) (published st'))) =
       map fst (ended_events (map (class_of (fp e)) (concat (map (\<lambda>x. per_unit (fp e) k (second_samples x)) (seconds e w b 0))))))"
proof -
  let ?pass = "rabbit_pass_of pre proc" and ?xs = "map second_samples (seconds e w b 0)"
  have len: "length ?xs = records b" by (simp add: seconds_def)
  have shape: "\<forall>ss\<in>set ?xs. length ss = 120"
  proof
    fix ss assume "ss \<in> set ?xs"
    then obtain k where k: "k < records b" "ss = second_samples (second e w b k)" by (auto simp: seconds_def)
    obtain t ms raw ss' where s: "second e w b k = (t, ms, raw, ss')" by (cases "second e w b k")
    from second_shape [OF assms(1,2) k(1) s] show "length ss = 120"
      by (simp add: k(2) s second_samples_def)
  qed
  have "\<forall>k<3. (\<forall>v\<in>set (concat (map (per_unit (fp e) k) ?xs)). comparable (fp e) v) \<and>
      short_runs (map (class_of (fp e)) (concat (map (per_unit (fp e) k) ?xs)))"
    using assms(8) by (simp add: comp_def)
  from windows_reported [OF shape this] records_bound [OF assms(1)] len obtain ps rs where
    v: "voltage_seconds (fp e) 1 (map (voltage_window (fp e)) ?xs) (replicate 3 fresh_phase) = Ok (ps, rs)" and
    ev: "\<forall>k<3. map snd (filter (\<lambda>n. fst n = int k) (map (\<lambda>r. (int (vr_phase r), vr_description r)) rs)) =
      map fst (ended_events (map (class_of (fp e)) (concat (map (per_unit (fp e) k) ?xs))))" by auto
  let ?c = "(core st)\<lparr>cmdQueue := snd (Dequeue (cmdQueue (core st))), dataQ := q, dataBuf := Some b,
    bpr := begun (records b), processingBuffer := True\<rparr>"
  have 0: "?pass e w st = Ok (st\<lparr>core := ?c\<rparr>)"
    using assms(1,6,7) by (simp add: rabbit_pass_of_def lift_core_def take_next_def data_queue_take_def pre_accepts)
  have "between_seconds 1 (replicate 3 fresh_phase) (st\<lparr>core := ?c\<rparr>)"
    using assms(5) by (simp add: between_seconds_def fresh_rabbit_def)
  from all_seconds [OF assms(1-4) _ this, where n = "records b" and k = 0 and ps' = ps and rs = rs] v records_bound [OF assms(1)]
  obtain st1 where 1: "run_rabbit ?pass (replicate (records b) (e, w)) (st\<lparr>core := ?c\<rparr>) = Ok st1"
    "adds (upmuSerialNumber e) (concat (map second_raws (seconds e w b 0))) (map (second_summary e w) (seconds e w b 0)) rs (st\<lparr>core := ?c\<rparr>) st1"
    "dataBuf (core st1) = Some b" "processingBuffer (core st1)" "dataQ (core st1) = q"
    "nextRecord (bpr (core st1)) = numRecords (bpr (core st1))" "numInsertsInAccum (bpr (core st1)) = 0"
    by (auto simp: begun_def comp_def)
  have "proc e w b (st1\<lparr>core := (core st1)\<lparr>cmdQueue := snd (Dequeue (cmdQueue (core st1)))\<rparr>\<rparr>) =
      Ok (st1\<lparr>core := (core st1)\<lparr>cmdQueue := snd (Dequeue (cmdQueue (core st1)))\<rparr>\<rparr>, True)"
    using 1(6) by (intro proc_done) simp
  with 1(3-7) obtain st2 where 2: "?pass e w st1 = Ok st2" "dataBuf (core st2) = None" "\<not> processingBuffer (core st2)"
    "dataQ (core st2) = q" "published st2 = published st1"
    by (auto simp: rabbit_pass_of_def process_current_rabbit_def lift_core_def insert_timer_def)
  have app: "run_rabbit ?pass (xs @ ys) s = run_bind (run_rabbit ?pass xs s) (run_rabbit ?pass ys)" for xs ys s
  proof (induction xs arbitrary: s)
    case (Cons x xs)
    then show ?case by (cases "?pass (fst x) (snd x) s") simp_all
  qed simp
  have "replicate (records b + 2) (e, w) = (e, w) # replicate (records b) (e, w) @ [(e, w)]"
    by (simp add: replicate_append_same)
  then have "run_rabbit ?pass (replicate (records b + 2) (e, w)) st = Ok st2" using 0 1(1) 2(1) by (simp add: app)
  moreover have "published st = []" using assms(5) by (simp add: fresh_rabbit_def)
  ultimately show ?thesis
    using 1(2) 2 ev by (auto simp: adds_def raw_part_def summaries_def voltage_notes_def comp_def)
qed

end

subsection \<open>Both services meet the contract\<close>

definition wire_second :: "surroundings \<Rightarrow> rabbit_world \<Rightarrow> data_buffer \<Rightarrow> nat \<Rightarrow> timed_second" where
  "wire_second e w b k = (let (epoch, ss) = the (rabbit_second (fp e) (dataBuffer b @ behind_heap e)); t = gmtime (unat epoch)
     in (t, ucast epoch * 1000, raw_message e w t, ss))"

lemma raw_message_keys: "raw_keys (raw_message e w t)" "raw_keys (raw_message_ftp e w t locks)"
  by (simp_all add: raw_keys_def raw_message_def raw_message_ftp_def Let_def)

interpretation c37_rabbit: rabbit_variant preProcessData_rabbit processData_rabbit wf_c37 "\<lambda>_. 1"
  "\<lambda>e. 4 \<le> length (behind_heap e)" wire_second
proof
  show "\<And>b e c. wf_c37 b \<Longrightarrow> preProcessData_rabbit e b c = Ok (c\<lparr>bpr := begun 1\<rparr>, 1)"
    by (simp add: preProcessData_rabbit_def wf_c37_def SECBLK_LEN_BYTES_def begun_def)
  show "\<And>st e w b. numRecords (bpr (core st)) \<le> nextRecord (bpr (core st)) \<Longrightarrow> processData_rabbit e w b st = Ok (st, True)"
    by (simp add: processData_rabbit_def)
next
  fix b e w k t ms raw ss and st :: rabbit
  assume a: "wf_c37 b" "4 \<le> length (behind_heap e)" "k < (1 :: nat)" "wire_second e w b k = (t, ms, raw, ss)"
  obtain epoch ss' where s: "rabbit_second (fp e) (dataBuffer b @ behind_heap e) = Some (epoch, ss')"
    using rabbit_second_some [of "dataBuffer b @ behind_heap e" "fp e"] a(1,2) by (auto simp: wf_c37_def)
  have eq: "t = gmtime (unat epoch)" "ms = ucast epoch * 1000" "raw = raw_message e w t" "ss = ss'"
    using a(4) by (auto simp: wire_second_def s Let_def)
  show "length ss = 120 \<and> (\<forall>s\<in>set ss. six_channels s) \<and> raw_keys raw"
    using rabbit_second_samples [OF s] raw_message_keys by (simp add: eq)
  show "processData_rabbit e w b st = process_samples e w t ms raw ss st"
    if "numRecords (bpr (core st)) = of_nat 1" "nextRecord (bpr (core st)) = of_nat k"
    using that a(3) by (simp add: processData_rabbit_def s process_second_samples eq)
qed simp

text \<open>The second of a file, by the offsets of the struct.\<close>

definition sample_of_file :: "bytes \<Rightarrow> nat \<Rightarrow> nat \<Rightarrow> rabbit_sample" where
  "sample_of_file mem base i = \<lparr>rs_mag = map (\<lambda>k. host32 mem (base + 512 + 960 * k + 8 * i)) [0..<6],
     rs_ang = map (\<lambda>k. host32 mem (base + 508 + 960 * k + 8 * i)) [0..<6]\<rparr>"

definition file_second :: "surroundings \<Rightarrow> rabbit_world \<Rightarrow> data_buffer \<Rightarrow> nat \<Rightarrow> timed_second" where
  "file_second e w b k = (let mem = dataBuffer b; t = ftp_time mem (6312 * k) in
     (t, of_int (tm_epoch t) * 1000, raw_message_ftp e w t (map (\<lambda>i. host32 mem (6312 * k + 28 + 4 * i)) [0..<120]),
      map (sample_of_file mem (6312 * k)) [0..<120]))"

lemma rabbit_sample_ftp_spec:
  assumes "base + 6268 \<le> length mem" "i < 120"
  shows "rabbit_sample_ftp mem base i = Some (sample_of_file mem base i)"
proof -
  have "those (map (\<lambda>k. mag_at mem base k i) [0..<6]) = Some (map (\<lambda>k. host32 mem (base + 512 + 960 * k + 8 * i)) [0..<6])"
    using assms by (intro those_all) (simp add: mag_at_def word_at_inside PHASORS_AT_def algebra_simps)
  moreover have "those (map (\<lambda>k. angle_at mem base k i) [0..<6]) = Some (map (\<lambda>k. host32 mem (base + 508 + 960 * k + 8 * i)) [0..<6])"
    using assms by (intro those_all) (simp add: angle_at_def word_at_inside PHASORS_AT_def algebra_simps)
  ultimately show ?thesis by (simp add: rabbit_sample_ftp_def sample_of_file_def del: upt_rec_numeral)
qed

lemma days_of_months_nonneg: "0 \<le> days_of_months y m"
  by (induction m) (simp_all add: month_length_def)

lemma strftime_of_date:
  assumes "date_ok t" "tm_epoch t < 2147483648"
  shows "strftime_iso t = Some (iso_time t)"
proof -
  let ?n = "nat (tm_year t - 70)"
  have "365 * int ?n \<le> days_of_years ?n" using leap_days_nonneg [of ?n] by (simp add: days_of_years_closed)
  moreover have "0 \<le> days_of_months (1970 + int ?n) (nat (tm_mon t))" by (rule days_of_months_nonneg)
  ultimately have "86400 * (365 * int ?n) \<le> tm_epoch t"
    using assms(1) by (simp add: tm_epoch_def epoch_seconds_def date_ok_def)
  then have "tm_year t \<le> 200" using assms by (simp add: date_ok_def)
  then show ?thesis using assms(1) by (simp add: strftime_iso_def date_ok_def)
qed

lemma rabbit_second_ftp_spec:
  assumes "base + 6268 \<le> length mem" "date_ok (ftp_time mem base)" "tm_epoch (ftp_time mem base) < 2147483648"
  shows "rabbit_second_ftp mem base = Some (ftp_time mem base, tm_epoch (ftp_time mem base),
    map (\<lambda>i. host32 mem (base + 28 + 4 * i)) [0..<120], map (sample_of_file mem base) [0..<120])"
proof -
  have "ftp_section_time mem base = Some (ftp_time mem base)"
    using assms(1) by (simp add: ftp_section_time_def ftp_time_def word_at_inside)
  moreover have "those (map (\<lambda>i. word_at mem base (LOCKSTATE_AT + i)) [0..<120]) = Some (map (\<lambda>i. host32 mem (base + 28 + 4 * i)) [0..<120])"
    using assms(1) by (intro those_all) (simp add: word_at_inside LOCKSTATE_AT_def add.assoc)
  moreover have "those (map (rabbit_sample_ftp mem base) [0..<120]) = Some (map (sample_of_file mem base) [0..<120])"
    using assms(1) by (intro those_all) (simp add: rabbit_sample_ftp_spec)
  ultimately show ?thesis
    using assms(2,3)
    by (simp add: rabbit_second_ftp_def UPMU_SAMPLES_PER_SEC_def mkgmtime_date strftime_of_date del: upt_rec_numeral)
qed

lemma sample_of_file_append:
  assumes "base + 6268 \<le> length xs" "i < 120"
  shows "sample_of_file (xs @ ys) base i = sample_of_file xs base i"
  using assms by (simp add: sample_of_file_def host32_append)

lemma next_second_ftp:
  assumes "wf_ftp b" "k < records_ftp b"
  shows "rabbit_second_ftp (dataBuffer b @ mem) (unat ((of_nat k :: u32) * UPMU_1SEC_BUF_LEN)) =
    Some (ftp_time (dataBuffer b) (6312 * k), tm_epoch (ftp_time (dataBuffer b) (6312 * k)),
      map (\<lambda>i. host32 (dataBuffer b) (6312 * k + 28 + 4 * i)) [0..<120],
      map (sample_of_file (dataBuffer b) (6312 * k)) [0..<120])"
proof -
  have in_b: "6312 * k + 6312 \<le> length (dataBuffer b)"
    using record_inside [OF assms(2)] assms(1) by (simp add: wf_ftp_def)
  have ok: "date_ok (ftp_time (dataBuffer b) (6312 * k)) \<and> tm_epoch (ftp_time (dataBuffer b) (6312 * k)) < 2147483648"
    using assms by (simp add: wf_ftp_def list_all_iff)
  have t: "ftp_time (dataBuffer b @ mem) (6312 * k) = ftp_time (dataBuffer b) (6312 * k)"
    using in_b by (intro ftp_time_append) simp
  have "map (\<lambda>i. host32 (dataBuffer b @ mem) (6312 * k + 28 + 4 * i)) [0..<120] =
      map (\<lambda>i. host32 (dataBuffer b) (6312 * k + 28 + 4 * i)) [0..<120]"
    using in_b by (intro map_cong refl host32_append) simp
  moreover have "map (sample_of_file (dataBuffer b @ mem) (6312 * k)) [0..<120] = map (sample_of_file (dataBuffer b) (6312 * k)) [0..<120]"
    using in_b by (intro map_cong refl sample_of_file_append) simp_all
  ultimately show ?thesis
    unfolding unat_record_offset [OF assms(2)]
    using rabbit_second_ftp_spec [of "6312 * k" "dataBuffer b @ mem"] in_b ok by (simp add: t del: upt_rec_numeral)
qed

interpretation ftp_rabbit: rabbit_variant preProcessData_rabbit_ftp processData_rabbit_ftp wf_ftp records_ftp
  "\<lambda>_. True" file_second
proof
  show "\<And>b. wf_ftp b \<Longrightarrow> records_ftp b < 1000000"
  proof -
    fix b :: data_buffer
    have "unat (byteLen b) < 2 ^ 32" by (rule order_less_le_trans [OF unsigned_less]) simp
    then show "records_ftp b < 1000000" unfolding records_ftp_def by (simp add: div_less_iff_less_mult)
  qed
  show "\<And>b e c. wf_ftp b \<Longrightarrow> preProcessData_rabbit_ftp e b c = Ok (c\<lparr>bpr := begun (records_ftp b)\<rparr>, 1)"
    by (simp add: preProcessData_rabbit_ftp_def wf_ftp_def whole_seconds begun_def records_ftp_word)
  show "\<And>st e w b. numRecords (bpr (core st)) \<le> nextRecord (bpr (core st)) \<Longrightarrow> processData_rabbit_ftp e w b st = Ok (st, True)"
    by (simp add: processData_rabbit_ftp_def)
next
  fix b e w k t ms raw ss and st :: rabbit
  assume a: "wf_ftp b" "k < records_ftp b" "file_second e w b k = (t, ms, raw, ss)"
  show "length ss = 120 \<and> (\<forall>s\<in>set ss. six_channels s) \<and> raw_keys raw"
    using a(3) raw_message_keys by (auto simp: file_second_def Let_def six_channels_def sample_of_file_def)
  assume n: "numRecords (bpr (core st)) = of_nat (records_ftp b)" "nextRecord (bpr (core st)) = of_nat k"
  have "nextRecord (bpr (core st)) < numRecords (bpr (core st))"
    using n a(2) records_ftp_bound [of b] by (simp add: word_less_nat_alt unat_of_nat take_bit_eq_mod)
  then have lt: "\<not> numRecords (bpr (core st)) \<le> nextRecord (bpr (core st))" by simp
  show "processData_rabbit_ftp e w b st = process_samples e w t ms raw ss st"
    using a(3) lt next_second_ftp [OF a(1,2)]
    by (auto simp: processData_rabbit_ftp_def n(2) file_second_def Let_def simp del: upt_rec_numeral)
qed

subsection \<open>A whole file\<close>

text \<open>The magnitudes of a phase over a file, in units of the nominal voltage.\<close>

definition file_stream :: "fp_ops \<Rightarrow> nat \<Rightarrow> data_buffer \<Rightarrow> f64 list" where
  "file_stream m k b = concat (map (\<lambda>r. per_unit m k (map (sample_of_file (dataBuffer b) (6312 * r)) [0..<120])) [0..<records_ftp b])"

lemma second_samples_file: "second_samples (file_second e w b r) = map (sample_of_file (dataBuffer b) (6312 * r)) [0..<120]"
  by (simp add: second_samples_def file_second_def Let_def del: upt_rec_numeral)

lemma file_stream_seconds:
  "file_stream m k b = concat (map (\<lambda>x. per_unit m k (second_samples x)) (ftp_rabbit.seconds e w b 0))"
  by (simp add: file_stream_def ftp_rabbit.seconds_def second_samples_file comp_def del: upt_rec_numeral)

text \<open>C7: A fresh service of the FTP gateway publishes a whole file and then releases it, in as many
  passes as it has seconds and two more, when Cassandra is connected and the server takes every
  message: all its raw samples in the order of the file, a summary for each second, and each sag,
  interruption and swell of a phase that has ended in the file exactly once, wherever the
  seconds cut it.\<close>

theorem ftp_file_is_published:
  assumes "wf_ftp b" "all_published w" "cassArchivingEnabled e \<and> cassConnected e" "fresh_rabbit st"
    and "\<not> processingBuffer (core st)" "dataQ (core st) = b # q"
    and "\<forall>k<3. (\<forall>v\<in>set (file_stream (fp e) k b). comparable (fp e) v) \<and> short_runs (map (class_of (fp e)) (file_stream (fp e) k b))"
  shows "\<exists>st'. run_rabbit rabbit_pass_ftp (replicate (records_ftp b + 2) (e, w)) st = Ok st' \<and>
    dataBuf (core st') = None \<and> \<not> processingBuffer (core st') \<and> dataQ (core st') = q \<and>
    raw_part (published st') = concat (map (\<lambda>r. second_raws (file_second e w b r)) [0..<records_ftp b]) \<and>
    summaries (upmuSerialNumber e) (published st') = map (\<lambda>r. second_summary e w (file_second e w b r)) [0..<records_ftp b] \<and>
    (\<forall>k<3. map snd (filter (\<lambda>n. fst n = int k) (voltage_notes (upmuSerialNumber e) (published st'))) =
       map fst (ended_events (map (class_of (fp e)) (file_stream (fp e) k b))))"
  using ftp_rabbit.buffer_published [OF assms(1) TrueI assms(2-6), folded file_stream_seconds, OF assms(7)]
  by (simp add: rabbit_pass_ftp_def ftp_rabbit.seconds_def comp_def)

subsection \<open>A concrete file\<close>

text \<open>Two seconds of the 24th of April 2017: no voltage in the first, the nominal one in the second.\<close>

definition block_header :: "u8 \<Rightarrow> bytes" where
  "block_header s = [0, 0, 0, 0, 225, 7, 0, 0, 4, 0, 0, 0, 24, 0, 0, 0, 0, 0, 0, 0, 0, 0, 0, 0, s, 0, 0, 0]"

definition second_block :: "u8 \<Rightarrow> u8 \<Rightarrow> bytes" where
  "second_block s x = block_header s @ replicate 6284 x"

definition two_second_file :: data_buffer where
  "two_second_file = \<lparr>byteLen = 12624, dataBuffer = second_block 0 0 @ second_block 1 1 @ [], use_count = 1\<rparr>"

lemma length_second_block: "length (second_block s x) = 6312"
  by (simp add: second_block_def block_header_def)

lemma second_block_time: "ftp_time (second_block s x @ ys) 0 =
    \<lparr>tm_sec = sint (be32 0 0 0 s), tm_min = 0, tm_hour = 0, tm_mday = 24, tm_mon = 3, tm_year = 117\<rparr>"
  by (simp add: ftp_time_def host32_def second_block_def block_header_def nth_append be32_def)

lemma second_block_nth:
  assumes "28 \<le> j" "j < 6312"
  shows "(second_block s x @ ys) ! j = x"
proof -
  have "length (block_header s) = 28" "j - 28 < 6284" using assms by (simp_all add: block_header_def)
  then show ?thesis using assms by (simp add: second_block_def nth_append)
qed

lemma second_block_word: "28 \<le> i \<Longrightarrow> i + 4 \<le> 6312 \<Longrightarrow> host32 (second_block s x @ ys) i = be32 x x x x"
  by (simp add: host32_def second_block_nth)

lemma host32_behind: "host32 (second_block s x @ ys) (6312 + i) = host32 ys i"
  by (simp add: host32_def nth_append length_second_block add.commute)

lemma second_blocks:
  "ftp_time (second_block s x @ ys) 6312 = ftp_time ys 0" "sample_of_file (second_block s x @ ys) 6312 i = sample_of_file ys 0 i"
proof -
  show "ftp_time (second_block s x @ ys) 6312 = ftp_time ys 0"
    unfolding ftp_time_def host32_behind by simp
  show "sample_of_file (second_block s x @ ys) 6312 i = sample_of_file ys 0 i"
    unfolding sample_of_file_def add.assoc host32_behind by (simp add: add.assoc)
qed

lemma second_block_sample:
  assumes "i < 120"
  shows "sample_of_file (second_block s x @ ys) 0 i = \<lparr>rs_mag = replicate 6 (be32 x x x x), rs_ang = replicate 6 (be32 x x x x)\<rparr>"
proof -
  have "map (\<lambda>k. host32 (second_block s x @ ys) (c + 960 * k + 8 * i)) [0..<6] = map (\<lambda>k. be32 x x x x) [0..<6]"
    if "28 \<le> c" "c \<le> 512" for c using that assms by (intro map_cong refl second_block_word) simp_all
  from this [of 508] this [of 512] show ?thesis by (simp add: sample_of_file_def map_replicate_const)
qed

lemma two_second_file_records: "records_ftp two_second_file = 2"
  by (simp add: records_ftp_def two_second_file_def)

lemma two_seconds: "[0..<2] = [0, 1 :: nat]" by (simp add: numeral_2_eq_2)

lemma april_24: "tm_epoch \<lparr>tm_sec = s, tm_min = 0, tm_hour = 0, tm_mday = 24, tm_mon = 3, tm_year = 117\<rparr> = 1492992000 + s"
  by (simp add: tm_epoch_def epoch_seconds_def days_of_years_closed leap_days_def numeral_eq_Suc month_length_def leap_year_def)

lemma two_second_file_wf: "wf_ftp two_second_file"
proof -
  have b: "dataBuffer two_second_file = second_block 0 0 @ second_block 1 1 @ []" by (simp add: two_second_file_def)
  have t: "ftp_time (dataBuffer two_second_file) 0 = \<lparr>tm_sec = 0, tm_min = 0, tm_hour = 0, tm_mday = 24, tm_mon = 3, tm_year = 117\<rparr>"
    "ftp_time (dataBuffer two_second_file) 6312 = \<lparr>tm_sec = 1, tm_min = 0, tm_hour = 0, tm_mday = 24, tm_mon = 3, tm_year = 117\<rparr>"
    unfolding b second_blocks second_block_time by (simp_all add: be32_def)
  have "length (dataBuffer two_second_file) = 12624" "byteLen two_second_file = 12624"
    by (simp_all add: two_second_file_def length_second_block)
  then show ?thesis
    unfolding wf_ftp_def two_second_file_records two_seconds by (simp add: t april_24 date_ok_def)
qed

lemma two_second_file_stream:
  assumes "k < 3"
  shows "map (class_of unit_fp) (file_stream unit_fp k two_second_file) = replicate 120 (Some Interruption) @ replicate 120 None"
    and "\<forall>v\<in>set (file_stream unit_fp k two_second_file). comparable unit_fp v"
proof -
  have b: "dataBuffer two_second_file = second_block 0 0 @ second_block 1 1 @ []" by (simp add: two_second_file_def)
  have "map (sample_of_file (dataBuffer two_second_file) 0) [0..<120] = replicate 120 \<lparr>rs_mag = replicate 6 0, rs_ang = replicate 6 0\<rparr>"
    "map (sample_of_file (dataBuffer two_second_file) 6312) [0..<120] =
      replicate 120 \<lparr>rs_mag = replicate 6 0x1010101, rs_ang = replicate 6 0x1010101\<rparr>"
    unfolding b second_blocks
    by (rule nth_equalityI, simp_all add: second_block_sample second_block_sample [where ys = "[]", simplified] be32_def del: upt_rec_numeral)+
  moreover have "file_stream unit_fp k two_second_file = per_unit unit_fp k (map (sample_of_file (dataBuffer two_second_file) 0) [0..<120]) @
      per_unit unit_fp k (map (sample_of_file (dataBuffer two_second_file) 6312) [0..<120])"
    by (simp add: file_stream_def two_second_file_records two_seconds del: upt_rec_numeral)
  ultimately have s: "file_stream unit_fp k two_second_file =
      replicate 120 (d_div unit_fp (f2d unit_fp 0) d_vnom) @ replicate 120 (d_div unit_fp (f2d unit_fp 0x1010101) d_vnom)"
    using assms by (simp add: per_unit_def)
  show "map (class_of unit_fp) (file_stream unit_fp k two_second_file) = replicate 120 (Some Interruption) @ replicate 120 None"
    by (simp add: s unit_class)
  show "\<forall>v\<in>set (file_stream unit_fp k two_second_file). comparable unit_fp v"
    by (auto simp: s unit_class)
qed

theorem ftp_file_is_published_witness:
  "\<exists>st'. run_rabbit rabbit_pass_ftp (replicate 4 (rabbit_surroundings, calm_rabbit_world)) (idle_rabbit True [two_second_file]) = Ok st' \<and>
     dataQ (core st') = [] \<and> length (raw_part (published st')) = 240 \<and>
     length (summaries ''P3001065'' (published st')) = 2 \<and>
     map snd (filter (\<lambda>n. fst n = 0) (voltage_notes ''P3001065'' (published st'))) = [''interruption'']"
proof -
  let ?e = rabbit_surroundings and ?w = calm_rabbit_world and ?st = "idle_rabbit True [two_second_file]"
  let ?cs = "replicate 120 (Some Interruption) @ replicate 120 None"
  have fp: "fp ?e = unit_fp" "upmuSerialNumber ?e = ''P3001065''" "cassArchivingEnabled ?e \<and> cassConnected ?e"
    by (simp_all add: rabbit_surroundings_def calm_world_def)
  have "short_runs ?cs" by (rule few_samples_short) simp
  then have stream: "\<forall>k<3. (\<forall>v\<in>set (file_stream (fp ?e) k two_second_file). comparable (fp ?e) v) \<and>
      short_runs (map (class_of (fp ?e)) (file_stream (fp ?e) k two_second_file))"
    using two_second_file_stream by (simp add: fp)
  have st: "\<not> processingBuffer (core ?st)" "dataQ (core ?st) = two_second_file # []"
    by (simp_all add: idle_rabbit_def idle_archiver_def)
  obtain st' where run: "run_rabbit rabbit_pass_ftp (replicate 4 (?e, ?w)) ?st = Ok st'" "dataQ (core st') = []"
    "raw_part (published st') = concat (map (\<lambda>r. second_raws (file_second ?e ?w two_second_file r)) [0..<2])"
    "summaries ''P3001065'' (published st') = map (\<lambda>r. second_summary ?e ?w (file_second ?e ?w two_second_file r)) [0..<2]"
    "\<forall>k<3. map snd (filter (\<lambda>n. fst n = int k) (voltage_notes ''P3001065'' (published st'))) =
       map fst (ended_events (map (class_of unit_fp) (file_stream unit_fp k two_second_file)))"
    using ftp_file_is_published [OF two_second_file_wf all_published_calm fp(3) idle_rabbit_fresh st stream]
    unfolding two_second_file_records fp by auto
  have "map fst (ended_events ?cs) = [''interruption'']" by code_simp
  with spec [OF run(5), of 0] two_second_file_stream [of 0]
  have "map snd (filter (\<lambda>n. fst n = 0) (voltage_notes ''P3001065'' (published st'))) = [''interruption'']" by simp
  moreover have "length (second_raws (file_second ?e ?w two_second_file r)) = 120" for r
    by (simp add: second_raws_def file_second_def raw_messages_def Let_def del: upt_rec_numeral)
  ultimately show ?thesis using run(1,2) by (auto simp: run(3,4) length_concat two_seconds)
qed

end
