(* ===== verification/C37_Discovery.thy ===== *)
theory C37_Discovery
  imports Data_Channel Archiver
begin

text \<open>
  The data discovery service of the C37.118 gateway,
  \<open>serviceDataDiscovery_C37/serviceDataDiscovery.cpp\<close>: its start, the thread that waits for
  commands and the stop flag, and the second thread with the connection to the instrument, which
  runs the handlers of \<open>C37_DataChannel\<close>. What a read brings is cut anywhere; the lemmas on
  streams show that the cut does not matter.
\<close>

subsection \<open>The service\<close>

record c37_discovery =
  dc_commands :: "nat cmd_queue"
  dc_stats :: service_stats
  dc_status :: serviceState_t
  dc_mustStop :: bool
  dc_db_locked :: bool
  dc_statements :: "string list"
  dc_log :: "(string \<times> string) list"
  dc_kv_lists :: "(string \<times> u32 \<times> (string \<times> (string \<times> string) list)) list"
  dc_channel :: "data_channel option"
  dc_seconds_slept :: nat

definition new_c37_discovery :: "service_stats \<Rightarrow> c37_discovery" where
  "new_c37_discovery s = \<lparr>dc_commands = new_cmd_queue 32, dc_stats = s, dc_status = NOT_STARTED,
     dc_mustStop = False, dc_db_locked = False, dc_statements = [], dc_log = [], dc_kv_lists = [],
     dc_channel = None, dc_seconds_slept = 0\<rparr>"

definition start_c37 :: "c37_discovery \<Rightarrow> c37_discovery" where
  "start_c37 d = d\<lparr>dc_mustStop := False\<rparr>"

definition stop_c37 :: "c37_discovery \<Rightarrow> c37_discovery" where
  "stop_c37 d = d\<lparr>dc_status := STOPPING, dc_mustStop := True\<rparr>"

definition dataBufferOffer_c37 :: "data_buffer \<Rightarrow> c37_discovery \<Rightarrow> dataBufferOffer_t \<times> c37_discovery" where
  "dataBufferOffer_c37 b d = (BUFFER_REFUSED, d)"

text \<open>The statements that are prepared are those of the FTP discovery; none is executed.\<close>

definition prepared_statements :: "string list" where
  "prepared_statements = [''add_dir_record'', ''get_dir_record_key'', ''release_dir_record'',
     ''abandon_dir_record'', ''update_dir_record_state'', ''add_data_record'', ''release_data_record'',
     ''abandon_data_record'', ''get_data_record_key'', ''search_data_record_by_dir_index'']"

definition createServiceStartupKeyValueList_c37 ::
  "u32 \<Rightarrow> service_stats \<Rightarrow> (string \<times> u32 \<times> (string \<times> (string \<times> string) list)) option" where
  "createServiceStartupKeyValueList_c37 now s = do {
     maj \<leftarrow> str_stat s 30; mnr \<leftarrow> str_stat s 31;
     Some (''Service_Startup_Info'', now, (''ServiceStatus'', [maj, mnr])) }"

text \<open>A new channel: the members of the class as their constructors leave them. The contents of
  the two arrays are what the memory holds.\<close>

definition new_C37_DataChannel :: "bytes \<Rightarrow> u32 \<Rightarrow> u32 list \<Rightarrow> data_channel" where
  "new_C37_DataChannel mem junk fmem = \<lparr>c37reformat = new_C37_Reformat fmem, C37_buf = new_C37_Buffer mem junk,
     cfg_1_Descriptor = None, cfg_2_Descriptor = None, C37eventsRecv = 0, C37eventsQueued = 0,
     NumConnects = 0, BytesRecv = 0, pending = NothingPending, written = []\<rparr>"

text \<open>The second thread: the connection is asked for, and the handlers take over.\<close>

definition processUPMUdata_c37 :: "data_channel \<Rightarrow> c37_discovery \<Rightarrow> c37_discovery" where
  "processUPMUdata_c37 c d = d\<lparr>dc_channel := Some (connect c)\<rparr>"

definition start_messages_c37 :: "bool \<Rightarrow> u32 \<Rightarrow> c37_discovery \<Rightarrow> c37_discovery option" where
  "start_messages_c37 archive now d = do {
     maj \<leftarrow> str_stat (dc_stats d) 30; mnr \<leftarrow> str_stat (dc_stats d) 31;
     kv \<leftarrow> createServiceStartupKeyValueList_c37 now (dc_stats d);
     Some (d\<lparr>dc_log := dc_log d @
               [(''Service_Startup_Msg'', ''Initialized, looking for current directory on uPMU.''), maj, mnr],
             dc_kv_lists := (if archive then dc_kv_lists d @ [kv] else dc_kv_lists d)\<rparr>) }"

definition initService_c37 ::
  "bool \<Rightarrow> bool \<Rightarrow> u32 \<Rightarrow> u32 \<Rightarrow> data_channel \<Rightarrow> c37_discovery \<Rightarrow> (c37_discovery, bool) outcome" where
  "initService_c37 connected archive now now2 c d =
     (case createServiceCommonStats now (dc_stats d) of
        Throws t \<Rightarrow> Throws (d\<lparr>dc_stats := t\<rparr>) | Blocks \<Rightarrow> Blocks | Undefined \<Rightarrow> Undefined
      | Returns t _ \<Rightarrow> (case createServiceSpecificStats_discovery t of
          Throws u \<Rightarrow> Throws (d\<lparr>dc_stats := u\<rparr>) | Blocks \<Rightarrow> Blocks | Undefined \<Rightarrow> Undefined
        | Returns u _ \<Rightarrow>
            (let d1 = d\<lparr>dc_stats := u\<rparr> in
             if \<not> connected then Returns d1 False
             else if dc_db_locked d1 then Blocks
             else (case start_messages_c37 archive now2 (d1\<lparr>dc_statements := dc_statements d1 @ prepared_statements\<rparr>) of
               None \<Rightarrow> Undefined
             | Some d2 \<Rightarrow> Returns (processUPMUdata_c37 c d2) True))))"

text \<open>The loop of the first thread, over what the stop flag is after each pass.\<close>

definition discovery_pass_c37 :: "c37_discovery \<Rightarrow> c37_discovery" where
  "discovery_pass_c37 d = d\<lparr>dc_commands := snd (Dequeue (dc_commands d)), dc_seconds_slept := dc_seconds_slept d + 1\<rparr>"

fun discovery_loop_c37 :: "bool list \<Rightarrow> c37_discovery \<Rightarrow> c37_discovery" where
  "discovery_loop_c37 [] d = d"
| "discovery_loop_c37 (stop # stops) d =
     (let d1 = discovery_pass_c37 d in
      if stop then d1\<lparr>dc_status := NORMAL_STOP\<rparr> else discovery_loop_c37 stops d1)"

definition discovery_thread_c37 ::
  "(c37_discovery \<Rightarrow> (c37_discovery, bool) outcome) \<Rightarrow> bool list \<Rightarrow> c37_discovery \<Rightarrow> (c37_discovery, unit) outcome" where
  "discovery_thread_c37 init stops d =
     obind (init (d\<lparr>dc_status := RUNNING\<rparr>)) (\<lambda>d1 ok.
       Returns (if ok then discovery_loop_c37 stops d1 else d1) ())"

subsection \<open>Streams cut anywhere\<close>

lemma split_frames_None: "next_frame s = None \<Longrightarrow> split_frames s = Some ([], s)"
  by (simp add: split_frames.simps)

lemma split_frames_Some:
  "next_frame s = Some (f, r) \<Longrightarrow> split_frames s =
     (if f = [] then None else map_option (\<lambda>(fs, r'). (f # fs, r')) (split_frames r))"
  by (subst split_frames.simps) (auto split: option.splits)

lemma next_frame_more: "next_frame s = Some (f, r) \<Longrightarrow> next_frame (s @ t) = Some (f, r @ t)"
  by (auto simp: next_frame_def declared_len_def nth_append split: if_splits)

lemma next_frame_nonempty_start: "next_frame s = Some (f, r) \<Longrightarrow> f = [] \<longleftrightarrow> declared_len s = 0"
  by (auto simp: next_frame_def split: if_splits)

text \<open>Splitting a stream in two steps.\<close>

lemma split_frames_append:
  "split_frames (s @ t) = Some (fs, r) \<Longrightarrow>
   \<exists>fs1 r1 fs2. split_frames s = Some (fs1, r1) \<and> split_frames (r1 @ t) = Some (fs2, r) \<and> fs = fs1 @ fs2"
proof (induction s arbitrary: fs rule: split_frames.induct)
  case (1 s)
  show ?case
  proof (cases "next_frame s")
    case None
    then show ?thesis using "1.prems" by (simp add: split_frames_None)
  next
    case (Some fr)
    then obtain f r1 where nf: "next_frame s = Some (f, r1)" by (cases fr) auto
    note more = split_frames_Some [OF next_frame_more [OF nf, of t]]
    from "1.prems" obtain fs' where ne: "f \<noteq> []" and rec: "split_frames (r1 @ t) = Some (fs', r)" and fs: "fs = f # fs'"
      by (auto simp: more split: if_splits)
    from "1.IH" [OF nf refl ne rec] obtain fs1 r2 fs2 where
      "split_frames r1 = Some (fs1, r2)" "split_frames (r2 @ t) = Some (fs2, r)" "fs' = fs1 @ fs2" by blast
    then show ?thesis using ne fs by (simp add: split_frames_Some [OF nf])
  qed
qed

lemma split_frames_rest_short: "split_frames s = Some (fs, r) \<Longrightarrow> next_frame r = None"
proof (induction s arbitrary: fs rule: split_frames.induct)
  case (1 s)
  show ?case
  proof (cases "next_frame s")
    case None
    then show ?thesis using "1.prems" by (simp add: split_frames_None)
  next
    case (Some fr)
    then obtain f r1 where nf: "next_frame s = Some (f, r1)" by (cases fr) auto
    with "1.prems" obtain fs' where "f \<noteq> []" "split_frames r1 = Some (fs', r)"
      by (auto simp: split_frames_Some split: if_splits)
    then show ?thesis using "1.IH" [OF nf refl] by blast
  qed
qed

text \<open>Successive reads; each brings at least a byte and fits behind what is left of the last.\<close>

primrec channel_reads ::
  "channel_env \<Rightarrow> bytes list \<Rightarrow> data_channel \<Rightarrow> (data_channel \<times> bytes list) option option" where
  "channel_reads env [] c = Some (Some (c, []))"
| "channel_reads env (bs # bss) c =
     (case read_handler env (of_nat (length bs)) (store_received bs c) of
        None \<Rightarrow> None
      | Some None \<Rightarrow> Some None
      | Some (Some (c1, o1)) \<Rightarrow> map_option (map_option (\<lambda>(c2, o2). (c2, o1 @ o2))) (channel_reads env bss c1))"

primrec reads_fit :: "bytes \<Rightarrow> bytes list \<Rightarrow> bool" where
  "reads_fit r [] \<longleftrightarrow> True"
| "reads_fit r (bs # bss) \<longleftrightarrow> bs \<noteq> [] \<and> length r + length bs \<le> 1024 \<and>
     (case split_frames (r @ bs) of None \<Rightarrow> False | Some (_, r1) \<Rightarrow> reads_fit r1 bss)"

lemma process_frames_append:
  "process_frames env (fs @ gs) st = do {
     (st1, o1) \<leftarrow> process_frames env fs st; (st2, o2) \<leftarrow> process_frames env gs st1; Some (st2, o1 @ o2) }"
proof (induction fs arbitrary: st)
  case Nil
  then show ?case by (cases "process_frames env gs st") auto
next
  case (Cons f fs)
  then show ?case
    by (cases "frame_type f = 0")
      (auto simp: case_prod_unfold Option.bind_assoc)
qed

text \<open>Whatever the cuts, a stream does to the channel what its frames do.\<close>

lemma channel_reads_frames:
  assumes "env_ok env"
  shows "buffer_ready (C37_buf c) \<Longrightarrow> next_frame (valid_bytes (C37_buf c)) = None \<Longrightarrow>
    reads_fit (valid_bytes (C37_buf c)) bss \<Longrightarrow>
    split_frames (valid_bytes (C37_buf c) @ concat bss) = Some (fs, r) \<Longrightarrow> list_all (sound_frame env) fs \<Longrightarrow>
    process_frames env fs (c37reformat c) = Some (st, outs) \<Longrightarrow>
    \<exists>c'. channel_reads env bss c = Some (Some (c', outs)) \<and> buffer_ready (C37_buf c') \<and> valid_bytes (C37_buf c') = r \<and>
      c37reformat c' = st \<and> cfg_1_Descriptor c' = latest_cfg env 2 fs (cfg_1_Descriptor c) \<and>
      cfg_2_Descriptor c' = latest_cfg env 3 fs (cfg_2_Descriptor c) \<and>
      C37eventsRecv c' = C37eventsRecv c + of_nat (length (data_frames fs)) \<and>
      BytesRecv c' = BytesRecv c + of_nat (length (concat fs))"
proof (induction bss arbitrary: c fs outs)
  case Nil
  then show ?case by (simp add: split_frames_None data_frames_def)
next
  case (Cons bs bss)
  let ?v = "valid_bytes (C37_buf c)"
  from Cons.prems(4) have "split_frames ((?v @ bs) @ concat bss) = Some (fs, r)" by simp
  then obtain fs1 r1 fs2 where s1: "split_frames (?v @ bs) = Some (fs1, r1)"
    and s2: "split_frames (r1 @ concat bss) = Some (fs2, r)" and fs: "fs = fs1 @ fs2"
    using split_frames_append by blast
  from Cons.prems(6) obtain st1 o1 o2 where p1: "process_frames env fs1 (c37reformat c) = Some (st1, o1)"
    and p2: "process_frames env fs2 st1 = Some (st, o2)" and outs: "outs = o1 @ o2"
    by (auto simp: fs process_frames_append bind_eq_Some_conv)
  from Cons.prems(3) s1 have fit: "bs \<noteq> []" "length ?v + length bs \<le> 1024" "reads_fit r1 bss" by auto
  from Cons.prems(5) have plain: "list_all (sound_frame env) fs1" "list_all (sound_frame env) fs2" by (auto simp: fs)
  from read_handler_processes_every_frame [OF Cons.prems(1) assms fit(1,2) s1 plain(1)] p1
  obtain b' where b': "buffer_ready b'" "valid_bytes b' = r1"
    and run: "read_handler env (of_nat (length bs)) (store_received bs c) = Some (Some ((after_frames env fs1 st1 c)
      \<lparr>C37_buf := b', pending := ReadPending (length r1) (of_nat (1024 - length r1))\<rparr>, o1))"
      (is "_ = Some (Some (?c1, o1))") by auto
  have c1: "C37_buf ?c1 = b'" "c37reformat ?c1 = st1"
    "cfg_1_Descriptor ?c1 = latest_cfg env 2 fs1 (cfg_1_Descriptor c)"
    "cfg_2_Descriptor ?c1 = latest_cfg env 3 fs1 (cfg_2_Descriptor c)"
    "C37eventsRecv ?c1 = C37eventsRecv c + of_nat (length (data_frames fs1))"
    "BytesRecv ?c1 = BytesRecv c + of_nat (length (concat fs1))" by (simp_all add: after_frames_def)
  have "\<exists>c'. channel_reads env bss ?c1 = Some (Some (c', o2)) \<and> buffer_ready (C37_buf c') \<and> valid_bytes (C37_buf c') = r \<and>
      c37reformat c' = st \<and> cfg_1_Descriptor c' = latest_cfg env 2 fs2 (cfg_1_Descriptor ?c1) \<and>
      cfg_2_Descriptor c' = latest_cfg env 3 fs2 (cfg_2_Descriptor ?c1) \<and>
      C37eventsRecv c' = C37eventsRecv ?c1 + of_nat (length (data_frames fs2)) \<and>
      BytesRecv c' = BytesRecv ?c1 + of_nat (length (concat fs2))"
    using b' s2 fit(3) plain(2) p2 split_frames_rest_short [OF s1] by (intro Cons.IH) (simp_all only: c1)
  then show ?case using run by (auto simp: c1 fs outs data_frames_def)
qed

text \<open>C8: The network may cut the byte stream of the instrument anywhere. However a stream of
  frames is distributed over reads that fit into the buffer, the channel ends in the state that
  the frames, one by one, lead to: each data frame goes once and in order to the regrouping
  machine, the seconds that it emits are published in order, of the configuration frames the last
  one of each type leaves its descriptor (or none, if the parser does not accept it), the counters
  hold the number of data frames and of bytes, and the incomplete rest waits in the buffer for the
  next read. This is of streams whose frames declare a length of at least 4 bytes, and whose
  accepted configuration frames have PMU blocks that end inside the frame; a frame that declares
  length 0 blocks the channel, one that declares more than 1024 bytes never becomes complete, and PMU
  blocks that lead outside make the parser read what lies behind the frame.\<close>

theorem stream_may_be_cut_anywhere:
  assumes "env_ok env" "buffer_ready (C37_buf c)" "valid_bytes (C37_buf c) = []" "reads_fit [] bss"
    and "split_frames (concat bss) = Some (fs, r)" "list_all (sound_frame env) fs"
    and "process_frames env fs (c37reformat c) = Some (st, outs)"
  shows "\<exists>c'. channel_reads env bss c = Some (Some (c', outs)) \<and> valid_bytes (C37_buf c') = r \<and> c37reformat c' = st \<and>
    cfg_1_Descriptor c' = latest_cfg env 2 fs (cfg_1_Descriptor c) \<and>
    cfg_2_Descriptor c' = latest_cfg env 3 fs (cfg_2_Descriptor c) \<and>
    C37eventsRecv c' = C37eventsRecv c + of_nat (length (data_frames fs)) \<and>
    BytesRecv c' = BytesRecv c + of_nat (length (concat fs))"
proof -
  have "next_frame [] = None" by (simp add: next_frame_def)
  then show ?thesis using channel_reads_frames [of env c bss fs r st outs] assms by auto
qed

text \<open>A connection begins with a configuration frame, here cut in two, and two short frames follow.\<close>

lemma next_frame_whole: "declared_len f = length f \<Longrightarrow> 4 \<le> length f \<Longrightarrow> length f \<le> 1024 \<Longrightarrow> next_frame (f @ t) = Some (f, t)"
  by (auto simp: next_frame_def declared_len_def nth_append)

definition sample_cfg_start :: bytes where
  "sample_cfg_start = [0xaa, 0x21, 0, 54, 0, 1, 0x58, 0xf4, 0x32, 0xc9, 0, 0, 0, 0, 0, 0x0f, 0x42, 0x40, 0, 0, 0x12, 0, 0, 0, 0, 0, 0, 0, 0, 0, 0]"

definition sample_cfg_end :: bytes where
  "sample_cfg_end = [0, 0, 0, 0, 0, 0, 0, 0, 0, 0, 0, 0, 0, 0, 0, 0, 0, 0, 0, 0, 0, 0, 0]"

definition sample_cfg_frame :: bytes where
  "sample_cfg_frame = sample_cfg_start @ sample_cfg_end"

lemma sample_cfg_frame_facts:
  "length sample_cfg_frame = 54" "declared_len sample_cfg_frame = 54" "frame_type sample_cfg_frame = 2"
  "next_frame sample_cfg_start = None" "length sample_cfg_start = 31" "length sample_cfg_end = 23"
  "sample_cfg_start \<noteq> []" "sample_cfg_frame \<noteq> []"
  by (simp_all add: sample_cfg_frame_def sample_cfg_start_def sample_cfg_end_def declared_len_def frame_type_def next_frame_def)

lemma sample_cfg_frame_parsed:
  "cfg_inside (\<lambda>_. 0) sample_cfg_frame"
  "\<exists>d. cfg_of_frame (\<lambda>_. 0) sample_cfg_frame = Some d \<and> dataRate d = 0x1212 \<and> timeBase d = 1000000"
proof -
  have bytes: "sample_cfg_frame ! 0 = 0xaa" "sample_cfg_frame ! 1 = 0x21"
    "count_at sample_cfg_frame 18 = 0" "count_at sample_cfg_frame 52 = 0"
    and view: "dataRate (cfg_view sample_cfg_frame 20) = 0x1212" "timeBase (cfg_view sample_cfg_frame 20) = 1000000"
    by (simp_all add: sample_cfg_frame_def sample_cfg_start_def sample_cfg_end_def count_at_def cfg_view_def be16_def be32_def
        push_bit_eq_mult)
  have acc: "cfg_accepted (\<lambda>_. 0) sample_cfg_frame 54" using bytes by (simp add: cfg_accepted_def)
  show "cfg_inside (\<lambda>_. 0) sample_cfg_frame"
    using acc bytes by (simp add: cfg_inside_def sample_cfg_frame_facts)
  show "\<exists>d. cfg_of_frame (\<lambda>_. 0) sample_cfg_frame = Some d \<and> dataRate d = 0x1212 \<and> timeBase d = 1000000"
    using acc bytes view by (simp add: cfg_of_frame_def sample_cfg_frame_facts)
qed

theorem stream_may_be_cut_anywhere_witness:
  "\<exists>c' d. channel_reads sample_env
       [sample_cfg_start, sample_cfg_end @ [0xaa, 0x01, 0, 6, 7], [8, 0xaa], [0x11, 0, 5, 9, 0xaa]] sample_channel =
       Some (Some (c', [])) \<and>
     valid_bytes (C37_buf c') = [0xaa] \<and> BytesRecv c' = 65 \<and> C37eventsRecv c' = 1 \<and>
     cfg_1_Descriptor c' = Some d \<and> dataRate d = 0x1212 \<and> timeBase d = 1000000 \<and> cfg_2_Descriptor c' = None"
proof -
  let ?bss = "[sample_cfg_start, sample_cfg_end @ [0xaa, 0x01, 0, 6, 7], [8, 0xaa], [0x11, 0, 5, 9, 0xaa]]"
  let ?fs = "[sample_cfg_frame, [0xaa, 0x01, 0, 6, 7, 8], [0xaa, 0x11, 0, 5, 9]]"
  have nf: "next_frame (sample_cfg_frame @ t) = Some (sample_cfg_frame, t)" for t
    by (rule next_frame_whole) (simp_all add: sample_cfg_frame_facts)
  have sp: "split_frames (concat ?bss) = Some (?fs, [0xaa])"
    using split_frames_Some [OF nf [of "[0xaa, 0x01, 0, 6, 7, 8, 0xaa, 0x11, 0, 5, 9, 0xaa]"]] sample_cfg_frame_facts(8)
    by (simp add: split_frames.simps next_frame_def declared_len_def sample_cfg_frame_def)
  have "split_frames (sample_cfg_start @ sample_cfg_end @ [0xaa, 0x01, 0, 6, 7]) =
      Some ([sample_cfg_frame], [0xaa, 0x01, 0, 6, 7])"
    using split_frames_Some [OF nf [of "[0xaa, 0x01, 0, 6, 7]"]] sample_cfg_frame_facts(8)
    by (simp add: split_frames.simps next_frame_def declared_len_def sample_cfg_frame_def)
  then have fit: "reads_fit [] ?bss"
    using sample_cfg_frame_facts
    by (simp add: split_frames_None [of sample_cfg_start])
      (simp add: split_frames.simps next_frame_def declared_len_def)
  have e: "valid_bytes (C37_buf sample_channel) = []" by (simp add: sample_channel_def)
  have pf: "process_frames sample_env ?fs (c37reformat sample_channel) = Some (fresh_reformat\<lparr>nonStdC37events := 1\<rparr>, [])"
    by (simp add: sample_cfg_frame_facts) (simp add: frame_type_def frame_event_def buffer_holding_def new_C37_Buffer_def
        processC37event_def C37_DATUM_TYPICAL_LEN_def sample_channel_def fresh_reformat_def
        new_C37_Reformat_def)
  have crc: "env_crc sample_env = (\<lambda>_. 0)" by (simp add: sample_env_def)
  have ty: "frame_type [0xaa, 0x01, 0, 6, 7, 8] = 0" "frame_type [0xaa, 0x11, 0, 5, 9] = 1" by (simp_all add: frame_type_def)
  have sound: "list_all (sound_frame sample_env) ?fs"
    using sample_cfg_frame_parsed(1) by (simp add: sound_frame_def crc ty sample_cfg_frame_facts)
  have "BytesRecv sample_channel = 0" "C37eventsRecv sample_channel = 0" "cfg_2_Descriptor sample_channel = None"
    by (simp_all add: sample_channel_def)
  then show ?thesis
    using stream_may_be_cut_anywhere [OF sample_env_ok sample_channel_ready e fit sp sound pf] sample_cfg_frame_parsed(2)
    by (auto simp: data_frames_def ty crc sample_cfg_frame_facts simp del: channel_reads.simps)
qed

end
