(* ===== verification/C37_System.thy ===== *)
theory C37_System
  imports C37_Discovery Rabbit_Archiver Archive_Line "HOL-Library.Sublist"
begin

text \<open>
  The C37.118 gateway at work: the thread with the connection to the instrument, which publishes
  seconds (\<open>C37_Reformat::postProcessUPMUdata\<close>), the thread of the discovery service, and the
  threads of the two services that take the seconds, the archiver and the RabbitMQ archiver.
  A step is the completion of a connect or of a read, the offer of one second to the services, or
  one pass of a service's loop; the steps of the threads interleave in any order. The seconds
  that a handler emits wait in an outbox until each has been offered, and the handler reads on
  only then; what a handler does besides does not touch the services.
\<close>

subsection \<open>The system\<close>

record c37_system =
  sy_discovery :: c37_discovery
  sy_archiver :: archiver
  sy_rabbit :: rabbit
  sy_outbox :: "bytes list"
  sy_offered :: "bytes list"
  sy_accepted :: "bytes list"

definition shared_second :: "bytes \<Rightarrow> data_buffer" where
  "shared_second out = \<lparr>byteLen = of_nat (length out), dataBuffer = out, use_count = 1\<rparr>"

text \<open>The services are asked in the order of their names.\<close>

definition offer_second :: "bytes \<Rightarrow> c37_system \<Rightarrow> c37_system run" where
  "offer_second out s =
     run_bind (dataBufferOffer (shared_second out) (sy_archiver s)) (\<lambda>(r, a).
     run_bind (dataBufferOffer_rabbit (shared_second out) (sy_rabbit s)) (\<lambda>(_, b).
       Ok (s\<lparr>sy_archiver := a, sy_rabbit := b, sy_offered := sy_offered s @ [out],
             sy_accepted := (if r = BUFFER_ACCEPTED then sy_accepted s @ [out] else sy_accepted s)\<rparr>)))"

definition with_channel :: "data_channel \<Rightarrow> c37_system \<Rightarrow> c37_system" where
  "with_channel c s = s\<lparr>sy_discovery := (sy_discovery s)\<lparr>dc_channel := Some c\<rparr>\<rparr>"

inductive sys_step :: "channel_env \<Rightarrow> (surroundings \<Rightarrow> bool) \<Rightarrow> c37_system \<Rightarrow> c37_system \<Rightarrow> bool" for env G where
  connect_completes: "dc_channel (sy_discovery s) = Some c \<Longrightarrow> pending c = ConnectPending \<Longrightarrow>
    sys_step env G s (with_channel (connect_handler ec c) s)"
| read_completes: "dc_channel (sy_discovery s) = Some c \<Longrightarrow> pending c = ReadPending pos len \<Longrightarrow>
    length bs \<le> unat len \<Longrightarrow> sy_outbox s = [] \<Longrightarrow>
    read_handler env (of_nat (length bs)) (store_received bs c) = Some (Some (c', outs)) \<Longrightarrow>
    sys_step env G s ((with_channel c' s)\<lparr>sy_outbox := outs\<rparr>)"
| second_offered: "sy_outbox s = out # outs \<Longrightarrow> offer_second out s = Ok s' \<Longrightarrow>
    sys_step env G s (s'\<lparr>sy_outbox := outs\<rparr>)"
| archiver_runs: "G e \<Longrightarrow> archiver_pass_c37 e (sy_archiver s) = Ok a \<Longrightarrow> sys_step env G s (s\<lparr>sy_archiver := a\<rparr>)"
| rabbit_runs: "rabbit_pass e w (sy_rabbit s) = Ok b \<Longrightarrow> sys_step env G s (s\<lparr>sy_rabbit := b\<rparr>)"
| discovery_runs: "sys_step env G s (s\<lparr>sy_discovery := discovery_pass_c37 (sy_discovery s)\<rparr>)"
| discovery_stopped: "sys_step env G s (s\<lparr>sy_discovery := stop_c37 (sy_discovery s)\<rparr>)"

subsection \<open>From the queue to the archive\<close>

text \<open>A world in which a second can be archived.\<close>

definition archive_up :: "surroundings \<Rightarrow> bool" where
  "archive_up e \<longleftrightarrow> good_c37 e \<and> cassArchivingEnabled e \<and> cassConnected e \<and> insertOk e"

definition full_second :: "bytes \<Rightarrow> bool" where
  "full_second b \<longleftrightarrow> length b = 7204"

definition second_msec :: "bytes \<Rightarrow> u64" where
  "second_msec b = ucast (wire32 b 192) * 1000"

definition c37_spec :: archive_spec where
  "c37_spec = \<lparr>as_wf = wf_c37, as_records = (\<lambda>_. 1), as_sane = (\<lambda>b. length (dataBuffer b) = unat (byteLen b)),
     as_stamps = (\<lambda>b. if full_second b then [second_msec b] else [])\<rparr>"

lemma times_of_seconds: "times_of c37_spec bs = map second_msec (filter full_second bs)"
  by (induction bs) (simp_all add: c37_spec_def)

lemma shared_second_sane: "length out < 2 ^ 32 \<Longrightarrow> as_sane c37_spec (shared_second out)"
  by (simp add: c37_spec_def shared_second_def unat_of_nat take_bit_eq_mod)

lemma wf_c37_iff: "length (dataBuffer b) = unat (byteLen b) \<Longrightarrow> wf_c37 b \<longleftrightarrow> full_second (dataBuffer b)"
  by (auto simp: wf_c37_def full_second_def word_unat_eq_iff)

lemma row_c37_time:
  assumes "archive_up e" "wf_c37 b"
  shows "map row_timestamp_msec (row_c37 e b 0) = [second_msec (dataBuffer b)]"
proof -
  have "wire32 (dataBuffer b @ behind_heap e) 192 = wire32 (dataBuffer b) 192"
    using assms(2) by (simp add: wire32_def wf_c37_def nth_append)
  then show ?thesis
    using assms(1) by (simp add: archive_up_def row_c37_def insert_row_def c37_message_def second_msec_def Let_def)
qed

interpretation c37_line: archive_line preProcessData_c37 processData_c37 good_c37 c37_spec row_c37 archive_up
proof (intro archive_line.intro archive_line_axioms.intro)
  show "record_processor preProcessData_c37 processData_c37 good_c37 (as_wf c37_spec) (as_records c37_spec) row_c37 archiver_stats_ready"
    using c37_archiver.record_processor_axioms by (simp add: c37_spec_def)
next
  fix e and st :: archiver and b
  assume "archive_up e" "as_sane c37_spec b" "\<not> as_wf c37_spec b" "archiver_stats_ready (stats st)"
  then have "byteLen b \<noteq> 7204" using wf_c37_iff [of b] by (auto simp: c37_spec_def wf_c37_def)
  then show "preProcessData_c37 e b st = Ok (st\<lparr>bpr := (bpr st)\<lparr>numRecords := - 1\<rparr>\<rparr>, - 1)"
    using \<open>archiver_stats_ready (stats st)\<close> by (simp add: preProcessData_c37_def count_spec_ready SECBLK_LEN_BYTES_def)
qed (use wf_c37_iff row_c37_time in \<open>auto simp: archive_up_def c37_spec_def wf_c37_def full_second_def\<close>)

subsection \<open>Any interleaving\<close>

definition system_ok :: "c37_system \<Rightarrow> bool" where
  "system_ok s \<longleftrightarrow> (case dc_channel (sy_discovery s) of None \<Rightarrow> True | Some c \<Rightarrow> chan_ok c) \<and>
     list_all bounded_second (sy_outbox s) \<and> subseq (sy_accepted s) (sy_offered s) \<and>
     archived c37_spec (sy_accepted s) (sy_archiver s)"

lemma offer_keeps_system:
  assumes "system_ok s" "sy_outbox s = out # outs" "offer_second out s = Ok s'"
  shows "system_ok (s'\<lparr>sy_outbox := outs\<rparr>)"
proof -
  from assms(1,2) have held: "archived c37_spec (sy_accepted s) (sy_archiver s)" and bound: "length out < 2 ^ 32"
    by (auto simp: system_ok_def bounded_second_def)
  from assms(3) obtain r a b where a: "dataBufferOffer (shared_second out) (sy_archiver s) = Ok (r, a)"
    and s': "s' = s\<lparr>sy_archiver := a, sy_rabbit := b, sy_offered := sy_offered s @ [out],
      sy_accepted := (if r = BUFFER_ACCEPTED then sy_accepted s @ [out] else sy_accepted s)\<rparr>"
    by (auto simp: offer_second_def run_bind_Ok)
  have "dataBuffer (shared_second out) = out" by (simp add: shared_second_def)
  then have "archived c37_spec (sy_accepted s') (sy_archiver s')"
    using offer_keeps_archived [OF held shared_second_sane [OF bound] a] by (simp add: s' split: if_splits)
  moreover have "subseq (sy_accepted s') (sy_offered s')"
    using assms(1) by (auto simp: s' system_ok_def intro: list_emb_append_mono subseq_append_le_same_iff)
  ultimately show ?thesis using assms(1,2) by (auto simp: system_ok_def s')
qed

lemma step_keeps_system:
  assumes "sys_step env G s s'" "system_ok s" "env_ok env" "\<And>e. G e \<Longrightarrow> archive_up e"
  shows "system_ok s'"
  using assms(1)
proof (cases rule: sys_step.cases)
  case (connect_completes c ec)
  then show ?thesis using assms(2) connect_handler_keeps by (auto simp: system_ok_def with_channel_def)
next
  case (read_completes c pos len bs c' outs)
  have "chan_ok c" using assms(2) read_completes(2) by (simp add: system_ok_def)
  from read_handler_keeps [OF this assms(3) read_completes(3,4,6)] show ?thesis
    using assms(2) read_completes(1) by (simp add: system_ok_def with_channel_def)
next
  case (second_offered out outs s1)
  then show ?thesis using offer_keeps_system assms(2) by simp
next
  case (archiver_runs e a)
  then show ?thesis
    using assms(2) c37_line.pass_keeps_archived [OF _ assms(4)] by (auto simp: system_ok_def archiver_pass_c37_def)
qed (use assms(2) in \<open>auto simp: system_ok_def discovery_pass_c37_def stop_c37_def\<close>)

lemma archived_split:
  assumes "archived c37_spec acc a"
  shows "\<exists>past waiting. acc = past @ waiting \<and> length waiting \<le> 17 \<and>
    map row_timestamp_msec (rows a) = map second_msec (filter full_second past)"
proof -
  from assms obtain past held where held: "holds c37_spec a held" "acc = past @ held_bytes held @ map dataBuffer (dataQ a)"
    "map row_timestamp_msec (rows a) = times_of c37_spec past @ held_times c37_spec held" "length (dataQ a) \<le> 16"
    by (auto simp: archived_from_def)
  then consider "held_times c37_spec held = []" "length (held_bytes held) \<le> 1"
    | "held_times c37_spec held = times_of c37_spec (held_bytes held)"
    by (auto simp: holds_def held_bytes_def held_times_def c37_spec_def le_Suc_eq split: if_splits)
  then show ?thesis
  proof cases
    case 1
    then show ?thesis
      using held by (intro exI [of _ past] exI [of _ "held_bytes held @ map dataBuffer (dataQ a)"]) (simp add: times_of_seconds)
  next
    case 2
    then show ?thesis
      using held by (intro exI [of _ "past @ held_bytes held"] exI [of _ "map dataBuffer (dataQ a)"]) (simp add: times_of_seconds)
  qed
qed

text \<open>C3: From the connection to the archive no second is lost, repeated or reordered, however the
  threads interleave, as long as Cassandra is there. In every reachable state the seconds that
  the archiver has accepted are a part of those that were offered to the services, in order; the
  rows of the archive are those of the accepted seconds of the full length, in order, up to the
  at most 17 that are still in its queue or held by its thread; the channel keeps its invariant.\<close>

theorem no_accepted_second_is_lost:
  assumes "(sys_step env G)\<^sup>*\<^sup>* s0 s" "system_ok s0" "env_ok env" "\<forall>e. G e \<longrightarrow> archive_up e"
  shows "\<exists>past waiting. sy_accepted s = past @ waiting \<and> subseq (sy_accepted s) (sy_offered s) \<and> length waiting \<le> 17 \<and>
    map row_timestamp_msec (rows (sy_archiver s)) = map second_msec (filter full_second past) \<and>
    (\<forall>c. dc_channel (sy_discovery s) = Some c \<longrightarrow> chan_ok c)"
proof -
  have "system_ok s" using assms(1,2)
    by (induction rule: rtranclp_induct) (use assms(3,4) step_keeps_system in blast)+
  then have arch: "archived c37_spec (sy_accepted s) (sy_archiver s)" and sub: "subseq (sy_accepted s) (sy_offered s)"
    and chan: "\<forall>c. dc_channel (sy_discovery s) = Some c \<longrightarrow> chan_ok c"
    by (auto simp: system_ok_def)
  from archived_split [OF arch] sub chan show ?thesis by blast
qed

subsection \<open>From the wire to the archive\<close>

text \<open>A data frame of a second: the second of the century and the fraction that the code reads.\<close>

definition frame_in :: "u32 \<Rightarrow> bool \<Rightarrow> bytes \<Rightarrow> bool" where
  "frame_in s first f \<longleftrightarrow> length f = 74 \<and> frame_type f = 0 \<and> wire32 f 6 = s \<and>
     (be24 (f ! 11) (f ! 12) (f ! 13) = 0 \<longleftrightarrow> first)"

lemma frame_in_event:
  assumes "frame_in s first f"
  shows "frame_event f = (be24 (f ! 11) (f ! 12) (f ! 13), s, buffer_holding f)" "data_event (buffer_holding f)"
    "frame_of (buffer_holding f) = f" "sound_frame env f"
  using assms by (simp_all add: frame_in_def frame_event_def wire32_def data_event_def buffer_holding_def new_C37_Buffer_def
      frame_of_def C37_DATUM_TYPICAL_LEN_def sound_frame_def)

lemma process_frames_events:
  "list_all (\<lambda>f. frame_type f = 0) fs \<Longrightarrow>
   process_frames env fs st = process_events (env_malloc env) (env_behind env) (map frame_event fs) st"
  by (induction fs arbitrary: st) auto

text \<open>The channel has learned that a second has 120 samples and holds the first frame of second \<open>s\<close>.\<close>

definition in_second :: "u32 \<Rightarrow> bytes \<Rightarrow> data_channel \<Rightarrow> bool" where
  "in_second s f0 c \<longleftrightarrow> buffer_ready (C37_buf c) \<and> valid_bytes (C37_buf c) = [] \<and> currentState (c37reformat c) = fillBuffer \<and>
     C37eventBuf (c37reformat c) = [event_block f0] \<and> currentSampleCnt (c37reformat c) = 1 \<and>
     sampleCnt (c37reformat c) = 120 \<and> length (fracSecValues (c37reformat c)) = 512 \<and> presentSec (c37reformat c) = s"

lemma second_from_frames:
  assumes "env_ok env" "in_second s f0 c" "length f0 = 74" "list_all (frame_in s False) fs" "length fs = 119"
    and "frame_in (s + 1) True f1"
  shows "\<exists>st. process_frames env (fs @ [f1]) (c37reformat c) = Some (st, [second_memory (f0 # fs) []])"
proof -
  let ?st = "c37reformat c" and ?evs = "map frame_event fs" and ?b = "buffer_holding f1"
  have st: "currentState ?st = fillBuffer" "C37eventBuf ?st = [event_block f0]" "currentSampleCnt ?st = 1"
    "length (fracSecValues ?st) = 512" "sampleCnt ?st = 120" "presentSec ?st = s"
    using assms(2) by (simp_all add: in_second_def)
  have env: "length (env_behind env) = 4" "length (env_malloc env n) = n" for n
    using assms(1) by (simp_all add: env_ok_def)
  have types: "list_all (\<lambda>f. frame_type f = 0) (fs @ [f1])"
    using assms(4,6) by (auto simp: list_all_iff frame_in_def)
  have f1: "frame_event f1 = (0, presentSec ?st + 1, ?b)" "data_event ?b"
    using frame_in_event [OF assms(6)] assms(6) st(6) by (simp_all add: frame_in_def)
  have "list_all (sample_event (presentSec ?st)) ?evs"
    using assms(4) frame_in_event(1,2) st(6) by (auto simp: list_all_iff sample_event_def frame_in_def)
  moreover have frames: "map event_frame ?evs = fs"
    using assms(4) frame_in_event(1,3) by (intro map_idI [THEN trans, rotated] nth_equalityI)
      (auto simp: list_all_length event_frame_def)
  ultimately have run: "\<exists>st'. process_events (env_malloc env) (env_behind env) (?evs @ [(0, presentSec ?st + 1, ?b)]) ?st =
      Some (st', [second_buffer (env_malloc env) (unat (sampleCnt ?st)) (map event_block (f0 # map event_frame ?evs))])"
    using second_emitted [OF st(1,2) assms(3) st(3,4) _ _ _ f1(2) env] st(5) assms(5) by fastforce
  have "second_buffer (env_malloc env) (unat (sampleCnt ?st)) (map event_block (f0 # fs)) = second_memory (f0 # fs) []"
  proof -
    have f74: "\<forall>f\<in>set (f0 # fs). length f = 74" using assms(3,4) by (auto simp: list_all_iff frame_in_def)
    then have "map record_of (map event_block (f0 # fs)) = map frame_record (f0 # fs)"
      by (auto simp: record_of_event_block frame_record_def)
    then show ?thesis using st(5) assms(5) env(2) by (simp only: second_buffer_def second_memory_def) simp
  qed
  then show ?thesis using process_frames_events [OF types] run [unfolded frames] f1(1) by auto
qed

text \<open>An archiver that has nothing to do.\<close>

definition archiver_idle :: "archiver \<Rightarrow> bool" where
  "archiver_idle a \<longleftrightarrow> archiver_stats_ready (stats a) \<and> serviceCmnStatsValues (stats a) = Some (map_of common_values) \<and>
     \<not> processingBuffer a \<and> dataQ a = [] \<and> m_queue (cmdQueue a) = []"

lemma offer_to_idle:
  "archiver_idle a \<Longrightarrow> dataBufferOffer b a = Ok (BUFFER_ACCEPTED, a\<lparr>dataQ := [b]\<rparr>)"
  by (auto simp: archiver_idle_def dataBufferOffer_def count_cmn_def count_stat_def common_values_def data_queue_full_def
      DATA_QUEUE_LEN_def)

text \<open>C1: End to end, from the bytes on the wire to the row in the archive. The instrument sends the
  119 further frames of a second and the first of the next; however the network cuts their bytes,
  the channel publishes one second, the idle archiver accepts it and writes exactly one row in
  its next three passes. The row's time is the second of the century that the frames carry, and
  sample \<open>i\<close> has the phasors of frame \<open>i\<close>, except that the angle of C3 is not the frame's: it is
  the header word of the next record, and for the last sample four bytes behind the heap block.\<close>

theorem frames_reach_the_archive:
  assumes "env_ok env" "in_second s f0 c" "length f0 = 74" "list_all (frame_in s False) fs" "length fs = 119"
    and "frame_in (s + 1) True f1"
    and "reads_fit [] bss" "split_frames (concat bss) = Some (fs @ [f1], r)"
    and "archiver_idle a" "good_c37 e0" "archive_up e" "length (behind_heap e) = 4"
  shows "\<exists>c' out a1 a2. channel_reads env bss c = Some (Some (c', [out])) \<and>
    dataBufferOffer (shared_second out) a = Ok (BUFFER_ACCEPTED, a1) \<and>
    archiver_passes archiver_pass_c37 [e0, e, e1] a1 = Ok a2 \<and> \<not> processingBuffer a2 \<and> dataQ a2 = [] \<and>
    rows a2 = rows a @ [\<lparr>row_timestamp_msec = ucast s * 1000, row_day = ucast s div 86400,
      row_device = upmuSerialNumber e, row_domain = 2, row_msg_type = 1,
      row_data = serialize e \<lparr>timeStamp = s, sampleIntervalMsec = d2f (fp e) (d_div (fp e) d_1000 d_120),
        numSamples = 120,
        samples = map (\<lambda>i. c37_sample (fp e) (sample_words (f0 # fs) (behind_heap e) i)) [0..<120]\<rparr>\<rparr>]"
proof -
  let ?fs = "f0 # fs" and ?b = "shared_second (second_memory (f0 # fs) [])"
  obtain st where st: "process_frames env (fs @ [f1]) (c37reformat c) = Some (st, [second_memory ?fs []])"
    using second_from_frames [OF assms(1-6)] by blast
  have plain: "list_all (sound_frame env) (fs @ [f1])"
    using assms(4,6) frame_in_event(4) by (auto simp: list_all_iff)
  have empty: "next_frame [] = None" by (simp add: next_frame_def)
  obtain c' where c': "channel_reads env bss c = Some (Some (c', [second_memory ?fs []]))"
    using channel_reads_frames [OF assms(1) _ _ _ _ plain st, of bss r] assms(2,7,8) empty by (auto simp: in_second_def)
  have f74: "list_all (\<lambda>f. length f = 74) ?fs" using assms(3,4) by (auto simp: list_all_iff frame_in_def)
  have "length (second_memory ?fs []) = 7204"
    using length_concat_blocks [OF length_frame_records [OF f74]] assms(5) by (simp add: second_memory_def)
  then have b: "byteLen ?b = 7204" "dataBuffer ?b = second_memory ?fs []" by (simp_all add: shared_second_def)
  have soc: "s = wire32 (?fs ! 3) 6" using assms(4,5) by (simp add: list_all_length frame_in_def)
  let ?a1 = "a\<lparr>dataQ := [?b]\<rparr>"
  have a: "archiver_stats_ready (stats ?a1)" "\<not> processingBuffer ?a1" "dataQ ?a1 = ?b # []" "m_queue (cmdQueue ?a1) = []"
    using assms(9) by (simp_all add: archiver_idle_def)
  note up = assms(11) [unfolded archive_up_def good_c37_def]
  obtain a2 where run: "archiver_passes archiver_pass_c37 [e0, e, e1] ?a1 = Ok a2" "\<not> processingBuffer a2" "dataQ a2 = []"
    and rows: "rows a2 = rows ?a1 @ [\<lparr>row_timestamp_msec = ucast s * 1000, row_day = ucast s div 86400,
      row_device = upmuSerialNumber e, row_domain = 2, row_msg_type = 1,
      row_data = serialize e \<lparr>timeStamp = s, sampleIntervalMsec = d2f (fp e) (d_div (fp e) d_1000 d_120),
        numSamples = 120, samples = map (\<lambda>i. c37_sample (fp e) (sample_words ?fs (behind_heap e) i)) [0..<120]\<rparr>\<rparr>]"
    using c37_second_is_archived [OF f74 _ b assms(10) _ assms(12) _ _ _ a(1,2,3,4) soc, of e1] assms(5) up by auto
  show ?thesis
    using c' offer_to_idle [OF assms(9), of ?b] run rows
    by (intro exI [of _ c'] exI [of _ "second_memory ?fs []"] exI [of _ ?a1] exI [of _ a2]) simp
qed

subsection \<open>Concrete runs\<close>

lemma split_whole_frames:
  "list_all (\<lambda>f. declared_len f = length f \<and> 4 \<le> length f \<and> length f \<le> 1024) fs \<Longrightarrow> split_frames (concat fs) = Some (fs, [])"
proof (induction fs)
  case (Cons f fs)
  then have "next_frame (f @ concat fs) = Some (f, concat fs)"
    by (auto simp: next_frame_def declared_len_def nth_append)
  moreover have "f \<noteq> []" using Cons.prems by auto
  ultimately show ?case using Cons by (simp add: split_frames_Some)
qed (simp add: split_frames_None next_frame_def)

lemma whole_frames_fit:
  "list_all (\<lambda>fs. list_all (\<lambda>f. declared_len f = length f \<and> 4 \<le> length f \<and> length f \<le> 1024) fs \<and>
      fs \<noteq> [] \<and> length (concat fs) \<le> 1024) fss \<Longrightarrow> reads_fit [] (map concat fss)"
proof (induction fss)
  case (Cons fs fss)
  then have "split_frames (concat fs) = Some (fs, [])" by (intro split_whole_frames) simp
  moreover have "concat fs \<noteq> []" using Cons.prems by (cases fs) auto
  ultimately show ?case using Cons by simp
qed simp

definition example_frame :: "u8 \<Rightarrow> u8 \<Rightarrow> bytes" where
  "example_frame s frac = [0xaa, 0x01, 0, 74, 0, 1, 0, 0, 0, s, 0, 0, 0, frac] @ replicate 60 0"

lemma example_frame_whole:
  "declared_len (example_frame s frac) = 74" "length (example_frame s frac) = 74"
  by (simp_all add: example_frame_def declared_len_def)

lemma example_frame_in: "frame_in (ucast s) (frac = 0) (example_frame s frac)"
proof -
  have "be24 0 0 frac = 0 \<longleftrightarrow> frac = 0" "be32 0 0 0 s = ucast s"
    by (simp_all add: be24_def be32_def word_unat_eq_iff unsigned_ucast_eq take_bit_nat_eq_self)
  then show ?thesis by (simp add: frame_in_def example_frame_def frame_type_def wire32_def)
qed

definition example_second_channel :: data_channel where
  "example_second_channel = sample_channel\<lparr>c37reformat := fresh_reformat\<lparr>currentState := fillBuffer,
     C37eventBuf := [event_block (example_frame 5 0)], currentSampleCnt := 1, sampleCnt := 120, presentSec := 5\<rparr>\<rparr>"

definition example_reads :: "bytes list" where
  "example_reads = map concat (replicate 11 (replicate 10 (example_frame 5 1)) @
     [replicate 9 (example_frame 5 1) @ [example_frame 6 0]])"

lemma common_ready_archiver:
  "archiver_idle ((idle_archiver [])\<lparr>stats := created_archiver_stats\<lparr>serviceCmnStatsValues := Some (map_of common_values)\<rparr>\<rparr>)"
  by (simp add: archiver_idle_def idle_archiver_def archiver_stats_ready_def created_archiver_stats_def new_cmd_queue_def)

theorem frames_reach_the_archive_witness:
  "\<exists>c' out a1 a2. channel_reads sample_env example_reads example_second_channel = Some (Some (c', [out])) \<and>
     dataBufferOffer (shared_second out) ((idle_archiver [])\<lparr>stats := created_archiver_stats
        \<lparr>serviceCmnStatsValues := Some (map_of common_values)\<rparr>\<rparr>) = Ok (BUFFER_ACCEPTED, a1) \<and>
     archiver_passes archiver_pass_c37 [calm_world, calm_world, calm_world] a1 = Ok a2 \<and>
     map row_timestamp_msec (rows a2) = [5000]"
proof -
  let ?a = "(idle_archiver [])\<lparr>stats := created_archiver_stats\<lparr>serviceCmnStatsValues := Some (map_of common_values)\<rparr>\<rparr>"
  let ?fs = "replicate 119 (example_frame 5 1)"
  have "in_second 5 (example_frame 5 0) example_second_channel"
    using sample_channel_ready
    by (simp add: in_second_def example_second_channel_def fresh_reformat_def new_C37_Reformat_def) (simp add: sample_channel_def)
  moreover have "list_all (frame_in 5 False) ?fs"
    using example_frame_in [of 5 1] by (simp add: list_all_iff)
  moreover have "frame_in (5 + 1) True (example_frame 6 0)" using example_frame_in [of 6 0] by simp
  moreover have "reads_fit [] example_reads"
    unfolding example_reads_def
    by (rule whole_frames_fit) (simp add: list_all_iff example_frame_whole length_concat sum_list_replicate)
  moreover have "split_frames (concat example_reads) = Some (?fs @ [example_frame 6 0], [])"
  proof -
    have "concat example_reads = concat (?fs @ [example_frame 6 0])"
      by (simp add: example_reads_def concat_replicate_trivial replicate_add [symmetric] eval_nat_numeral)
    then show ?thesis
      by (simp only:) (rule split_whole_frames, simp add: list_all_iff example_frame_whole)
  qed
  moreover have "good_c37 calm_world" "archive_up calm_world" "length (behind_heap calm_world) = 4"
    by (simp_all add: archive_up_def good_c37_def calm_world_def)
  ultimately have "\<exists>c' out a1 a2. channel_reads sample_env example_reads example_second_channel = Some (Some (c', [out])) \<and>
    dataBufferOffer (shared_second out) ?a = Ok (BUFFER_ACCEPTED, a1) \<and>
    archiver_passes archiver_pass_c37 [calm_world, calm_world, calm_world] a1 = Ok a2 \<and> \<not> processingBuffer a2 \<and> dataQ a2 = [] \<and>
    rows a2 = rows ?a @ [\<lparr>row_timestamp_msec = ucast (5 :: u32) * 1000, row_day = ucast (5 :: u32) div 86400,
      row_device = upmuSerialNumber calm_world, row_domain = 2, row_msg_type = 1,
      row_data = serialize calm_world \<lparr>timeStamp = 5,
        sampleIntervalMsec = d2f (fp calm_world) (d_div (fp calm_world) d_1000 d_120), numSamples = 120,
        samples = map (\<lambda>i. c37_sample (fp calm_world)
          (sample_words (example_frame 5 0 # ?fs) (behind_heap calm_world) i)) [0..<120]\<rparr>\<rparr>]"
    by (intro frames_reach_the_archive [OF sample_env_ok _ example_frame_whole(2) _ _ _ _ _ common_ready_archiver]) simp_all
  moreover have "rows ?a = []" by (simp add: idle_archiver_def)
  ultimately show ?thesis by fastforce
qed

definition example_system :: c37_system where
  "example_system = \<lparr>sy_discovery = new_c37_discovery (stats_at_start discovery_statics),
     sy_archiver = (idle_archiver [])\<lparr>stats := created_archiver_stats\<lparr>serviceCmnStatsValues := Some (map_of common_values)\<rparr>\<rparr>,
     sy_rabbit = (idle_rabbit True [])\<lparr>core := (idle_archiver [])
       \<lparr>stats := created_rabbitmq_stats\<lparr>serviceCmnStatsValues := Some (map_of common_values)\<rparr>\<rparr>\<rparr>,
     sy_outbox = [dataBuffer flat_second], sy_offered = [], sy_accepted = []\<rparr>"

lemma example_system_ok: "system_ok example_system"
proof -
  have "archived c37_spec [] (sy_archiver example_system)"
    by (simp add: archived_from_def holds_def held_bytes_def held_times_def example_system_def idle_archiver_def archiver_stats_ready_def
        created_archiver_stats_def begun_def)
  moreover have "sy_accepted example_system = []" by (simp add: example_system_def)
  ultimately show ?thesis
    by (auto simp: system_ok_def) (simp_all add: example_system_def new_c37_discovery_def bounded_second_def flat_second_def)
qed

theorem no_accepted_second_is_lost_witness:
  "\<exists>s. (sys_step sample_env archive_up)\<^sup>*\<^sup>* example_system s \<and> sy_accepted s = [dataBuffer flat_second] \<and>
     rows (sy_archiver s) = [] \<and> subseq (sy_accepted s) (sy_offered s)"
proof -
  let ?out = "dataBuffer flat_second" and ?a = "sy_archiver example_system" and ?b = "sy_rabbit example_system"
  let ?s = "example_system\<lparr>sy_archiver := ?a\<lparr>dataQ := [shared_second ?out]\<rparr>,
    sy_rabbit := ?b\<lparr>core := (core ?b)\<lparr>dataQ := [shared_second ?out]\<rparr>\<rparr>, sy_offered := [?out], sy_accepted := [?out]\<rparr>"
  have a: "archiver_idle ?a" using common_ready_archiver by (simp add: example_system_def)
  have "dataBufferOffer_rabbit (shared_second ?out) ?b =
      Ok (BUFFER_ACCEPTED, ?b\<lparr>core := (core ?b)\<lparr>dataQ := [shared_second ?out]\<rparr>\<rparr>)"
    by (simp add: dataBufferOffer_rabbit_def lift_core_def count_cmn_def count_stat_def common_values_def data_queue_full_def
        DATA_QUEUE_LEN_def example_system_def idle_archiver_def)
  then have "offer_second ?out example_system = Ok ?s"
    by (simp add: offer_second_def offer_to_idle [OF a]) (simp add: example_system_def)
  then have "sys_step sample_env archive_up example_system (?s\<lparr>sy_outbox := []\<rparr>)"
    by (intro second_offered) (simp_all add: example_system_def)
  then have reach: "(sys_step sample_env archive_up)\<^sup>*\<^sup>* example_system (?s\<lparr>sy_outbox := []\<rparr>)" by blast
  have "subseq (sy_accepted (?s\<lparr>sy_outbox := []\<rparr>)) (sy_offered (?s\<lparr>sy_outbox := []\<rparr>))"
    using no_accepted_second_is_lost [OF reach example_system_ok sample_env_ok] by simp
  with reach show ?thesis
    by (intro exI [of _ "?s\<lparr>sy_outbox := []\<rparr>"]) (simp add: example_system_def idle_archiver_def)
qed

end
