(* ===== verification/Service_Life.thy ===== *)
theory Service_Life
  imports Archive_Line
begin

text \<open>
  The life of a service: \<open>start()\<close>, \<open>stop()\<close> and \<open>operator()\<close>, which all services of the gateways have
  in the same form. The caller of \<open>start\<close> and \<open>stop\<close>, the thread of the service and the other threads
  of the gateway take their steps in any order; a run is the list of what happens. The service
  itself - its initialisation, a pass of its loop, and what ends with the function of the thread - is
  a record, so that the lemmas hold of every service; at the end, those of the two archivers.
\<close>

subsection \<open>Start, stop and the function of the thread\<close>

record ('e, 's) service_code =
  initialise :: "'e \<Rightarrow> 's \<Rightarrow> ('s, bool) outcome"
  one_pass :: "'e \<Rightarrow> 's \<Rightarrow> ('s, unit) outcome"
  leave :: "'s \<Rightarrow> 's"
  meets :: "'e \<Rightarrow> bool"

text \<open>Where the thread is: \<open>Top\<close> and \<open>Inspect\<close> are the begin of the loop and the look at \<open>m_mustStop\<close>;
  \<open>Dead\<close> is the end of the process, by an exception outside the \<open>try\<close>.\<close>

datatype thread_place = NoThread | Created | Initialising | Top | Inspect | Leaving | Failing | Over | Dead

datatype caller_place = Elsewhere | Spawning | Signalling | Joining

datatype 'o life_event = CallsStart | Spawns | CallsStop | Signals | StopReturns | Runs | Passes | Happens 'o

record 's life =
  lf_status :: serviceState_t
  lf_mustStop :: bool
  lf_thread :: thread_place
  lf_caller :: caller_place
  lf_data :: 's

definition new_life :: "'s \<Rightarrow> 's life" where
  "new_life d = \<lparr>lf_status = NOT_STARTED, lf_mustStop = False, lf_thread = NoThread, lf_caller = Elsewhere, lf_data = d\<rparr>"

text \<open>One caller starts and stops the service, and does not start it while its thread runs. \<open>R\<close> is what
  the other threads do with the service.\<close>

inductive life_step ::
  "('e, 's) service_code \<Rightarrow> ('o \<Rightarrow> 's \<Rightarrow> 's \<Rightarrow> bool) \<Rightarrow> 'o life_event \<Rightarrow> 's life \<Rightarrow> 's life \<Rightarrow> bool" for C R where
  calls_start: "lf_caller s = Elsewhere \<Longrightarrow> lf_thread s \<in> {NoThread, Over} \<Longrightarrow>
    life_step C R CallsStart s (s\<lparr>lf_mustStop := False, lf_caller := Spawning\<rparr>)"
| spawns: "lf_caller s = Spawning \<Longrightarrow> life_step C R Spawns s (s\<lparr>lf_thread := Created, lf_caller := Elsewhere\<rparr>)"
| calls_stop: "lf_caller s = Elsewhere \<Longrightarrow> lf_thread s \<noteq> Dead \<Longrightarrow>
    life_step C R CallsStop s (s\<lparr>lf_status := STOPPING, lf_caller := Signalling\<rparr>)"
| signals: "lf_caller s = Signalling \<Longrightarrow> lf_thread s \<noteq> Dead \<Longrightarrow>
    life_step C R Signals s (s\<lparr>lf_mustStop := True, lf_caller := Joining\<rparr>)"
| stop_returns: "lf_caller s = Joining \<Longrightarrow> lf_thread s \<in> {NoThread, Over} \<Longrightarrow>
    life_step C R StopReturns s (s\<lparr>lf_caller := Elsewhere\<rparr>)"
| enters: "lf_thread s = Created \<Longrightarrow> life_step C R Runs s (s\<lparr>lf_status := RUNNING, lf_thread := Initialising\<rparr>)"
| initialised: "lf_thread s = Initialising \<Longrightarrow> meets C e \<Longrightarrow> initialise C e (lf_data s) = Returns d ok \<Longrightarrow>
    life_step C R Runs s (s\<lparr>lf_data := d, lf_thread := (if ok then Top else Over)\<rparr>)"
| dies: "lf_thread s = Initialising \<Longrightarrow> meets C e \<Longrightarrow> initialise C e (lf_data s) = Throws d \<Longrightarrow>
    life_step C R Runs s (s\<lparr>lf_data := d, lf_thread := Dead\<rparr>)"
| passes: "lf_thread s = Top \<Longrightarrow> meets C e \<Longrightarrow> one_pass C e (lf_data s) = Returns d u \<Longrightarrow>
    life_step C R Passes s (s\<lparr>lf_data := d, lf_thread := Inspect\<rparr>)"
| throws: "lf_thread s = Top \<Longrightarrow> meets C e \<Longrightarrow> one_pass C e (lf_data s) = Throws d \<Longrightarrow>
    life_step C R Passes s (s\<lparr>lf_data := leave C d, lf_thread := Failing\<rparr>)"
| inspects: "lf_thread s = Inspect \<Longrightarrow>
    life_step C R Runs s (s\<lparr>lf_thread := (if lf_mustStop s then Leaving else Top)\<rparr>)"
| leaves: "lf_thread s = Leaving \<Longrightarrow>
    life_step C R Runs s (s\<lparr>lf_status := NORMAL_STOP, lf_data := leave C (lf_data s), lf_thread := Over\<rparr>)"
| fails: "lf_thread s = Failing \<Longrightarrow> life_step C R Runs s (s\<lparr>lf_status := ERROR_STOP, lf_thread := Over\<rparr>)"
| happens: "lf_thread s \<noteq> Dead \<Longrightarrow> R x (lf_data s) d \<Longrightarrow> life_step C R (Happens x) s (s\<lparr>lf_data := d\<rparr>)"

inductive life_run ::
  "('e, 's) service_code \<Rightarrow> ('o \<Rightarrow> 's \<Rightarrow> 's \<Rightarrow> bool) \<Rightarrow> 'o life_event list \<Rightarrow> 's life \<Rightarrow> 's life \<Rightarrow> bool" for C R where
  ended: "life_run C R [] s s"
| continued: "life_step C R ev s s1 \<Longrightarrow> life_run C R es s1 s2 \<Longrightarrow> life_run C R (ev # es) s s2"

inductive_cases life_runE: "life_run C R (ev # es) s s'"

text \<open>A run is also a run of a service that meets more, among threads that do more.\<close>

lemma life_step_mono:
  assumes "life_step C R ev s s'" "\<And>x d d'. R x d d' \<Longrightarrow> R' x d d'"
    and "initialise C' = initialise C" "one_pass C' = one_pass C" "leave C' = leave C" "\<And>e. meets C e \<Longrightarrow> meets C' e"
  shows "life_step C' R' ev s s'"
  using assms(1)
proof cases
  case (initialised e d ok)
  then show ?thesis using life_step.initialised [of s C' e d ok R'] assms(3,6) by simp
next
  case (dies e d)
  then show ?thesis using life_step.dies [of s C' e d R'] assms(3,6) by simp
next
  case (passes e d u)
  then show ?thesis using life_step.passes [of s C' e d u R'] assms(4,6) by simp
next
  case (throws e d)
  then show ?thesis using life_step.throws [of s C' e d R'] assms(4-6) by simp
next
  case inspects
  then show ?thesis using life_step.inspects [of s C' R'] by simp
next
  case leaves
  then show ?thesis using life_step.leaves [of s C' R'] assms(5) by simp
next
  case (happens x d)
  then show ?thesis using life_step.happens [of s R' x d C'] assms(2) by simp
qed (auto intro: life_step.intros)

lemma life_run_mono:
  assumes "life_run C R es s s'" "\<And>x d d'. R x d d' \<Longrightarrow> R' x d d'"
    and "initialise C' = initialise C" "one_pass C' = one_pass C" "leave C' = leave C" "\<And>e. meets C e \<Longrightarrow> meets C' e"
  shows "life_run C' R' es s s'"
  using assms(1)
proof (induction rule: life_run.induct)
  case (continued ev s s1 es s2)
  from life_run.continued [OF life_step_mono [OF continued.hyps(1) assms(2-6)] continued.IH] show ?case .
qed (rule life_run.ended)

lemma life_run_append: "life_run C R es s s1 \<Longrightarrow> life_run C R es' s1 s2 \<Longrightarrow> life_run C R (es @ es') s s2"
  by (induction rule: life_run.induct) (auto intro: life_run.intros)

subsection \<open>Stopping\<close>

definition by_thread :: "'o life_event \<Rightarrow> bool" where
  "by_thread ev \<longleftrightarrow> ev = Runs \<or> ev = Passes"

text \<open>How many steps the thread takes at most once the flag is set, and how many of them are passes.\<close>

definition steps_left :: "thread_place \<Rightarrow> nat" where
  "steps_left p = (case p of Created \<Rightarrow> 5 | Initialising \<Rightarrow> 4 | Top \<Rightarrow> 3 | Inspect \<Rightarrow> 2 | Leaving \<Rightarrow> 1 | Failing \<Rightarrow> 1 | _ \<Rightarrow> 0)"

definition passes_left :: "thread_place \<Rightarrow> nat" where
  "passes_left p = (if p \<in> {Created, Initialising, Top} then 1 else 0)"

definition in_loop :: "thread_place \<Rightarrow> bool" where
  "in_loop p \<longleftrightarrow> p \<in> {Top, Inspect, Leaving, Failing}"

definition reports_stop :: "'s life \<Rightarrow> bool" where
  "reports_stop s \<longleftrightarrow> in_loop (lf_thread s) \<or> lf_thread s = Over \<and> lf_status s \<in> {NORMAL_STOP, ERROR_STOP}"

lemma places_left [simp]:
  "steps_left p \<le> 5" "passes_left p \<le> 1"
  by (simp_all add: steps_left_def passes_left_def split: thread_place.split)

lemmas place_defs = by_thread_def steps_left_def passes_left_def in_loop_def reports_stop_def

lemma joining_flag:
  assumes "life_run C R es s s'" "lf_caller s = Joining \<Longrightarrow> lf_mustStop s"
  shows "lf_caller s' = Joining \<Longrightarrow> lf_mustStop s'"
  using assms by (induction rule: life_run.induct) (auto elim!: life_step.cases)

lemma joining_step:
  assumes "life_step C R ev s s'" "lf_caller s = Joining" "lf_mustStop s" "ev \<noteq> StopReturns"
  shows "lf_caller s' = Joining" "lf_mustStop s'"
    "steps_left (lf_thread s') + (if by_thread ev then 1 else 0) \<le> steps_left (lf_thread s)"
    "passes_left (lf_thread s') + (if ev = Passes then 1 else 0) \<le> passes_left (lf_thread s)"
    "reports_stop s \<Longrightarrow> reports_stop s'"
  using assms by (cases; simp add: place_defs)+

lemma joining_run:
  assumes "life_run C R es s s'" "lf_caller s = Joining" "lf_mustStop s" "StopReturns \<notin> set es"
  shows "lf_caller s' = Joining \<and> length (filter by_thread es) \<le> steps_left (lf_thread s) \<and>
    length (filter ((=) Passes) es) \<le> passes_left (lf_thread s) \<and> (reports_stop s \<longrightarrow> reports_stop s')"
  using assms
proof (induction rule: life_run.induct)
  case (continued ev s s1 es s2)
  have "ev \<noteq> StopReturns" using continued.prems by auto
  note st = joining_step [OF continued.hyps(1) continued.prems(1,2) this]
  show ?case using continued.IH [OF st(1,2)] continued.prems(3) st(3-5) by auto
qed simp

text \<open>The function that the thread is in comes to an end, one way or another: no endless wait for a
  lock, and nothing undefined.\<close>

definition ends :: "('s, 'a) outcome \<Rightarrow> bool" where
  "ends r \<longleftrightarrow> (case r of Returns _ _ \<Rightarrow> True | Throws _ \<Rightarrow> True | _ \<Rightarrow> False)"

definition not_stuck :: "('e, 's) service_code \<Rightarrow> 's life \<Rightarrow> bool" where
  "not_stuck C s \<longleftrightarrow> (lf_thread s = Initialising \<longrightarrow> (\<exists>e. meets C e \<and> ends (initialise C e (lf_data s)))) \<and>
     (lf_thread s = Top \<longrightarrow> (\<exists>e. meets C e \<and> ends (one_pass C e (lf_data s)))) \<and> lf_thread s \<noteq> Dead"

lemma endsE: "ends r \<Longrightarrow> (\<And>d x. r = Returns d x \<Longrightarrow> P) \<Longrightarrow> (\<And>d. r = Throws d \<Longrightarrow> P) \<Longrightarrow> P"
  by (cases r) (simp_all add: ends_def)

lemma thread_goes_on:
  assumes "not_stuck C s" "lf_caller s = Joining"
  shows "\<exists>ev s'. (by_thread ev \<or> ev = StopReturns) \<and> life_step C R ev s s'"
proof (cases "lf_thread s")
  case Initialising
  then obtain e where e: "meets C e" "ends (initialise C e (lf_data s))" using assms(1) by (auto simp: not_stuck_def)
  from e(2) show ?thesis
    unfolding by_thread_def by (rule endsE) (blast intro: initialised [OF Initialising e(1)] dies [OF Initialising e(1)])+
next
  case Top
  then obtain e where e: "meets C e" "ends (one_pass C e (lf_data s))" using assms(1) by (auto simp: not_stuck_def)
  from e(2) show ?thesis
    unfolding by_thread_def by (rule endsE) (blast intro: passes [OF Top e(1)] throws [OF Top e(1)])+
qed (use assms in \<open>auto simp: by_thread_def not_stuck_def intro: life_step.intros\<close>)

text \<open>C6: A stop is heeded: after \<open>stop\<close> has set the flag, the thread takes at most five more steps - its
  start, its initialisation, one pass, the look at the flag and the end - however the other threads
  interleave, and until \<open>stop\<close> returns there is a next step of it, unless a function that it calls
  never ends. A thread that was in its
  loop reports a normal stop, or an error if its last pass threw.\<close>

theorem stop_is_heeded:
  assumes "life_run C R before (new_life d) s" "lf_caller s = Joining" "life_run C R es s s'" "StopReturns \<notin> set es"
  shows "length (filter by_thread es) \<le> 5 \<and> length (filter ((=) Passes) es) \<le> 1 \<and>
    (in_loop (lf_thread s) \<and> lf_thread s' = Over \<longrightarrow> lf_status s' \<in> {NORMAL_STOP, ERROR_STOP}) \<and>
    (not_stuck C s' \<longrightarrow> (\<exists>ev s''. (by_thread ev \<or> ev = StopReturns) \<and> life_step C R ev s' s''))"
proof -
  have "lf_mustStop s" using joining_flag [OF assms(1)] assms(2) by (simp add: new_life_def)
  from joining_run [OF assms(3,2) this assms(4)]
  have run: "lf_caller s' = Joining" "length (filter by_thread es) \<le> steps_left (lf_thread s)"
    "length (filter ((=) Passes) es) \<le> passes_left (lf_thread s)" "reports_stop s \<Longrightarrow> reports_stop s'" by simp_all
  have "in_loop (lf_thread s) \<and> lf_thread s' = Over \<longrightarrow> lf_status s' \<in> {NORMAL_STOP, ERROR_STOP}"
    using run(4) by (auto simp: reports_stop_def in_loop_def)
  then show ?thesis using run(2,3) places_left [of "lf_thread s"] thread_goes_on [OF _ run(1)] by (meson order_trans)
qed

subsection \<open>The thread and its loop\<close>

text \<open>The loop of \<open>operator()\<close> without the threads around it, over what each pass meets and the flag
  that is read after it.\<close>

fun service_loop :: "('e, 's) service_code \<Rightarrow> ('e \<times> bool) list \<Rightarrow> 's \<Rightarrow> ('s, serviceState_t) outcome" where
  "service_loop C [] d = Returns d RUNNING"
| "service_loop C ((e, stop) # es) d =
     (case one_pass C e d of
        Returns d1 _ \<Rightarrow> if stop then Returns (leave C d1) NORMAL_STOP else service_loop C es d1
      | Throws d1 \<Rightarrow> Returns (leave C d1) ERROR_STOP
      | Blocks \<Rightarrow> Blocks
      | Undefined \<Rightarrow> Undefined)"

lemma service_loop_append:
  "service_loop C xs d = Returns d1 RUNNING \<Longrightarrow> service_loop C (xs @ ys) d = service_loop C ys d1"
  by (induction C xs d rule: service_loop.induct) (auto split: outcome.splits if_splits)

text \<open>The state of a thread that began its loop with \<open>d\<close>.\<close>

definition follows_loop :: "('e, 's) service_code \<Rightarrow> 's \<Rightarrow> 's life \<Rightarrow> bool" where
  "follows_loop C d s \<longleftrightarrow> (\<exists>xs. case lf_thread s of
     Top \<Rightarrow> service_loop C xs d = Returns (lf_data s) RUNNING
   | Inspect \<Rightarrow> (\<exists>d1 e. service_loop C xs d = Returns d1 RUNNING \<and> one_pass C e d1 = Returns (lf_data s) ())
   | Leaving \<Rightarrow> (\<exists>d1 e. service_loop C xs d = Returns d1 RUNNING \<and> one_pass C e d1 = Returns (lf_data s) ())
   | Failing \<Rightarrow> service_loop C xs d = Returns (lf_data s) ERROR_STOP
   | Over \<Rightarrow> (\<exists>st. st \<in> {NORMAL_STOP, ERROR_STOP} \<and> service_loop C xs d = Returns (lf_data s) st)
   | _ \<Rightarrow> False)"

lemma step_follows_loop:
  assumes "life_step C R ev s s'" "follows_loop C d s" "by_thread ev \<or> ev \<in> {CallsStop, Signals, StopReturns}"
  shows "follows_loop C d s'"
  using assms(1)
proof cases
  case (passes e d1 u)
  then obtain xs where "service_loop C xs d = Returns (lf_data s) RUNNING" using assms(2) by (auto simp: follows_loop_def)
  then show ?thesis using passes unfolding follows_loop_def by (intro exI [of _ xs]) auto
next
  case (throws e d1)
  then obtain xs where "service_loop C xs d = Returns (lf_data s) RUNNING" using assms(2) by (auto simp: follows_loop_def)
  from service_loop_append [OF this, of "[(e, False)]"] throws show ?thesis
    unfolding follows_loop_def by (intro exI [of _ "xs @ [(e, False)]"]) simp
next
  case inspects
  then obtain xs d1 e where x: "service_loop C xs d = Returns d1 RUNNING" "one_pass C e d1 = Returns (lf_data s) ()"
    using assms(2) by (auto simp: follows_loop_def)
  show ?thesis
  proof (cases "lf_mustStop s")
    case True
    then show ?thesis using inspects x unfolding follows_loop_def by (intro exI [of _ xs]) auto
  next
    case False
    then show ?thesis
      using inspects x service_loop_append [OF x(1), of "[(e, False)]"]
      unfolding follows_loop_def by (intro exI [of _ "xs @ [(e, False)]"]) simp
  qed
next
  case leaves
  then obtain xs d1 e where x: "service_loop C xs d = Returns d1 RUNNING" "one_pass C e d1 = Returns (lf_data s) ()"
    using assms(2) by (auto simp: follows_loop_def)
  show ?thesis
    using leaves x service_loop_append [OF x(1), of "[(e, True)]"]
    unfolding follows_loop_def by (intro exI [of _ "xs @ [(e, True)]"]) simp
qed (use assms(2,3) in \<open>auto simp: follows_loop_def by_thread_def split: thread_place.splits\<close>)

lemma run_follows_loop:
  assumes "life_run C R es s s'" "follows_loop C d s" "\<forall>ev\<in>set es. by_thread ev \<or> ev \<in> {CallsStop, Signals, StopReturns}"
  shows "follows_loop C d s'"
  using assms by (induction rule: life_run.induct) (auto dest: step_follows_loop)

text \<open>The thread refines the sequential loop: whatever the caller does meanwhile, a thread that nobody
  offers anything ends as \<open>service_loop\<close> ends, for some worlds and some flags.\<close>

theorem thread_runs_its_loop:
  assumes "life_run C R es s s'" "lf_thread s = Top" "lf_thread s' = Over"
    and "\<forall>ev\<in>set es. by_thread ev \<or> ev \<in> {CallsStop, Signals, StopReturns}"
  shows "\<exists>xs st. st \<in> {NORMAL_STOP, ERROR_STOP} \<and> service_loop C xs (lf_data s) = Returns (lf_data s') st"
proof -
  have "follows_loop C (lf_data s) s" using assms(2) by (auto simp: follows_loop_def intro: exI [of _ "[]"])
  from run_follows_loop [OF assms(1) this assms(4)] assms(3) show ?thesis by (auto simp: follows_loop_def)
qed

subsection \<open>The archivers\<close>

text \<open>What an archiver meets: the world of its passes, the database and the clock of its start, and
  what an exception of a pass leaves behind.\<close>

record archiver_world =
  aw_around :: surroundings
  aw_connected :: bool
  aw_now :: u32
  aw_now2 :: u32
  aw_left :: archiver

definition new_archiver :: "buffer_processing_record \<Rightarrow> service_stats \<Rightarrow> archiver" where
  "new_archiver junk s = \<lparr>cmdQueue = new_cmd_queue 32, dataQ = [], bpr = junk, dataBuf = None, processingBuffer = False,
     stats = s, rows = [], operations_log = [], key_value_lists = [], sleeps = 0\<rparr>"

text \<open>The buffer in work is a local variable of \<open>operator()\<close>: it is released when the function ends.\<close>

definition leave_archiver :: "archiver \<Rightarrow> archiver" where
  "leave_archiver a = a\<lparr>dataBuf := None, processingBuffer := False\<rparr>"

definition archiver_code ::
  "pre_processor \<Rightarrow> processor \<Rightarrow> (surroundings \<Rightarrow> bool) \<Rightarrow> (archiver_world, archiver) service_code" where
  "archiver_code pre proc G = \<lparr>
     initialise = (\<lambda>w. initService (aw_connected w) (aw_now w) (aw_now2 w) (aw_around w)),
     one_pass = (\<lambda>w a. case archiver_pass pre proc (aw_around w) a of
       Ok a' \<Rightarrow> Returns a' () | Exc \<Rightarrow> Throws (aw_left w) | Ub \<Rightarrow> Undefined),
     leave = leave_archiver, meets = (\<lambda>w. G (aw_around w))\<rparr>"

text \<open>What the other threads do: they offer buffers, of which \<open>S\<close> holds, and they put commands into
  the queue.\<close>

datatype happening = Offered data_buffer dataBufferOffer_t | Commanded nat

definition outside :: "(data_buffer \<Rightarrow> bool) \<Rightarrow> happening \<Rightarrow> archiver \<Rightarrow> archiver \<Rightarrow> bool" where
  "outside S x a a' \<longleftrightarrow> (case x of
     Offered b r \<Rightarrow> S b \<and> dataBufferOffer b a = Ok (r, a')
   | Commanded c \<Rightarrow> a' = a\<lparr>cmdQueue := snd (Enqueue c (cmdQueue a))\<rparr>)"

definition accepted_bytes :: "happening life_event list \<Rightarrow> bytes list" where
  "accepted_bytes es = concat (map (\<lambda>ev. case ev of
     Happens (Offered b r) \<Rightarrow> if r = BUFFER_ACCEPTED then [dataBuffer b] else [] | _ \<Rightarrow> []) es)"

definition lives :: "'o life_event list \<Rightarrow> nat" where
  "lives es = length (filter (\<lambda>ev. ev = Spawns) es)"

lemma accepted_simps [simp]:
  "accepted_bytes [] = []" "accepted_bytes (es @ es') = accepted_bytes es @ accepted_bytes es'"
  "accepted_bytes (Happens (Offered b r) # es) = (if r = BUFFER_ACCEPTED then [dataBuffer b] else []) @ accepted_bytes es"
  "accepted_bytes (Happens (Commanded c) # es) = accepted_bytes es" "by_thread ev \<Longrightarrow> accepted_bytes (ev # es) = accepted_bytes es"
  "ev \<in> {CallsStart, Spawns, CallsStop, Signals, StopReturns} \<Longrightarrow> accepted_bytes (ev # es) = accepted_bytes es"
  by (auto simp: accepted_bytes_def by_thread_def)

text \<open>Buffers with the number of their seconds that were archived; those that were cut short.\<close>

definition parts_stamps :: "archive_spec \<Rightarrow> (bytes \<times> nat) list \<Rightarrow> u64 list" where
  "parts_stamps sp parts = concat (map (\<lambda>(b, k). take k (as_stamps sp b)) parts)"

definition cut_short :: "archive_spec \<Rightarrow> (bytes \<times> nat) list \<Rightarrow> nat" where
  "cut_short sp parts = length (filter (\<lambda>(b, k). k < length (as_stamps sp b)) parts)"

lemma parts_simps [simp]:
  "parts_stamps sp [] = []" "parts_stamps sp (ps @ qs) = parts_stamps sp ps @ parts_stamps sp qs"
  "parts_stamps sp [(b, k)] = take k (as_stamps sp b)"
  "cut_short sp [] = 0" "cut_short sp (ps @ qs) = cut_short sp ps + cut_short sp qs"
  "cut_short sp [(b, k)] \<le> Suc 0"
  by (simp_all add: parts_stamps_def cut_short_def)

lemma whole_parts:
  "parts_stamps sp (map (\<lambda>b. (b, length (as_stamps sp b))) bs) = times_of sp bs"
  "cut_short sp (map (\<lambda>b. (b, length (as_stamps sp b))) bs) = 0"
  "map fst (map (\<lambda>b. (b, length (as_stamps sp b))) bs) = bs"
  by (induction bs) (simp_all add: parts_stamps_def cut_short_def)

text \<open>What was accepted of all lives so far: what was taken from the queue, and how far each buffer got.\<close>

lemma taken_parts:
  assumes "archived_from sp (parts_stamps sp ps) acc a"
  shows "\<exists>qs. map fst qs @ map dataBuffer (dataQ a) = map fst ps @ acc \<and> map row_timestamp_msec (rows a) = parts_stamps sp qs \<and>
    cut_short sp qs \<le> cut_short sp ps + (if processingBuffer a then 1 else 0)"
proof -
  from assms obtain past held where h: "holds sp a held" "acc = past @ held_bytes held @ map dataBuffer (dataQ a)"
    "map row_timestamp_msec (rows a) = parts_stamps sp ps @ times_of sp past @ held_times sp held"
    by (auto simp: archived_from_def)
  let ?qs = "ps @ map (\<lambda>b. (b, length (as_stamps sp b))) past @ (case held of None \<Rightarrow> [] | Some p \<Rightarrow> [p])"
  have "held \<noteq> None \<longleftrightarrow> processingBuffer a" using h(1) by (auto simp: holds_def split: if_splits)
  then show ?thesis
    using h(2,3) whole_parts [of sp past]
    by (intro exI [of _ ?qs]) (auto simp: held_bytes_def held_times_def split: option.splits)
qed

lemma archived_after:
  assumes "archived_from sp old acc a" "archiver_stats_ready t"
  shows "archived_from sp (map row_timestamp_msec (rows a)) (map dataBuffer (dataQ a)) ((leave_archiver a)\<lparr>stats := t\<rparr>)"
  using assms unfolding archived_from_def
  by (intro conjI exI [of _ "[]"] exI [of _ None]) (auto simp: leave_archiver_def holds_def held_bytes_def held_times_def)

lemma archived_fields:
  assumes "archived_from sp old acc a" "stats a' = stats a \<or> archiver_stats_ready (stats a')" "bpr a' = bpr a" "dataQ a' = dataQ a"
    "dataBuf a' = dataBuf a" "processingBuffer a' = processingBuffer a" "rows a' = rows a"
  shows "archived_from sp old acc a'"
proof -
  have "holds sp a' = holds sp a" using assms(3-6) by (simp add: fun_eq_iff holds_def)
  then show ?thesis using assms by (auto simp: archived_from_def)
qed

text \<open>The archiver \<open>a\<close> that a service with data \<open>d\<close> is, before its locals have ended, and up to the statistics
  that it creates when it starts.\<close>

definition stands_for :: "thread_place \<Rightarrow> archiver \<Rightarrow> archiver \<Rightarrow> bool" where
  "stands_for p a d \<longleftrightarrow>
     (if p \<in> {Top, Inspect, Leaving} then d = a
      else if p = Over then d = leave_archiver a
      else if p \<in> {NoThread, Created, Initialising}
      then d = a\<lparr>stats := stats d\<rparr> \<and> dataBuf a = None \<and> \<not> processingBuffer a
      else False)"

lemma stands_for_fields: "stands_for p a d \<Longrightarrow> dataQ d = dataQ a \<and> rows d = rows a \<and> cmdQueue d = cmdQueue a"
  unfolding stands_for_def leave_archiver_def by (cases a; cases d) (auto split: if_splits)

definition life_line :: "archive_spec \<Rightarrow> bytes list \<Rightarrow> nat \<Rightarrow> archiver life \<Rightarrow> bool" where
  "life_line sp acc n s \<longleftrightarrow> (\<exists>ps acc' a. acc = map fst ps @ acc' \<and> archived_from sp (parts_stamps sp ps) acc' a \<and>
     stands_for (lf_thread s) a (lf_data s) \<and> cut_short sp ps + (if lf_thread s = NoThread then 0 else 1) \<le> n) \<and>
     (lf_caller s = Spawning \<longrightarrow> lf_thread s \<in> {NoThread, Over})"

lemma life_lineI:
  assumes "acc = map fst ps @ acc'" "archived_from sp (parts_stamps sp ps) acc' a" "stands_for (lf_thread s) a (lf_data s)"
    and "cut_short sp ps + (if lf_thread s = NoThread then 0 else 1) \<le> n" "lf_caller s = Spawning \<Longrightarrow> lf_thread s \<in> {NoThread, Over}"
  shows "life_line sp acc n s"
  using assms unfolding life_line_def by blast

lemma life_line_parts:
  assumes "life_line sp acc n s"
  shows "\<exists>qs. map fst qs @ map dataBuffer (dataQ (lf_data s)) = acc \<and>
    map row_timestamp_msec (rows (lf_data s)) = parts_stamps sp qs \<and> cut_short sp qs \<le> n"
proof -
  from assms obtain ps acc' a where a: "acc = map fst ps @ acc'" "archived_from sp (parts_stamps sp ps) acc' a"
    "stands_for (lf_thread s) a (lf_data s)" "cut_short sp ps + (if lf_thread s = NoThread then 0 else 1) \<le> n"
    by (auto simp: life_line_def)
  have "(if processingBuffer a then 1 else 0) \<le> (if lf_thread s = NoThread then 0 else 1 :: nat)"
    using a(3) by (auto simp: stands_for_def)
  then show ?thesis
    using taken_parts [OF a(2)] a(1,4) stands_for_fields [OF a(3)] by (metis (no_types, lifting) add_left_mono order_trans)
qed

lemma initService_effect:
  assumes "initService c now now2 e st = Returns st' ok"
  shows "archiver_stats_ready (stats st')" "st' = st\<lparr>stats := stats st', operations_log := operations_log st',
    key_value_lists := key_value_lists st'\<rparr>"
  using assms
  by (auto simp: initService_def createServiceSpecificStats_archiver_def create_specific_def archiver_stats_ready_def Let_def
      split: outcome.splits if_splits option.splits)

lemma initService_no_throw: "initService c now now2 e st \<noteq> Throws st'"
  by (auto simp: initService_def createServiceCommonStats_def createServiceSpecificStats_archiver_def create_specific_def Let_def
      split: outcome.splits if_splits option.splits)

lemma stands_for_updates:
  assumes "stands_for p a d"
  shows "stands_for p (a\<lparr>dataQ := q\<rparr>) (d\<lparr>dataQ := q\<rparr>)" "stands_for p (a\<lparr>cmdQueue := c\<rparr>) (d\<lparr>cmdQueue := c\<rparr>)"
  using assms unfolding stands_for_def leave_archiver_def by (cases a; cases d; auto split: if_splits)+

lemma outside_keeps:
  assumes "archived_from sp old acc a" "stands_for p a d" "outside (as_sane sp) x d d'"
  shows "\<exists>a'. archived_from sp old (acc @ accepted_bytes [Happens x]) a' \<and> stands_for p a' d'"
proof (cases x)
  case (Offered b r)
  then have o: "as_sane sp b" "dataBufferOffer b d = Ok (r, d')" using assms(3) by (simp_all add: outside_def)
  have d: "dataQ d = dataQ a" using stands_for_fields [OF assms(2)] by simp
  have len: "length (dataQ d) \<le> 16" using assms(1) d by (simp add: archived_from_def)
  note eff = offer_effect [OF o(2) len]
  show ?thesis
  proof (cases "r = BUFFER_ACCEPTED")
    case True
    then have "length (dataQ a) < 16" using eff(2) len d by simp
    from archived_accept [OF assms(1) o(1) this] show ?thesis
      using stands_for_updates(1) [OF assms(2), of "dataQ a @ [b]"] eff(1) True d Offered by auto
  next
    case False
    then show ?thesis using assms(1,2) eff(1) Offered by auto
  qed
next
  case (Commanded c)
  let ?c = "snd (Enqueue c (cmdQueue d))"
  have "d' = d\<lparr>cmdQueue := ?c\<rparr>" using assms(3) Commanded by (simp add: outside_def)
  moreover have "archived_from sp old acc (a\<lparr>cmdQueue := ?c\<rparr>)" by (rule archived_fields [OF assms(1)]) simp_all
  ultimately show ?thesis using stands_for_updates(2) [OF assms(2)] Commanded by auto
qed

lemma starts_standing:
  assumes "archived_from sp old acc a" "stands_for Initialising a d" "initService c now now2 e d = Returns d' ok"
  shows "archived_from sp old acc d' \<and> stands_for (if ok then Top else Over) d' d'"
proof -
  note eff = initService_effect [OF assms(3)]
  have a: "d = a\<lparr>stats := stats d\<rparr>" "dataBuf a = None" "\<not> processingBuffer a" using assms(2) by (simp_all add: stands_for_def)
  have "bpr d' = bpr a \<and> dataQ d' = dataQ a \<and> dataBuf d' = dataBuf a \<and> processingBuffer d' = processingBuffer a \<and> rows d' = rows a"
    if "d' = d\<lparr>stats := x, operations_log := y, key_value_lists := z\<rparr>" "d = a\<lparr>stats := v\<rparr>" for x y z v
    using that by simp
  note f = this [OF eff(2) a(1)]
  then have "archived_from sp old acc d'" using archived_fields [OF assms(1)] eff(1) by blast
  moreover have "leave_archiver d' = d'" using f a(2,3) by (simp add: leave_archiver_def)
  ultimately show ?thesis by (simp add: stands_for_def)
qed

text \<open>An archiver that is started and stopped.\<close>

locale archiver_life = archive_line
begin

lemma step_keeps_line:
  assumes "life_step (archiver_code pre proc up) (outside (as_sane sp)) ev s s'" "life_line sp acc n s"
  shows "life_line sp (acc @ accepted_bytes [ev]) (n + lives [ev]) s'"
proof -
  from assms(2) obtain ps acc' a where acc: "acc = map fst ps @ acc'"
    and arch: "archived_from sp (parts_stamps sp ps) acc' a" and st: "stands_for (lf_thread s) a (lf_data s)"
    and cut: "cut_short sp ps + (if lf_thread s = NoThread then 0 else 1) \<le> n"
    and sp: "lf_caller s = Spawning \<Longrightarrow> lf_thread s \<in> {NoThread, Over}"
    unfolding life_line_def by blast
  have keep: "life_line sp acc n s'" if "archived_from sp (parts_stamps sp ps) acc' a'" "stands_for (lf_thread s') a' (lf_data s')"
    "lf_thread s \<noteq> NoThread \<or> lf_thread s' = NoThread" "lf_caller s' = Spawning \<Longrightarrow> lf_thread s' \<in> {NoThread, Over}" for a'
    using that(3,4) acc cut by (intro life_lineI [OF _ that(1,2)]) (auto split: if_splits)
  from assms(1) show ?thesis
  proof cases
    case spawns
    show ?thesis
    proof (cases "lf_thread s = NoThread")
      case True
      then have created: "stands_for Created a (lf_data s)" using st by (simp add: stands_for_def)
      show ?thesis by (rule life_lineI [OF _ arch]) (use spawns acc cut True in \<open>simp_all add: lives_def created\<close>)
    next
      case False
      then have over: "lf_data s = leave_archiver a" "lf_thread s = Over" using sp spawns st by (auto simp: stands_for_def)
      from taken_parts [OF arch] obtain qs where qs: "map fst qs @ map dataBuffer (dataQ a) = acc"
        "map row_timestamp_msec (rows a) = parts_stamps sp qs"
        and "cut_short sp qs \<le> cut_short sp ps + (if processingBuffer a then 1 else 0)"
        unfolding acc by blast
      then have shorter: "cut_short sp qs \<le> cut_short sp ps + 1" by (simp split: if_splits)
      have "archiver_stats_ready (stats a)" using arch by (simp add: archived_from_def)
      from archived_after [OF arch this] have "archived_from sp (parts_stamps sp qs) (map dataBuffer (dataQ a)) (lf_data s)"
        by (simp add: over(1) qs(2) leave_archiver_def)
      moreover have "stands_for Created (lf_data s) (lf_data s)" by (simp add: over(1) stands_for_def leave_archiver_def)
      ultimately show ?thesis
        by (intro life_lineI [where ps = qs]) (use spawns qs shorter cut over(2) in \<open>simp_all add: lives_def\<close>)
    qed
  next
    case (initialised w d ok)
    then have "initService (aw_connected w) (aw_now w) (aw_now2 w) (aw_around w) (lf_data s) = Returns d ok"
      by (simp add: archiver_code_def)
    from starts_standing [OF arch _ this] st initialised
    have "archived_from sp (parts_stamps sp ps) acc' d" "stands_for (if ok then Top else Over) d d" by simp_all
    then have "life_line sp acc n s'" by (intro keep [of d]) (use initialised sp in auto)
    then show ?thesis using initialised(1) by (simp add: by_thread_def lives_def)
  next
    case (dies w d)
    then show ?thesis by (simp add: archiver_code_def initService_no_throw)
  next
    case (passes w d u)
    then have p: "archiver_pass pre proc (aw_around w) (lf_data s) = Ok d" "up (aw_around w)"
      by (auto simp: archiver_code_def split: run.splits)
    have "lf_data s = a" using st passes by (simp add: stands_for_def)
    then have "archived_from sp (parts_stamps sp ps) acc' d" using pass_keeps_archived(1) [OF arch p(2)] p(1) by simp
    then have "life_line sp acc n s'" by (rule keep) (use passes sp in \<open>auto simp: stands_for_def\<close>)
    then show ?thesis using passes(1) by (simp add: by_thread_def lives_def)
  next
    case (throws w d)
    then have exc: "archiver_pass pre proc (aw_around w) (lf_data s) = Exc" "up (aw_around w)"
      by (auto simp: archiver_code_def split: run.splits)
    have "lf_data s = a" using st throws by (simp add: stands_for_def)
    with pass_succeeds [OF arch exc(2)] exc(1) show ?thesis by auto
  next
    case (happens x d)
    from outside_keeps [OF arch st happens(4)] obtain a' where
      "archived_from sp (parts_stamps sp ps) (acc' @ accepted_bytes [Happens x]) a'" "stands_for (lf_thread s) a' d" by blast
    then show ?thesis
      by (intro life_lineI [where ps = ps]) (use happens acc cut sp in \<open>simp_all add: lives_def\<close>)
  next
    case inspects
    have "life_line sp acc n s'" by (rule keep [OF arch]) (use inspects st sp in \<open>auto simp: stands_for_def\<close>)
    then show ?thesis using inspects(1) by (simp add: by_thread_def lives_def)
  next
    case leaves
    have "life_line sp acc n s'" by (rule keep [OF arch]) (use leaves st in \<open>auto simp: stands_for_def archiver_code_def\<close>)
    then show ?thesis using leaves(1) by (simp add: by_thread_def lives_def)
  next
    case enters
    have "life_line sp acc n s'" by (rule keep [OF arch]) (use enters st sp in \<open>auto simp: stands_for_def\<close>)
    then show ?thesis using enters(1) by (simp add: by_thread_def lives_def)
  next
    case fails
    then show ?thesis using st by (simp add: stands_for_def)
  qed (use keep [OF arch] st sp in \<open>auto simp: lives_def\<close>)
qed

lemma run_keeps_line:
  assumes "life_run (archiver_code pre proc up) (outside (as_sane sp)) es s s'" "life_line sp acc n s"
  shows "life_line sp (acc @ accepted_bytes es) (n + lives es) s'"
  using assms
proof (induction arbitrary: acc n rule: life_run.induct)
  case (continued ev s s1 es s2)
  from continued.IH [OF step_keeps_line [OF continued.hyps(1) continued.prems]] show ?case
    using accepted_simps(2) [of "[ev]" es] by (simp add: lives_def split: if_splits)
qed (simp add: lives_def)

lemma new_archiver_line: "life_line sp [] 0 (new_life (new_archiver junk s))"
proof -
  have "archived sp [] (new_archiver junk created_archiver_stats)"
    by (simp add: archived_from_def holds_def held_bytes_def held_times_def new_archiver_def archiver_stats_ready_def created_archiver_stats_def)
  moreover have "stands_for NoThread (new_archiver junk created_archiver_stats) (new_archiver junk s)"
    by (simp add: stands_for_def new_archiver_def)
  ultimately show ?thesis unfolding life_line_def by (auto simp: new_life_def intro!: exI [of _ "[]"])
qed

lemma lives_of_an_archiver:
  assumes "life_run (archiver_code pre proc up) (outside (as_sane sp)) es (new_life (new_archiver junk s0)) s"
  shows "\<exists>parts. accepted_bytes es = map fst parts @ map dataBuffer (dataQ (lf_data s)) \<and>
    map row_timestamp_msec (rows (lf_data s)) = parts_stamps sp parts \<and> cut_short sp parts \<le> lives es"
  using life_line_parts [OF run_keeps_line [OF assms new_archiver_line]] by (metis append_Nil add_0)

end

subsection \<open>A concrete run\<close>

lemma short_runs_of_steps:
  "life_step C R e1 s s1 \<Longrightarrow> life_step C R e2 s1 s2 \<Longrightarrow> life_run C R [e1, e2] s s2"
  "life_step C R e1 s s1 \<Longrightarrow> life_step C R e2 s1 s2 \<Longrightarrow> life_step C R e3 s2 s3 \<Longrightarrow> life_run C R [e1, e2, e3] s s3"
  by (blast intro: life_run.intros)+

lemma archiver_versions:
  assumes "serviceSpecStatsLabels s = Some (map_of archiver_labels)" "serviceSpecStatsValues s = Some (map_of archiver_values)"
    and "statics s ''val_dataArchiverMajVer'' = Some (CStr maj)" "statics s ''val_dataArchiverMinVer'' = Some (CStr mnr)"
  shows "\<exists>l. str_stat s 30 = Some (l, maj)" "\<exists>l. str_stat s 31 = Some (l, mnr)"
  using assms by (simp_all add: str_stat_def archiver_labels_def archiver_values_def cast_str_def)

lemma new_archiver_starts:
  "\<exists>a. initService True 1 2 calm_world (new_archiver junk (stats_at_start archiver_statics)) = Returns a True \<and> rows a = [] \<and> dataQ a = [] \<and>
     \<not> processingBuffer a \<and> m_queue (cmdQueue a) = [] \<and> archiver_stats_ready (stats a) \<and>
     serviceCmnStatsValues (stats a) = Some (map_of common_values)"
proof -
  let ?s0 = "stats_at_start archiver_statics"
  obtain s1 where s1: "createServiceCommonStats 1 ?s0 = Returns s1 ()" "\<not> specStatsLocked s1"
    "serviceCmnStatsValues s1 = Some (map_of common_values)"
    "statics s1 ''val_dataArchiverMajVer'' = Some (CStr ''0.9'')" "statics s1 ''val_dataArchiverMinVer'' = Some (CStr ''32'')"
    by (simp add: createServiceCommonStats_def stats_at_start_def archiver_statics_def archiver_inits_def set_cells_def map_add_def)
  then obtain s2 where s2: "createServiceSpecificStats_archiver s1 = Returns s2 ()" "archiver_stats_ready s2"
    "serviceSpecStatsLabels s2 = Some (map_of archiver_labels)" "serviceCmnStatsValues s2 = Some (map_of common_values)"
    "statics s2 ''val_dataArchiverMajVer'' = Some (CStr ''0.9'')" "statics s2 ''val_dataArchiverMinVer'' = Some (CStr ''32'')"
    by (simp add: createServiceSpecificStats_archiver_def create_specific_def archiver_inits_def set_cells_def map_add_def
        archiver_stats_ready_def)
  obtain l l' where v: "str_stat s2 30 = Some (l, ''0.9'')" "str_stat s2 31 = Some (l', ''32'')"
    using archiver_versions [OF s2(3) _ s2(5,6)] s2(2) by (auto simp: archiver_stats_ready_def)
  have st: "stats (new_archiver junk ?s0) = ?s0" by (simp add: new_archiver_def)
  show ?thesis
    using s2(2,4) by (simp add: initService_def st s1(1) s2(1) v createServiceStartupKeyValueList_def Let_def)
      (simp add: new_archiver_def new_cmd_queue_def)
qed

text \<open>A stop right after the start: the thread makes all of its five steps.\<close>

theorem stop_is_heeded_witness:
  "\<exists>s s'. lf_caller s = Joining \<and> lf_thread s' = Over \<and>
     life_run (archiver_code preProcessData_ftp processData_ftp good_ftp) (\<lambda>(_ :: happening) _ _. False) [Runs, Runs, Passes, Runs, Runs] s s' \<and>
     length (filter by_thread [Runs, Runs, Passes, Runs, Runs :: happening life_event]) \<le> 5"
proof -
  let ?C = "archiver_code preProcessData_ftp processData_ftp good_ftp" and ?R = "\<lambda>(_ :: happening) (_ :: archiver) (_ :: archiver). False"
  let ?w = "\<lparr>aw_around = calm_world, aw_connected = True, aw_now = 1, aw_now2 = 2, aw_left = idle_archiver []\<rparr>"
  let ?d = "new_archiver (begun 0) (stats_at_start archiver_statics)"
  let ?L = "\<lambda>st ms th ca d. \<lparr>lf_status = st, lf_mustStop = ms, lf_thread = th, lf_caller = ca, lf_data = d\<rparr>"
  obtain a where a: "initService True 1 2 calm_world ?d = Returns a True" "dataQ a = []" "\<not> processingBuffer a"
    using new_archiver_starts by blast
  obtain a' where a': "archiver_pass preProcessData_ftp processData_ftp calm_world a = Ok a'"
    using a(2,3) by (simp add: archiver_pass_def take_next_def data_queue_take_def)
  have m: "meets ?C ?w" by (simp add: archiver_code_def calm_world_def good_ftp_def)
  have c: "initialise ?C ?w ?d = Returns a True" "one_pass ?C ?w a = Returns a' ()" "leave ?C = leave_archiver"
    unfolding archiver_code_def by (simp_all only: service_code.simps archiver_world.simps a(1) a' run.case)
  let ?s2 = "?L NOT_STARTED False Created Elsewhere ?d" and ?s = "?L STOPPING True Created Joining ?d"
  have b1: "life_run ?C ?R [CallsStart, Spawns] (new_life ?d) ?s2"
    by (rule short_runs_of_steps(1))
      (use calls_start [of "new_life ?d" ?C ?R] spawns [of "?L NOT_STARTED False NoThread Spawning ?d" ?C ?R]
       in \<open>simp_all add: new_life_def\<close>)
  have b2: "life_run ?C ?R [CallsStop, Signals] ?s2 ?s"
    by (rule short_runs_of_steps(1))
      (use calls_stop [of ?s2 ?C ?R] signals [of "?L STOPPING False Created Signalling ?d" ?C ?R] in simp_all)
  have r1: "life_run ?C ?R [Runs, Runs] ?s (?L RUNNING True Top Joining a)"
    by (rule short_runs_of_steps(1))
      (use enters [of ?s ?C ?R] initialised [of "?L RUNNING True Initialising Joining ?d" ?C ?w a True ?R] m c(1) in simp_all)
  have r2: "life_run ?C ?R [Passes, Runs, Runs] (?L RUNNING True Top Joining a) (?L NORMAL_STOP True Over Joining (leave_archiver a'))"
    by (rule short_runs_of_steps(2))
      (use passes [of "?L RUNNING True Top Joining a" ?C ?w a' "()" ?R] m c(2,3)
         inspects [of "?L RUNNING True Inspect Joining a'" ?C ?R] leaves [of "?L RUNNING True Leaving Joining a'" ?C ?R] in simp_all)
  have run: "life_run ?C ?R [Runs, Runs, Passes, Runs, Runs] ?s (?L NORMAL_STOP True Over Joining (leave_archiver a'))"
    using life_run_append [OF r1 r2] by simp
  have "length (filter by_thread [Runs, Runs, Passes, Runs, Runs :: happening life_event]) \<le> 5"
    using stop_is_heeded [OF life_run_append [OF b1 b2] _ run] by (simp del: filter.simps)
  then show ?thesis
    by (intro exI [of _ ?s] exI [of _ "?L NORMAL_STOP True Over Joining (leave_archiver a')"] conjI run) simp_all
qed

end
