(* ===== verification/Service_Lives.thy ===== *)
theory Service_Lives
  imports Service_Life C37_System Ftp_System Rabbit_Ftp
begin

text \<open>
  The services of both gateways as instances of \<open>Service_Life\<close>: the two archivers, the two RabbitMQ
  archivers and the two data discovery services. Their loops, which the other theories define one by
  one, are the loop of the thread there; and what the archivers have archived after any
  number of starts and stops.
\<close>

subsection \<open>The codes\<close>

text \<open>\<open>G\<close> says which surroundings - Cassandra and the memory - the passes of an archiver meet.\<close>

definition archiver_code_c37 :: "(surroundings \<Rightarrow> bool) \<Rightarrow> (archiver_world, archiver) service_code" where
  "archiver_code_c37 G = archiver_code preProcessData_c37 processData_c37 G"

definition archiver_code_ftp :: "(surroundings \<Rightarrow> bool) \<Rightarrow> (archiver_world, archiver) service_code" where
  "archiver_code_ftp G = archiver_code preProcessData_ftp processData_ftp G"

record rabbit_life_world =
  rl_start :: rabbit_start
  rl_around :: surroundings
  rl_world :: rabbit_world
  rl_left :: rabbit

definition leave_rabbit :: "rabbit \<Rightarrow> rabbit" where
  "leave_rabbit st = st\<lparr>core := leave_archiver (core st)\<rparr>"

definition rabbit_code :: "rabbit_thread \<Rightarrow> (rabbit_life_world, rabbit) service_code" where
  "rabbit_code pass = \<lparr>initialise = (\<lambda>w. initService_rabbit (rl_start w) (rl_around w)),
     one_pass = (\<lambda>w st. case pass (rl_around w) (rl_world w) st of
       Ok st' \<Rightarrow> Returns st' () | Exc \<Rightarrow> Throws (rl_left w) | Ub \<Rightarrow> Undefined),
     leave = leave_rabbit, meets = (\<lambda>_. True)\<rparr>"

record discovery_life_world =
  dl_rounds :: nat
  dl_connected :: bool
  dl_archive :: bool
  dl_fresh :: data_dir
  dl_now :: u32
  dl_world :: discovery_world

text \<open>A search for the first directory that is not at its end after the given number of rounds goes on.\<close>

definition discovery_code :: "(discovery_life_world, discovery_service) service_code" where
  "discovery_code = \<lparr>
     initialise = (\<lambda>w s. case initService_discovery (dl_rounds w) (dl_connected w) (dl_archive w) (dl_fresh w) (dl_now w)
         (dl_world w) s of
       Returns s' (Some ok) \<Rightarrow> Returns s' ok | Returns _ None \<Rightarrow> Blocks | Throws s' \<Rightarrow> Throws s'
     | Blocks \<Rightarrow> Blocks | Undefined \<Rightarrow> Undefined),
     one_pass = (\<lambda>w. discovery_pass (dl_world w)), leave = (\<lambda>s. s), meets = (\<lambda>_. True)\<rparr>"

record c37_life_world =
  cl_connected :: bool
  cl_archive :: bool
  cl_now :: u32
  cl_now2 :: u32
  cl_channel :: data_channel

definition discovery_code_c37 :: "(c37_life_world, c37_discovery) service_code" where
  "discovery_code_c37 = \<lparr>
     initialise = (\<lambda>w. initService_c37 (cl_connected w) (cl_archive w) (cl_now w) (cl_now2 w) (cl_channel w)),
     one_pass = (\<lambda>_ d. Returns (discovery_pass_c37 d) ()), leave = (\<lambda>d. d), meets = (\<lambda>_. True)\<rparr>"

subsection \<open>The loops are one\<close>

lemma archiver_service_loop:
  assumes "service_loop (archiver_code pre proc G) xs a = Returns a' st"
  shows "\<exists>r. archiver_loop (archiver_pass pre proc) (map (apfst aw_around) xs) a = Ok (st, r) \<and>
    (\<forall>a1. r = Some a1 \<longrightarrow> a' = (if st = RUNNING then a1 else leave_archiver a1))"
  using assms
  by (induction "archiver_code pre proc G" xs a rule: service_loop.induct)
    (auto simp: archiver_code_def split: run.splits if_splits)

lemma rabbit_service_loop:
  assumes "service_loop (rabbit_code pass) xs a = Returns a' st"
  shows "\<exists>r. rabbit_loop pass (map (apfst (\<lambda>w. (rl_around w, rl_world w))) xs) a = Ok (st, r) \<and>
    (\<forall>a1. r = Some a1 \<longrightarrow> a' = (if st = RUNNING then a1 else leave_rabbit a1))"
  using assms
  by (induction "rabbit_code pass" xs a rule: service_loop.induct)
    (auto simp: rabbit_code_def split: run.splits if_splits)

lemma discovery_service_loop:
  assumes "service_loop discovery_code xs s = Returns s' st"
  shows "discovery_loop (map (apfst dl_world) xs) s = Returns (if st = RUNNING then s' else s'\<lparr>serviceStatus := st\<rparr>) ()"
  using assms
  by (induction discovery_code xs s rule: service_loop.induct)
    (auto simp: discovery_code_def split: outcome.splits if_splits)

lemma c37_service_loop:
  assumes "service_loop discovery_code_c37 xs d = Returns d' st"
  shows "discovery_loop_c37 (map snd xs) d = (if st = RUNNING then d' else d'\<lparr>dc_status := st\<rparr>)"
  using assms
  by (induction discovery_code_c37 xs d rule: service_loop.induct)
    (auto simp: discovery_code_c37_def Let_def split: if_splits)

text \<open>So the thread of an archiver that nobody offers anything ends as \<open>archiver_loop\<close> does.\<close>

theorem archiver_thread_runs_its_loop:
  assumes "life_run (archiver_code pre proc G) R es s s'" "lf_thread s = Top" "lf_thread s' = Over"
    and "\<forall>ev\<in>set es. by_thread ev \<or> ev \<in> {CallsStop, Signals, StopReturns}"
  shows "\<exists>xs st r. st \<in> {NORMAL_STOP, ERROR_STOP} \<and> archiver_loop (archiver_pass pre proc) xs (lf_data s) = Ok (st, r) \<and>
    (\<forall>a. r = Some a \<longrightarrow> lf_data s' = leave_archiver a)"
proof -
  from thread_runs_its_loop [OF assms] obtain xs st where
    st: "st \<in> {NORMAL_STOP, ERROR_STOP}" "service_loop (archiver_code pre proc G) xs (lf_data s) = Returns (lf_data s') st" by blast
  from archiver_service_loop [OF st(2)] st(1) show ?thesis by (auto split: if_splits)
qed

subsection \<open>Starts and stops\<close>

interpretation ftp_life: archiver_life preProcessData_ftp processData_ftp good_ftp ftp_spec row_ftp file_up
  by (rule archiver_life.intro [OF ftp_line.archive_line_axioms])

interpretation c37_life: archiver_life preProcessData_c37 processData_c37 good_c37 c37_spec row_c37 archive_up
  by (rule archiver_life.intro [OF c37_line.archive_line_axioms])

lemma archiver_code_mono:
  assumes "life_run (archiver_code pre proc G) (outside S) es s s'" "\<And>e. G e \<Longrightarrow> G' e" "\<And>b. S b \<Longrightarrow> S' b"
  shows "life_run (archiver_code pre proc G') (outside S') es s s'"
  using assms(1) by (rule life_run_mono) (use assms(2,3) in \<open>auto simp: archiver_code_def outside_def split: happening.splits\<close>)

text \<open>C5: The archive over many lives: however often the archiver of the FTP gateway is started and
  stopped, and whatever the other threads do meanwhile, as long as Cassandra is there, every insert
  and every \<open>malloc\<close> succeeds and the files that are offered have the length that they declare and
  dates before 2038, every file that the archiver accepted is in its queue or was begun, in order; of each file
  that was begun the first seconds are in the archive, in order, and nothing else is; and at most one
  file per start lacks some of its seconds.\<close>

theorem a_stop_cuts_one_file_short:
  assumes "life_run (archiver_code_ftp G) (outside S) es (new_life (new_archiver junk s0)) s"
    and "\<forall>e. G e \<longrightarrow> cassArchivingEnabled e \<and> cassConnected e \<and> mallocSucceeds e \<and> insertOk e"
    and "\<forall>b. S b \<longrightarrow> length (dataBuffer b) = unat (byteLen b) \<and> (unat (byteLen b) mod 6312 = 0 \<longrightarrow> file_dates (dataBuffer b))"
  shows "\<exists>parts. accepted_bytes es = map fst parts @ map dataBuffer (dataQ (lf_data s)) \<and>
    map row_timestamp_msec (rows (lf_data s)) = concat (map (\<lambda>(b, k). take k (file_times b)) parts) \<and>
    length (filter (\<lambda>(b, k). k < length (file_times b)) parts) \<le> lives es"
proof -
  have "life_run (archiver_code preProcessData_ftp processData_ftp file_up) (outside (as_sane ftp_spec)) es
      (new_life (new_archiver junk s0)) s"
    using assms(1) unfolding archiver_code_ftp_def
    by (rule archiver_code_mono) (use assms(2,3) in \<open>auto simp: file_up_def good_ftp_def ftp_spec_simps\<close>)
  from ftp_life.lives_of_an_archiver [OF this] show ?thesis
    by (simp add: parts_stamps_def cut_short_def ftp_spec_simps)
qed

text \<open>The same of the C37.118 gateway, whose buffers are single seconds: as long as Cassandra takes every
  insert and every \<open>malloc\<close> succeeds, at most one second per start is lost with a stop.\<close>

theorem a_stop_loses_one_second:
  assumes "life_run (archiver_code_c37 G) (outside S) es (new_life (new_archiver junk s0)) s"
    and "\<forall>e. G e \<longrightarrow> archive_up e" and "\<forall>b. S b \<longrightarrow> as_sane c37_spec b"
  shows "\<exists>parts. accepted_bytes es = map fst parts @ map dataBuffer (dataQ (lf_data s)) \<and>
    map row_timestamp_msec (rows (lf_data s)) = concat (map (\<lambda>(b, k). take k (as_stamps c37_spec b)) parts) \<and>
    length (filter (\<lambda>(b, k). k < length (as_stamps c37_spec b)) parts) \<le> lives es"
proof -
  have "life_run (archiver_code preProcessData_c37 processData_c37 archive_up) (outside (as_sane c37_spec)) es
      (new_life (new_archiver junk s0)) s"
    using assms(1) unfolding archiver_code_c37_def by (rule archiver_code_mono) (use assms(2,3) in auto)
  from c37_life.lives_of_an_archiver [OF this] show ?thesis
    by (simp add: parts_stamps_def cut_short_def)
qed

subsection \<open>Concrete runs\<close>

lemma new_archiver_idle:
  "\<exists>a. initService True 1 2 calm_world (new_archiver junk (stats_at_start archiver_statics)) = Returns a True \<and> archiver_idle a \<and>
     rows a = []"
  using new_archiver_starts [of junk] by (auto simp: archiver_idle_def)

lemma two_second_file_times: "file_times (dataBuffer two_second_file) = [1492992000000, 1492992001000]"
proof -
  have b: "dataBuffer two_second_file = second_block 0 0 @ second_block 1 1 @ []" by (simp add: two_second_file_def)
  have "length (dataBuffer two_second_file) = 12624" by (simp add: two_second_file_def length_second_block)
  moreover have "ftp_time (dataBuffer two_second_file) 0 = \<lparr>tm_sec = 0, tm_min = 0, tm_hour = 0, tm_mday = 24, tm_mon = 3, tm_year = 117\<rparr>"
    "ftp_time (dataBuffer two_second_file) 6312 = \<lparr>tm_sec = 1, tm_min = 0, tm_hour = 0, tm_mday = 24, tm_mon = 3, tm_year = 117\<rparr>"
    unfolding b second_blocks second_block_time by (simp_all add: be32_def)
  ultimately show ?thesis by (simp add: file_times_def two_seconds april_24)
qed

text \<open>A file of two seconds comes, the caller stops the archiver, and the thread, in its last pass,
  archives the first of them.\<close>

definition busy_archiver :: "archiver \<Rightarrow> archiver" where
  "busy_archiver a = a\<lparr>dataQ := [], dataBuf := Some two_second_file, bpr := begun 2, processingBuffer := True\<rparr>"

lemma two_second_file_passes:
  assumes "archiver_idle a" "rows a = []"
  shows "archiver_pass preProcessData_ftp processData_ftp calm_world (a\<lparr>dataQ := [two_second_file]\<rparr>) = Ok (busy_archiver a)"
    "\<exists>a'. archiver_pass preProcessData_ftp processData_ftp calm_world (busy_archiver a) = Ok a' \<and> dataQ a' = [] \<and>
       map row_timestamp_msec (rows a') = [1492992000000]"
proof -
  have good: "good_ftp calm_world" "file_up calm_world" by (simp_all add: calm_world_def good_ftp_def file_up_def)
  have idle: "archiver_stats_ready (stats a)" "\<not> processingBuffer a" "m_queue (cmdQueue a) = []"
    using assms(1) by (simp_all add: archiver_idle_def)
  show "archiver_pass preProcessData_ftp processData_ftp calm_world (a\<lparr>dataQ := [two_second_file]\<rparr>) = Ok (busy_archiver a)"
    using ftp_archiver.buffer_taken [OF two_second_file_wf good(1), of "a\<lparr>dataQ := [two_second_file]\<rparr>" "[]"] idle
    by (simp add: two_second_file_records busy_archiver_def)
  have "as_wf ftp_spec two_second_file" "0 < as_records ftp_spec two_second_file"
    by (simp_all add: ftp_spec_simps two_second_file_wf two_second_file_records)
  from ftp_line.row_time [OF good(2) this] have row: "map row_timestamp_msec (row_ftp calm_world two_second_file 0) = [1492992000000]"
    by (simp only: ftp_spec_simps two_second_file_times nth_Cons_0)
  obtain x where x: "archiver_pass preProcessData_ftp processData_ftp calm_world (busy_archiver a) = Ok ((busy_archiver a)\<lparr>rows :=
      rows (busy_archiver a) @ row_ftp calm_world two_second_file 0,
      bpr := (bpr (busy_archiver a))\<lparr>nextRecord := of_nat (Suc 0), accumInsertTime := x\<rparr>\<rparr>)"
    using ftp_archiver.one_record [OF good(1) two_second_file_wf, of "busy_archiver a" 0] idle
    by (auto simp: two_second_file_records busy_archiver_def begun_def)
  show "\<exists>a'. archiver_pass preProcessData_ftp processData_ftp calm_world (busy_archiver a) = Ok a' \<and> dataQ a' = [] \<and>
       map row_timestamp_msec (rows a') = [1492992000000]"
    by (intro exI conjI, rule x) (simp_all add: row assms(2) busy_archiver_def)
qed

lemma stopped_in_a_file:
  "\<exists>s s'. life_run (archiver_code_ftp file_up) (outside (as_sane ftp_spec))
       [CallsStart, Spawns, Runs, Runs, Happens (Offered two_second_file BUFFER_ACCEPTED), Passes, Runs, CallsStop, Signals]
       (new_life (new_archiver (begun 0) (stats_at_start archiver_statics))) s \<and>
     lf_caller s = Joining \<and> lf_thread s = Top \<and>
     life_run (archiver_code_ftp file_up) (outside (as_sane ftp_spec)) [Passes, Runs, Runs] s s' \<and> lf_thread s' = Over \<and>
     map row_timestamp_msec (rows (lf_data s')) = [1492992000000] \<and> dataQ (lf_data s') = []"
proof -
  let ?C = "archiver_code_ftp file_up" and ?R = "outside (as_sane ftp_spec)" and ?b = two_second_file
  let ?w = "\<lparr>aw_around = calm_world, aw_connected = True, aw_now = 1, aw_now2 = 2, aw_left = idle_archiver []\<rparr>"
  let ?d = "new_archiver (begun 0) (stats_at_start archiver_statics)"
  obtain a0 where a0: "initService True 1 2 calm_world ?d = Returns a0 True" "archiver_idle a0" "rows a0 = []"
    using new_archiver_idle by blast
  note p1 = two_second_file_passes(1) [OF a0(2,3)]
  from two_second_file_passes(2) [OF a0(2,3)] obtain a3 where
    p2: "archiver_pass preProcessData_ftp processData_ftp calm_world (busy_archiver a0) = Ok a3"
    "dataQ a3 = []" "map row_timestamp_msec (rows a3) = [1492992000000]" by (elim exE conjE)
  have m: "meets ?C ?w" by (simp add: archiver_code_ftp_def archiver_code_def calm_world_def good_ftp_def file_up_def)
  have c: "initialise ?C ?w ?d = Returns a0 True" "one_pass ?C ?w (a0\<lparr>dataQ := [?b]\<rparr>) = Returns (busy_archiver a0) ()"
    "one_pass ?C ?w (busy_archiver a0) = Returns a3 ()"
    unfolding archiver_code_ftp_def archiver_code_def
    by (simp_all only: service_code.simps archiver_world.simps a0(1) p1 p2(1) run.case)
  have leave_code: "leave ?C = leave_archiver" by (simp add: archiver_code_ftp_def archiver_code_def)
  have o: "?R (Offered ?b BUFFER_ACCEPTED) a0 (a0\<lparr>dataQ := [?b]\<rparr>)"
    using two_second_file_wf wf_ftp_iff [of ?b] offer_to_idle [OF a0(2)] by (simp add: outside_def)
  let ?L = "\<lambda>st ms th ca d. \<lparr>lf_status = st, lf_mustStop = ms, lf_thread = th, lf_caller = ca, lf_data = d\<rparr>"
  let ?a1 = "a0\<lparr>dataQ := [?b]\<rparr>" and ?a2 = "busy_archiver a0"
  let ?s4 = "?L RUNNING False Top Elsewhere a0" and ?s = "?L STOPPING True Top Joining ?a2"
    and ?s' = "?L NORMAL_STOP True Over Joining (leave_archiver a3)"
  have r1: "life_run ?C ?R [CallsStart, Spawns] (new_life ?d) (?L NOT_STARTED False Created Elsewhere ?d)"
    by (rule short_runs_of_steps(1))
      (use calls_start [of "new_life ?d" ?C ?R] spawns [of "?L NOT_STARTED False NoThread Spawning ?d" ?C ?R]
       in \<open>simp_all add: new_life_def\<close>)
  have r2: "life_run ?C ?R [Runs, Runs] (?L NOT_STARTED False Created Elsewhere ?d) ?s4"
    by (rule short_runs_of_steps(1))
      (use enters [of "?L NOT_STARTED False Created Elsewhere ?d" ?C ?R]
         initialised [of "?L RUNNING False Initialising Elsewhere ?d" ?C ?w a0 True ?R] m c(1) in simp_all)
  have r3: "life_run ?C ?R [Happens (Offered ?b BUFFER_ACCEPTED), Passes, Runs] ?s4 (?L RUNNING False Top Elsewhere ?a2)"
    by (rule short_runs_of_steps(2))
      (use happens [of ?s4 ?R "Offered ?b BUFFER_ACCEPTED" ?a1 ?C] o
         passes [of "?L RUNNING False Top Elsewhere ?a1" ?C ?w ?a2 "()" ?R] m c(2)
         inspects [of "?L RUNNING False Inspect Elsewhere ?a2" ?C ?R] in simp_all)
  have r4: "life_run ?C ?R [CallsStop, Signals] (?L RUNNING False Top Elsewhere ?a2) ?s"
    by (rule short_runs_of_steps(1))
      (use calls_stop [of "?L RUNNING False Top Elsewhere ?a2" ?C ?R] signals [of "?L STOPPING False Top Signalling ?a2" ?C ?R]
       in simp_all)
  have r5: "life_run ?C ?R [Passes, Runs, Runs] ?s ?s'"
    by (rule short_runs_of_steps(2))
      (use passes [of ?s ?C ?w a3 "()" ?R] m c(3) inspects [of "?L STOPPING True Inspect Joining a3" ?C ?R]
         leaves [of "?L STOPPING True Leaving Joining a3" ?C ?R] leave_code in simp_all)
  from life_run_append [OF r1 life_run_append [OF r2 life_run_append [OF r3 r4]]] r5 p2(2,3) show ?thesis
    by (intro exI [of _ ?s] exI [of _ ?s']) (simp add: leave_archiver_def)
qed

theorem a_stop_cuts_one_file_short_witness:
  "\<exists>es s parts. lives es = 1 \<and> lf_thread s = Over \<and> accepted_bytes es = [dataBuffer two_second_file] \<and>
     life_run (archiver_code_ftp file_up) (outside (as_sane ftp_spec)) es (new_life (new_archiver (begun 0) (stats_at_start archiver_statics))) s \<and>
     map fst parts = [dataBuffer two_second_file] \<and>
     concat (map (\<lambda>(b, k). take k (file_times b)) parts) = [1492992000000] \<and>
     length (filter (\<lambda>(b, k). k < length (file_times b)) parts) \<le> 1"
proof -
  let ?es = "[CallsStart, Spawns, Runs, Runs, Happens (Offered two_second_file BUFFER_ACCEPTED), Passes, Runs, CallsStop, Signals]"
  let ?d = "new_archiver (begun 0) (stats_at_start archiver_statics)"
  from stopped_in_a_file obtain s s' where s: "life_run (archiver_code_ftp file_up) (outside (as_sane ftp_spec)) ?es (new_life ?d) s"
    "life_run (archiver_code_ftp file_up) (outside (as_sane ftp_spec)) [Passes, Runs, Runs] s s'" "lf_thread s' = Over"
    "map row_timestamp_msec (rows (lf_data s')) = [1492992000000]" "dataQ (lf_data s') = []"
    by (elim exE conjE) (rule that; assumption)
  note run = life_run_append [OF s(1,2)]
  have es: "accepted_bytes (?es @ [Passes, Runs, Runs]) = [dataBuffer two_second_file]" "lives (?es @ [Passes, Runs, Runs]) = 1"
    by (simp_all add: by_thread_def lives_def)
  have up: "\<forall>e. file_up e \<longrightarrow> cassArchivingEnabled e \<and> cassConnected e \<and> mallocSucceeds e \<and> insertOk e"
    by (simp add: file_up_def good_ftp_def)
  have sane: "\<forall>b. as_sane ftp_spec b \<longrightarrow> length (dataBuffer b) = unat (byteLen b) \<and>
      (unat (byteLen b) mod 6312 = 0 \<longrightarrow> file_dates (dataBuffer b))" by (simp add: ftp_spec_simps)
  from a_stop_cuts_one_file_short [OF run up sane] obtain parts where
    "accepted_bytes (?es @ [Passes, Runs, Runs]) = map fst parts @ map dataBuffer (dataQ (lf_data s'))"
    "map row_timestamp_msec (rows (lf_data s')) = concat (map (\<lambda>(b, k). take k (file_times b)) parts)"
    "length (filter (\<lambda>(b, k). k < length (file_times b)) parts) \<le> lives (?es @ [Passes, Runs, Runs])" by blast
  with run s(3-5) es show ?thesis
    by (intro exI [of _ "?es @ [Passes, Runs, Runs]"] exI [of _ s'] exI [of _ parts]) simp
qed

end
