(* ===== verification/File_To_Client.thy ===== *)
theory File_To_Client
  imports Ftp_System Cass_Wire
begin

text \<open>
  From a file of the instrument to the client that asks for its samples: the archiver of the FTP
  gateway (\<open>Archiver\<close>) writes a row per second, Cassandra gives the rows that a query selects, the
  sample server (\<open>Cass_Server\<close>) makes one answer of them, and the client (\<open>Cass_Wire\<close>) receives it. The
  programs meet in the database only: the device, the days and the times of the query must
  be those of the rows.
\<close>

subsection \<open>Cassandra between the programs\<close>

text \<open>The rows that the query of a request from \<open>s\<close> to \<open>e\<close> selects: those of the device and of the days,
  with a time in the window, in ascending order of time.\<close>

definition asked_for :: "string \<Rightarrow> int \<Rightarrow> int \<Rightarrow> archive_row \<Rightarrow> bool" where
  "asked_for d s e row \<longleftrightarrow> row_device row = d \<and> (s - 999) div 86400000 \<le> uint (row_day row) \<and> uint (row_day row) \<le> e div 86400000 \<and>
     s - 999 \<le> uint (row_timestamp_msec row) \<and> uint (row_timestamp_msec row) < e"

definition select_rows :: "string \<Rightarrow> int \<Rightarrow> int \<Rightarrow> archive_row list \<Rightarrow> (int \<times> bytes) list" where
  "select_rows d s e rs = map (\<lambda>row. (uint (row_timestamp_msec row), row_data row))
     (sort_key row_timestamp_msec (filter (asked_for d s e) rs))"

subsection \<open>The rows of a file\<close>

text \<open>The samples of a file, and its seconds as they are stored.\<close>

definition file_samples :: "fp_ops \<Rightarrow> bytes \<Rightarrow> nat \<Rightarrow> sync_sample list" where
  "file_samples m bs n = concat (map (\<lambda>k. map (sample_in m bs (6312 * k)) [0..<120]) [0..<n])"

definition file_records :: "fp_ops \<Rightarrow> bytes \<Rightarrow> nat \<Rightarrow> (int \<times> upmu_data) list" where
  "file_records m bs n = map (\<lambda>k. (1000 * tm_epoch (ftp_time bs (6312 * k)), ftp_message m bs (6312 * k))) [0..<n]"

definition file_row :: "string \<Rightarrow> (upmu_data \<Rightarrow> bytes) \<Rightarrow> fp_ops \<Rightarrow> bytes \<Rightarrow> nat \<Rightarrow> archive_row" where
  "file_row d ser m bs k = \<lparr>row_timestamp_msec = of_int (1000 * tm_epoch (ftp_time bs (6312 * k))),
     row_day = of_int (tm_epoch (ftp_time bs (6312 * k)) div 86400), row_device = d, row_domain = DOMAIN_DATA,
     row_msg_type = MSG_KEY_VALUE_LIST, row_data = ser (ftp_message m bs (6312 * k))\<rparr>"

lemma days_nonneg: "0 \<le> days_of_years n" "0 \<le> days_of_months y k"
  by (induction n, auto, induction k, auto simp: month_length_def)

lemma tm_epoch_nonneg: "date_ok t \<Longrightarrow> 0 \<le> tm_epoch t"
  using days_nonneg(1) [of "nat (tm_year t - 70)"] days_nonneg(2) [of "1900 + tm_year t" "nat (tm_mon t)"]
  by (simp add: date_ok_def tm_epoch_def epoch_seconds_def)

text \<open>An archiver of the device whose inserts succeed.\<close>

definition archives_as :: "string \<Rightarrow> (upmu_data \<Rightarrow> bytes) \<Rightarrow> fp_ops \<Rightarrow> surroundings \<Rightarrow> bool" where
  "archives_as d ser m e \<longleftrightarrow> file_up e \<and> upmuSerialNumber e = d \<and> serialize e = ser \<and> fp e = m"

lemma epoch_bounds:
  assumes "wf_ftp b" "k < records_ftp b"
  shows "0 \<le> tm_epoch (ftp_time (dataBuffer b) (6312 * k))" "tm_epoch (ftp_time (dataBuffer b) (6312 * k)) < 2147483648"
  using assms tm_epoch_nonneg by (auto simp: wf_ftp_def list_all_iff)

lemma row_of_a_second:
  assumes "wf_ftp b" "k < records_ftp b" "archives_as d ser m e"
  shows "row_ftp e b k = [file_row d ser m (dataBuffer b) k]"
  using assms(3) epoch_bounds [OF assms(1,2)]
  by (simp add: row_ftp_def insert_row_def archives_as_def file_up_def file_row_def sdiv_nonneg Let_def mult.commute
      DOMAIN_DATA_def MSG_KEY_VALUE_LIST_def)

lemma rows_of_a_file:
  assumes "wf_ftp b" "list_all (archives_as d ser m) es" "length es = records_ftp b"
  shows "concat (map2 (\<lambda>e. row_ftp e b) es [0..<records_ftp b]) = map (file_row d ser m (dataBuffer b)) [0..<records_ftp b]"
proof -
  have "map2 (\<lambda>e. row_ftp e b) es [0..<records_ftp b] = map (\<lambda>k. [file_row d ser m (dataBuffer b) k]) [0..<records_ftp b]"
    by (rule nth_equalityI) (use assms in \<open>simp_all add: row_of_a_second list_all_length\<close>)
  then show ?thesis by (simp only: concat_map_singleton)
qed

lemma file_row_times:
  assumes "wf_ftp b" "k < records_ftp b"
  shows "uint (row_timestamp_msec (file_row d ser m (dataBuffer b) k)) = 1000 * tm_epoch (ftp_time (dataBuffer b) (6312 * k))"
    "uint (row_day (file_row d ser m (dataBuffer b) k)) = tm_epoch (ftp_time (dataBuffer b) (6312 * k)) div 86400"
proof -
  let ?t = "tm_epoch (ftp_time (dataBuffer b) (6312 * k))"
  have t: "0 \<le> ?t" "?t < 2147483648" using epoch_bounds [OF assms] by simp_all
  then have "0 \<le> ?t div 86400" "?t div 86400 < 2147483648" by (simp_all add: pos_imp_zdiv_nonneg_iff div_less)
  then show "uint (row_timestamp_msec (file_row d ser m (dataBuffer b) k)) = 1000 * ?t"
    "uint (row_day (file_row d ser m (dataBuffer b) k)) = ?t div 86400"
    using t unfolding file_row_def archive_row.simps of_int_mult [symmetric]
    by (simp_all only: uint_word_of_int) simp_all
qed

text \<open>The days that the archiver computes from seconds are those that the server asks for in milliseconds.\<close>

lemma file_row_asked:
  assumes "wf_ftp b" "k < records_ftp b" "s - 999 \<le> 1000 * tm_epoch (ftp_time (dataBuffer b) (6312 * k))"
    and "1000 * tm_epoch (ftp_time (dataBuffer b) (6312 * k)) < e"
  shows "asked_for d s e (file_row d ser m (dataBuffer b) k)"
proof -
  let ?t = "tm_epoch (ftp_time (dataBuffer b) (6312 * k))"
  have "1000 * ?t div 86400000 = ?t div 86400" using div_mult_mult1 [of 1000 ?t 86400] by simp
  moreover have "(s - 999) div 86400000 \<le> 1000 * ?t div 86400000" "1000 * ?t div 86400000 \<le> e div 86400000"
    using assms(3,4) by (simp_all add: zdiv_mono1)
  ultimately show ?thesis
    using assms(3,4) unfolding asked_for_def file_row_times [OF assms(1,2)] by (simp add: file_row_def)
qed

lemma file_selected:
  assumes "wf_ftp b" "sorted_wrt (<) (map (\<lambda>k. tm_epoch (ftp_time (dataBuffer b) (6312 * k))) [0..<records_ftp b])"
    and "\<forall>k<records_ftp b. s - 999 \<le> 1000 * tm_epoch (ftp_time (dataBuffer b) (6312 * k)) \<and>
      1000 * tm_epoch (ftp_time (dataBuffer b) (6312 * k)) < e"
    and "\<forall>row\<in>set old. \<not> asked_for d s e row"
  shows "select_rows d s e (old @ map (file_row d ser m (dataBuffer b)) [0..<records_ftp b]) =
    map (\<lambda>(t, x). (t, ser x)) (file_records m (dataBuffer b) (records_ftp b))"
proof -
  let ?row = "file_row d ser m (dataBuffer b)" and ?ks = "[0..<records_ftp b]"
  have "filter (asked_for d s e) (old @ map ?row ?ks) = map ?row ?ks"
    using assms(4) file_row_asked [OF assms(1)] assms(3) by (auto simp: filter_id_conv)
  moreover have "sorted (map row_timestamp_msec (map ?row ?ks))"
  proof -
    have "row_timestamp_msec (?row i) \<le> row_timestamp_msec (?row j)" if "i < j" "j < records_ftp b" for i j
      using sorted_wrt_nth_less [OF assms(2), of i j] that file_row_times(1) [OF assms(1)]
      by (simp add: word_le_def)
    then show ?thesis by (auto simp: sorted_wrt_map sorted_wrt_iff_nth_less)
  qed
  ultimately show ?thesis
    using file_row_times(1) [OF assms(1)]
    by (simp add: select_rows_def file_records_def sort_key_id_if_sorted) (simp add: file_row_def)
qed

lemma file_records_samples:
  "all_samples (file_records m bs n) = file_samples m bs n" "length (file_samples m bs n) = 120 * n"
  by (induction n) (simp_all add: all_samples_def file_records_def file_samples_def ftp_message_def del: upt_rec_numeral)

lemma min_stamp_ascending: "sorted_wrt (<) (t # ts) \<Longrightarrow> min_stamp (Some t) ts = Some t"
proof (induction ts)
  case (Cons u ts)
  then show ?case by (simp add: min_stamp_def min_def)
qed (simp add: min_stamp_def)

lemma first_stamp:
  assumes "0 < n" "sorted_wrt (<) (map (\<lambda>k. tm_epoch (ftp_time bs (6312 * k))) [0..<n])"
  shows "min_stamp None (map fst (file_records m bs n)) = Some (1000 * tm_epoch (ftp_time bs 0))"
proof -
  let ?f = "\<lambda>k. 1000 * tm_epoch (ftp_time bs (6312 * k))"
  have fst: "map fst (file_records m bs n) = map ?f [0..<n]" by (simp add: file_records_def)
  have "sorted_wrt (<) (map ?f [0..<n])" using assms(2) by (simp add: sorted_wrt_map)
  then show ?thesis
    using min_stamp_ascending [of "?f 0" "map ?f [1..<n]"] assms(1) unfolding fst
    by (simp add: upt_conv_Cons min_stamp_def)
qed

subsection \<open>End to end\<close>

lemma message_counts: "unat (numSamples (ftp_message fo bs k)) = length (samples (ftp_message fo bs k))"
  by (simp add: ftp_message_def)

lemma records_small: "120 * records_ftp b < 2147483648"
proof -
  have "unat (byteLen b) < 2 ^ LENGTH(32)" by (rule unsigned_less)
  then show ?thesis by (simp add: records_ftp_def)
qed

text \<open>C2: From the instrument's file to the client: the archiver of the FTP gateway takes a whole file
  from its queue; a client then asks for its time, for any channels, methods and step. If Cassandra
  gives what the query selects and protobuf's messages survive, the client receives, over a network
  that delivers, one set of values for every channel and method, computed from the samples of all seconds of
  the file in order, from the first one asked for on, with their number and times.\<close>

theorem file_reaches_the_client:
  assumes whole: "wf_ftp b" "0 < records_ftp b"
      "sorted_wrt (<) (map (\<lambda>k. tm_epoch (ftp_time (dataBuffer b) (6312 * k))) [0..<records_ftp b])"
    and archiver: "list_all (archives_as d ser fo) es" "length es = records_ftp b" "good_ftp e0" "archiver_stats_ready (stats st)"
      "\<not> processingBuffer st" "dataQ st = b # q" "m_queue (cmdQueue st) = []"
      "archiver_passes archiver_pass_ftp (e0 # es @ [e1]) st = Ok st'"
    and window: "\<forall>k<records_ftp b. t - 999 \<le> 1000 * tm_epoch (ftp_time (dataBuffer b) (6312 * k)) \<and>
        1000 * tm_epoch (ftp_time (dataBuffer b) (6312 * k)) < t'"
      "\<forall>row\<in>set (rows st). \<not> asked_for d t t' row"
    and request: "check_options a = Go jb" "deviceids a = d" "d \<noteq> []" "CHR '';'' \<notin> set d" "length fs = 12" "True \<in> set fs"
      "requested a = join (CHR '';'') (map flag_text fs)" "compression_method a = dec c" "c < 2147483648"
      "stepsize a = dec s" "0 < s" "s < 2147483648" "char_of (0 :: nat) \<notin> set (request_text jb t t')"
    and asked: "r = \<lparr>rq_devices = [d], rq_nosamplesets = int (length (filter (\<lambda>b. b) fs)), rq_start = to_string t,
      rq_end = to_string t', rq_requested = fs, rq_compression = int c, rq_stepsize = int s\<rparr>"
      "request_window (machine e) r = Val win" "methods (rq_compression r) [1, 2, 3, 4, 5] \<noteq> []"
    and cassandra: "session_connects e" "run_query e (query_text d win (to_string t')) = Some (select_rows d t t' (rows st'))"
      "\<forall>k<records_ftp b. parse_upmu_data e (ser (ftp_message fo (dataBuffer b) (6312 * k))) = ftp_message fo (dataBuffer b) (6312 * k)"
    and counts: "w_skip win = int k" "ss = drop k (file_samples fo (dataBuffer b) (records_ftp b))" "k \<le> 120 * records_ftp b"
      "s \<le> length ss" "shifted_time (machine e) (Some (1000 * tm_epoch (ftp_time (dataBuffer b) 0))) (int k) = Val t1"
      "0 \<le> t1" "t1 < 2 ^ 62" "m = last_count r s (length ss)" "1000 * m * s < 2147483648"
    and network: "documented (wi_protobuf w)" "delivers w (request_text jb t t')"
      "p = answered e r d s ss empty_payload t1 (t1 + int (1000 * m * s div 120)) (int m)" "fits (wi_protobuf w) (Message p)"
  shows "exchange e w silent (request_text jb t t') n = (Some (Go (Message p)), int m)"
proof -
  let ?recs = "file_records fo (dataBuffer b) (records_ftp b)"
  have good: "list_all good_ftp es" using archiver(1) by (auto simp: list_all_iff archives_as_def file_up_def)
  have "rows st' = rows st @ concat (map2 (\<lambda>e. row_ftp e b) es [0..<records_ftp b])"
    using ftp_archiver.buffer_archived [OF whole(1) good archiver(2-7), of e1] archiver(8) by (auto simp: archiver_pass_ftp_def)
  then have "select_rows d t t' (rows st') = map (\<lambda>(t, x). (t, ser x)) ?recs"
    unfolding rows_of_a_file [OF whole(1) archiver(1,2)] using file_selected [OF whole(1,3) window] by simp
  then have query: "run_query e (query_text d win (to_string t')) = Some (map (\<lambda>(t, x). (t, ser x)) ?recs)"
    using cassandra(2) by simp
  have st: "\<forall>(t, x)\<in>set ?recs. storable ser (parse_upmu_data e) x"
    using cassandra(3) by (auto simp: storable_def file_records_def message_counts)
  have ss: "ss = drop k (all_samples ?recs)" "k \<le> length (all_samples ?recs)" "length ss < 2147483648"
    using records_small [of b] counts(2,3) by (simp_all add: file_records_samples)
  have "shifted_time (machine e) (min_stamp None (map fst ?recs)) (int k) = Val t1"
    using first_stamp [OF whole(2,3)] counts(5) by simp
  then show ?thesis
    by (rule archived_samples_reach_the_client [OF request asked cassandra(1) query st counts(1) ss(1,2) counts(4) ss(3) _ counts(6-9) network])
qed

subsection \<open>A concrete run\<close>

definition file_env :: "archive_row list \<Rightarrow> cass_env" where
  "file_env rs = \<lparr>session_connects = True, run_query = (\<lambda>_. Some (select_rows ''P3001065'' 1492992000000 1492992001000 rs)),
     parse_upmu_data = (\<lambda>_. ftp_message zero_fp (dataBuffer example_file) 0), machine = zero_fp\<rparr>"

definition file_request :: cass_request where
  "file_request = \<lparr>rq_devices = [''P3001065''], rq_nosamplesets = 1, rq_start = to_string 1492992000000,
     rq_end = to_string 1492992001000, rq_requested = True # replicate 11 False, rq_compression = 17, rq_stepsize = 2\<rparr>"

definition file_window :: window where
  "file_window = \<lparr>w_start = dec (unat (read_u64 (to_string 1492992000000) - 999)),
     w_days = day_list (int_of_u64 ((read_u64 (to_string 1492992000000) - 999) div 86400000))
                       (int_of_u64 (read_u64 (to_string 1492992001000) div 86400000)), w_skip = 0\<rparr>"

definition file_answer :: "archive_row list \<Rightarrow> cass_payload" where
  "file_answer rs = answered (file_env rs) file_request ''P3001065'' 2 (file_samples zero_fp (dataBuffer example_file) 1)
     empty_payload 1492992000000 (1492992000000 + int (1000 * 120 * 2 div 120)) (int 120)"

lemma file_window: "request_window zero_fp file_request = Val file_window"
  by (simp add: request_window_def file_request_def file_window_def zero_fp_def int_call_def int_ok_def Let_def)

lemma file_request_text: "request_text wire_job 1492992000000 1492992001000 =
  ''1;P3001065;1;1492992000000;1492992001000;1;0;0;0;0;0;0;0;0;0;0;0;17;2''"
proof -
  have "dec 17 = ''17''" "dec 2 = ''2''" "to_string 1492992000000 = ''1492992000000''" "to_string 1492992001000 = ''1492992001000''"
    by (simp_all add: to_string_def dec.simps digit_def char_of_def bit_Suc_0_iff)
  then show ?thesis by (simp add: request_text_def wire_job_def wire_args_def)
qed

theorem file_reaches_the_client_witness:
  "\<exists>st'. archiver_passes archiver_pass_ftp [calm_world, calm_world, calm_world] (idle_archiver [example_file]) = Ok st' \<and>
     exchange (file_env (rows st')) (example_wire (example_protobuf (file_answer (rows st')) (replicate 200 1))) True
       (request_text wire_job 1492992000000 1492992001000) 0 = (Some (Go (Message (file_answer (rows st')))), 120)"
proof -
  let ?b = example_file and ?a = "idle_archiver [example_file]" and ?ser = "\<lambda>d. [of_nat (length (samples d))]"
  let ?fs = "True # replicate 11 False"
  note rec = example_file_wf(2) and ep = example_file_epoch
  have up: "archives_as ''P3001065'' ?ser zero_fp calm_world" "good_ftp calm_world"
    by (simp_all add: archives_as_def calm_world_def file_up_def good_ftp_def)
  have idle: "archiver_stats_ready (stats ?a)" "\<not> processingBuffer ?a" "dataQ ?a = ?b # []" "m_queue (cmdQueue ?a) = []" "rows ?a = []"
    by (simp_all add: idle_archiver_ready) (simp_all add: idle_archiver_def new_cmd_queue_def)
  have "list_all good_ftp [calm_world]" "length [calm_world] = records_ftp ?b" using up(2) by (simp_all add: rec)
  from ftp_archiver.buffer_archived [OF example_file_wf(1) this up(2) idle(1-4), of calm_world] obtain st' where
    st': "archiver_passes archiver_pass_ftp (calm_world # [calm_world] @ [calm_world]) ?a = Ok st'" by (auto simp: archiver_pass_ftp_def)
  let ?p = "file_answer (rows st')" and ?e = "file_env (rows st')"
  let ?w = "example_wire (example_protobuf ?p (replicate 200 1))" and ?ss = "file_samples zero_fp (dataBuffer ?b) 1"
  have len: "length ?ss = 120" by (simp add: file_records_samples)
  have m: "methods 17 [1, 2, 3, 4, 5] = [1, 5]" by (simp add: methods_def bit_iff_odd)
  have c: "120 = last_count file_request 2 (length ?ss)"
    unfolding len last_count_def file_request_def cass_request.simps m by (simp add: value_count_def)
  have t: "dec 17 = ''17''" "dec 2 = ''2''" by (simp_all add: dec.simps digit_def char_of_def bit_Suc_0_iff)
  have e: "machine ?e = zero_fp" "session_connects ?e" "run_query ?e x = Some (select_rows ''P3001065'' 1492992000000 1492992001000 (rows st'))"
    "parse_upmu_data ?e y = ftp_message zero_fp (dataBuffer ?b) 0" for x y by (simp_all add: file_env_def)
  have "exchange ?e ?w True (request_text wire_job 1492992000000 1492992001000) 0 = (Some (Go (Message ?p)), int 120)"
  proof (rule file_reaches_the_client [OF example_file_wf(1) _ _ _ _ up(2) idle(1-4) st' _ _ wire_job_checked, where d = "''P3001065''" and
      ser = ?ser and fo = zero_fp and fs = ?fs and c = 17 and s = 2 and r = file_request and win = file_window and k = 0 and ss = ?ss
      and ?t1.0 = 1492992000000])
    show "file_request = \<lparr>rq_devices = [''P3001065''], rq_nosamplesets = int (length (filter (\<lambda>b. b) ?fs)),
        rq_start = to_string 1492992000000, rq_end = to_string 1492992001000, rq_requested = ?fs, rq_compression = int 17, rq_stepsize = int 2\<rparr>"
      by (simp add: file_request_def numeral_eq_Suc)
    show "request_window (machine ?e) file_request = Val file_window" by (simp only: e(1) file_window)
    show "documented (wi_protobuf ?w)" using example_documented by (simp add: example_wire_def)
    show "delivers ?w (request_text wire_job 1492992000000 1492992001000)" by (simp add: delivers_def file_request_text example_wire_def)
    show "char_of (0 :: nat) \<notin> set (request_text wire_job 1492992000000 1492992001000)" unfolding file_request_text by (simp add: char_of_def)
    show "fits (wi_protobuf ?w) (Message ?p)" by (simp add: fits_def survives_def example_wire_def example_protobuf_def)
    show "?p = answered ?e file_request ''P3001065'' 2 ?ss empty_payload 1492992000000 (1492992000000 + int (1000 * 120 * 2 div 120)) (int 120)"
      by (simp only: file_answer_def)
    show "120 = last_count file_request 2 (length ?ss)" by (rule c)
    show "shifted_time (machine ?e) (Some (1000 * tm_epoch (ftp_time (dataBuffer ?b) 0))) (int 0) = Val 1492992000000"
      by (simp add: e(1) ep shifted_time_def zero_fp_def long_call_def)
    show "run_query ?e (query_text ''P3001065'' file_window (to_string 1492992001000)) =
        Some (select_rows ''P3001065'' 1492992000000 1492992001000 (rows st'))" by (rule e(3))
    show "\<forall>k<records_ftp ?b. parse_upmu_data ?e (?ser (ftp_message zero_fp (dataBuffer ?b) (6312 * k))) =
        ftp_message zero_fp (dataBuffer ?b) (6312 * k)" by (simp add: e(4) rec)
    show "methods (rq_compression file_request) [1, 2, 3, 4, 5] \<noteq> []" unfolding file_request_def cass_request.simps m by simp
    show "list_all (archives_as ''P3001065'' ?ser zero_fp) [calm_world]" using up(1) by simp
    show "session_connects ?e" by (rule e(2))
    show "requested wire_args = join (CHR '';'') (map flag_text ?fs)" by (simp add: wire_args_def flag_text_def numeral_eq_Suc)
    show "2 \<le> length ?ss" unfolding len by simp
  qed (simp_all add: rec ep idle(5) file_window_def wire_args_def t)
  then show ?thesis using st' by auto
qed

end
