(* ===== verification/Spec2Isabelle.thy ===== *)
theory Spec2Isabelle
  imports Sparcs_Prelude Frame_Buffer Config_Frame Reformat Data_Channel Service_Stats Service_Queue
    Shared_Buffers Gm_Time Float_Ops Archiver Archive_Line Ftp_Access Ftp_Discovery Ftp_Startup
    Ftp_System Cass_Server Cass_Client Cass_Wire Cass_Threads Gateway Voltage_Limit Rabbit_Archiver Rabbit_Messages Rabbit_Ftp
    C37_Discovery C37_System Service_Life Service_Lives File_To_Client
begin

text \<open>
  Verification development for SPARCS (Stream-Processing Architecture for Real-time
  Cyber-physical Security).

  \<^bold>\<open>The program.\<close> SPARCS collects the measurements of micro-synchrophasors (uPMUs), 120 samples of
  six phasors a second, and archives them. It consists of two gateways and a pair of programs to
  read the archive. The gateway in \<open>src/C37\<close> receives C37.118 frames over TCP; the gateway in
  \<open>src/ftp\<close> fetches the data files of the instrument by FTP. A gateway is a process
  (\<open>uPMUgateway/main.cpp\<close>) that reads its configuration from PostgreSQL, connects to Cassandra,
  loads services from shared libraries and starts a thread for each. A discovery service
  (\<open>serviceDataDiscovery_C37\<close>, \<open>serviceDataDiscovery\<close>) produces buffers of whole seconds and offers
  each, as a shared pointer, to the bounded queue of every other service: to the archiver
  (\<open>serviceDataArchiver\<close>), which writes a row per second into Cassandra, and to the RabbitMQ
  archiver (\<open>serviceDataArchiverRabbitMQ\<close>), which publishes samples, summaries and the events of a
  voltage analysis. In \<open>src/readCassandrafast\<close> a server (\<open>cassspeed\<close>) answers requests with stored
  samples, compressed or not, and a client (\<open>cassspeedclient\<close>) asks for them window by window
  and writes files.

  \<^bold>\<open>How the code is modelled.\<close> A definition has the name of the function that it models, with a
  suffix where two functions share one. Objects and structs are records, enumerations and
  tagged values datatypes, machine integers words of their width; an \<open>int\<close> whose overflow
  matters is an \<open>int\<close> with the check \<open>int_ok\<close>. Memory is a list of bytes; an access outside an
  array or through a null pointer is \<open>Ub\<close> or \<open>None\<close>, never a default value, and bytes that the
  program reads behind an array or in fresh memory are parameters. One access outside is made in the
  ordinary course of the program: each saved C37.118 event writes four bytes behind its heap block. What lies
  there is the parameter \<open>behind\<close>; with fewer than four bytes each save is undefined
  (\<open>processC37event_undefined_iff\<close>), and the claims about saved events are about a heap in which four
  bytes follow the block. A function that may throw
  or leave its thread returns a \<open>run\<close> (\<open>Ok\<close>, \<open>Exc\<close>, \<open>Ub\<close>); one that may also block on a mutex returns an
  \<open>outcome\<close> (\<open>Returns\<close>, \<open>Throws\<close>, \<open>Blocks\<close>, \<open>Undefined\<close>). Both are in \<open>Sparcs_Prelude\<close>. What is not under
  \<open>src\<close> answers through a record: the allocator and the checksum of boost (\<open>channel_env\<close>), the
  floating-point unit (\<open>fp_ops\<close>), the library of protobuf (\<open>protobuf\<close>), Cassandra and the clock (\<open>surroundings\<close>), the message server
  (\<open>rabbit_world\<close>), libcurl (\<open>ftp_server\<close>), PostgreSQL and the loader
  (\<open>gateway_world\<close>). Loops that may not end are \<open>partial_function (option)\<close> (\<open>read_loop\<close>) or have
  fuel, see below; the others are recursive over the data.

  \<^bold>\<open>Theories and sources.\<close> All paths are below \<open>src/C37/NetBeansProject_uPMU_prod/upmu-gateway\<close> unless
  they begin with \<open>ftp\<close> or \<open>readCassandrafast\<close>.
  \<^item> \<open>Frame_Buffer\<close>: \<open>serviceDataDiscovery_C37/C37_Buffer\<close>, the receive buffer and its search for
    the next frame. Abstract specification: splitting the first frame off a byte stream.
  \<^item> \<open>Config_Frame\<close>: \<open>C37_CfgDescriptor\<close>, the parser of configuration frames, against a writer of
    blocks after the standard.
  \<^item> \<open>Reformat\<close>: \<open>C37_Reformat\<close>, the machine that regroups data frames into seconds.
  \<^item> \<open>Data_Channel\<close>: \<open>C37_DataChannel\<close>, the handlers of the connection; boost::asio is the pending
    completion.
  \<^item> \<open>Service_Stats\<close>, \<open>Service_Queue\<close>, \<open>Shared_Buffers\<close>: \<open>uPMUgateway/serviceCommonStats\<close> and the four
    \<open>serviceSpecificStats\<close>, \<open>serviceCommandQueueTemplate.h\<close> with the queues of buffers, and
    \<open>serviceDataBuffer.h\<close> with the way of a shared pointer through the services.
  \<^item> \<open>Gm_Time\<close>: \<open>uPMUgmtime\<close> and the C library's \<open>gmtime\<close>, against a calendar that counts days.
  \<^item> \<open>Float_Ops\<close>: the operations on \<open>float\<close> and \<open>double\<close> that the services use, as a parameter.
  \<^item> \<open>Archiver\<close>, \<open>Archive_Line\<close>: both \<open>serviceDataArchiver\<close>s, and what they archive of the buffers
    that they accept.
  \<^item> \<open>Ftp_Access\<close>, \<open>Ftp_Discovery\<close>, \<open>Ftp_Startup\<close>: \<open>ftp/serviceDataDiscovery\<close>: names, directories and
    transfers; a pass over the files of an hour; the first search and the conversion of a file.
  \<^item> \<open>Voltage_Limit\<close>, \<open>Rabbit_Archiver\<close>, \<open>Rabbit_Messages\<close>, \<open>Rabbit_Ftp\<close>: both
    \<open>serviceDataArchiverRabbitMQ\<close>s: the voltage analysis, the service, the types of its messages,
    and the variant for files.
  \<^item> \<open>C37_Discovery\<close>: \<open>serviceDataDiscovery_C37/serviceDataDiscovery\<close> and the connection under
    any sequence of reads.
  \<^item> \<open>C37_System\<close>: the threads of the C37.118 gateway as one system of interleaving steps.
  \<^item> \<open>Ftp_System\<close>: the same for the FTP gateway, with the pointers through which its services share
    the files.
  \<^item> \<open>Service_Life\<close>, \<open>Service_Lives\<close>: \<open>start\<close>, \<open>stop\<close> and \<open>operator()\<close>, which all services have in the
    same form: the steps of the caller, of the thread and of the other threads, and the services of
    both gateways as instances. The gateways themselves call only \<open>start\<close>.
  \<^item> \<open>Gateway\<close>: both \<open>uPMUgateway/main.cpp\<close>s, \<open>serviceInstanceList\<close>, the operations loggers and
    \<open>dbConnection\<close>.
  \<^item> \<open>Cass_Server\<close>, \<open>Cass_Threads\<close>, \<open>Cass_Client\<close>, \<open>Cass_Wire\<close>: \<open>readCassandrafast/cassspeed\<close> with one
    connection and with many, \<open>readCassandrafast/cassspeedclient\<close>, and the bytes between them.
  \<^item> \<open>File_To_Client\<close>: the gateway and the readers together, from a file to an answer.

  \<^bold>\<open>Interfaces.\<close> What several parts have in common is stated as a locale and interpreted on the
  definitions of the code: a receiver that cuts a byte stream into frames (\<open>framer\<close>); a bounded
  queue (\<open>bounded_queue\<close>, for commands and for buffers); the variants of the archiver and
  their processing of a buffer record by record (\<open>archiver_variant\<close> and \<open>record_processor\<close>, for
  C37.118 seconds and for files), with the archive at the end of their queue (\<open>archive_line\<close>, on
  which both systems rest) and over its starts and stops (\<open>archiver_life\<close>); the variants of the RabbitMQ archiver (\<open>rabbit_variant\<close>);
  and the two gateways around their way of reaching the instrument (\<open>gateway_variant\<close>).

  \<^bold>\<open>What the lemmas show.\<close> For each component there are an invariant that all its operations keep,
  the outcome of each operation on every branch, errors included, and, where there is one, the
  refinement of an abstract specification. The claims \<open>C1\<close>, \<open>C2\<close> and so on, in the order of their
  importance, stand at the theorems:
  \<^item> End to end: the frames of a second become one row of the archive however the network cuts
    them; under every interleaving of the threads the archive holds the accepted seconds, or the
    seconds of the accepted files, in order, up to a bounded number that is on its way;
    a whole file is archived and published second by second; the samples of a
    file reach the client that asks for their time.
  \<^item> Reception: the buffer splits the stream at the frame lengths; the channel keeps its
    invariant and never reads into a region that is not free; a parsed block is the one that was
    sent; a stream of data and configuration frames may be cut anywhere; the cases in which a
    frame makes the program access memory outside its arrays.
  \<^item> Services: queues are bounded FIFOs unless two threads offer at once; a buffer lives exactly
    as long as somebody refers to it; each voltage event is reported once wherever the seconds
    cut it; within one run of the service each file is recorded and published once, and
    at most six are in memory.
  \<^item> Starts and stops: a stop is heeded after at most one more pass of the thread, under every
    interleaving; over any number of starts and stops, as long as Cassandra takes every insert, the
    archive holds the accepted files in order, at most one per start cut short; the loops of the
    services are the loop of one thread.
  \<^item> Start of a gateway: sessions increase, data discovery starts last, and the FTP gateway waits until
    its instrument sends its status page.
  \<^item> Archive: the calendar, the groups of the compression, requests and answers, the end of
    the client's loop.
  \<^item> Failures that the code does not survive as it means to: the mutex that stays locked, the
    services that repeat a second for ever, the frame that blocks the channel, the channel that
    does not exist. These are theorems as well, and listed as findings.
  Every claim with hypotheses has a witness, a concrete run in which they hold.

  \<^bold>\<open>Bounds and fuel.\<close> The loop of \<open>main\<close> that probes the instrument has fuel 2 because its second
  pass ends whatever the first one found (\<open>probe_loop_ends\<close>). The loop of the client has the fuel
  \<open>end - start + 1\<close>, enough because with progress each window starts later than the last
  (\<open>the_client_finishes\<close>). The search for the first directory counts hours up to the clock
  (\<open>search_finds_the_first_directory\<close>). Passes of a thread are lists of what the world answers in
  each pass, so that a claim says in how many passes something is done: a buffer of \<open>n\<close> seconds is
  released after \<open>n + 2\<close> of them. The voltage analysis is bounded by \<open>17895696\<close> seconds, after which
  a product of two \<open>int\<close>s overflows; a file has less than \<open>1000000\<close>.

  \<^bold>\<open>Not modelled.\<close> The text of JSON values and of protobuf messages, which third-party and generated
  code writes (\<open>json.hpp\<close>, \<open>jsoncpp.cpp\<close>, \<open>*.pb.cc\<close>); the drivers of PostgreSQL, Cassandra, RabbitMQ,
  libcurl and boost, whose answers are parameters; log files and console output; functions that
  nothing calls (\<open>cassandraCommonArchive\<close> of the services other than the archiver, \<open>addDataFile2DB\<close>, \<open>readHdr\<close>, \<open>readBody\<close> and the
  class \<open>dataFileInstance\<close>); a service that is started twice, or whose thread cannot be created;
  the sockets of server and client; and the copies in one gateway of files that are modelled
  from the other, which differ in comments only. Memory orderings weaker than interleaving are outside the model: each step of a thread is atomic
  up to the mutexes of the code.
\<close>

end
